(* ===== verification/Prelude.thy ===== *)
theory Prelude
  imports Main "HOL-Library.Word"
begin

text \<open>
  Shared vocabulary of the DRUPE kernel model: machine integer types, the faults a C statement
  can run into, the result type that carries them, bounds-checked array accesses, counted loops
  over a faulting body, and the word lemmas every component uses.

  The kernel is compiled for i386 (\<open>-m32\<close>): \<open>size_t\<close>, \<open>uintptr_t\<close> and pointers are 32-bit
  words, \<open>int\<close> is a 32-bit two's complement integer, \<open>char\<close> is one byte.
\<close>

unbundle bit_operations_syntax

section \<open>Machine types\<close>

type_synonym u8 = "8 word"
type_synonym u16 = "16 word"
type_synonym u32 = "32 word"
type_synonym u64 = "64 word"

section \<open>Faults and results\<close>

text \<open>
  What a C statement of the kernel can do besides computing a value: index an array outside its
  bounds, divide by zero (the CPU raises \<open>#DE\<close>), shift by at least the width (undefined in C),
  dereference a null pointer, read a variadic argument of the wrong type or past the last one, or
  never leave a loop. The first fault ends the run: nothing after it is modelled.
\<close>

datatype fault =
    Index_Out_Of_Bounds
  | Divide_By_Zero
  | Shift_Too_Large
  | Null_Pointer
  | Bad_Varargs
  | Hang

type_synonym 'a res = "fault + 'a"

definition rbind :: "'a res \<Rightarrow> ('a \<Rightarrow> 'b res) \<Rightarrow> 'b res" where
  "rbind m f = (case m of Inl e \<Rightarrow> Inl e | Inr x \<Rightarrow> f x)"

named_theorems res_iff "when a composed computation returns a value"

lemma rbind_Inl [simp]: "rbind (Inl e) f = Inl e"
  by (simp add: rbind_def)

lemma rbind_Inr [simp]: "rbind (Inr x) f = f x"
  by (simp add: rbind_def)

lemma rbind_eq_Inr [res_iff]: "rbind m f = Inr y \<longleftrightarrow> (\<exists>x. m = Inr x \<and> f x = Inr y)"
  by (cases m) simp_all

lemma rbind_eq_Inl: "rbind m f = Inl e \<longleftrightarrow> m = Inl e \<or> (\<exists>x. m = Inr x \<and> f x = Inl e)"
  by (cases m) simp_all

lemma rbind_assoc: "rbind (rbind m f) g = rbind m (\<lambda>x. rbind (f x) g)"
  by (cases m) simp_all

lemma rbind_cong [fundef_cong]:
  "m = n \<Longrightarrow> (\<And>x. n = Inr x \<Longrightarrow> f x = g x) \<Longrightarrow> rbind m f = rbind n g"
  by (cases n) simp_all

section \<open>Counted loops over a faulting body\<close>

text \<open>
  \<open>rfold f s xs\<close> runs the loop body \<open>f\<close> once per element of \<open>xs\<close>, in order, stopping at the
  first fault: \<open>for (i = 0; i < n; i++) body\<close> is \<open>rfold body s [0..<n]\<close>.
\<close>

fun rfold :: "('s \<Rightarrow> 'a \<Rightarrow> 's res) \<Rightarrow> 's \<Rightarrow> 'a list \<Rightarrow> 's res" where
  "rfold f s [] = Inr s"
| "rfold f s (x # xs) = rbind (f s x) (\<lambda>t. rfold f t xs)"

lemma rfold_append:
  "rfold f s (xs @ ys) = rbind (rfold f s xs) (\<lambda>t. rfold f t ys)"
  by (induction xs arbitrary: s) (simp_all add: rbind_assoc)

lemma rfold_snoc: "rfold f s (xs @ [x]) = rbind (rfold f s xs) (\<lambda>t. f t x)"
proof -
  have "rfold f t [x] = f t x" for t
    by (cases "f t x") simp_all
  then show ?thesis by (simp add: rfold_append)
qed

lemma rfold_total:
  assumes "\<And>s x. P s \<Longrightarrow> x \<in> set xs \<Longrightarrow> \<exists>t. f s x = Inr t \<and> P t" and "P s"
  shows "\<exists>t. rfold f s xs = Inr t \<and> P t"
  using assms
proof (induction xs arbitrary: s)
  case Nil
  then show ?case by simp
next
  case (Cons x xs)
  then obtain u where u: "f s x = Inr u" "P u" by fastforce
  have "\<exists>t. rfold f u xs = Inr t \<and> P t"
    by (rule Cons.IH) (use Cons.prems u in auto)
  with u show ?case by simp
qed

lemma rfold_pure:
  assumes "\<And>s x. P s \<Longrightarrow> x \<in> set xs \<Longrightarrow> f s x = Inr (g x s) \<and> P (g x s)" and "P s"
  shows "rfold f s xs = Inr (fold g xs s) \<and> P (fold g xs s)"
  using assms by (induction xs arbitrary: s) simp_all

lemma rfold_nat_induct:
  assumes "I 0 s" and "\<And>i t. i < n \<Longrightarrow> I i t \<Longrightarrow> \<exists>u. f t i = Inr u \<and> I (Suc i) u"
  shows "\<exists>t. rfold f s [0..<n] = Inr t \<and> I n t"
  using assms(2)
proof (induction n)
  case 0
  with assms(1) show ?case by simp
next
  case (Suc n)
  then obtain t where "rfold f s [0..<n] = Inr t" "I n t" by fastforce
  with Suc.prems[of n t] show ?case by (auto simp: rfold_append res_iff)
qed

lemma rfold_map: "rfold f s (map g xs) = rfold (\<lambda>s x. f s (g x)) s xs"
  by (induction xs arbitrary: s) simp_all

section \<open>Arrays\<close>

definition arr_get :: "'a list \<Rightarrow> nat \<Rightarrow> 'a res" where
  "arr_get xs i = (if i < length xs then Inr (xs ! i) else Inl Index_Out_Of_Bounds)"

definition arr_set :: "'a list \<Rightarrow> nat \<Rightarrow> 'a \<Rightarrow> 'a list res" where
  "arr_set xs i v = (if i < length xs then Inr (xs[i := v]) else Inl Index_Out_Of_Bounds)"

lemma arr_get_in [simp]: "i < length xs \<Longrightarrow> arr_get xs i = Inr (xs ! i)"
  by (simp add: arr_get_def)

lemma arr_get_out [simp]: "length xs \<le> i \<Longrightarrow> arr_get xs i = Inl Index_Out_Of_Bounds"
  by (simp add: arr_get_def)

lemma arr_set_in [simp]: "i < length xs \<Longrightarrow> arr_set xs i v = Inr (xs[i := v])"
  by (simp add: arr_set_def)

lemma arr_set_out [simp]: "length xs \<le> i \<Longrightarrow> arr_set xs i v = Inl Index_Out_Of_Bounds"
  by (simp add: arr_set_def)

lemma arr_get_eq_Inr [res_iff]: "arr_get xs i = Inr v \<longleftrightarrow> i < length xs \<and> v = xs ! i"
  by (auto simp: arr_get_def)

lemma arr_set_eq_Inr [res_iff]: "arr_set xs i v = Inr ys \<longleftrightarrow> i < length xs \<and> ys = xs[i := v]"
  by (auto simp: arr_set_def)

lemma rfold_fill:
  "n \<le> length xs \<Longrightarrow> rfold (\<lambda>mp i. arr_set mp i v) xs [0..<n] = Inr (replicate n v @ drop n xs)"
proof (induction n)
  case 0
  then show ?case by simp
next
  case (Suc n)
  then have "drop n xs = xs ! n # drop (Suc n) xs" by (simp add: Cons_nth_drop_Suc)
  with Suc show ?case
    by (simp add: rfold_append list_update_append replicate_append_same flip: replicate_Suc)
qed

section \<open>Unsigned arithmetic\<close>

text \<open>
  Division and remainder of unsigned values. The operator traps on a zero divisor.
\<close>

definition udiv :: "u32 \<Rightarrow> u32 \<Rightarrow> u32 res" where
  "udiv a b = (if b = 0 then Inl Divide_By_Zero else Inr (a div b))"

definition umod :: "u32 \<Rightarrow> u32 \<Rightarrow> u32 res" where
  "umod a b = (if b = 0 then Inl Divide_By_Zero else Inr (a mod b))"

lemma udiv_nonzero [simp]: "b \<noteq> 0 \<Longrightarrow> udiv a b = Inr (a div b)"
  by (simp add: udiv_def)

lemma udiv_zero [simp]: "udiv a 0 = Inl Divide_By_Zero"
  by (simp add: udiv_def)

lemma umod_nonzero [simp]: "b \<noteq> 0 \<Longrightarrow> umod a b = Inr (a mod b)"
  by (simp add: umod_def)

lemma umod_zero [simp]: "umod a 0 = Inl Divide_By_Zero"
  by (simp add: umod_def)

lemma udiv_eq_Inr [res_iff]: "udiv a b = Inr q \<longleftrightarrow> b \<noteq> 0 \<and> q = a div b"
  by (auto simp: udiv_def)

lemma umod_eq_Inr [res_iff]: "umod a b = Inr q \<longleftrightarrow> b \<noteq> 0 \<and> q = a mod b"
  by (auto simp: umod_def)

text \<open>
  Reading a 32-bit result without wrap-around. The premise is the absence of overflow, on the
  naturals.
\<close>

named_theorems unat_exact "unsigned arithmetic that does not wrap"

lemma unat_lt_32 [simp]: "unat (a :: u32) < 4294967296"
  using unsigned_less[of a, where ?'a = nat] by simp

lemma unat_add_exact [unat_exact]:
  "unat (a :: u32) + unat b < 4294967296 \<Longrightarrow> unat (a + b) = unat a + unat b"
  by (simp add: unat_word_ariths)

lemma unat_mult_exact [unat_exact]:
  "unat (a :: u32) * unat b < 4294967296 \<Longrightarrow> unat (a * b) = unat a * unat b"
  by (simp add: unat_word_ariths)

lemma unat_sub_exact [unat_exact]:
  "unat (b :: u32) \<le> unat a \<Longrightarrow> unat (a - b) = unat a - unat b"
  by (simp add: unat_sub word_le_nat_alt)

lemma unat_of_nat_exact [unat_exact]:
  "n < 4294967296 \<Longrightarrow> unat (of_nat n :: u32) = n"
  by (simp add: unat_of_nat)

lemma unat_eq_iff32: "(a :: u32) = b \<longleftrightarrow> unat a = unat b"
  by (rule word_unat_eq_iff)

lemma unat_uminus32: "v \<noteq> 0 \<Longrightarrow> unat (- v :: u32) = 4294967296 - unat v"
proof -
  assume "v \<noteq> 0"
  then have "- uint v mod 4294967296 = 4294967296 - uint v"
    using uint_lt2p[of v] by (simp add: zmod_zminus1_eq_if unsigned_eq_0_iff)
  then have "int (unat (- v)) = 4294967296 - int (unat v)" by (simp add: uint_word_ariths)
  then show ?thesis by linarith
qed

text \<open>The C conversion from \<open>unsigned\<close> to \<open>int\<close> reads the same bits as two's complement.\<close>

definition to_int :: "u32 \<Rightarrow> int" where
  "to_int w = (if unat w < 2147483648 then int (unat w) else int (unat w) - 4294967296)"

lemma to_int_small: "unat w < 2147483648 \<Longrightarrow> to_int w = int (unat w)"
  by (simp add: to_int_def)

lemma to_int_large: "2147483648 \<le> unat w \<Longrightarrow> to_int w < 0"
  using uint_lt2p[of w] by (simp add: to_int_def)

section \<open>Bytes and characters\<close>

text \<open>Text is kept as \<open>char\<close>; memory holds \<open>u8\<close>. The two are the same eight bits.\<close>

definition to_char :: "u8 \<Rightarrow> char" where
  "to_char b = char_of (unat b)"

definition to_byte :: "char \<Rightarrow> u8" where
  "to_byte c = of_nat (of_char c)"

abbreviation NUL :: char where "NUL \<equiv> CHR 0x00"
abbreviation LF :: char where "LF \<equiv> CHR 0x0A"
abbreviation CR :: char where "CR \<equiv> CHR 0x0D"

lemma to_char_to_byte [simp]: "to_char (to_byte c) = c"
  by (simp add: to_char_def to_byte_def unat_of_nat)

lemma unat_lt_8 [simp]: "unat (b :: u8) < 256"
  using unsigned_less[of b, where ?'a = nat] by simp

lemma to_byte_to_char [simp]: "to_byte (to_char b) = b"
  by (simp add: to_char_def to_byte_def)

end
