(* ===== verification/Stream_Buffer.thy ===== *)
theory Stream_Buffer
  imports Prelude
begin

text \<open>
  The byte streams of the shell (source/system/shell/stream.c, stream.h): a ring buffer of 1024
  characters with a write index, a read index and a count. The specification is the list of bytes
  in the ring, oldest first.

  \<open>stream_read\<close> stops early when the character at the \<^emph>\<open>number of bytes read so far\<close> in the array is
  a newline, not when the byte it is about to deliver is one. The model keeps that test as it is;
  the theorems show what it means: bytes are never lost, duplicated or reordered, but a newline
  that is stored in slot 0 blocks the stream for good.
\<close>

section \<open>State\<close>

abbreviation (input) STREAM_BUF_SIZE :: nat where "STREAM_BUF_SIZE \<equiv> 1024"

record stream =
  st_data :: "char list"
  st_head :: int
  st_tail :: int
  st_count :: int

text \<open>Array accesses with an \<open>int\<close> index.\<close>

definition arr_get_int :: "'a list \<Rightarrow> int \<Rightarrow> 'a res" where
  "arr_get_int xs i = (if i < 0 then Inl Index_Out_Of_Bounds else arr_get xs (nat i))"

definition arr_set_int :: "'a list \<Rightarrow> int \<Rightarrow> 'a \<Rightarrow> 'a list res" where
  "arr_set_int xs i v = (if i < 0 then Inl Index_Out_Of_Bounds else arr_set xs (nat i) v)"

section \<open>Operations\<close>

text \<open>
  The body of the write loop stores one byte at \<open>head\<close>. A successful access means \<open>head\<close> is not
  negative, where C's \<open>%\<close> is \<open>mod\<close>.
\<close>

definition stream_put :: "stream \<Rightarrow> char \<Rightarrow> stream res" where
  "stream_put s c = rbind (arr_set_int (st_data s) (st_head s) c) (\<lambda>d.
     Inr (s\<lparr>st_data := d, st_head := (st_head s + 1) mod int STREAM_BUF_SIZE,
            st_count := st_count s + 1\<rparr>))"

text \<open>\<open>buf\<close> gives the caller's bytes by index; the result is the new stream and the number of bytes
  written.\<close>

definition stream_write :: "stream \<Rightarrow> (nat \<Rightarrow> char) \<Rightarrow> int \<Rightarrow> (stream \<times> int) res" where
  "stream_write s buf len =
     (let len = (if len > int STREAM_BUF_SIZE - st_count s then int STREAM_BUF_SIZE - st_count s
                 else len)
      in rbind (rfold (\<lambda>s written. stream_put s (buf written)) s [0..<nat len]) (\<lambda>t.
           Inr (t, int (nat len))))"

text \<open>
  The read loop: \<open>read\<close> bytes have been delivered and at most \<open>k\<close> more are wanted. The result is
  the new stream and the bytes stored to the caller's buffer, in order; their number is the C
  function's return value.
\<close>

fun stream_read_loop :: "stream \<Rightarrow> nat \<Rightarrow> nat \<Rightarrow> (stream \<times> char list) res" where
  "stream_read_loop s read 0 = Inr (s, [])"
| "stream_read_loop s read (Suc k) =
     (if st_count s > 0 then
        rbind (arr_get (st_data s) read) (\<lambda>c.
          if c = LF then Inr (s, [])
          else rbind (arr_get_int (st_data s) (st_tail s)) (\<lambda>b.
            rbind (stream_read_loop
                (s\<lparr>st_tail := (st_tail s + 1) mod int STREAM_BUF_SIZE, st_count := st_count s - 1\<rparr>)
                (Suc read) k)
              (\<lambda>(t, bs). Inr (t, b # bs))))
      else Inr (s, []))"

definition stream_read :: "stream \<Rightarrow> int \<Rightarrow> (stream \<times> char list) res" where
  "stream_read s len = stream_read_loop s 0 (nat len)"

section \<open>Specification\<close>

definition stream_ok :: "stream \<Rightarrow> bool" where
  "stream_ok s \<longleftrightarrow> length (st_data s) = STREAM_BUF_SIZE
     \<and> 0 \<le> st_tail s \<and> st_tail s < int STREAM_BUF_SIZE
     \<and> 0 \<le> st_count s \<and> st_count s \<le> int STREAM_BUF_SIZE
     \<and> st_head s = (st_tail s + st_count s) mod int STREAM_BUF_SIZE"

definition stream_contents :: "stream \<Rightarrow> char list" where
  "stream_contents s =
     map (\<lambda>i. st_data s ! ((nat (st_tail s) + i) mod STREAM_BUF_SIZE)) [0..<nat (st_count s)]"

text \<open>How many bytes the misplaced newline test lets through: the slots before the first newline
  of the array.\<close>

definition lf_limit :: "stream \<Rightarrow> nat" where
  "lf_limit s = length (takeWhile (\<lambda>c. c \<noteq> LF) (st_data s))"

section \<open>Lemmas\<close>

lemma length_contents [simp]: "length (stream_contents s) = nat (st_count s)"
  by (simp add: stream_contents_def)

lemma stream_ok_length: "stream_ok s \<Longrightarrow> length (st_data s) = 1024"
  by (simp add: stream_ok_def)

lemma stream_ok_head: "stream_ok s \<Longrightarrow> 0 \<le> st_head s \<and> st_head s < 1024"
  by (simp add: stream_ok_def)

lemma ring_slots_distinct:
  assumes "i < n" "n < (1024 :: nat)"
  shows "(k + i) mod 1024 \<noteq> (k + n) mod 1024"
proof
  assume "(k + i) mod 1024 = (k + n) mod 1024"
  then have "1024 dvd (k + n) - (k + i)"
    using assms(1) by (metis add_left_mono less_imp_le mod_eq_dvd_iff_nat)
  then show False using assms by (auto dest: dvd_imp_le)
qed

lemma stream_put_ok:
  assumes "stream_ok s" "st_count s < 1024"
  shows "\<exists>t. stream_put s c = Inr t \<and> stream_ok t \<and> st_count t = st_count s + 1
    \<and> st_tail t = st_tail s \<and> st_data t = (st_data s)[nat (st_head s) := c]
    \<and> stream_contents t = stream_contents s @ [c]"
proof -
  define h n k where "h = nat (st_head s)" "n = nat (st_count s)" "k = nat (st_tail s)"
  have hd: "h < 1024" "h = (k + n) mod 1024" "n < 1024" "k < 1024"
    using assms by (auto simp: stream_ok_def h_n_k_def nat_add_distrib nat_mod_distrib)
  let ?t = "s\<lparr>st_data := (st_data s)[h := c], st_head := (st_head s + 1) mod 1024,
    st_count := st_count s + 1\<rparr>"
  have put: "stream_put s c = Inr ?t"
    using stream_ok_head[OF assms(1)] stream_ok_length[OF assms(1)] hd(1)
    by (simp add: stream_put_def arr_set_int_def h_n_k_def)
  have "h \<noteq> (k + i) mod 1024" if "i < n" for i
    using ring_slots_distinct[OF that hd(3), of k] hd(2) by metis
  then have "map (\<lambda>i. (st_data s)[h := c] ! ((k + i) mod 1024)) [0..<n]
      = map (\<lambda>i. st_data s ! ((k + i) mod 1024)) [0..<n]"
    by (intro map_cong) (simp_all add: nth_list_update_neq)
  moreover have "nat (st_count s + 1) = Suc n"
    using assms(1) by (simp add: h_n_k_def stream_ok_def nat_add_distrib)
  ultimately have "stream_contents ?t = stream_contents s @ [c]"
    using hd stream_ok_length[OF assms(1)] by (simp add: stream_contents_def flip: h_n_k_def)
  moreover have "stream_ok ?t"
    using assms by (simp add: stream_ok_def mod_add_left_eq add.assoc)
  ultimately show ?thesis using put by (auto simp: h_n_k_def)
qed

lemma stream_write_ok:
  fixes len :: int
  assumes "stream_ok s"
  defines "n \<equiv> nat (min len (1024 - st_count s))"
  shows "\<exists>t. stream_write s buf len = Inr (t, int n) \<and> stream_ok t
    \<and> st_count t = st_count s + int n \<and> st_tail t = st_tail s
    \<and> stream_contents t = stream_contents s @ map buf [0..<n]"
proof -
  let ?I = "\<lambda>i t. stream_ok t \<and> st_count t = st_count s + int i \<and> st_tail t = st_tail s
    \<and> stream_contents t = stream_contents s @ map buf [0..<i]"
  have "\<exists>t. rfold (\<lambda>s w. stream_put s (buf w)) s [0..<n] = Inr t \<and> ?I n t"
  proof (rule rfold_nat_induct)
    show "?I 0 s" using assms(1) by simp
  next
    fix i t assume i: "i < n" and t: "?I i t"
    have "st_count t < 1024" using i t unfolding n_def by linarith
    then show "\<exists>u. stream_put t (buf i) = Inr u \<and> ?I (Suc i) u"
      using stream_put_ok[of t "buf i"] t by auto
  qed
  then show ?thesis by (auto simp: stream_write_def n_def min_def Let_def)
qed

definition stream_pop :: "stream \<Rightarrow> nat \<Rightarrow> stream" where
  "stream_pop s m = s\<lparr>st_tail := (st_tail s + int m) mod 1024, st_count := st_count s - int m\<rparr>"

lemma stream_pop_0: "stream_ok s \<Longrightarrow> stream_pop s 0 = s"
  by (simp add: stream_pop_def stream_ok_def)

lemma stream_pop_pop: "stream_pop (stream_pop s a) b = stream_pop s (a + b)"
  by (simp add: stream_pop_def mod_add_left_eq add.assoc)

lemma stream_pop_sel [simp]:
  "st_data (stream_pop s m) = st_data s" "st_count (stream_pop s m) = st_count s - int m"
  "lf_limit (stream_pop s m) = lf_limit s"
  by (simp_all add: stream_pop_def lf_limit_def)

lemma stream_pop_ok:
  assumes "stream_ok s" "int m \<le> st_count s"
  shows "stream_ok (stream_pop s m)"
    "stream_contents (stream_pop s m) = drop m (stream_contents s)"
proof -
  show "stream_ok (stream_pop s m)"
    using assms by (auto simp: stream_ok_def stream_pop_def mod_add_left_eq)
  have tl: "nat ((st_tail s + int m) mod 1024) = (nat (st_tail s) + m) mod 1024"
    using assms(1) by (simp add: stream_ok_def nat_mod_distrib nat_add_distrib)
  have ct: "nat (st_count s - int m) = nat (st_count s) - m" by simp
  show "stream_contents (stream_pop s m) = drop m (stream_contents s)"
  proof (rule nth_equalityI)
    fix i assume "i < length (stream_contents (stream_pop s m))"
    then have "m + i < nat (st_count s)" "i < nat (st_count s) - m" by simp_all
    then show "stream_contents (stream_pop s m) ! i = drop m (stream_contents s) ! i"
      by (simp add: stream_contents_def stream_pop_def tl ct mod_add_left_eq add.assoc)
  qed simp
qed

lemma at_lf_limit:
  assumes "r \<le> lf_limit s" "r < length (st_data s)"
  shows "st_data s ! r = LF \<longleftrightarrow> r = lf_limit s"
proof (cases "r = lf_limit s")
  case True
  then show ?thesis
    using nth_length_takeWhile[of "\<lambda>c. c \<noteq> LF" "st_data s"] assms(2) by (simp add: lf_limit_def)
next
  case False
  then have lt: "r < length (takeWhile (\<lambda>c. c \<noteq> LF) (st_data s))"
    using assms(1) by (simp add: lf_limit_def)
  from nth_mem[OF lt] have "takeWhile (\<lambda>c. c \<noteq> LF) (st_data s) ! r \<noteq> LF"
    by (auto dest: set_takeWhileD)
  with lt False show ?thesis by (simp add: takeWhile_nth)
qed

lemma stream_read_loop_ok:
  fixes k :: nat
  assumes "stream_ok s" "r \<le> lf_limit s" "int r + st_count s \<le> 1024"
  defines "m \<equiv> min k (min (nat (st_count s)) (lf_limit s - r))"
  shows "stream_read_loop s r k = Inr (stream_pop s m, take m (stream_contents s))"
  using assms(1-3) unfolding m_def
proof (induction k arbitrary: s r)
  case 0
  then show ?case by (simp add: stream_pop_0)
next
  case (Suc k)
  show ?case
  proof (cases "st_count s > 0")
    case False
    with Suc.prems(1) show ?thesis by (simp add: stream_pop_0)
  next
    case True
    then have r: "r < length (st_data s)" "0 \<le> st_tail s" "nat (st_tail s) < length (st_data s)"
      using Suc.prems by (auto simp: stream_ok_def)
    show ?thesis
    proof (cases "r = lf_limit s")
      case lf: True
      then have "st_data s ! r = LF" using at_lf_limit[OF Suc.prems(2) r(1)] by simp
      with True r lf Suc.prems(1) show ?thesis by (simp add: stream_pop_0)
    next
      case False
      then have ne: "st_data s ! r \<noteq> LF" using at_lf_limit[OF Suc.prems(2) r(1)] by simp
      let ?u = "stream_pop s 1" and ?m = "min k (min (nat (st_count s) - 1) (lf_limit s - Suc r))"
      have u: "stream_ok ?u" "stream_contents ?u = drop 1 (stream_contents s)"
        using stream_pop_ok[of s 1] Suc.prems(1) True by simp_all
      have "stream_contents s ! 0 = st_data s ! nat (st_tail s)"
        using True r(3) Suc.prems(1) by (simp add: stream_contents_def stream_ok_def)
      then have cons: "stream_contents s = st_data s ! nat (st_tail s) # stream_contents ?u"
        using True u(2) Cons_nth_drop_Suc[of 0 "stream_contents s"] by simp
      define n where "n = ?m"
      have "Suc r \<le> lf_limit ?u" "int (Suc r) + st_count ?u \<le> 1024"
        using False Suc.prems True by simp_all
      moreover have "nat (st_count s - 1) = nat (st_count s) - 1" by simp
      ultimately have IH: "stream_read_loop ?u (Suc r) k
          = Inr (stream_pop ?u n, take n (stream_contents ?u))"
        using Suc.IH[OF u(1), of "Suc r"] by (simp add: n_def)
      have m: "min (Suc k) (min (nat (st_count s)) (lf_limit s - r)) = Suc n"
        using True False Suc.prems(2) by (simp add: n_def min_def) linarith
      have "s\<lparr>st_tail := (st_tail s + 1) mod 1024, st_count := st_count s - 1\<rparr> = ?u"
        by (simp add: stream_pop_def)
      with True r ne have "stream_read_loop s r (Suc k) = rbind (stream_read_loop ?u (Suc r) k)
          (\<lambda>(t, bs). Inr (t, st_data s ! nat (st_tail s) # bs))"
        by (simp add: arr_get_int_def)
      then show ?thesis unfolding m IH by (simp add: stream_pop_pop cons)
    qed
  qed
qed

lemma stream_read_ok:
  fixes len :: int
  assumes "stream_ok s"
  defines "m \<equiv> min (nat len) (min (nat (st_count s)) (lf_limit s))"
  shows "stream_read s len = Inr (stream_pop s m, take m (stream_contents s))"
    "stream_ok (stream_pop s m)" "stream_contents (stream_pop s m) = drop m (stream_contents s)"
proof -
  have c: "0 \<le> st_count s" "st_count s \<le> 1024" using assms(1) by (simp_all add: stream_ok_def)
  then show "stream_read s len = Inr (stream_pop s m, take m (stream_contents s))"
    using stream_read_loop_ok[OF assms(1), of 0 "nat len"] by (simp add: stream_read_def m_def)
  have "int m \<le> st_count s" using c by (simp add: m_def min_def) linarith
  from stream_pop_ok[OF assms(1) this] show
    "stream_ok (stream_pop s m)" "stream_contents (stream_pop s m) = drop m (stream_contents s)"
    by simp_all
qed

section \<open>The interface: a byte queue\<close>

text \<open>
  Producers and consumers of a stream (interrupt handlers, system calls, the console) rely on this
  much: an accepted byte goes to the end of the queue, a delivered byte comes off the front.
\<close>

datatype queue_op = Write "char list" | Read nat

fun queue_run :: "('s \<Rightarrow> char list \<Rightarrow> ('s \<times> nat) res) \<Rightarrow> ('s \<Rightarrow> nat \<Rightarrow> ('s \<times> char list) res) \<Rightarrow>
    's \<Rightarrow> queue_op list \<Rightarrow> ('s \<times> char list \<times> char list) res" where
  "queue_run wr rd s [] = Inr (s, [], [])"
| "queue_run wr rd s (Write xs # ops) = rbind (wr s xs) (\<lambda>(t, n).
     rbind (queue_run wr rd t ops) (\<lambda>(u, acc, del). Inr (u, take n xs @ acc, del)))"
| "queue_run wr rd s (Read k # ops) = rbind (rd s k) (\<lambda>(t, bs).
     rbind (queue_run wr rd t ops) (\<lambda>(u, acc, del). Inr (u, acc, bs @ del)))"

locale byte_queue =
  fixes ok :: "'s \<Rightarrow> bool"
    and contents :: "'s \<Rightarrow> char list"
    and wr :: "'s \<Rightarrow> char list \<Rightarrow> ('s \<times> nat) res"
    and rd :: "'s \<Rightarrow> nat \<Rightarrow> ('s \<times> char list) res"
  assumes wr_law: "ok s \<Longrightarrow> \<exists>t n. wr s xs = Inr (t, n) \<and> ok t \<and> n \<le> length xs
      \<and> contents t = contents s @ take n xs"
    and rd_law: "ok s \<Longrightarrow> \<exists>t bs. rd s k = Inr (t, bs) \<and> ok t \<and> length bs \<le> k
      \<and> contents s = bs @ contents t"
begin

lemma fifo:
  assumes "ok s"
  shows "\<exists>t acc del. queue_run wr rd s ops = Inr (t, acc, del) \<and> ok t
    \<and> contents s @ acc = del @ contents t"
  using assms
proof (induction ops arbitrary: s)
  case Nil
  then show ?case by simp
next
  case (Cons op ops)
  show ?case
  proof (cases op)
    case (Write xs)
    from wr_law[OF Cons.prems] obtain t n where t: "wr s xs = Inr (t, n)" "ok t"
      "contents t = contents s @ take n xs" by blast
    from Cons.IH[OF t(2)] obtain u acc del where "queue_run wr rd t ops = Inr (u, acc, del)"
      "ok u" "contents t @ acc = del @ contents u" by blast
    with t Write show ?thesis by simp
  next
    case (Read k)
    from rd_law[OF Cons.prems] obtain t bs where t: "rd s k = Inr (t, bs)" "ok t"
      "contents s = bs @ contents t" by blast
    from Cons.IH[OF t(2)] obtain u acc del where "queue_run wr rd t ops = Inr (u, acc, del)"
      "ok u" "contents t @ acc = del @ contents u" by blast
    with t Read show ?thesis by simp
  qed
qed

end

definition stream_wr :: "stream \<Rightarrow> char list \<Rightarrow> (stream \<times> nat) res" where
  "stream_wr s xs = rbind (stream_write s (nth xs) (int (length xs))) (\<lambda>(t, n). Inr (t, nat n))"

definition stream_rd :: "stream \<Rightarrow> nat \<Rightarrow> (stream \<times> char list) res" where
  "stream_rd s k = stream_read s (int k)"

lemma map_nth_prefix: "n \<le> length xs \<Longrightarrow> map (nth xs) [0..<n] = take n xs"
  by (intro nth_equalityI) simp_all

lemma stream_wr_ok:
  fixes xs :: "char list"
  assumes "stream_ok s"
  defines "n \<equiv> min (length xs) (1024 - nat (st_count s))"
  shows "\<exists>t. stream_wr s xs = Inr (t, n) \<and> stream_ok t \<and> st_tail t = st_tail s
    \<and> stream_contents t = stream_contents s @ take n xs"
proof -
  have n: "nat (min (int (length xs)) (1024 - st_count s)) = n"
    using assms(1) by (simp add: n_def stream_ok_def min_def) linarith
  then show ?thesis
    using stream_write_ok[OF assms(1), of "nth xs" "int (length xs)"] map_nth_prefix[of n xs]
    by (auto simp: stream_wr_def n_def)
qed

lemma stream_rd_ok:
  fixes k :: nat
  assumes "stream_ok s"
  defines "m \<equiv> min k (min (nat (st_count s)) (lf_limit s))"
  shows "stream_rd s k = Inr (stream_pop s m, take m (stream_contents s))
    \<and> stream_ok (stream_pop s m) \<and> stream_contents (stream_pop s m) = drop m (stream_contents s)"
  using stream_read_ok[OF assms(1), of "int k"] by (simp add: stream_rd_def m_def)

interpretation ring: byte_queue stream_ok stream_contents stream_wr stream_rd
proof unfold_locales
  fix s xs assume "stream_ok s"
  from stream_wr_ok[OF this, of xs] show "\<exists>t n. stream_wr s xs = Inr (t, n) \<and> stream_ok t
    \<and> n \<le> length xs \<and> stream_contents t = stream_contents s @ take n xs"
    by (metis min.cobounded1)
next
  fix s k assume "stream_ok s"
  from stream_rd_ok[OF this, of k] show "\<exists>t bs. stream_rd s k = Inr (t, bs) \<and> stream_ok t
    \<and> length bs \<le> k \<and> stream_contents s = bs @ stream_contents t"
    by auto
qed

section \<open>Lemmas: the blocked stream\<close>

text \<open>A newline in slot 0 that has not been delivered.\<close>

definition stream_wedged :: "stream \<Rightarrow> bool" where
  "stream_wedged s \<longleftrightarrow> stream_ok s \<and> st_data s ! 0 = LF
     \<and> (\<exists>i < nat (st_count s). (nat (st_tail s) + i) mod 1024 = 0)"

lemma wedged_limit:
  assumes "stream_wedged s"
  shows "lf_limit s = 0"
proof -
  have "st_data s \<noteq> []" "st_data s ! 0 = LF"
    using assms by (auto simp: stream_wedged_def stream_ok_def)
  then show ?thesis by (cases "st_data s") (auto simp: lf_limit_def)
qed

lemma wedged_read: "stream_wedged s \<Longrightarrow> stream_read s len = Inr (s, [])"
  using stream_read_ok(1)[of s len] by (simp add: wedged_limit stream_pop_0 stream_wedged_def)

lemma wedged_put:
  assumes "stream_wedged s" "st_count s < 1024"
  shows "\<exists>t. stream_put s c = Inr t \<and> stream_wedged t \<and> st_count t = st_count s + 1"
proof -
  have ok: "stream_ok s" using assms(1) by (simp add: stream_wedged_def)
  obtain i where i: "i < nat (st_count s)" "(nat (st_tail s) + i) mod 1024 = 0"
    using assms(1) by (auto simp: stream_wedged_def)
  have "nat (st_count s) < 1024" using assms(2) by simp
  from ring_slots_distinct[OF i(1) this, of "nat (st_tail s)"] i(2)
  have "(nat (st_tail s) + nat (st_count s)) mod 1024 \<noteq> 0" by metis
  then have "nat (st_head s) \<noteq> 0"
    using ok by (simp add: stream_ok_def nat_mod_distrib nat_add_distrib)
  moreover obtain t where t: "stream_put s c = Inr t" "stream_ok t" "st_count t = st_count s + 1"
    "st_tail t = st_tail s" "st_data t = (st_data s)[nat (st_head s) := c]"
    using stream_put_ok[OF ok assms(2)] by blast
  ultimately have "st_data t ! 0 = LF" using assms(1) by (simp add: stream_wedged_def)
  moreover have "i < nat (st_count t)" using i(1) t(3) by simp
  ultimately show ?thesis using t i(2) by (auto simp: stream_wedged_def)
qed

lemma wedged_write:
  fixes len :: int
  assumes "stream_wedged s"
  shows "\<exists>t n. stream_write s buf len = Inr (t, n) \<and> stream_wedged t"
proof -
  define n where "n = nat (min len (1024 - st_count s))"
  let ?I = "\<lambda>i t. stream_wedged t \<and> st_count t = st_count s + int i"
  have "\<exists>t. rfold (\<lambda>s w. stream_put s (buf w)) s [0..<n] = Inr t \<and> ?I n t"
  proof (rule rfold_nat_induct)
    show "?I 0 s" using assms by simp
  next
    fix i t assume i: "i < n" and t: "?I i t"
    have "st_count t < 1024" using i t unfolding n_def by linarith
    then show "\<exists>u. stream_put t (buf i) = Inr u \<and> ?I (Suc i) u"
      using wedged_put[of t "buf i"] t by auto
  qed
  then show ?thesis by (auto simp: stream_write_def n_def min_def Let_def)
qed

lemma wedged_run:
  "stream_wedged s \<Longrightarrow> \<exists>t acc. queue_run stream_wr stream_rd s ops = Inr (t, acc, []) \<and> stream_wedged t"
proof (induction ops arbitrary: s)
  case Nil
  then show ?case by simp
next
  case (Cons op ops)
  show ?case
  proof (cases op)
    case (Write xs)
    from wedged_write[OF Cons.prems, of "nth xs" "int (length xs)"] obtain t n where
      t: "stream_wr s xs = Inr (t, nat n)" "stream_wedged t" by (auto simp: stream_wr_def)
    from Cons.IH[OF t(2)] t(1) Write show ?thesis by auto
  next
    case (Read k)
    with wedged_read[OF Cons.prems] Cons.IH[OF Cons.prems] show ?thesis
      by (auto simp: stream_rd_def)
  qed
qed

section \<open>Properties\<close>

text \<open>An empty stream over an array with the contents \<open>d\<close>.\<close>

definition stream_empty :: "char list \<Rightarrow> stream" where
  "stream_empty d = \<lparr>st_data = d, st_head = 0, st_tail = 0, st_count = 0\<rparr>"

lemma stream_empty_ok [simp]: "length d = 1024 \<Longrightarrow> stream_ok (stream_empty d)"
  by (simp add: stream_ok_def stream_empty_def)

lemma stream_empty_sel [simp]:
  "st_count (stream_empty d) = 0" "st_head (stream_empty d) = 0" "st_data (stream_empty d) = d"
  "stream_contents (stream_empty d) = []"
  by (simp_all add: stream_empty_def stream_contents_def)

text \<open>Writing appends. On a well-formed stream \<open>stream_write\<close> never indexes out of bounds,
  accepts as many bytes as were offered and fit (none when the length is negative), reports that
  number, and the stream's contents grow by exactly those bytes; well-formedness is kept.\<close>

theorem stream_write_appends:
  assumes "stream_ok s"
  shows "\<exists>t. stream_write s buf len = Inr (t, max 0 (min len (1024 - st_count s))) \<and> stream_ok t
    \<and> stream_contents t
        = stream_contents s @ map buf [0..<nat (min len (1024 - st_count s))]"
proof -
  have "int (nat x) = max 0 x" for x by simp
  then show ?thesis using stream_write_ok[OF assms, of buf len] by auto
qed

theorem stream_write_appends_witness:
  "\<exists>t. stream_write (stream_empty (replicate 1024 NUL)) (nth ''abc'') 2 = Inr (t, 2)
    \<and> stream_contents t = ''ab''"
proof -
  have ok: "stream_ok (stream_empty (replicate 1024 NUL))" by simp
  show ?thesis using stream_write_appends[OF ok, of "nth ''abc''" 2]
    by (auto simp: numeral_2_eq_2)
qed

text \<open>What reading delivers, exactly. On a well-formed stream \<open>stream_read\<close> never indexes out
  of bounds and removes a prefix of the contents; its length is the least of the bytes wanted, the
  bytes stored, and the number of array slots before the first newline of the array, wherever the
  unread bytes are.\<close>

theorem stream_read_exact:
  assumes "stream_ok s"
  shows "let m = min (nat len) (min (nat (st_count s))
      (length (takeWhile (\<lambda>c. c \<noteq> LF) (st_data s))))
    in \<exists>t. stream_read s len = Inr (t, take m (stream_contents s)) \<and> stream_ok t
      \<and> stream_contents t = drop m (stream_contents s) \<and> st_data t = st_data s"
  using stream_read_ok[OF assms, of len] by (auto simp: lf_limit_def Let_def)

text \<open>The unread bytes are \<open>a\<close> and a newline; 64 bytes are wanted and one is delivered.\<close>

theorem stream_read_exact_witness:
  "\<exists>t. stream_read \<lparr>st_data = CHR ''a'' # LF # replicate 1022 NUL, st_head = 2, st_tail = 0,
      st_count = 2\<rparr> 64 = Inr (t, ''a'') \<and> stream_contents t = [LF]"
proof -
  let ?s = "\<lparr>st_data = CHR ''a'' # LF # replicate 1022 NUL, st_head = 2, st_tail = 0, st_count = 2\<rparr>"
  have ok: "stream_ok ?s" by (simp add: stream_ok_def)
  have "stream_contents ?s = [CHR ''a'', LF]"
    by (simp add: stream_contents_def numeral_2_eq_2)
  then show ?thesis
    using stream_read_exact[OF ok, of 64] by auto
qed

text \<open>C17: streams are first-in first-out. For every sequence of writes and reads on a well-formed
  stream, nothing faults, and the old contents followed by all accepted bytes are the delivered
  bytes followed by the new contents: no byte is lost, duplicated or reordered.\<close>

theorem stream_fifo:
  assumes "stream_ok s"
  shows "\<exists>t acc del. queue_run stream_wr stream_rd s ops = Inr (t, acc, del) \<and> stream_ok t
    \<and> stream_contents s @ acc = del @ stream_contents t"
  by (rule ring.fifo[OF assms])

theorem stream_fifo_witness:
  "\<exists>t acc del. queue_run stream_wr stream_rd (stream_empty (replicate 1024 NUL))
      [Write ''ab'', Read 1, Write ''c'', Read 5] = Inr (t, acc, del)
    \<and> acc = del @ stream_contents t"
proof -
  have ok: "stream_ok (stream_empty (replicate 1024 NUL))" by simp
  show ?thesis
    using stream_fifo[OF ok, of "[Write ''ab'', Read 1, Write ''c'', Read 5]"] by auto
qed

text \<open>A newline can block a stream for good. When a newline is written to an empty stream
  whose write index is 0 (as after initialisation, and again after every 1024 bytes), no later
  sequence of writes and reads ever delivers another byte.\<close>

theorem newline_blocks_stream:
  assumes "stream_ok s" "st_count s = 0" "st_head s = 0"
  shows "\<exists>t. stream_write s (\<lambda>_. LF) 1 = Inr (t, 1)
    \<and> (\<forall>ops. \<exists>u acc. queue_run stream_wr stream_rd t ops = Inr (u, acc, []))"
proof -
  obtain t where t: "stream_put s LF = Inr t" "stream_ok t" "st_count t = st_count s + 1"
    "st_tail t = st_tail s" "st_data t = (st_data s)[nat (st_head s) := LF]"
    using stream_put_ok[OF assms(1), of LF] assms(2) by auto
  have "st_tail s mod 1024 = 0" "0 \<le> st_tail s" "st_tail s < 1024"
    using assms by (simp_all add: stream_ok_def)
  then have "st_tail s = 0" using mod_pos_pos_trivial[of "st_tail s" 1024] by metis
  then have "stream_wedged t"
    using t assms by (auto simp: stream_wedged_def stream_ok_length)
  moreover have "stream_write s (\<lambda>_. LF) 1 = Inr (t, 1)"
    using t(1) assms(2) by (simp add: stream_write_def)
  ultimately show ?thesis using wedged_run by blast
qed

theorem newline_blocks_stream_witness:
  "\<exists>t u acc. stream_write (stream_empty (replicate 1024 NUL)) (\<lambda>_. LF) 1 = Inr (t, 1)
    \<and> queue_run stream_wr stream_rd t [Write ''ls'', Read 64] = Inr (u, acc, [])"
proof -
  have "stream_ok (stream_empty (replicate 1024 NUL))" by simp
  from newline_blocks_stream[OF this] obtain t where
    t: "stream_write (stream_empty (replicate 1024 NUL)) (\<lambda>_. LF) 1 = Inr (t, 1)"
      "\<forall>ops. \<exists>u acc. queue_run stream_wr stream_rd t ops = Inr (u, acc, [])" by auto
  from t(2)[rule_format, of "[Write ''ls'', Read 64]"] t(1) show ?thesis by blast
qed

end
