(* ===== verification/Shell.thy ===== *)
theory Shell
  imports Stream_Buffer
begin

text \<open>
  The text console (source/system/shell/shell.c, shell.h): a VGA text buffer with a cursor, and
  three streams. All output goes through the standard output stream: \<open>sh_putc\<close> writes one byte to
  it and renders, rendering drains stdout and then stderr (in red) into the text buffer, scrolling
  when the cursor leaves the last line. \<open>sh_puts\<close>, \<open>sh_putint\<close> and \<open>sh_printf\<close> are built on
  \<open>sh_putc\<close>.

  The specification is a terminal: a pair of cells and cursor with one step per character.
\<close>

section \<open>State\<close>

record shell_char =
  sc_character :: char
  sc_color :: u8

record shell =
  sh_memory :: "shell_char list"
  sh_size :: u32
  sh_cursor :: u32
  sh_width :: u32
  sh_height :: u32
  sh_color :: u8
  sh_streams :: "stream list"

abbreviation (input) STREAM_STDIN :: nat where "STREAM_STDIN \<equiv> 0"
abbreviation (input) STREAM_STDOUT :: nat where "STREAM_STDOUT \<equiv> 1"
abbreviation (input) STREAM_STDERR :: nat where "STREAM_STDERR \<equiv> 2"
abbreviation (input) STREAM_COUNT :: nat where "STREAM_COUNT \<equiv> 3"

definition mk_char :: "char \<Rightarrow> u8 \<Rightarrow> shell_char" where
  "mk_char c col = \<lparr>sc_character = c, sc_color = col\<rparr>"

section \<open>Clearing and initialisation\<close>

definition sh_clear :: "shell \<Rightarrow> shell res" where
  "sh_clear sh = rbind
     (rfold (\<lambda>m i. arr_set m i (mk_char CHR '' '' (sh_color sh))) (sh_memory sh) [0..<unat (sh_size sh)])
     (\<lambda>m. Inr (sh\<lparr>sh_memory := m, sh_cursor := 0\<rparr>))"

text \<open>
  \<open>sh\<close> is the uninitialised \<open>shell_instance_t\<close> the caller provides: its stream arrays keep whatever
  they held. \<open>memory\<close> is the text buffer behind the pointer argument. The C function returns true.
\<close>

definition sh_init :: "shell \<Rightarrow> shell_char list \<Rightarrow> u32 \<Rightarrow> u32 \<Rightarrow> shell res" where
  "sh_init sh memory width sz = rbind (udiv sz width) (\<lambda>height.
     rbind (rfold (\<lambda>ss i. rbind (arr_get ss i) (\<lambda>s.
             arr_set ss i (s\<lparr>st_head := 0, st_tail := 0, st_count := 0\<rparr>)))
         (sh_streams sh) [0..<STREAM_COUNT]) (\<lambda>ss.
       sh_clear (sh\<lparr>sh_memory := memory, sh_width := width, sh_height := height, sh_size := sz,
         sh_color := 0x07, sh_cursor := 0, sh_streams := ss\<rparr>)))"

section \<open>Scrolling and rendering\<close>

definition scroll_row :: "shell \<Rightarrow> shell_char list \<Rightarrow> nat \<Rightarrow> shell_char list res" where
  "scroll_row sh m row = rfold (\<lambda>m col.
       rbind (arr_get m (unat (of_nat row * sh_width sh + of_nat col))) (\<lambda>x.
         arr_set m (unat ((of_nat row - 1) * sh_width sh + of_nat col)) x))
     m [0..<unat (sh_width sh)]"

definition sh_scroll :: "shell \<Rightarrow> shell res" where
  "sh_scroll sh = rbind (rfold (scroll_row sh) (sh_memory sh) [1..<unat (sh_height sh)]) (\<lambda>m.
     let last_line = (sh_height sh - 1) * sh_width sh in
     rbind (rfold (\<lambda>m col. arr_set m (unat (last_line + of_nat col)) (mk_char CHR '' '' (sh_color sh)))
         m [0..<unat (sh_width sh)])
       (\<lambda>m. Inr (sh\<lparr>sh_memory := m\<rparr>)))"

text \<open>\<open>if (cursor >= size) { sh_scroll(shell); cursor -= width; }\<close>\<close>

definition sh_wrap :: "shell \<Rightarrow> shell res" where
  "sh_wrap sh = (if sh_cursor sh \<ge> sh_size sh
     then rbind (sh_scroll sh) (\<lambda>t. Inr (t\<lparr>sh_cursor := sh_cursor t - sh_width t\<rparr>))
     else Inr sh)"

text \<open>The body of both rendering loops, for one character.\<close>

definition sh_render_char :: "shell \<Rightarrow> char \<Rightarrow> shell res" where
  "sh_render_char sh c =
     (if c = CR then rbind (umod (sh_cursor sh) (sh_width sh)) (\<lambda>m.
        Inr (sh\<lparr>sh_cursor := sh_cursor sh - m\<rparr>))
      else if c = LF then rbind (umod (sh_cursor sh) (sh_width sh)) (\<lambda>m.
        sh_wrap (sh\<lparr>sh_cursor := sh_cursor sh + (sh_width sh - m)\<rparr>))
      else if sh_cursor sh < sh_size sh then
        rbind (arr_set (sh_memory sh) (unat (sh_cursor sh)) (mk_char c (sh_color sh))) (\<lambda>m.
          sh_wrap (sh\<lparr>sh_memory := m, sh_cursor := sh_cursor sh + 1\<rparr>))
      else Inr sh)"

lemma sh_scroll_streams: "sh_scroll sh = Inr t \<Longrightarrow> sh_streams t = sh_streams sh"
  by (auto simp: sh_scroll_def res_iff Let_def)

lemma sh_wrap_streams: "sh_wrap sh = Inr t \<Longrightarrow> sh_streams t = sh_streams sh"
  by (auto simp: sh_wrap_def res_iff dest: sh_scroll_streams split: if_splits)

lemma sh_render_char_streams: "sh_render_char sh c = Inr t \<Longrightarrow> sh_streams t = sh_streams sh"
  by (auto simp: sh_render_char_def res_iff dest: sh_wrap_streams split: if_splits)

lemma render_list_streams: "rfold sh_render_char sh cs = Inr t \<Longrightarrow> sh_streams t = sh_streams sh"
  by (induction cs arbitrary: sh) (auto simp: res_iff dest: sh_render_char_streams)

lemma stream_read_loop_count:
  "stream_read_loop s r k = Inr (t, bs) \<Longrightarrow>
    st_count t = st_count s - int (length bs) \<and> (bs \<noteq> [] \<longrightarrow> 0 < st_count s)"
  by (induction s r k arbitrary: t bs rule: stream_read_loop.induct)
    (fastforce simp: res_iff split: if_splits prod.splits)+

lemma stream_read_decreases:
  assumes "stream_read s len = Inr (t, bs)" "bs \<noteq> []"
  shows "nat (st_count t) < nat (st_count s)"
proof -
  have "st_count t = st_count s - int (length bs)" "0 < st_count s" "0 < length bs"
    using assms stream_read_loop_count unfolding stream_read_def by blast+
  then show ?thesis by linarith
qed

text \<open>
  \<open>while ((bytes = stream_read(&streams[idx], buf, sizeof(buf))) > 0)\<close> with its inner loop over
  the bytes. Every round removes a byte from the stream, so the loop ends.
\<close>

function sh_drain :: "nat \<Rightarrow> shell \<Rightarrow> shell res" where
  "sh_drain idx sh = rbind (arr_get (sh_streams sh) idx) (\<lambda>s.
     rbind (stream_read s 64) (\<lambda>(s', bytes).
       let t = sh\<lparr>sh_streams := (sh_streams sh)[idx := s']\<rparr> in
       if bytes = [] then Inr t
       else rbind (rfold sh_render_char t bytes) (\<lambda>u. sh_drain idx u)))"
  by pat_completeness auto
termination
proof (relation "measure (\<lambda>(idx, sh). nat (st_count (sh_streams sh ! idx)))")
  show "wf (measure (\<lambda>(idx, sh). nat (st_count (sh_streams sh ! idx))))" by simp
next
  fix idx :: nat and sh s and r :: "stream \<times> char list" and s' bytes t u
  assume a: "arr_get (sh_streams sh) idx = Inr s" "stream_read s 64 = Inr r" "(s', bytes) = r"
    "t = sh\<lparr>sh_streams := (sh_streams sh)[idx := s']\<rparr>" "bytes \<noteq> []"
    "rfold sh_render_char t bytes = Inr u"
  from a(1) have s: "idx < length (sh_streams sh)" "s = sh_streams sh ! idx" by (simp_all add: res_iff)
  have "sh_streams u = (sh_streams sh)[idx := s']" using render_list_streams[OF a(6)] a(4) by simp
  with s stream_read_decreases[of s 64 s' bytes] a(2,3,5)
  show "((idx, u), idx, sh) \<in> measure (\<lambda>(idx, sh). nat (st_count (sh_streams sh ! idx)))"
    by auto
qed

declare sh_drain.simps [simp del]

definition sh_render :: "shell \<Rightarrow> shell res" where
  "sh_render sh = rbind (sh_drain STREAM_STDOUT sh) (\<lambda>sh.
     let saved_color = sh_color sh in
     rbind (sh_drain STREAM_STDERR (sh\<lparr>sh_color := 0x04\<rparr>)) (\<lambda>sh.
       Inr (sh\<lparr>sh_color := saved_color\<rparr>)))"

section \<open>Output\<close>

definition sh_write_stream :: "shell \<Rightarrow> int \<Rightarrow> (nat \<Rightarrow> char) \<Rightarrow> int \<Rightarrow> (shell \<times> int) res" where
  "sh_write_stream sh stream_idx buf len =
     (if stream_idx < 0 \<or> stream_idx \<ge> int STREAM_COUNT then Inr (sh, -1)
      else let sh = sh\<lparr>sh_color := 0x07\<rparr>; idx = nat stream_idx in
        rbind (arr_get (sh_streams sh) idx) (\<lambda>s.
          rbind (stream_write s buf len) (\<lambda>(s', written).
            rbind (sh_render (sh\<lparr>sh_streams := (sh_streams sh)[idx := s']\<rparr>)) (\<lambda>t.
              Inr (t, written)))))"

definition sh_write_stdout :: "shell \<Rightarrow> (nat \<Rightarrow> char) \<Rightarrow> int \<Rightarrow> (shell \<times> int) res" where
  "sh_write_stdout sh buf len = sh_write_stream sh (int STREAM_STDOUT) buf len"

definition sh_write_stderr :: "shell \<Rightarrow> (nat \<Rightarrow> char) \<Rightarrow> int \<Rightarrow> (shell \<times> int) res" where
  "sh_write_stderr sh buf len = sh_write_stream sh (int STREAM_STDERR) buf len"

definition sh_putc :: "shell \<Rightarrow> char \<Rightarrow> shell res" where
  "sh_putc sh c = rbind (sh_write_stdout sh (nth [c]) 1) (\<lambda>(t, _). Inr t)"

text \<open>A C string is given by the characters before its terminator.\<close>

definition cstr :: "char list \<Rightarrow> char list" where
  "cstr xs = takeWhile (\<lambda>c. c \<noteq> NUL) xs"

definition sh_puts :: "shell \<Rightarrow> char list \<Rightarrow> shell res" where
  "sh_puts sh str = rfold sh_putc sh (cstr str)"

text \<open>
  \<open>sh_putint\<close>: \<open>value\<close> and \<open>base\<close> are \<open>int\<close>s given by their bits. \<open>-value\<close> is computed modulo
  \<open>2 ^ 32\<close> (at \<open>INT_MIN\<close> C leaves it undefined; the compiled negation wraps). The digit string has
  16 characters and its terminator; the loop stops when the value is 0 or 31 digits are stored.
\<close>

definition digit_chars :: "char list" where
  "digit_chars = ''0123456789abcdef'' @ [NUL]"

fun digits_loop :: "nat \<Rightarrow> u32 \<Rightarrow> u32 \<Rightarrow> char list \<Rightarrow> char list res" where
  "digits_loop 0 uvalue base buffer = Inr buffer"
| "digits_loop (Suc k) uvalue base buffer =
     (if uvalue \<noteq> 0 then
        rbind (umod uvalue base) (\<lambda>d.
        rbind (arr_get digit_chars (unat d)) (\<lambda>c.
        rbind (udiv uvalue base) (\<lambda>q. digits_loop k q base (buffer @ [c]))))
      else Inr buffer)"

definition sh_putint :: "shell \<Rightarrow> u32 \<Rightarrow> u32 \<Rightarrow> shell res" where
  "sh_putint sh value base =
     rbind (if base = 10 \<and> to_int value < 0
            then rbind (sh_putc sh CHR ''-'') (\<lambda>t. Inr (t, - value))
            else Inr (sh, value)) (\<lambda>(sh, uvalue).
       if uvalue = 0 then sh_putc sh CHR ''0''
       else rbind (digits_loop 31 uvalue base []) (\<lambda>buffer. rfold sh_putc sh (rev buffer)))"

text \<open>The arguments of a variadic call: \<open>int\<close> or \<open>unsigned\<close>, a string pointer (\<open>None\<close> is NULL), a
  \<open>void*\<close>.\<close>

datatype va_arg = VInt u32 | VStr "char list option" | VPtr u32

text \<open>One conversion: the character after \<open>%\<close>.\<close>

definition sh_convert :: "shell \<Rightarrow> char \<Rightarrow> va_arg list \<Rightarrow> (shell \<times> va_arg list) res" where
  "sh_convert sh c args =
     (if c = CHR ''s'' then (case args of
        VStr s # rest \<Rightarrow> rbind (sh_puts sh (case s of None \<Rightarrow> ''(null)'' | Some x \<Rightarrow> x)) (\<lambda>t. Inr (t, rest))
      | _ \<Rightarrow> Inl Bad_Varargs)
      else if c = CHR ''d'' \<or> c = CHR ''u'' then (case args of
        VInt d # rest \<Rightarrow> rbind (sh_putint sh d 10) (\<lambda>t. Inr (t, rest))
      | _ \<Rightarrow> Inl Bad_Varargs)
      else if c = CHR ''x'' then (case args of
        VInt x # rest \<Rightarrow> rbind (sh_putint sh x 16) (\<lambda>t. Inr (t, rest))
      | _ \<Rightarrow> Inl Bad_Varargs)
      else if c = CHR ''p'' then (case args of
        VPtr p # rest \<Rightarrow> rbind (sh_puts sh ''0x'') (\<lambda>t. rbind (sh_putint t p 16) (\<lambda>t. Inr (t, rest)))
      | _ \<Rightarrow> Inl Bad_Varargs)
      else if c = CHR ''c'' then (case args of
        VInt x # rest \<Rightarrow> rbind (sh_putc sh (to_char (ucast x))) (\<lambda>t. Inr (t, rest))
      | _ \<Rightarrow> Inl Bad_Varargs)
      else if c = CHR ''%'' then rbind (sh_putc sh CHR ''%'') (\<lambda>t. Inr (t, args))
      else rbind (sh_putc sh CHR ''%'') (\<lambda>t. rbind (sh_putc t c) (\<lambda>t. Inr (t, args))))"

text \<open>
  The format loop, over the characters before the terminator. After a \<open>%\<close> that ends the string the
  code treats the terminator as an unknown conversion, prints it, steps over it and goes on reading
  behind the string.
\<close>

fun sh_printf :: "shell \<Rightarrow> char list \<Rightarrow> va_arg list \<Rightarrow> shell res" where
  "sh_printf sh [] args = Inr sh"
| "sh_printf sh [c] args =
     (if c = CHR ''%'' then
        rbind (sh_convert sh NUL args) (\<lambda>_. Inl Index_Out_Of_Bounds)
      else sh_putc sh c)"
| "sh_printf sh (c # d # fmt) args =
     (if c = CHR ''%'' then rbind (sh_convert sh d args) (\<lambda>(t, rest). sh_printf t fmt rest)
      else rbind (sh_putc sh c) (\<lambda>t. sh_printf t (d # fmt) args))"

section \<open>Specification: a terminal\<close>

text \<open>
  The geometry of the text buffer: as many cells as lines times columns, and no overflow when the
  cursor is advanced by a line.
\<close>

definition sh_geom :: "shell \<Rightarrow> bool" where
  "sh_geom sh \<longleftrightarrow> sh_width sh \<noteq> 0 \<and> sh_height sh \<noteq> 0
     \<and> unat (sh_size sh) = unat (sh_height sh) * unat (sh_width sh)
     \<and> length (sh_memory sh) = unat (sh_size sh)
     \<and> unat (sh_size sh) + unat (sh_width sh) < 4294967296"

definition sh_ok :: "shell \<Rightarrow> bool" where
  "sh_ok sh \<longleftrightarrow> sh_geom sh \<and> sh_cursor sh < sh_size sh \<and> length (sh_streams sh) = STREAM_COUNT
     \<and> (\<forall>s \<in> set (sh_streams sh). stream_ok s)"

text \<open>One character on a terminal of \<open>W\<close> columns whose cells are \<open>m\<close> and whose cursor is at \<open>k\<close>.\<close>

definition term_wrap :: "nat \<Rightarrow> u8 \<Rightarrow> shell_char list \<times> nat \<Rightarrow> shell_char list \<times> nat" where
  "term_wrap W col = (\<lambda>(m, k). if k \<ge> length m
     then (drop W m @ replicate W (mk_char CHR '' '' col), k - W) else (m, k))"

definition term_char :: "nat \<Rightarrow> u8 \<Rightarrow> char \<Rightarrow> shell_char list \<times> nat \<Rightarrow> shell_char list \<times> nat" where
  "term_char W col c = (\<lambda>(m, k).
     if c = CR then (m, k - k mod W)
     else if c = LF then term_wrap W col (m, k + (W - k mod W))
     else term_wrap W col (m[k := mk_char c col], k + 1))"

definition sh_screen :: "shell \<Rightarrow> shell_char list \<times> nat" where
  "sh_screen sh = (sh_memory sh, unat (sh_cursor sh))"

text \<open>The shell after printing \<open>cs\<close> on that terminal: only the cells and the cursor change.\<close>

definition sh_show :: "shell \<Rightarrow> char list \<Rightarrow> shell" where
  "sh_show sh cs = (let (m, k) = fold (term_char (unat (sh_width sh)) (sh_color sh)) cs (sh_screen sh)
     in sh\<lparr>sh_memory := m, sh_cursor := of_nat k\<rparr>)"

section \<open>Lemmas: scrolling\<close>

lemma geom_bounds:
  assumes "sh_geom sh"
  defines "W \<equiv> unat (sh_width sh)" and "H \<equiv> unat (sh_height sh)"
  shows "0 < W" "0 < H" "length (sh_memory sh) = H * W" "H * W + W < 4294967296"
  using assms by (simp_all add: sh_geom_def unat_gt_0)

lemma cell_index:
  assumes "sh_geom sh" "row < unat (sh_height sh)" "col < unat (sh_width sh)"
  shows "unat (of_nat row * sh_width sh + of_nat col) = row * unat (sh_width sh) + col"
    "row * unat (sh_width sh) + col < length (sh_memory sh)"
proof -
  let ?W = "unat (sh_width sh)"
  have "Suc row * ?W \<le> unat (sh_height sh) * ?W" using assms(2) by (intro mult_le_mono1) simp
  then have lt: "row * ?W + col < unat (sh_height sh) * ?W" using assms(3) by simp
  then show "row * ?W + col < length (sh_memory sh)" using geom_bounds(3)[OF assms(1)] by simp
  have "row * ?W + col < 4294967296" using lt geom_bounds(4)[OF assms(1)] by linarith
  moreover have "row < 4294967296" "col < 4294967296"
    using assms(2,3) unat_lt_32[of "sh_height sh"] unat_lt_32[of "sh_width sh"] by linarith+
  ultimately show "unat (of_nat row * sh_width sh + of_nat col) = row * ?W + col"
    by (simp add: unat_exact)
qed

lemma scroll_row_ok:
  assumes g: "sh_geom sh" and row: "0 < row" "row < unat (sh_height sh)"
    and len: "length m = length (sh_memory sh)"
  defines "W \<equiv> unat (sh_width sh)"
  shows "\<exists>t. scroll_row sh m row = Inr t \<and> length t = length m
    \<and> (\<forall>i < length m. t ! i = (if (row - 1) * W \<le> i \<and> i < row * W then m ! (i + W) else m ! i))"
proof -
  let ?I = "\<lambda>col t. length t = length m
    \<and> (\<forall>i < length m. t ! i = (if (row - 1) * W \<le> i \<and> i < (row - 1) * W + col
        then m ! (i + W) else m ! i))"
  have "row = Suc (row - 1)" using row(1) by simp
  then have rW: "row * W = (row - 1) * W + W" by (metis mult_Suc add.commute)
  have pred: "of_nat row - (1 :: u32) = of_nat (row - 1)" using row(1) by (simp add: of_nat_diff)
  have "\<exists>t. scroll_row sh m row = Inr t \<and> ?I W t"
    unfolding scroll_row_def W_def[symmetric]
  proof (rule rfold_nat_induct[where I = ?I])
    show "?I 0 m" by fastforce
  next
    fix col t assume col: "col < W" and t: "?I col t"
    have src: "unat (of_nat row * sh_width sh + of_nat col) = row * W + col"
      "row * W + col < length m"
      using cell_index[OF g row(2), of col] col len by (simp_all add: W_def)
    have dst: "unat ((of_nat row - 1) * sh_width sh + of_nat col) = (row - 1) * W + col"
      "(row - 1) * W + col < length m"
      using cell_index[OF g, of "row - 1" col] col row len unfolding pred by (simp_all add: W_def)
    have "t ! (row * W + col) = m ! (row * W + col)" using t src(2) rW col by simp
    then show "\<exists>u. rbind (arr_get t (unat (of_nat row * sh_width sh + of_nat col))) (\<lambda>x.
        arr_set t (unat ((of_nat row - 1) * sh_width sh + of_nat col)) x) = Inr u \<and> ?I (Suc col) u"
      using src dst t rW by (auto simp: nth_list_update add.commute add.left_commute less_Suc_eq)
  qed
  then show ?thesis by (simp add: rW)
qed

lemma scroll_rows_ok:
  assumes g: "sh_geom sh"
  defines "W \<equiv> unat (sh_width sh)" and "H \<equiv> unat (sh_height sh)"
  shows "\<exists>t. rfold (scroll_row sh) (sh_memory sh) [1..<H] = Inr t \<and> length t = H * W
    \<and> (\<forall>i < H * W. t ! i = (if i < (H - 1) * W then sh_memory sh ! (i + W) else sh_memory sh ! i))"
proof -
  let ?m = "sh_memory sh"
  let ?I = "\<lambda>r t. length t = length ?m
    \<and> (\<forall>i < length ?m. t ! i = (if i < r * W then ?m ! (i + W) else ?m ! i))"
  have H: "0 < H" "length ?m = H * W" using geom_bounds[OF g] by (simp_all add: W_def H_def)
  have "[1..<H] = map Suc [0..<H - 1]" using H(1) by (simp add: map_Suc_upt)
  moreover have "\<exists>t. rfold (\<lambda>m r. scroll_row sh m (Suc r)) ?m [0..<H - 1] = Inr t \<and> ?I (H - 1) t"
  proof (rule rfold_nat_induct)
    show "?I 0 ?m" by simp
  next
    fix r t assume r: "r < H - 1" and t: "?I r t"
    have "Suc r < unat (sh_height sh)" using r by (simp add: H_def)
    from scroll_row_ok[OF g _ this, of t] t obtain u where u: "scroll_row sh t (Suc r) = Inr u"
      "length u = length ?m"
      "\<forall>i < length ?m. u ! i = (if r * W \<le> i \<and> i < Suc r * W then t ! (i + W) else t ! i)"
      by (auto simp: W_def)
    have lt: "i + W < length ?m" if "i < Suc r * W" for i
    proof -
      have "Suc (Suc r) * W \<le> H * W" using r by (intro mult_le_mono1) simp
      with that H(2) show ?thesis by simp
    qed
    have "?I (Suc r) u"
    proof (intro conjI allI impI)
      fix i assume i: "i < length ?m"
      show "u ! i = (if i < Suc r * W then ?m ! (i + W) else ?m ! i)"
      proof (cases "r * W \<le> i \<and> i < Suc r * W")
        case True
        then have "\<not> i + W < r * W" "i + W < length ?m" using lt by auto
        with True i u(3) t show ?thesis by simp
      next
        case False
        then have "i < r * W \<longleftrightarrow> i < Suc r * W" by auto
        with False i u(3) t show ?thesis by auto
      qed
    qed (rule u(2))
    with u(1) show "\<exists>u. scroll_row sh t (Suc r) = Inr u \<and> ?I (Suc r) u" by blast
  qed
  ultimately show ?thesis by (simp add: rfold_map H(2))
qed

lemma fill_last_line:
  assumes g: "sh_geom sh" and len: "length m = length (sh_memory sh)"
  defines "W \<equiv> unat (sh_width sh)" and "H \<equiv> unat (sh_height sh)"
  shows "rfold (\<lambda>m col. arr_set m (unat ((sh_height sh - 1) * sh_width sh + of_nat col)) x) m [0..<W]
    = Inr (take ((H - 1) * W) m @ replicate W x)"
proof -
  let ?I = "\<lambda>col t. t = take ((H - 1) * W) m @ replicate col x @ drop ((H - 1) * W + col) m"
  note b = geom_bounds[OF g, folded W_def H_def]
  have H: "H = Suc (H - 1)" using b(2) by simp
  then have HW: "H * W = (H - 1) * W + W" by (metis mult_Suc add.commute)
  have pred: "sh_height sh - 1 = of_nat (H - 1)" using b(2) by (simp add: H_def of_nat_diff)
  have "\<exists>t. rfold (\<lambda>m col. arr_set m (unat ((sh_height sh - 1) * sh_width sh + of_nat col)) x) m [0..<W]
    = Inr t \<and> ?I W t"
  proof (rule rfold_nat_induct[where I = ?I])
    show "?I 0 m" by simp
  next
    fix col t assume col: "col < W" and t: "?I col t"
    have "H - 1 < unat (sh_height sh)" using b(2) by (simp add: H_def)
    from cell_index[OF g this, of col] col len
    have ix: "unat ((sh_height sh - 1) * sh_width sh + of_nat col) = (H - 1) * W + col"
      and bound: "(H - 1) * W + col < length m"
      unfolding pred by (simp_all add: W_def)
    have tl: "take ((H - 1) * W) m @ replicate col x @ drop ((H - 1) * W + col) m
        = (take ((H - 1) * W) m @ replicate col x) @ m ! ((H - 1) * W + col)
          # drop ((H - 1) * W + Suc col) m"
      using bound by (simp add: Cons_nth_drop_Suc)
    have "length (take ((H - 1) * W) m @ replicate col x) = (H - 1) * W + col" using bound by simp
    then have "t[(H - 1) * W + col := x] = take ((H - 1) * W) m @ replicate (Suc col) x
        @ drop ((H - 1) * W + Suc col) m"
      unfolding t tl by (simp add: list_update_append replicate_append_same flip: replicate_Suc)
    moreover have "(H - 1) * W + col < length t" using t bound by simp
    ultimately show "\<exists>u. arr_set t (unat ((sh_height sh - 1) * sh_width sh + of_nat col)) x = Inr u
        \<and> ?I (Suc col) u" unfolding ix by simp
  qed
  moreover have "drop ((H - 1) * W + W) m = []" using b(3) len HW by simp
  ultimately show ?thesis by simp
qed

lemma sh_scroll_ok:
  assumes g: "sh_geom sh"
  defines "W \<equiv> unat (sh_width sh)"
  shows "sh_scroll sh = Inr (sh\<lparr>sh_memory := drop W (sh_memory sh)
    @ replicate W (mk_char CHR '' '' (sh_color sh))\<rparr>)"
proof -
  let ?H = "unat (sh_height sh)" and ?m = "sh_memory sh"
  note b = geom_bounds[OF g, folded W_def]
  from scroll_rows_ok[OF g] obtain t where t: "rfold (scroll_row sh) ?m [1..<?H] = Inr t"
    "length t = ?H * W"
    "\<forall>i < ?H * W. t ! i = (if i < (?H - 1) * W then ?m ! (i + W) else ?m ! i)"
    by (auto simp: W_def)
  have HW: "?H * W = (?H - 1) * W + W" using b(2) by (metis Suc_pred' mult_Suc add.commute)
  have "take ((?H - 1) * W) t = drop W ?m"
    using t(2,3) b(3) HW by (intro nth_equalityI) (simp_all add: add.commute)
  with fill_last_line[OF g, of t] t b(3) show ?thesis
    by (simp add: sh_scroll_def W_def Let_def)
qed

section \<open>Lemmas: rendering\<close>

definition sh_set :: "shell \<Rightarrow> shell_char list \<times> nat \<Rightarrow> shell" where
  "sh_set sh = (\<lambda>(m, k). sh\<lparr>sh_memory := m, sh_cursor := of_nat k\<rparr>)"

definition sh_term_ok :: "shell \<Rightarrow> bool" where
  "sh_term_ok sh \<longleftrightarrow> sh_geom sh \<and> sh_cursor sh < sh_size sh"

lemma sh_set_sel [simp]:
  "sh_width (sh_set sh p) = sh_width sh" "sh_height (sh_set sh p) = sh_height sh"
  "sh_size (sh_set sh p) = sh_size sh" "sh_color (sh_set sh p) = sh_color sh"
  "sh_streams (sh_set sh p) = sh_streams sh" "sh_memory (sh_set sh p) = fst p"
  "sh_cursor (sh_set sh p) = of_nat (snd p)"
  by (simp_all add: sh_set_def split: prod.splits)

lemma sh_show_eq:
  "sh_show sh cs = sh_set sh (fold (term_char (unat (sh_width sh)) (sh_color sh)) cs (sh_screen sh))"
  by (simp add: sh_show_def sh_set_def)

lemma sh_wrap_ok:
  assumes "sh_geom sh"
  shows "sh_wrap sh = Inr (sh_set sh (term_wrap (unat (sh_width sh)) (sh_color sh) (sh_screen sh)))"
proof -
  note b = geom_bounds[OF assms]
  have N: "unat (sh_size sh) = length (sh_memory sh)" using assms by (simp add: sh_geom_def)
  show ?thesis
  proof (cases "sh_cursor sh \<ge> sh_size sh")
    case True
    then have k: "length (sh_memory sh) \<le> unat (sh_cursor sh)" by (simp add: word_le_nat_alt N)
    have "unat (sh_width sh) \<le> unat (sh_height sh) * unat (sh_width sh)"
      using b(2) by (cases "unat (sh_height sh)") simp_all
    then have "unat (sh_width sh) \<le> unat (sh_cursor sh)"
      using k unfolding b(3) by (rule order_trans)
    then have "of_nat (unat (sh_cursor sh) - unat (sh_width sh)) = sh_cursor sh - sh_width sh"
      by (simp add: of_nat_diff)
    with True k show ?thesis
      by (simp add: sh_wrap_def sh_scroll_ok[OF assms] term_wrap_def sh_screen_def sh_set_def)
  next
    case False
    then have "\<not> length (sh_memory sh) \<le> unat (sh_cursor sh)" by (simp add: word_le_nat_alt N)
    with False show ?thesis
      by (simp add: sh_wrap_def term_wrap_def sh_screen_def sh_set_def)
  qed
qed

lemma term_char_bounds:
  assumes "0 < W" "W \<le> length m" "k < length m" "term_char W col c (m, k) = (m', k')"
  shows "length m' = length m \<and> k' < length m"
proof -
  have "k - k mod W < length m" "k mod W \<le> k"
    using assms(3) by (auto intro: le_less_trans[OF diff_le_self])
  moreover have "k mod W < W" using assms(1) by simp
  ultimately show ?thesis
    using assms by (auto simp: term_char_def term_wrap_def split: if_splits)
qed

lemma sh_render_char_ok:
  fixes c :: char
  assumes "sh_term_ok sh"
  defines "p \<equiv> term_char (unat (sh_width sh)) (sh_color sh) c (sh_screen sh)"
  shows "sh_render_char sh c = Inr (sh_set sh p)" "sh_term_ok (sh_set sh p)"
    "sh_screen (sh_set sh p) = p"
proof -
  have g: "sh_geom sh" using assms(1) by (simp add: sh_term_ok_def)
  note b = geom_bounds[OF g]
  let ?W = "unat (sh_width sh)" and ?k = "unat (sh_cursor sh)" and ?m = "sh_memory sh"
  have N: "unat (sh_size sh) = length ?m" using g by (simp add: sh_geom_def)
  have k: "?k < length ?m" using assms(1) N by (simp add: sh_term_ok_def word_less_nat_alt)
  have W: "?W \<le> length ?m" using b(2,3) by (cases "unat (sh_height sh)") simp_all
  have nz: "sh_width sh \<noteq> 0" using g by (simp add: sh_geom_def)
  have md: "unat (sh_cursor sh mod sh_width sh) = ?k mod ?W" by (simp add: unat_mod)
  have "?k mod ?W < ?W" "?k mod ?W \<le> ?k" using b(1) by simp_all
  then have cr: "unat (sh_cursor sh - sh_cursor sh mod sh_width sh) = ?k - ?k mod ?W"
    and wd: "unat (sh_width sh - sh_cursor sh mod sh_width sh) = ?W - ?k mod ?W"
    using md by (simp_all add: unat_exact)
  then have lf: "unat (sh_cursor sh + (sh_width sh - sh_cursor sh mod sh_width sh))
      = ?k + (?W - ?k mod ?W)"
    using k b(3,4) by (subst unat_add_exact) simp_all
  have ad: "unat (sh_cursor sh + 1) = ?k + 1"
    using k b(3,4) by (subst unat_add_exact) simp_all
  show "sh_render_char sh c = Inr (sh_set sh p)"
  proof -
    have wrap: "sh_wrap (sh\<lparr>sh_memory := m, sh_cursor := x\<rparr>) = Inr (sh_set sh
        (term_wrap ?W (sh_color sh) (m, unat x)))" if "length m = length ?m" for m x
    proof -
      have "sh_geom (sh\<lparr>sh_memory := m, sh_cursor := x\<rparr>)"
        using g that by (simp add: sh_geom_def)
      from sh_wrap_ok[OF this] show ?thesis by (simp add: sh_screen_def sh_set_def split: prod.splits)
    qed
    have lt: "sh_cursor sh < sh_size sh" using assms(1) by (simp add: sh_term_ok_def)
    have crw: "of_nat (?k - ?k mod ?W) = sh_cursor sh - sh_cursor sh mod sh_width sh"
      unfolding cr[symmetric] by simp
    consider "c = CR" | "c = LF" "c \<noteq> CR" | "c \<noteq> CR" "c \<noteq> LF" by blast
    then show ?thesis
    proof cases
      case 1
      with nz crw show ?thesis by (simp add: sh_render_char_def p_def term_char_def sh_screen_def sh_set_def)
    next
      case 2
      with nz lf wrap[of ?m "sh_cursor sh + (sh_width sh - sh_cursor sh mod sh_width sh)"]
      show ?thesis by (simp add: sh_render_char_def p_def term_char_def sh_screen_def)
    next
      case 3
      with k ad lt wrap[of "?m[?k := mk_char c (sh_color sh)]" "sh_cursor sh + 1"]
      show ?thesis by (simp add: sh_render_char_def p_def term_char_def sh_screen_def)
    qed
  qed
  obtain m' k' where p: "p = (m', k')" by (cases p)
  then have "length m' = length ?m" "k' < length ?m"
    using term_char_bounds[OF b(1) W k, of "sh_color sh" c m' k'] by (simp_all add: p_def sh_screen_def)
  moreover from this have "unat (of_nat k' :: u32) = k'" using b(3,4) by (simp add: unat_exact)
  ultimately show "sh_term_ok (sh_set sh p)" "sh_screen (sh_set sh p) = p"
    using g N p by (simp_all add: sh_term_ok_def sh_geom_def word_less_nat_alt sh_screen_def)
qed

lemma sh_show_Nil [simp]: "sh_show sh [] = sh"
  by (simp add: sh_show_eq sh_screen_def sh_set_def)

lemma sh_show_Cons:
  assumes "sh_term_ok sh"
  shows "sh_show sh (c # cs) = sh_show (sh_show sh [c]) cs"
  using sh_render_char_ok(3)[OF assms, of c] by (simp add: sh_show_eq sh_set_def split: prod.splits)

lemma sh_show_term_ok: "sh_term_ok sh \<Longrightarrow> sh_term_ok (sh_show sh cs)"
proof (induction cs arbitrary: sh)
  case Nil
  then show ?case by simp
next
  case (Cons c cs)
  have "sh_term_ok (sh_show sh [c])" using sh_render_char_ok(2)[OF Cons.prems, of c] by (simp add: sh_show_eq)
  from Cons.IH[OF this] show ?case by (simp add: sh_show_Cons[OF Cons.prems, of c cs])
qed

lemma sh_show_append: "sh_term_ok sh \<Longrightarrow> sh_show sh (xs @ ys) = sh_show (sh_show sh xs) ys"
proof (induction xs arbitrary: sh)
  case Nil
  then show ?case by simp
next
  case (Cons c xs)
  have "sh_term_ok (sh_show sh [c])" using Cons.prems by (rule sh_show_term_ok)
  from Cons.IH[OF this] show ?case
    using sh_show_Cons[OF Cons.prems, of c "xs @ ys"] sh_show_Cons[OF Cons.prems, of c xs] by simp
qed

lemma render_list_ok: "sh_term_ok sh \<Longrightarrow> rfold sh_render_char sh cs = Inr (sh_show sh cs)"
proof (induction cs arbitrary: sh)
  case Nil
  then show ?case by simp
next
  case (Cons c cs)
  have c: "sh_render_char sh c = Inr (sh_show sh [c])"
    using sh_render_char_ok(1)[OF Cons.prems, of c] by (simp add: sh_show_eq)
  have "sh_term_ok (sh_show sh [c])" using Cons.prems by (rule sh_show_term_ok)
  from Cons.IH[OF this] c show ?case by (simp add: sh_show_Cons[OF Cons.prems, of c cs])
qed

section \<open>Lemmas: draining a stream\<close>

lemma sh_show_sel [simp]:
  "sh_streams (sh_show sh cs) = sh_streams sh" "sh_color (sh_show sh cs) = sh_color sh"
  "sh_width (sh_show sh cs) = sh_width sh" "sh_height (sh_show sh cs) = sh_height sh"
  "sh_size (sh_show sh cs) = sh_size sh"
  by (simp_all add: sh_show_eq)

lemma sh_show_streams_update:
  "sh_show (sh\<lparr>sh_streams := ss\<rparr>) cs = (sh_show sh cs)\<lparr>sh_streams := ss\<rparr>"
  by (simp add: sh_show_eq sh_set_def sh_screen_def split: prod.splits)

lemma sh_term_ok_update [simp]:
  "sh_term_ok (sh\<lparr>sh_streams := ss\<rparr>) = sh_term_ok sh"
  "sh_term_ok (sh\<lparr>sh_color := col\<rparr>) = sh_term_ok sh"
  by (simp_all add: sh_term_ok_def sh_geom_def)

lemma sh_ok_iff: "sh_ok sh \<longleftrightarrow> sh_term_ok sh \<and> length (sh_streams sh) = 3
    \<and> (\<forall>s \<in> set (sh_streams sh). stream_ok s)"
  by (auto simp: sh_ok_def sh_term_ok_def)

lemma sh_ok_stream: "sh_ok sh \<Longrightarrow> idx < 3 \<Longrightarrow> stream_ok (sh_streams sh ! idx)"
  by (auto simp: sh_ok_iff)

lemma sh_ok_set_stream:
  "sh_ok sh \<Longrightarrow> stream_ok s \<Longrightarrow> sh_ok (sh\<lparr>sh_streams := (sh_streams sh)[idx := s]\<rparr>)"
  by (auto simp: sh_ok_iff dest: set_update_subset_insert[THEN subsetD])

lemma sh_ok_show: "sh_ok sh \<Longrightarrow> sh_ok (sh_show sh cs)"
  by (simp add: sh_ok_iff sh_show_term_ok)

lemma sh_ok_color [simp]: "sh_ok (sh\<lparr>sh_color := col\<rparr>) = sh_ok sh"
  by (simp add: sh_ok_iff)

text \<open>
  Draining prints everything the stream holds, unless slot 0 of its array is a newline: then the
  very first read returns nothing and nothing is printed.
\<close>

definition drained :: "nat \<Rightarrow> shell \<Rightarrow> shell" where
  "drained idx sh = (let s = sh_streams sh ! idx in
     if lf_limit s = 0 then sh
     else (sh_show sh (stream_contents s))
       \<lparr>sh_streams := (sh_streams sh)[idx := stream_pop s (nat (st_count s))]\<rparr>)"

lemma sh_drain_ok:
  assumes "sh_ok sh" "idx < 3"
  shows "sh_drain idx sh = Inr (drained idx sh)"
  using assms(1)
proof (induction "nat (st_count (sh_streams sh ! idx))" arbitrary: sh rule: less_induct)
  case less
  define s where "s = sh_streams sh ! idx"
  define n where "n = nat (st_count s)"
  define m where "m = min 64 (min n (lf_limit s))"
  have len: "idx < length (sh_streams sh)" using less.prems assms(2) by (simp add: sh_ok_iff)
  have ok: "stream_ok s" using sh_ok_stream[OF less.prems assms(2)] by (simp add: s_def)
  have rd: "stream_read s 64 = Inr (stream_pop s m, take m (stream_contents s))"
    and pop: "stream_ok (stream_pop s m)" "stream_contents (stream_pop s m) = drop m (stream_contents s)"
    using stream_read_ok[OF ok, of 64] by (simp_all add: m_def n_def)
  let ?t = "sh\<lparr>sh_streams := (sh_streams sh)[idx := stream_pop s m]\<rparr>"
  have "length (take m (stream_contents s)) = m" by (simp add: m_def n_def)
  then have cont: "take m (stream_contents s) = [] \<longleftrightarrow> m = 0" by (metis length_0_conv)
  have step: "sh_drain idx sh = (if m = 0 then Inr ?t
      else rbind (rfold sh_render_char ?t (take m (stream_contents s))) (\<lambda>u. sh_drain idx u))"
    using len rd cont by (subst sh_drain.simps) (simp add: Let_def flip: s_def)
  show ?case
  proof (cases "m = 0")
    case True
    then have "?t = sh" using ok by (simp add: stream_pop_0 s_def)
    moreover have "drained idx sh = sh"
    proof (cases "lf_limit s = 0")
      case False
      then have "n = 0" using True by (simp add: m_def)
      moreover from this have "stream_contents s = []" by (simp add: n_def flip: length_0_conv)
      ultimately show ?thesis using ok by (simp add: drained_def stream_pop_0 flip: s_def n_def) (simp add: s_def)
    qed (simp add: drained_def flip: s_def)
    ultimately show ?thesis using step True by simp
  next
    case False
    let ?u = "sh_show ?t (take m (stream_contents s))"
    have t: "sh_ok ?t" using sh_ok_set_stream[OF less.prems pop(1)] .
    have tt: "sh_term_ok sh" using less.prems by (simp add: sh_ok_iff)
    have u: "sh_ok ?u" using t by (rule sh_ok_show)
    have us: "sh_streams ?u ! idx = stream_pop s m" using len by simp
    have c: "0 \<le> st_count s" using ok by (simp add: stream_ok_def)
    have "m \<le> n" "0 < m" using False by (simp_all add: m_def)
    then have dec: "nat (st_count (stream_pop s m)) = n - m" "n - m < n" using c by (simp_all add: n_def)
    have "sh_drain idx ?u = Inr (drained idx ?u)"
      by (rule less.hyps[OF _ u]) (simp only: us dec(1), simp add: dec(2) flip: s_def n_def)
    moreover have "drained idx ?u = drained idx sh"
    proof -
      have "lf_limit s \<noteq> 0" using False by (simp add: m_def)
      moreover have "stream_pop (stream_pop s m) (n - m) = stream_pop s n"
        using \<open>m \<le> n\<close> by (simp add: stream_pop_pop)
      moreover have "sh_show ?u (drop m (stream_contents s)) = sh_show ?t (stream_contents s)"
        using sh_show_append[of ?t "take m (stream_contents s)" "drop m (stream_contents s)"] tt by simp
      ultimately show ?thesis
        using us dec(1) pop(2)
        by (simp add: drained_def Let_def sh_show_streams_update flip: s_def n_def)
    qed
    ultimately show ?thesis
      using step False render_list_ok[of ?t "take m (stream_contents s)"] tt by simp
  qed
qed

lemma drained_ok:
  assumes "sh_ok sh" "idx < 3"
  shows "sh_ok (drained idx sh)"
proof -
  let ?s = "sh_streams sh ! idx"
  have "stream_ok ?s" using sh_ok_stream[OF assms] .
  then have "stream_ok (stream_pop ?s (nat (st_count ?s)))"
    by (intro stream_pop_ok(1)) (simp_all add: stream_ok_def)
  from sh_ok_set_stream[OF sh_ok_show[OF assms(1)] this] assms(1) show ?thesis
    by (simp add: drained_def Let_def)
qed

section \<open>Lemmas: writing\<close>

lemma sh_render_ok:
  assumes "sh_ok sh"
  shows "sh_render sh = Inr ((drained STREAM_STDERR ((drained STREAM_STDOUT sh)\<lparr>sh_color := 0x04\<rparr>))
      \<lparr>sh_color := sh_color (drained STREAM_STDOUT sh)\<rparr>)"
    "\<exists>t. sh_render sh = Inr t \<and> sh_ok t"
proof -
  have 1: "sh_ok ((drained 1 sh)\<lparr>sh_color := 0x04\<rparr>)" using drained_ok[OF assms, of 1] by simp
  show "sh_render sh = Inr ((drained STREAM_STDERR ((drained STREAM_STDOUT sh)\<lparr>sh_color := 0x04\<rparr>))
      \<lparr>sh_color := sh_color (drained STREAM_STDOUT sh)\<rparr>)"
    using sh_drain_ok[OF assms, of 1] sh_drain_ok[OF 1, of 2] by (simp add: sh_render_def Let_def)
  then show "\<exists>t. sh_render sh = Inr t \<and> sh_ok t" using drained_ok[OF 1, of 2] by simp
qed

lemma sh_write_stream_invalid:
  "idx < 0 \<or> 3 \<le> idx \<Longrightarrow> sh_write_stream sh idx buf len = Inr (sh, -1)"
  by (simp add: sh_write_stream_def)

lemma sh_write_stream_valid:
  assumes "sh_ok sh" "0 \<le> idx" "idx < 3"
  shows "\<exists>s t. stream_write (sh_streams sh ! nat idx) buf len
        = Inr (s, int (nat (min len (1024 - st_count (sh_streams sh ! nat idx)))))
    \<and> stream_ok s
    \<and> sh_render (sh\<lparr>sh_color := 0x07, sh_streams := (sh_streams sh)[nat idx := s]\<rparr>) = Inr t
    \<and> sh_ok t
    \<and> sh_write_stream sh idx buf len
        = Inr (t, int (nat (min len (1024 - st_count (sh_streams sh ! nat idx)))))"
proof -
  have i: "nat idx < 3" "nat idx < length (sh_streams sh)"
    using assms by (simp_all add: sh_ok_iff)
  obtain s where s: "stream_write (sh_streams sh ! nat idx) buf len
      = Inr (s, int (nat (min len (1024 - st_count (sh_streams sh ! nat idx)))))" "stream_ok s"
    using stream_write_ok[OF sh_ok_stream[OF assms(1) i(1)]] by blast
  have "sh_ok (sh\<lparr>sh_color := 0x07, sh_streams := (sh_streams sh)[nat idx := s]\<rparr>)"
    using sh_ok_set_stream[of "sh\<lparr>sh_color := 0x07\<rparr>" s "nat idx"] assms(1) s(2) by simp
  from sh_render_ok(2)[OF this] s i assms(2,3) show ?thesis
    by (auto simp: sh_write_stream_def Let_def)
qed

lemma sh_write_stream_ok:
  assumes "sh_ok sh"
  shows "\<exists>t w. sh_write_stream sh idx buf len = Inr (t, w) \<and> sh_ok t"
proof (cases "idx < 0 \<or> 3 \<le> idx")
  case True
  with assms show ?thesis by (simp add: sh_write_stream_invalid)
next
  case False
  with sh_write_stream_valid[OF assms, of idx buf len] show ?thesis by fastforce
qed

section \<open>The interface: a character sink\<close>

text \<open>
  What the printing routines, and the interrupt handlers that use them, rely on: printing a
  character never faults and keeps the sink's invariant; if in addition each character moves an
  observable view by a fixed step, a text moves it by the fold of the steps.
\<close>

locale char_sink =
  fixes ok :: "'s \<Rightarrow> bool"
    and putc :: "'s \<Rightarrow> char \<Rightarrow> 's res"
  assumes putc_ok: "ok s \<Longrightarrow> \<exists>t. putc s c = Inr t \<and> ok t"
begin

lemma puts_ok: "ok s \<Longrightarrow> \<exists>t. rfold putc s cs = Inr t \<and> ok t"
  by (rule rfold_total[of ok]) (rule putc_ok)

end

locale viewed_sink = char_sink +
  fixes view :: "'s \<Rightarrow> 'v"
    and step :: "char \<Rightarrow> 'v \<Rightarrow> 'v"
  assumes putc_view: "ok s \<Longrightarrow> putc s c = Inr t \<Longrightarrow> view t = step c (view s)"
begin

lemma puts_view:
  assumes "ok s"
  shows "\<exists>t. rfold putc s cs = Inr t \<and> ok t \<and> view t = fold step cs (view s)"
  using assms
proof (induction cs arbitrary: s)
  case Nil
  then show ?case by simp
next
  case (Cons c cs)
  from putc_ok[OF Cons.prems] obtain u where u: "putc s c = Inr u" "ok u" by blast
  from Cons.IH[OF u(2)] u(1) putc_view[OF Cons.prems u(1)] show ?case by auto
qed

end

lemma sh_putc_ok: "sh_ok sh \<Longrightarrow> \<exists>t. sh_putc sh c = Inr t \<and> sh_ok t"
  using sh_write_stream_ok[of sh "int 1" "nth [c]" 1]
  by (fastforce simp: sh_putc_def sh_write_stdout_def)

interpretation shell_sink: char_sink sh_ok sh_putc
  by unfold_locales (rule sh_putc_ok)

section \<open>Specification: the console with its blocking defect\<close>

text \<open>
  All console output passes through stdout one character at a time. \<open>Live h\<close>: stdout is empty and
  the next character goes to slot \<open>h\<close>. \<open>Blocked\<close>: slot 0 holds an undelivered newline.
\<close>

datatype con_mode = Live nat | Blocked

type_synonym console = "nat \<times> (shell_char list \<times> nat) \<times> con_mode"

fun con_step :: "char \<Rightarrow> console \<Rightarrow> console" where
  "con_step c (W, scr, Blocked) = (W, scr, Blocked)"
| "con_step c (W, scr, Live h) =
     (if h = 0 \<and> c = LF then (W, scr, Blocked)
      else (W, term_char W 0x07 c scr, Live ((h + 1) mod 1024)))"

definition con_of :: "shell \<Rightarrow> console" where
  "con_of sh = (unat (sh_width sh), sh_screen sh,
     let s = sh_streams sh ! STREAM_STDOUT in if st_count s = 0 then Live (nat (st_head s)) else Blocked)"

definition con_ok :: "shell \<Rightarrow> bool" where
  "con_ok sh \<longleftrightarrow> sh_ok sh \<and> st_count (sh_streams sh ! STREAM_STDERR) = 0
     \<and> (let s = sh_streams sh ! STREAM_STDOUT in
          stream_wedged s \<or> st_count s = 0 \<and> (st_head s = 0 \<or> st_data s ! 0 \<noteq> LF))"

section \<open>Lemmas: the console\<close>

lemma drained_empty:
  assumes "sh_ok sh" "idx < 3" "st_count (sh_streams sh ! idx) = 0"
  shows "drained idx sh = sh"
proof -
  have "stream_contents (sh_streams sh ! idx) = []" using assms(3) by (simp flip: length_0_conv)
  moreover have "stream_pop (sh_streams sh ! idx) 0 = sh_streams sh ! idx"
    using sh_ok_stream[OF assms(1,2)] by (rule stream_pop_0)
  ultimately show ?thesis using assms(3) by (simp add: drained_def Let_def)
qed

lemma lf_limit_0_iff:
  assumes "stream_ok s"
  shows "lf_limit s = 0 \<longleftrightarrow> st_data s ! 0 = LF"
  using at_lf_limit[of 0 s] stream_ok_length[OF assms] by auto

text \<open>Rendering when stderr is empty: only stdout matters.\<close>

lemma sh_render_stdout:
  assumes "sh_ok sh" "st_count (sh_streams sh ! STREAM_STDERR) = 0"
  shows "sh_render sh = Inr (drained STREAM_STDOUT sh)"
proof -
  let ?d = "drained 1 sh"
  have d: "sh_ok (?d\<lparr>sh_color := 0x04\<rparr>)" using drained_ok[OF assms(1), of 1] by simp
  have "sh_streams ?d ! 2 = sh_streams sh ! 2" by (simp add: drained_def Let_def)
  with assms(2) drained_empty[OF d, of 2] have "drained 2 (?d\<lparr>sh_color := 0x04\<rparr>) = ?d\<lparr>sh_color := 0x04\<rparr>"
    by simp
  then show ?thesis using sh_render_ok(1)[OF assms(1)] by simp
qed

lemma sh_putc_eq:
  assumes "sh_ok sh" "st_count (sh_streams sh ! STREAM_STDERR) = 0"
    "stream_write (sh_streams sh ! STREAM_STDOUT) (nth [c]) 1 = Inr (s, n)" "stream_ok s"
  shows "sh_putc sh c = Inr (drained STREAM_STDOUT
    (sh\<lparr>sh_color := 0x07, sh_streams := (sh_streams sh)[STREAM_STDOUT := s]\<rparr>))"
proof -
  let ?t = "sh\<lparr>sh_color := 0x07, sh_streams := (sh_streams sh)[1 := s]\<rparr>"
  have len: "1 < length (sh_streams sh)" using assms(1) by (simp add: sh_ok_iff)
  have "sh_ok ?t" using sh_ok_set_stream[of "sh\<lparr>sh_color := 0x07\<rparr>" s 1] assms(1,4) by simp
  moreover have "st_count (sh_streams ?t ! 2) = 0" using assms(2) by simp
  ultimately have "sh_render ?t = Inr (drained 1 ?t)" by (rule sh_render_stdout)
  then show ?thesis
    using assms(3) len by (simp add: sh_putc_def sh_write_stdout_def sh_write_stream_def Let_def)
qed

lemma con_putc_blocked:
  assumes "con_ok sh" "stream_wedged (sh_streams sh ! STREAM_STDOUT)"
  shows "\<exists>t. sh_putc sh c = Inr t \<and> con_ok t \<and> con_of t = con_of sh \<and> sh_width t = sh_width sh
    \<and> sh_streams t ! STREAM_STDIN = sh_streams sh ! STREAM_STDIN"
proof -
  let ?s = "sh_streams sh ! 1"
  have ok: "sh_ok sh" "st_count (sh_streams sh ! 2) = 0" using assms(1) by (simp_all add: con_ok_def)
  have len: "1 < length (sh_streams sh)" using ok(1) by (simp add: sh_ok_iff)
  from wedged_write[OF assms(2)] obtain s n where
    w: "stream_write ?s (nth [c]) 1 = Inr (s, n)" "stream_wedged s" by blast
  then have sok: "stream_ok s" by (simp add: stream_wedged_def)
  let ?t = "sh\<lparr>sh_color := 0x07, sh_streams := (sh_streams sh)[1 := s]\<rparr>"
  have "drained 1 ?t = ?t" using wedged_limit[OF w(2)] len by (simp add: drained_def Let_def)
  then have "sh_putc sh c = Inr ?t" using sh_putc_eq[OF ok w(1) sok] by simp
  moreover have "sh_ok ?t" using sh_ok_set_stream[of "sh\<lparr>sh_color := 0x07\<rparr>" s 1] ok(1) sok by simp
  then have "con_ok ?t" using ok(2) w(2) len by (simp add: con_ok_def)
  moreover have "st_count s \<noteq> 0" "st_count ?s \<noteq> 0"
    using w(2) assms(2) by (auto simp: stream_wedged_def)
  then have "con_of ?t = con_of sh" using len by (simp add: con_of_def sh_screen_def)
  ultimately show ?thesis by simp
qed

lemma con_putc_live:
  assumes "con_ok sh" "st_count (sh_streams sh ! STREAM_STDOUT) = 0"
  shows "\<exists>t. sh_putc sh c = Inr t \<and> con_ok t \<and> con_of t = con_step c (con_of sh)
    \<and> sh_width t = sh_width sh \<and> sh_streams t ! STREAM_STDIN = sh_streams sh ! STREAM_STDIN"
proof -
  let ?s = "sh_streams sh ! 1" and ?h = "nat (st_head (sh_streams sh ! 1))"
  have ok: "sh_ok sh" "st_count (sh_streams sh ! 2) = 0" using assms(1) by (simp_all add: con_ok_def)
  have len: "1 < length (sh_streams sh)" using ok(1) by (simp add: sh_ok_iff)
  have sok: "stream_ok ?s" using sh_ok_stream[OF ok(1), of 1] by simp
  obtain s where s: "stream_put ?s c = Inr s" "stream_ok s" "st_count s = 1"
    "st_tail s = st_tail ?s" "st_data s = (st_data ?s)[?h := c]" "stream_contents s = [c]"
    using stream_put_ok[OF sok, of c] assms(2) by (auto simp: stream_contents_def)
  have w: "stream_write ?s (nth [c]) 1 = Inr (s, 1)"
    using s(1) assms(2) by (simp add: stream_write_def)
  have h: "0 \<le> st_head ?s" "st_head ?s < 1024" using stream_ok_head[OF sok] by simp_all
  have tail: "st_tail ?s = st_head ?s" using sok assms(2) by (simp add: stream_ok_def)
  let ?t = "sh\<lparr>sh_color := 0x07, sh_streams := (sh_streams sh)[1 := s]\<rparr>"
  have put: "sh_putc sh c = Inr (drained 1 ?t)" by (rule sh_putc_eq[OF ok w s(2)])
  have t: "sh_ok ?t" using sh_ok_set_stream[of "sh\<lparr>sh_color := 0x07\<rparr>" s 1] ok(1) s(2) by simp
  have slot0: "st_data s ! 0 = (if ?h = 0 then c else st_data ?s ! 0)"
    using s(5) stream_ok_length[OF sok] by simp
  show ?thesis
  proof (cases "?h = 0 \<and> c = LF")
    case True
    then have "lf_limit s = 0" using lf_limit_0_iff[OF s(2)] slot0 by simp
    then have d: "drained 1 ?t = ?t" using len by (simp add: drained_def Let_def)
    have "stream_wedged s" using s True tail slot0 by (simp add: stream_wedged_def)
    then have "con_ok ?t" using t ok(2) len by (simp add: con_ok_def)
    moreover have "con_of ?t = con_step c (con_of sh)"
      using True assms(2) s(3) len by (simp add: con_of_def sh_screen_def)
    ultimately show ?thesis using put d by simp
  next
    case False
    have ne: "st_data s ! 0 \<noteq> LF"
      using False slot0 assms h by (auto simp: con_ok_def stream_wedged_def)
    then have d: "drained 1 ?t = (sh_show ?t [c])\<lparr>sh_streams := (sh_streams sh)[1 := stream_pop s 1]\<rparr>"
      using lf_limit_0_iff[OF s(2)] len s(3,6) by (simp add: drained_def Let_def)
    have hd: "nat ((st_head ?s + 1) mod 1024) = (?h + 1) mod 1024"
      using h by (simp add: nat_mod_distrib nat_add_distrib)
    have pop: "st_head (stream_pop s 1) = (st_head ?s + 1) mod 1024" "st_count (stream_pop s 1) = 0"
      using s(2,3,4) tail by (simp_all add: stream_pop_def stream_ok_def)
    have strs: "sh_streams (drained 1 ?t) = (sh_streams sh)[1 := stream_pop s 1]"
      unfolding d by simp
    then have "con_ok (drained 1 ?t)"
      using drained_ok[OF t, of 1] ok(2) ne len pop(2) by (simp add: con_ok_def)
    moreover have "con_of (drained 1 ?t) = con_step c (con_of sh)"
    proof -
      have "sh_term_ok ?t" using t by (simp add: sh_ok_iff)
      from sh_render_char_ok(3)[OF this, of c]
      have "sh_screen (sh_show ?t [c]) = term_char (unat (sh_width sh)) 0x07 c (sh_screen sh)"
        by (simp add: sh_show_eq sh_screen_def)
      then show ?thesis
        unfolding d using False assms(2) len pop hd by (auto simp: con_of_def sh_screen_def)
    qed
    moreover have "sh_width (drained 1 ?t) = sh_width sh" unfolding d by simp
    ultimately show ?thesis using put strs by simp
  qed
qed

lemma con_putc:
  assumes "con_ok sh"
  shows "\<exists>t. sh_putc sh c = Inr t \<and> con_ok t \<and> con_of t = con_step c (con_of sh)
    \<and> sh_streams t ! STREAM_STDIN = sh_streams sh ! STREAM_STDIN"
proof (cases "st_count (sh_streams sh ! 1) = 0")
  case True
  with con_putc_live[OF assms, of c] show ?thesis by auto
next
  case False
  then have w: "stream_wedged (sh_streams sh ! 1)" using assms by (auto simp: con_ok_def)
  moreover obtain W scr where "con_of sh = (W, scr, Blocked)" using False by (simp add: con_of_def)
  ultimately show ?thesis using con_putc_blocked[OF assms w, of c] by auto
qed

interpretation console: viewed_sink con_ok sh_putc con_of con_step
proof unfold_locales
  fix s c assume "con_ok s"
  from con_putc[OF this, of c] show "\<exists>t. sh_putc s c = Inr t \<and> con_ok t" by blast
next
  fix s c t assume "con_ok s" "sh_putc s c = Inr t"
  with con_putc[OF this(1), of c] show "con_of t = con_step c (con_of s)" by auto
qed

section \<open>Lemmas: initialisation\<close>

lemma sh_clear_ok:
  "length (sh_memory sh) = unat (sh_size sh) \<Longrightarrow> sh_clear sh
    = Inr (sh\<lparr>sh_memory := replicate (unat (sh_size sh)) (mk_char CHR '' '' (sh_color sh)), sh_cursor := 0\<rparr>)"
  by (simp add: sh_clear_def rfold_fill)

lemma sh_init_ok:
  assumes "w \<noteq> 0" "n \<noteq> 0" "unat w dvd unat n" "unat n + unat w < 4294967296"
    "length mem = unat n" "length (sh_streams sh) = 3"
    "\<forall>s \<in> set (sh_streams sh). length (st_data s) = 1024"
  shows "\<exists>t. sh_init sh mem w n = Inr t \<and> con_ok t \<and> sh_width t = w \<and> sh_size t = n
    \<and> con_of t = (unat w, (replicate (unat n) (mk_char CHR '' '' 0x07), 0), Live 0)
    \<and> stream_contents (sh_streams t ! STREAM_STDIN) = [] \<and> st_head (sh_streams t ! STREAM_STDERR) = 0
    \<and> st_tail (sh_streams t ! STREAM_STDIN) = 0"
proof -
  obtain a b c where abc: "sh_streams sh = [a, b, c]"
    using assms(6) by (auto simp: numeral_3_eq_3 length_Suc_conv)
  let ?z = "\<lambda>s. s\<lparr>st_head := 0, st_tail := 0, st_count := 0 :: int\<rparr> :: stream"
  let ?ss = "[?z a, ?z b, ?z c]"
  have reset: "rfold (\<lambda>ss i. rbind (arr_get ss i) (\<lambda>s. arr_set ss i (?z s))) [a, b, c] [0..<3] = Inr ?ss"
    by (simp add: numeral_3_eq_3)
  let ?t0 = "sh\<lparr>sh_memory := mem, sh_width := w, sh_height := n div w, sh_size := n,
    sh_color := 0x07, sh_cursor := 0, sh_streams := ?ss\<rparr>"
  let ?t = "?t0\<lparr>sh_memory := replicate (unat n) (mk_char CHR '' '' 0x07), sh_cursor := 0\<rparr>"
  have "sh_init sh mem w n = Inr ?t"
    using assms(1,5) reset by (simp add: sh_init_def abc sh_clear_ok)
  moreover have z: "stream_ok (?z s)" if "length (st_data s) = 1024" for s
    using that by (simp add: stream_ok_def)
  have "sh_geom ?t"
  proof -
    have "unat w \<le> unat n" using assms(2,3) by (simp add: dvd_imp_le unat_gt_0)
    then have "n div w \<noteq> 0" using assms(1)
      by (metis div_greater_zero_iff unat_0 unat_div unat_gt_0 less_irrefl)
    then show ?thesis using assms(1,3,4) by (simp add: sh_geom_def unat_div)
  qed
  then have "sh_ok ?t"
    using assms(2,7) z by (auto simp: sh_ok_def abc word_less_nat_alt unat_gt_0)
  then have "con_ok ?t" by (simp add: con_ok_def)
  ultimately show ?thesis by (auto simp: con_of_def sh_screen_def stream_contents_def)
qed

section \<open>Specification: numbers and formats as text\<close>

fun nat_digits :: "nat \<Rightarrow> nat \<Rightarrow> nat list" where
  "nat_digits b n = (if b < 2 \<or> n < b then [n] else nat_digits b (n div b) @ [n mod b])"

declare nat_digits.simps [simp del]

definition nat_text :: "nat \<Rightarrow> nat \<Rightarrow> char list" where
  "nat_text b n = map ((!) ''0123456789abcdef'') (nat_digits b n)"

definition int_text :: "u32 \<Rightarrow> nat \<Rightarrow> char list" where
  "int_text v b = (if b = 10 \<and> to_int v < 0 then CHR ''-'' # nat_text b (unat (- v))
     else nat_text b (unat v))"

fun conv_text :: "char \<Rightarrow> va_arg list \<Rightarrow> (char list \<times> va_arg list) res" where
  "conv_text c args =
     (if c = CHR ''s'' then (case args of
        VStr s # rest \<Rightarrow> Inr (cstr (case s of None \<Rightarrow> ''(null)'' | Some x \<Rightarrow> x), rest) | _ \<Rightarrow> Inl Bad_Varargs)
      else if c = CHR ''d'' \<or> c = CHR ''u'' then (case args of
        VInt d # rest \<Rightarrow> Inr (int_text d 10, rest) | _ \<Rightarrow> Inl Bad_Varargs)
      else if c = CHR ''x'' then (case args of
        VInt x # rest \<Rightarrow> Inr (int_text x 16, rest) | _ \<Rightarrow> Inl Bad_Varargs)
      else if c = CHR ''p'' then (case args of
        VPtr p # rest \<Rightarrow> Inr (''0x'' @ int_text p 16, rest) | _ \<Rightarrow> Inl Bad_Varargs)
      else if c = CHR ''c'' then (case args of
        VInt x # rest \<Rightarrow> Inr ([to_char (ucast x)], rest) | _ \<Rightarrow> Inl Bad_Varargs)
      else if c = CHR ''%'' then Inr (''%'', args)
      else Inr ([CHR ''%'', c], args))"

fun fmt_text :: "char list \<Rightarrow> va_arg list \<Rightarrow> char list res" where
  "fmt_text [] args = Inr []"
| "fmt_text [c] args = (if c = CHR ''%'' then Inl Index_Out_Of_Bounds else Inr [c])"
| "fmt_text (c # d # fmt) args =
     (if c = CHR ''%'' then rbind (conv_text d args) (\<lambda>(t, rest).
        rbind (fmt_text fmt rest) (\<lambda>u. Inr (t @ u)))
      else rbind (fmt_text (d # fmt) args) (\<lambda>u. Inr (c # u)))"

section \<open>Lemmas: numbers and formats\<close>

lemma nat_digits_bound: "2 \<le> b \<Longrightarrow> \<forall>d \<in> set (nat_digits b n). d < b"
proof (induction b n rule: nat_digits.induct)
  case (1 b n)
  then show ?case by (subst nat_digits.simps) auto
qed

lemma nat_digits_value:
  "2 \<le> b \<Longrightarrow> foldl (\<lambda>a d. a * b + d) 0 (nat_digits b n) = n"
proof (induction b n rule: nat_digits.induct)
  case (1 b n)
  then show ?case by (subst nat_digits.simps) auto
qed

lemma digits_loop_text:
  assumes "2 \<le> unat base" "unat base \<le> 16"
  shows "u \<noteq> 0 \<Longrightarrow> unat u < unat base ^ k \<Longrightarrow>
    digits_loop k u base buf = Inr (buf @ rev (nat_text (unat base) (unat u)))"
proof (induction k arbitrary: u buf)
  case 0
  then show ?case by (auto simp: unat_eq_iff32)
next
  case (Suc k)
  let ?b = "unat base"
  let ?d = "unat u mod ?b"
  have nz: "base \<noteq> 0" using assms(1) by auto
  have d: "?d < 16" using assms by (auto intro: less_le_trans[OF mod_less_divisor])
  have chr: "arr_get digit_chars ?d = Inr (''0123456789abcdef'' ! ?d)"
  proof -
    have "arr_get digit_chars ?d = Inr (digit_chars ! ?d)"
      using d by (intro arr_get_in) (simp add: digit_chars_def)
    moreover have "digit_chars ! ?d = ''0123456789abcdef'' ! ?d"
      unfolding digit_chars_def using d by (subst nth_append) simp
    ultimately show ?thesis by simp
  qed
  have step: "digits_loop (Suc k) u base buf
      = digits_loop k (u div base) base (buf @ [''0123456789abcdef'' ! ?d])"
    using Suc.prems(1) nz chr by (simp add: unat_mod)
  show ?case
  proof (cases "unat u < ?b")
    case True
    then have q: "u div base = 0" by (simp add: word_div_def[symmetric] unat_div unat_eq_iff32)
    have z: "digits_loop k 0 base xs = Inr xs" for xs by (cases k) simp_all
    have "nat_digits ?b (unat u) = [unat u]" using True by (subst nat_digits.simps) simp
    with True step q z show ?thesis by (simp add: nat_text_def)
  next
    case False
    have ge: "?b \<le> unat u" using False by simp
    then have q: "u div base \<noteq> 0"
      using assms(1) by (simp add: unat_eq_iff32 unat_div div_eq_0_iff)
    have "unat (u div base) < ?b ^ k"
      using Suc.prems(2) assms(1) by (simp add: unat_div less_mult_imp_div_less mult.commute)
    from Suc.IH[OF q this] have "digits_loop (Suc k) u base buf
        = Inr (buf @ [''0123456789abcdef'' ! ?d] @ rev (nat_text ?b (unat u div ?b)))"
      using step by (simp add: unat_div)
    moreover have "nat_digits ?b (unat u) = nat_digits ?b (unat u div ?b) @ [?d]"
      using False assms(1) by (subst nat_digits.simps) simp
    ultimately show ?thesis by (simp add: nat_text_def)
  qed
qed

text \<open>Every number fits into the 31 digits the buffer has room for, in every base from 3 on.\<close>

lemma sh_putint_text:
  assumes "3 \<le> unat base" "unat base \<le> 16"
  shows "sh_putint sh v base = rfold sh_putc sh (int_text v (unat base))"
proof -
  let ?b = "unat base"
  have "(3 :: nat) ^ 31 \<le> ?b ^ 31" using assms(1) by (intro power_mono) simp_all
  then have "4294967296 \<le> ?b ^ 31" by simp
  then have fits: "unat u < ?b ^ 31" for u :: u32 by (rule less_le_trans[OF unat_lt_32])
  have nz: "nat_text ?b 0 = ''0''"
    using assms(1) by (simp add: nat_text_def nat_digits.simps)
  have ten: "?b = 10 \<longleftrightarrow> base = 10" by (simp add: unat_eq_iff32)
  have pos: "(if u = 0 then sh_putc t CHR ''0''
      else rbind (digits_loop 31 u base []) (\<lambda>buffer. rfold sh_putc t (rev buffer)))
      = rfold sh_putc t (nat_text ?b (unat u))" for t u
  proof (cases "u = 0")
    case True
    then show ?thesis using nz by (cases "sh_putc t CHR ''0''") simp_all
  next
    case False
    then show ?thesis using digits_loop_text[of base u 31 "[]"] assms fits[of u] by simp
  qed
  show ?thesis
    unfolding sh_putint_def int_text_def ten
    using pos by (cases "sh_putc sh CHR ''-''") (auto simp: rbind_def)
qed

lemma sh_convert_text:
  assumes "conv_text c args = Inr (cs, rest)"
  shows "sh_convert sh c args = rbind (rfold sh_putc sh cs) (\<lambda>t. Inr (t, rest))"
proof -
  have n10: "sh_putint t v 10 = rfold sh_putc t (int_text v 10)" for t v
    using sh_putint_text[of 10 t v] by simp
  have n16: "sh_putint t v 16 = rfold sh_putc t (int_text v 16)" for t v
    using sh_putint_text[of 16 t v] by simp
  have x: "sh_puts t ''0x'' = rfold sh_putc t ''0x''" for t by (simp add: sh_puts_def cstr_def)
  show ?thesis
    using assms
    by (auto simp: sh_convert_def sh_puts_def[symmetric] n10 n16 x rbind_assoc
        split: if_splits list.splits va_arg.splits option.splits)
qed

lemma sh_printf_text:
  "fmt_text fmt args = Inr cs \<Longrightarrow> sh_printf sh fmt args = rfold sh_putc sh cs"
proof (induction fmt args arbitrary: sh cs rule: fmt_text.induct)
  case (1 args)
  then show ?case by simp
next
  case (2 c args)
  then show ?case by (cases "sh_putc sh c") (auto split: if_splits)
next
  case (3 c d fmt args)
  show ?case
  proof (cases "c = CHR ''%''")
    case True
    with 3(3) obtain t rest u where t: "conv_text d args = Inr (t, rest)"
      "fmt_text fmt rest = Inr u" "cs = t @ u" by (auto simp: res_iff)
    have IH: "sh_printf sh' fmt rest = rfold sh_putc sh' u" for sh'
      by (rule 3(1)[OF True t(1) refl t(2)])
    show ?thesis
      using True sh_convert_text[OF t(1)] IH by (simp add: t(3) rfold_append rbind_assoc)
  next
    case False
    with 3(3) obtain u where u: "fmt_text (d # fmt) args = Inr u" "cs = c # u"
      by (auto simp: res_iff)
    then show ?thesis using 3(2)[OF False u(1)] False by simp
  qed
qed

lemma console_of_blocked: "fold con_step cs (W, scr, Blocked) = (W, scr, Blocked)"
  by (induction cs) simp_all

lemma nat_text_nonempty: "nat_text b n \<noteq> []"
  by (simp add: nat_text_def nat_digits.simps)

lemma conv_text_Inl:
  assumes "conv_text c args = Inl e"
  shows "sh_convert sh c args = Inl e"
  using assms by (auto simp: sh_convert_def split: if_splits list.splits va_arg.splits option.splits)

text \<open>A format that cannot be rendered ends in that fault, after the text before it was printed.\<close>

lemma sh_printf_Inl:
  "con_ok sh \<Longrightarrow> fmt_text fmt args = Inl e \<Longrightarrow> sh_printf sh fmt args = Inl e"
proof (induction fmt args arbitrary: sh rule: fmt_text.induct)
  case (1 args)
  then show ?case by simp
next
  case (2 c args)
  then have "c = CHR ''%''" "e = Index_Out_Of_Bounds" by (simp_all split: if_splits)
  moreover have "conv_text NUL args = Inr ([CHR ''%'', NUL], args)" by simp
  from sh_convert_text[OF this, of sh] console.puts_ok[OF 2(1), of "[CHR ''%'', NUL]"]
  have "\<exists>t. sh_convert sh NUL args = Inr (t, args)" by auto
  ultimately show ?case by auto
next
  case (3 c d fmt args)
  show ?case
  proof (cases "c = CHR ''%''")
    case True
    show ?thesis
    proof (cases "conv_text d args")
      case (Inl e')
      with True 3(4) conv_text_Inl[OF Inl, of sh] show ?thesis by simp
    next
      case (Inr p)
      obtain t rest where p: "p = (t, rest)" by force
      with True Inr 3(4) have "fmt_text fmt rest = Inl e" by (auto simp: rbind_eq_Inl)
      moreover obtain u where "rfold sh_putc sh t = Inr u" "con_ok u"
        using console.puts_ok[OF 3(3)] by blast
      moreover from calculation have "sh_printf u fmt rest = Inl e"
        using 3(1)[OF True Inr p[symmetric]] p by simp
      ultimately show ?thesis
        using True Inr p sh_convert_text[of d args t rest sh] by simp
    qed
  next
    case False
    with 3(4) have f: "fmt_text (d # fmt) args = Inl e" by (auto simp: rbind_eq_Inl)
    obtain u where u: "sh_putc sh c = Inr u" "con_ok u" using con_putc[OF 3(3), of c] by blast
    with 3(2)[OF False u(2) f] False show ?thesis by simp
  qed
qed

section \<open>Properties\<close>

text \<open>The shell a caller hands to \<open>sh_init\<close>, and a text buffer of \<open>n\<close> cells.\<close>

definition sh_raw :: shell where
  "sh_raw = \<lparr>sh_memory = [], sh_size = 0, sh_cursor = 0, sh_width = 0, sh_height = 0, sh_color = 0,
     sh_streams = replicate 3 \<lparr>st_data = replicate 1024 NUL, st_head = 7, st_tail = 9, st_count = 5\<rparr>\<rparr>"

definition blank_cells :: "nat \<Rightarrow> shell_char list" where
  "blank_cells n = replicate n (mk_char CHR '' '' 0x07)"

lemma sh_raw_init:
  assumes "w \<noteq> 0" "n \<noteq> 0" "unat w dvd unat n" "unat n + unat w < 4294967296"
  shows "\<exists>sh. sh_init sh_raw (blank_cells (unat n)) w n = Inr sh \<and> con_ok sh \<and> sh_width sh = w
    \<and> con_of sh = (unat w, (blank_cells (unat n), 0), Live 0)"
  using sh_init_ok[of w n "blank_cells (unat n)" sh_raw] assms
  by (auto simp: sh_raw_def blank_cells_def)

text \<open>Initialisation. On a text buffer with a whole number of lines, \<open>sh_init\<close> succeeds from any
  uninitialised shell, whatever its streams held: the screen is blank, the cursor is at the top
  left, all streams are empty and every invariant of the console holds.\<close>

theorem sh_init_establishes:
  assumes "w \<noteq> 0" "n \<noteq> 0" "unat w dvd unat n" "unat n + unat w < 4294967296"
    "length mem = unat n" "length (sh_streams sh) = 3"
    "\<forall>s \<in> set (sh_streams sh). length (st_data s) = 1024"
  shows "\<exists>t. sh_init sh mem w n = Inr t \<and> con_ok t
    \<and> con_of t = (unat w, (replicate (unat n) (mk_char CHR '' '' 0x07), 0), Live 0)
    \<and> stream_contents (sh_streams t ! STREAM_STDIN) = []"
  using sh_init_ok[OF assms] by blast

theorem sh_init_establishes_witness:
  "\<exists>t. sh_init sh_raw (replicate 2000 (mk_char CHR ''x'' 0x10)) 80 2000 = Inr t \<and> con_ok t
    \<and> con_of t = (80, (replicate 2000 (mk_char CHR '' '' 0x07), 0), Live 0)"
  using sh_init_establishes[of 80 2000 "replicate 2000 (mk_char CHR ''x'' 0x10)" sh_raw]
  by (auto simp: sh_raw_def)

text \<open>Writing to any stream is safe. From a well-formed shell \<open>sh_write_stream\<close> terminates
  without an out-of-bounds access, whatever the stream index, the bytes and the length: an index
  that names no stream changes nothing and returns -1, a valid one returns the number of bytes
  that went into the stream, and the shell stays well-formed (its cursor inside the text buffer).\<close>

theorem sh_write_stream_safe:
  assumes "sh_ok sh"
  shows "if idx < 0 \<or> 3 \<le> idx then sh_write_stream sh idx buf len = Inr (sh, -1)
    else \<exists>t. sh_write_stream sh idx buf len
        = Inr (t, max 0 (min len (1024 - st_count (sh_streams sh ! nat idx)))) \<and> sh_ok t"
proof (cases "idx < 0 \<or> 3 \<le> idx")
  case True
  then show ?thesis by (simp add: sh_write_stream_invalid)
next
  case False
  have "int (nat x) = max 0 x" for x by simp
  with False sh_write_stream_valid[OF assms, of idx buf len] show ?thesis by auto
qed

theorem sh_write_stream_safe_witness:
  "\<exists>sh t w. sh_init sh_raw (blank_cells 8) 4 8 = Inr sh
    \<and> sh_write_stream sh 2 (nth ''err'') 3 = Inr (t, w) \<and> sh_ok t"
proof -
  from sh_raw_init[of 4 8] obtain sh where sh: "sh_init sh_raw (blank_cells 8) 4 8 = Inr sh"
    "con_ok sh" by auto
  then have "sh_ok sh" by (simp add: con_ok_def)
  from sh_write_stream_safe[OF this, of 2 "nth ''err''" 3] sh(1) show ?thesis by auto
qed

text \<open>C15: printing drives the terminal. \<open>sh_puts\<close> sends every character of the string, one by one,
  through the ring buffer and the renderer, and the observable console (cells, cursor, state of
  stdout) ends up exactly where the abstract console's step function takes it: carriage return,
  newline, wrap-around at the right margin and scrolling included.\<close>

theorem sh_puts_refines:
  assumes "con_ok sh"
  shows "\<exists>t. sh_puts sh str = Inr t \<and> con_ok t
    \<and> con_of t = fold con_step (takeWhile (\<lambda>c. c \<noteq> NUL) str) (con_of sh)"
  using console.puts_view[OF assms, of "cstr str"] by (simp add: sh_puts_def cstr_def)

lemma small_screen_demo:
  "fold con_step (''abcde'' @ [LF, CHR ''f'']) (4, (blank_cells 8, 0), Live 0)
    = (4, (map (\<lambda>c. mk_char c 0x07) ''e   f   '', 5), Live 7)"
  by code_simp

text \<open>A screen of two lines of four columns; the fifth character opens the second line and the
  newline scrolls.\<close>

theorem sh_puts_refines_witness:
  "\<exists>sh t. sh_init sh_raw (blank_cells 8) 4 8 = Inr sh \<and> sh_puts sh (''abcde'' @ [LF, CHR ''f'']) = Inr t
    \<and> map sc_character (sh_memory t) = ''e   f   '' \<and> sh_cursor t = 5"
proof -
  from sh_raw_init[of 4 8] obtain sh where sh: "sh_init sh_raw (blank_cells 8) 4 8 = Inr sh"
    "con_ok sh" "con_of sh = (4, (blank_cells 8, 0), Live 0)" by auto
  from sh_puts_refines[OF sh(2), of "''abcde'' @ [LF, CHR ''f'']"] sh(3) obtain t where
    t: "sh_puts sh (''abcde'' @ [LF, CHR ''f'']) = Inr t"
      "con_of t = fold con_step (''abcde'' @ [LF, CHR ''f'']) (4, (blank_cells 8, 0), Live 0)"
    by auto
  from t(2) have "sh_memory t = map (\<lambda>c. mk_char c 0x07) ''e   f   ''" "unat (sh_cursor t) = 5"
    unfolding small_screen_demo by (simp_all add: con_of_def sh_screen_def)
  then have "map sc_character (sh_memory t) = ''e   f   ''" "unat (sh_cursor t) = 5"
    by (simp_all add: mk_char_def)
  then have "sh_cursor t = 5" by (simp add: unat_eq_iff32)
  with sh(1) t(1) \<open>map sc_character (sh_memory t) = ''e   f   ''\<close> show ?thesis
    by (intro exI conjI)
qed

text \<open>A newline in slot 0 and the strings behind it. When the output stream's write index is 0 (right
  after initialisation, and after every 1024 characters) and the next character is a newline, it
  is never rendered, and no string that \<open>sh_puts\<close> prints later changes a cell or moves the cursor.\<close>

theorem console_newline_blocks:
  assumes "con_ok sh" "con_of sh = (W, scr, Live 0)"
  shows "\<exists>t. sh_putc sh LF = Inr t \<and> con_of t = (W, scr, Blocked)
    \<and> (\<forall>strs. \<exists>u. rfold sh_puts t strs = Inr u \<and> con_of u = (W, scr, Blocked))"
proof -
  obtain t where t: "sh_putc sh LF = Inr t" "con_ok t" "con_of t = (W, scr, Blocked)"
    using con_putc[OF assms(1), of LF] assms(2) by auto
  have "\<exists>u. rfold sh_puts t strs = Inr u \<and> con_ok u \<and> con_of u = (W, scr, Blocked)" for strs
  proof (rule rfold_total)
    show "con_ok t \<and> con_of t = (W, scr, Blocked)" using t by simp
  next
    fix s str assume "con_ok s \<and> con_of s = (W, scr, Blocked)"
    then show "\<exists>t. sh_puts s str = Inr t \<and> con_ok t \<and> con_of t = (W, scr, Blocked)"
      using console.puts_view[of s "cstr str"] by (auto simp: sh_puts_def console_of_blocked)
  qed
  with t(1,3) show ?thesis by blast
qed

theorem console_newline_blocks_witness:
  "\<exists>sh t u. sh_init sh_raw (blank_cells 8) 4 8 = Inr sh \<and> sh_putc sh LF = Inr t
    \<and> rfold sh_puts t [''lost'', ''too''] = Inr u \<and> sh_screen u = (blank_cells 8, 0)"
proof -
  from sh_raw_init[of 4 8] obtain sh where sh: "sh_init sh_raw (blank_cells 8) 4 8 = Inr sh"
    "con_ok sh" "con_of sh = (4, (blank_cells 8, 0), Live 0)" by auto
  from console_newline_blocks[OF sh(2,3)] obtain t where t: "sh_putc sh LF = Inr t"
    "\<forall>strs. \<exists>u. rfold sh_puts t strs = Inr u \<and> con_of u = (4, (blank_cells 8, 0), Blocked)" by auto
  from t(2)[rule_format, of "[''lost'', ''too'']"] sh(1) t(1) show ?thesis
    by (auto simp: con_of_def)
qed

text \<open>The number a text denotes: an optional minus sign and digits in base \<open>b\<close>.\<close>

definition digit_value :: "char \<Rightarrow> nat" where
  "digit_value c = (if c \<in> set ''abcdef'' then of_char c - 87 else of_char c - 48)"

definition text_value :: "nat \<Rightarrow> char list \<Rightarrow> int" where
  "text_value b cs =
     (let mag = (\<lambda>ds. int (foldl (\<lambda>a c. a * b + digit_value c) 0 ds)) in
      case cs of c # ds \<Rightarrow> if c = CHR ''-'' then - mag ds else mag cs | [] \<Rightarrow> 0)"

lemma digit_value_nth:
  assumes "d < 16"
  shows "digit_value (''0123456789abcdef'' ! d) = d" "''0123456789abcdef'' ! d \<noteq> CHR ''-''"
proof -
  have "\<forall>d \<in> set [0..<16]. digit_value (''0123456789abcdef'' ! d) = d
    \<and> ''0123456789abcdef'' ! d \<noteq> CHR ''-''" by code_simp
  with assms show "digit_value (''0123456789abcdef'' ! d) = d" "''0123456789abcdef'' ! d \<noteq> CHR ''-''"
    by simp_all
qed

lemma foldl_digits:
  assumes "\<forall>d \<in> set ds. d < 16"
  shows "foldl (\<lambda>a c. a * b + digit_value c) z (map ((!) ''0123456789abcdef'') ds)
    = foldl (\<lambda>a d. a * b + d) z ds"
  using assms by (induction ds arbitrary: z) (simp_all add: digit_value_nth(1))

lemma nat_text_value:
  assumes "2 \<le> b" "b \<le> 16"
  shows "foldl (\<lambda>a c. a * b + digit_value c) 0 (nat_text b n) = n" "hd (nat_text b n) \<noteq> CHR ''-''"
proof -
  have lt: "\<forall>d \<in> set (nat_digits b n). d < 16"
    using nat_digits_bound[OF assms(1), of n] assms(2) by auto
  then show "foldl (\<lambda>a c. a * b + digit_value c) 0 (nat_text b n) = n"
    unfolding nat_text_def using nat_digits_value[OF assms(1)] by (simp add: foldl_digits)
  have "nat_digits b n \<noteq> []" by (simp add: nat_digits.simps)
  then show "hd (nat_text b n) \<noteq> CHR ''-''"
    using lt digit_value_nth(2) by (simp add: nat_text_def hd_map)
qed

lemma int_text_value:
  assumes "2 \<le> b" "b \<le> 16"
  shows "text_value b (int_text v b) = (if b = 10 then to_int v else int (unat v))"
proof -
  have pos: "text_value b (nat_text b n) = int n" for n
    using nat_text_value[OF assms, of n] nat_text_nonempty[of b n]
    by (auto simp: text_value_def split: list.split)
  have neg: "unat (- v) = 4294967296 - unat v" if "to_int v < 0"
    using that by (intro unat_uminus32) (auto simp: to_int_def)
  show ?thesis
  proof (cases "b = 10 \<and> to_int v < 0")
    case True
    then have "text_value b (int_text v b) = - int (unat (- v))"
      using nat_text_value(1)[OF assms, of "unat (- v)"] by (simp add: int_text_def text_value_def)
    also have "\<dots> = to_int v"
    proof -
      have "unat (- v) + unat v = 4294967296" using True neg unat_lt_32[of v] by linarith
      moreover have "to_int v = int (unat v) - 4294967296" using True by (auto simp: to_int_def)
      ultimately show ?thesis by linarith
    qed
    finally show ?thesis using True by simp
  next
    case False
    moreover have "\<not> to_int v < 0 \<Longrightarrow> to_int v = int (unat v)"
      using to_int_large[of v] to_int_small[of v] by linarith
    ultimately show ?thesis using pos by (auto simp: int_text_def)
  qed
qed

text \<open>Printed numbers read back. In base 10 and 16 (indeed every base from 3 to 16)
  \<open>sh_putint\<close> prints a text that denotes its argument: the signed value in base 10, the unsigned
  one otherwise, \<open>INT_MIN\<close> included; the 32-byte digit buffer is never overrun and the digit table
  never indexed outside.\<close>

theorem sh_putint_denotes:
  assumes "con_ok sh" "3 \<le> unat base" "unat base \<le> 16"
  shows "\<exists>t cs. sh_putint sh v base = Inr t \<and> con_of t = fold con_step cs (con_of sh)
    \<and> text_value (unat base) cs = (if base = 10 then to_int v else uint v)"
proof -
  have "2 \<le> unat base" using assms(2) by simp
  note denotes = int_text_value[OF this assms(3), of v]
  from console.puts_view[OF assms(1), of "int_text v (unat base)"] obtain t where
    "rfold sh_putc sh (int_text v (unat base)) = Inr t"
    "con_of t = fold con_step (int_text v (unat base)) (con_of sh)" by blast
  moreover have "unat base = 10 \<longleftrightarrow> base = 10" by (simp add: unat_eq_iff32)
  ultimately show ?thesis using sh_putint_text[OF assms(2,3)] denotes by auto
qed

theorem sh_putint_denotes_witness:
  "\<exists>sh t cs. sh_init sh_raw (blank_cells 2000) 80 2000 = Inr sh
    \<and> sh_putint sh 0x80000000 10 = Inr t \<and> text_value 10 cs = - 2147483648
    \<and> con_of t = fold con_step cs (80, (blank_cells 2000, 0), Live 0)"
proof -
  from sh_raw_init[of 80 2000] obtain sh where sh:
    "sh_init sh_raw (blank_cells 2000) 80 2000 = Inr sh" "con_ok sh"
    "con_of sh = (80, (blank_cells 2000, 0), Live 0)" by auto
  from sh_putint_denotes[OF sh(2), of 10 "0x80000000"] sh(1,3) show ?thesis
    by (auto simp: to_int_def)
qed

text \<open>C18: formatted output, completely. Whether \<open>sh_printf\<close> succeeds depends on the format and the
  arguments alone: if they render to a text, exactly that text drives the console; if they do not
  (an argument is missing or of the wrong kind, or the format ends in a lone percent sign, behind
  which the code reads past the terminator), the run ends in that fault.\<close>

theorem sh_printf_refines:
  assumes "con_ok sh"
  shows "case fmt_text fmt args of
      Inl e \<Rightarrow> sh_printf sh fmt args = Inl e
    | Inr cs \<Rightarrow> \<exists>t. sh_printf sh fmt args = Inr t \<and> con_ok t
        \<and> con_of t = fold con_step cs (con_of sh)"
proof (cases "fmt_text fmt args")
  case (Inl e)
  then show ?thesis using sh_printf_Inl[OF assms Inl] by simp
next
  case (Inr cs)
  then show ?thesis using sh_printf_text[OF Inr] console.puts_view[OF assms, of cs] by simp
qed

lemma demo_format:
  "fmt_text ''%s=%d %x%%'' [VStr (Some ''n''), VInt (- 5), VInt 255] = Inr ''n=-5 ff%''"
  "fmt_text ''100%'' [] = Inl Index_Out_Of_Bounds"
  by (simp_all add: int_text_def nat_text_def nat_digits.simps to_int_def cstr_def)

theorem sh_printf_refines_witness:
  "\<exists>sh t. sh_init sh_raw (blank_cells 2000) 80 2000 = Inr sh
    \<and> sh_printf sh ''%s=%d %x%%'' [VStr (Some ''n''), VInt (- 5), VInt 255] = Inr t
    \<and> con_of t = fold con_step ''n=-5 ff%'' (80, (blank_cells 2000, 0), Live 0)
    \<and> sh_printf sh ''100%'' [] = Inl Index_Out_Of_Bounds"
proof -
  from sh_raw_init[of 80 2000] obtain sh where sh:
    "sh_init sh_raw (blank_cells 2000) 80 2000 = Inr sh" "con_ok sh"
    "con_of sh = (80, (blank_cells 2000, 0), Live 0)" by auto
  from sh_printf_refines[OF sh(2), of "''100%''" "[]"]
  have "sh_printf sh ''100%'' [] = Inl Index_Out_Of_Bounds" unfolding demo_format by simp
  moreover from sh_printf_refines[OF sh(2),
      of "''%s=%d %x%%''" "[VStr (Some ''n''), VInt (- 5), VInt 255]"]
  obtain t where "sh_printf sh ''%s=%d %x%%'' [VStr (Some ''n''), VInt (- 5), VInt 255] = Inr t"
    "con_of t = fold con_step ''n=-5 ff%'' (con_of sh)" unfolding demo_format by auto
  ultimately show ?thesis using sh(1,3) by (intro exI conjI) simp_all
qed

text \<open>Unsigned conversions print negative numbers. For every value from \<open>2 ^ 31\<close> on, \<open>%u\<close>
  starts with a minus sign (the code sends it through the signed printer), so it prints exactly
  what \<open>%d\<close> prints.\<close>

theorem sh_printf_unsigned_negative:
  assumes "con_ok sh" "0x80000000 \<le> v"
  shows "\<exists>t cs. sh_printf sh ''%u'' [VInt v] = Inr t
    \<and> con_of t = fold con_step (CHR ''-'' # cs) (con_of sh)
    \<and> sh_printf sh ''%d'' [VInt v] = Inr t"
proof -
  have "2147483648 \<le> unat v" using assms(2) by (simp add: word_le_nat_alt)
  then have neg: "to_int v < 0" by (rule to_int_large)
  let ?cs = "nat_text 10 (unat (- v))"
  have "fmt_text ''%u'' [VInt v] = Inr (CHR ''-'' # ?cs)"
    "fmt_text ''%d'' [VInt v] = Inr (CHR ''-'' # ?cs)"
    using neg by (simp_all add: int_text_def)
  note eqs = this[THEN sh_printf_text]
  show ?thesis
    unfolding eqs using console.puts_view[OF assms(1), of "CHR ''-'' # ?cs"] by blast
qed

theorem sh_printf_unsigned_negative_witness:
  "\<exists>sh t cs. sh_init sh_raw (blank_cells 2000) 80 2000 = Inr sh
    \<and> sh_printf sh ''%u'' [VInt 0xC0000000] = Inr t
    \<and> con_of t = fold con_step (CHR ''-'' # cs) (80, (blank_cells 2000, 0), Live 0)"
proof -
  from sh_raw_init[of 80 2000] obtain sh where sh:
    "sh_init sh_raw (blank_cells 2000) 80 2000 = Inr sh" "con_ok sh"
    "con_of sh = (80, (blank_cells 2000, 0), Live 0)" by auto
  have "(0x80000000 :: u32) \<le> 0xC0000000" by (simp add: word_le_nat_alt)
  from sh_printf_unsigned_negative[OF sh(2) this] sh(1,3) show ?thesis by auto
qed

end
