(* ===== verification/Memory.thy ===== *)
theory Memory
  imports Prelude
begin

text \<open>
  The flat 32-bit address space. The kernel never turns paging on and both its segments start at
  address 0 with a 4 GiB limit, so a pointer is a physical address and every address can be read
  and written. Memory is a total function from addresses to bytes; address arithmetic wraps.

  Besides the little-endian loads the C compiler emits for fields of packed structs, this theory
  holds the kernel's own copy and fill loops (\<open>kpmemcpy\<close>, \<open>kpmemset\<close> of ext2.c) and what they do
  to each byte of memory.
\<close>

type_synonym memory = "u32 \<Rightarrow> u8"

definition load8 :: "memory \<Rightarrow> u32 \<Rightarrow> u8" where
  "load8 m a = m a"

definition load16 :: "memory \<Rightarrow> u32 \<Rightarrow> u16" where
  "load16 m a = ucast (m a) OR push_bit 8 (ucast (m (a + 1)))"

definition load32 :: "memory \<Rightarrow> u32 \<Rightarrow> u32" where
  "load32 m a = ucast (m a) OR push_bit 8 (ucast (m (a + 1)))
     OR push_bit 16 (ucast (m (a + 2))) OR push_bit 24 (ucast (m (a + 3)))"

definition load64 :: "memory \<Rightarrow> u32 \<Rightarrow> u64" where
  "load64 m a = ucast (load32 m a) OR push_bit 32 (ucast (load32 m (a + 4)))"

text \<open>The bytes at \<open>a\<close>, \<open>a + 1\<close>, ...\<close>

definition read_bytes :: "memory \<Rightarrow> u32 \<Rightarrow> nat \<Rightarrow> u8 list" where
  "read_bytes m a n = map (\<lambda>i. m (a + of_nat i)) [0..<n]"

definition write_bytes :: "memory \<Rightarrow> u32 \<Rightarrow> u8 list \<Rightarrow> memory" where
  "write_bytes m a bs = fold (\<lambda>i m. m(a + of_nat i := bs ! i)) [0..<length bs] m"

lemma length_read_bytes [simp]: "length (read_bytes m a n) = n"
  by (simp add: read_bytes_def)

lemma nth_read_bytes [simp]: "i < n \<Longrightarrow> read_bytes m a n ! i = m (a + of_nat i)"
  by (simp add: read_bytes_def)

text \<open>
  The copy and fill loops, one byte per iteration, lowest address first. The C loop counts with
  an \<open>int\<close> that is compared against an unsigned size; below \<open>2 ^ 31\<close> bytes the counter is the
  iteration number, above it C leaves the increment undefined and the model keeps counting.
\<close>

definition kpmemset :: "memory \<Rightarrow> u32 \<Rightarrow> u8 \<Rightarrow> u32 \<Rightarrow> memory" where
  "kpmemset m dst v sz = fold (\<lambda>i m. m(dst + of_nat i := v)) [0..<unat sz] m"

definition copy_byte :: "u32 \<Rightarrow> u32 \<Rightarrow> nat \<Rightarrow> memory \<Rightarrow> memory" where
  "copy_byte dst src i m = m(dst + of_nat i := m (src + of_nat i))"

definition kpmemcpy :: "memory \<Rightarrow> u32 \<Rightarrow> u32 \<Rightarrow> u32 \<Rightarrow> memory" where
  "kpmemcpy m dst src sz = fold (copy_byte dst src) [0..<unat sz] m"

section \<open>Little-endian layout\<close>

text \<open>The bytes of a 16-, 32- or 64-bit value, lowest first: the inverse of the loads.\<close>

definition le16 :: "u16 \<Rightarrow> u8 list" where
  "le16 v = [ucast v, ucast (drop_bit 8 v)]"

definition le32 :: "u32 \<Rightarrow> u8 list" where
  "le32 v = [ucast v, ucast (drop_bit 8 v), ucast (drop_bit 16 v), ucast (drop_bit 24 v)]"

definition le64 :: "u64 \<Rightarrow> u8 list" where
  "le64 v = le32 (ucast v) @ le32 (ucast (drop_bit 32 v))"

lemma length_le [simp]: "length (le16 v) = 2" "length (le32 w) = 4" "length (le64 x) = 8"
  by (simp_all add: le16_def le32_def le64_def)

text \<open>\<open>holds m a bs\<close>: memory has the bytes \<open>bs\<close> from address \<open>a\<close> on.\<close>

fun holds :: "memory \<Rightarrow> u32 \<Rightarrow> u8 list \<Rightarrow> bool" where
  "holds m a [] = True"
| "holds m a (b # bs) \<longleftrightarrow> m a = b \<and> holds m (a + 1) bs"

lemma holds_append: "holds m a (xs @ ys) \<longleftrightarrow> holds m a xs \<and> holds m (a + of_nat (length xs)) ys"
  by (induction xs arbitrary: a) (simp_all add: ac_simps)

lemma holds_nth: "holds m a bs \<longleftrightarrow> (\<forall>i < length bs. m (a + of_nat i) = bs ! i)"
proof (induction bs arbitrary: a)
  case Nil
  then show ?case by simp
next
  case (Cons b bs)
  have "(\<forall>i < length (b # bs). m (a + of_nat i) = (b # bs) ! i)
      \<longleftrightarrow> m a = b \<and> (\<forall>i < length bs. m (a + of_nat (Suc i)) = bs ! i)"
    by (auto simp: less_Suc_eq_0_disj)
  with Cons show ?case by (simp add: add.assoc)
qed

lemma holds_le16: "holds m a (le16 v) \<Longrightarrow> load16 m a = v"
  by (rule bit_word_eqI) (auto simp: le16_def load16_def bit_simps)

lemma holds_le32:
  assumes "holds m a (le32 v)"
  shows "load32 m a = v"
proof (rule bit_word_eqI)
  have b: "m a = ucast v" "m (a + 1) = ucast (drop_bit 8 v)" "m (a + 2) = ucast (drop_bit 16 v)"
    "m (a + 3) = ucast (drop_bit 24 v)"
    using assms by (simp_all add: le32_def add.assoc)
  fix n assume "n < LENGTH(32)"
  then consider "n < 8" | "8 \<le> n" "n < 16" | "16 \<le> n" "n < 24" | "24 \<le> n" "n < 32"
    by fastforce
  then show "bit (load32 m a) n = bit v n"
    by cases (auto simp: load32_def bit_simps b)
qed

lemma holds_le64:
  assumes "holds m a (le64 v)"
  shows "load64 m a = v"
proof -
  have "load32 m a = ucast v" "load32 m (a + 4) = ucast (drop_bit 32 v)"
    using assms by (simp_all add: le64_def holds_append holds_le32)
  then show ?thesis
    by (intro bit_word_eqI) (auto simp: load64_def bit_simps)
qed

section \<open>Address ranges\<close>

text \<open>\<open>in_range a n x\<close>: the address \<open>x\<close> is one of the \<open>n\<close> bytes that start at \<open>a\<close>.\<close>

definition in_range :: "u32 \<Rightarrow> nat \<Rightarrow> u32 \<Rightarrow> bool" where
  "in_range a n x \<longleftrightarrow> unat (x - a) < n"

definition disjoint_ranges :: "u32 \<Rightarrow> nat \<Rightarrow> u32 \<Rightarrow> nat \<Rightarrow> bool" where
  "disjoint_ranges a n b k \<longleftrightarrow> \<not> (\<exists>i < n. in_range b k (a + of_nat i))"

lemma in_range_0 [simp]: "\<not> in_range a 0 x"
  by (simp add: in_range_def)

lemma in_range_iff: "n \<le> 4294967296 \<Longrightarrow> in_range a n x \<longleftrightarrow> (\<exists>i < n. x = a + of_nat i)"
proof
  assume "in_range a n x"
  then have "unat (x - a) < n" "x = a + of_nat (unat (x - a))"
    by (simp_all add: in_range_def)
  then show "\<exists>i < n. x = a + of_nat i" by blast
next
  assume "n \<le> 4294967296" "\<exists>i < n. x = a + of_nat i"
  then show "in_range a n x"
    by (auto simp: in_range_def unat_of_nat_exact)
qed

lemma in_range_offset: "i < n \<Longrightarrow> n \<le> 4294967296 \<Longrightarrow> in_range a n (a + of_nat i)"
  by (auto simp: in_range_iff)

lemma in_range_Suc:
  "n < 4294967296 \<Longrightarrow> in_range a (Suc n) x \<longleftrightarrow> in_range a n x \<or> x = a + of_nat n"
  by (auto simp: in_range_iff less_Suc_eq)

lemma in_range_mono: "in_range a n x \<Longrightarrow> n \<le> k \<Longrightarrow> in_range a k x"
  by (simp add: in_range_def)

lemma in_range_split:
  assumes "n + k \<le> 4294967296"
  shows "in_range a (n + k) x \<longleftrightarrow> in_range a n x \<or> in_range (a + of_nat n) k x"
proof -
  have "(\<exists>i < n + k. x = a + of_nat i)
      \<longleftrightarrow> (\<exists>i < n. x = a + of_nat i) \<or> (\<exists>i < k. x = a + of_nat n + of_nat i)"
  proof
    assume "\<exists>i < n + k. x = a + of_nat i"
    then obtain i where i: "i < n + k" "x = a + of_nat i" by blast
    show "(\<exists>i < n. x = a + of_nat i) \<or> (\<exists>i < k. x = a + of_nat n + of_nat i)"
    proof (cases "i < n")
      case False
      with i have "i - n < k" "x = a + of_nat n + of_nat (i - n)" by (simp_all add: of_nat_diff)
      then show ?thesis by blast
    qed (use i in blast)
  next
    assume "(\<exists>i < n. x = a + of_nat i) \<or> (\<exists>i < k. x = a + of_nat n + of_nat i)"
    then consider i where "i < n" "x = a + of_nat i" | i where "i < k" "x = a + of_nat n + of_nat i"
      by blast
    then show "\<exists>i < n + k. x = a + of_nat i"
    proof cases
      case 1
      then show ?thesis by (intro exI[of _ i]) simp
    next
      case 2
      then show ?thesis by (intro exI[of _ "n + i"]) (simp add: add.assoc)
    qed
  qed
  with assms show ?thesis by (simp add: in_range_iff)
qed

lemma disjoint_ranges_mono:
  "disjoint_ranges a n b k \<Longrightarrow> n' \<le> n \<Longrightarrow> k' \<le> k \<Longrightarrow> disjoint_ranges a n' b k'"
  unfolding disjoint_ranges_def in_range_def by (meson order_less_le_trans)

section \<open>What the loops do to memory\<close>

lemma kpmemset_at:
  "kpmemset m d v sz x = (if in_range d (unat sz) x then v else m x)"
proof -
  have "n \<le> 4294967296 \<Longrightarrow> fold (\<lambda>i m. m(d + of_nat i := v)) [0..<n] m x
      = (if in_range d n x then v else m x)" for n
    by (induction n) (simp_all add: in_range_Suc)
  then show ?thesis
    by (simp add: kpmemset_def less_imp_le)
qed

lemma write_bytes_at:
  assumes "length bs \<le> 4294967296"
  shows "write_bytes m d bs x = (if in_range d (length bs) x then bs ! unat (x - d) else m x)"
proof -
  have "n \<le> length bs \<Longrightarrow> fold (\<lambda>i m. m(d + of_nat i := bs ! i)) [0..<n] m x
      = (if in_range d n x then bs ! unat (x - d) else m x)" for n
  proof (induction n)
    case 0
    then show ?case by simp
  next
    case (Suc n)
    then show ?case using assms by (auto simp: in_range_Suc unat_of_nat_exact)
  qed
  then show ?thesis by (simp add: write_bytes_def)
qed

lemma copy_byte_at:
  "copy_byte d s i m x = (if x = d + of_nat i then m (s + of_nat i) else m x)"
  by (simp add: copy_byte_def)

lemma fold_copy_byte:
  assumes "disjoint_ranges s n d n" and "n \<le> 4294967296"
  shows "k \<le> n \<Longrightarrow> fold (copy_byte d s) [0..<k] m x
    = (if in_range d k x then m (s + (x - d)) else m x)"
proof (induction k arbitrary: x)
  case 0
  then show ?case by simp
next
  case (Suc k)
  then have "\<not> in_range d n (s + of_nat k)"
    using assms(1) by (auto simp: disjoint_ranges_def)
  then have "\<not> in_range d k (s + of_nat k)"
    using Suc.prems in_range_mono[of d k _ n] by auto
  moreover have "k < 4294967296" using Suc.prems assms(2) by linarith
  moreover have "fold (copy_byte d s) [0..<Suc k] m x
      = copy_byte d s k (fold (copy_byte d s) [0..<k] m) x" by simp
  ultimately show ?case
    using Suc.prems Suc.IH by (auto simp: copy_byte_at[of d s k _ x] in_range_Suc)
qed

lemma kpmemcpy_at:
  assumes "disjoint_ranges s (unat sz) d (unat sz)"
  shows "kpmemcpy m d s sz x = (if in_range d (unat sz) x then m (s + (x - d)) else m x)"
  using fold_copy_byte[OF assms, of "unat sz"] by (simp add: kpmemcpy_def less_imp_le)

lemma kpmemcpy_outside:
  assumes "\<not> in_range d (unat sz) x"
  shows "kpmemcpy m d s sz x = m x"
proof -
  have "k \<le> unat sz \<Longrightarrow> fold (copy_byte d s) [0..<k] m x = m x" for k
  proof (induction k)
    case 0
    then show ?case by simp
  next
    case (Suc k)
    then have "x \<noteq> d + of_nat k"
      using assms in_range_offset[of k "unat sz" d] by (auto simp: less_imp_le)
    with Suc show ?case by (simp add: copy_byte_at[of d s k _ x])
  qed
  then show ?thesis by (simp add: kpmemcpy_def)
qed

lemma kpmemcpy_read_bytes:
  assumes "disjoint_ranges s (unat sz) d (unat sz)"
  shows "read_bytes (kpmemcpy m d s sz) d (unat sz) = read_bytes m s (unat sz)"
proof (rule nth_equalityI)
  fix i assume "i < length (read_bytes (kpmemcpy m d s sz) d (unat sz))"
  then show "read_bytes (kpmemcpy m d s sz) d (unat sz) ! i = read_bytes m s (unat sz) ! i"
    using assms by (simp add: kpmemcpy_at in_range_offset less_imp_le)
qed simp

lemma in_range_nat:
  assumes "a + n \<le> 4294967296" "k < 4294967296"
  shows "in_range (of_nat a) n (of_nat k) \<longleftrightarrow> a \<le> k \<and> k < a + n"
proof (cases "n = 0")
  case False
  show ?thesis
  proof
    assume "in_range (of_nat a) n (of_nat k)"
    moreover have "n \<le> 4294967296" using assms(1) by simp
    ultimately obtain i where i: "i < n" "of_nat k = (of_nat a + of_nat i :: u32)"
      by (auto simp: in_range_iff)
    then have "of_nat k = (of_nat (a + i) :: u32)" by simp
    moreover have "unat (of_nat k :: u32) = k" "unat (of_nat (a + i) :: u32) = a + i"
      using assms i(1) by (intro unat_of_nat_exact; simp)+
    ultimately have "k = a + i" by metis
    with i(1) show "a \<le> k \<and> k < a + n" by simp
  next
    assume "a \<le> k \<and> k < a + n"
    then have "(of_nat k :: u32) = of_nat a + of_nat (k - a)" "k - a < n" by (auto simp: of_nat_diff)
    then show "in_range (of_nat a) n (of_nat k)" using assms(1) in_range_offset[of "k - a" n] by simp
  qed
qed simp

lemma disjoint_ranges_nat:
  assumes "a + n \<le> b \<or> b + k \<le> a" "a + n \<le> 4294967296" "b + k \<le> 4294967296"
  shows "disjoint_ranges (of_nat a) n (of_nat b) k"
  unfolding disjoint_ranges_def
proof
  assume "\<exists>i < n. in_range (of_nat b) k (of_nat a + of_nat i)"
  then obtain i where i: "i < n" "in_range (of_nat b) k (of_nat (a + i))" by auto
  with in_range_nat[OF assms(3), of "a + i"] assms show False by auto
qed

section \<open>Memories with given contents\<close>

text \<open>
  \<open>place parts m\<close> writes each byte list at its address; \<open>laid_out\<close> says the parts are in ascending
  order and do not overlap.
\<close>

definition place :: "(nat \<times> u8 list) list \<Rightarrow> memory \<Rightarrow> memory" where
  "place parts m = fold (\<lambda>(a, bs) m. write_bytes m (of_nat a) bs) parts m"

fun laid_out :: "nat \<Rightarrow> (nat \<times> u8 list) list \<Rightarrow> bool" where
  "laid_out lo [] = True"
| "laid_out lo ((a, bs) # parts) \<longleftrightarrow> lo \<le> a \<and> a + length bs < 4294967296 \<and> laid_out (a + length bs) parts"

lemma place_below:
  "laid_out lo parts \<Longrightarrow> k < lo \<Longrightarrow> lo < 4294967296 \<Longrightarrow> place parts m (of_nat k) = m (of_nat k)"
proof (induction lo parts arbitrary: m rule: laid_out.induct)
  case (1 lo)
  then show ?case by (simp add: place_def)
next
  case (2 lo a bs parts)
  have "place ((a, bs) # parts) m (of_nat k) = place parts (write_bytes m (of_nat a) bs) (of_nat k)"
    by (simp add: place_def)
  also have "\<dots> = write_bytes m (of_nat a) bs (of_nat k)" using 2 by simp
  also have "\<dots> = m (of_nat k)"
    using 2 in_range_nat[of a "length bs" k] by (simp add: write_bytes_at)
  finally show ?case .
qed

lemma place_holds:
  "laid_out lo parts \<Longrightarrow> (a, bs) \<in> set parts \<Longrightarrow> holds (place parts m) (of_nat a) bs"
proof (induction lo parts arbitrary: m rule: laid_out.induct)
  case (1 lo)
  then show ?case by simp
next
  case (2 lo b cs parts)
  show ?case
  proof (cases "(a, bs) \<in> set parts")
    case True
    with 2 show ?thesis by (simp add: place_def)
  next
    case False
    with 2 have eq: "a = b" "bs = cs" and rest: "laid_out (a + length bs) parts"
      "a + length bs < 4294967296" by auto
    show ?thesis
      unfolding holds_nth
    proof (intro allI impI)
      fix i assume i: "i < length bs"
      have "place ((b, cs) # parts) m (of_nat (a + i)) = write_bytes m (of_nat a) bs (of_nat (a + i))"
        using place_below[OF rest(1) _ rest(2), of "a + i"] i eq by (simp add: place_def)
      also have "\<dots> = bs ! i"
        using i rest(2) by (simp add: write_bytes_at in_range_offset unat_of_nat_exact)
      finally show "place ((b, cs) # parts) m (of_nat a + of_nat i) = bs ! i" by simp
    qed
  qed
qed

lemma place_outside:
  "\<forall>(a, bs) \<in> set parts. \<not> in_range (of_nat a) (length bs) x \<and> length bs < 4294967296 \<Longrightarrow> place parts m x = m x"
proof (induction parts arbitrary: m)
  case Nil
  then show ?case by (simp add: place_def)
next
  case (Cons part parts)
  obtain a bs where part: "part = (a, bs)" by (cases part)
  have "place (part # parts) m x = place parts (write_bytes m (of_nat a) bs) x"
    by (simp add: place_def part)
  also have "\<dots> = write_bytes m (of_nat a) bs x" by (rule Cons.IH) (use Cons.prems in simp)
  also have "\<dots> = m x" using Cons.prems by (simp add: part write_bytes_at)
  finally show ?case .
qed

end
