(* ===== verification/Gdt.thy ===== *)
theory Gdt
  imports Memory
begin

text \<open>
  The global descriptor table (source/boot/gdt/gdt.c, gdt.h; arch/x86/gdt_load.asm): six packed
  descriptors, the pseudo-descriptor for \<open>lgdt\<close>, a rotating checksum and an initialised flag.

  The address the linker gives the table is a parameter (\<open>addr\<close>), and so is what the CPU does to
  the access byte of a descriptor that is loaded into a segment register (\<open>cpu\<close>): by the processor
  manual it leaves the byte alone or sets the accessed bit (\<open>cpu_marks_accessed\<close>).

  The specification reads a descriptor as base, limit, access byte and flags, and its privilege
  level as a ring.
\<close>

section \<open>State\<close>

record gdt_entry =
  ge_limit_low :: u16
  ge_base_low :: u16
  ge_base_middle :: u8
  ge_access :: u8
  ge_granularity :: u8
  ge_base_high :: u8

record gdt =
  gdt_entries :: "gdt_entry list"
  gdt_ptr_limit :: u16
  gdt_ptr_base :: u32
  gdt_checksum :: u32
  gdt_initialized :: bool

abbreviation (input) GDT_NULL_ENTRY :: nat where "GDT_NULL_ENTRY \<equiv> 0"
abbreviation (input) GDT_KERNEL_CODE_ENTRY :: nat where "GDT_KERNEL_CODE_ENTRY \<equiv> 1"
abbreviation (input) GDT_KERNEL_DATA_ENTRY :: nat where "GDT_KERNEL_DATA_ENTRY \<equiv> 2"
abbreviation (input) GDT_USER_CODE_ENTRY :: nat where "GDT_USER_CODE_ENTRY \<equiv> 3"
abbreviation (input) GDT_USER_DATA_ENTRY :: nat where "GDT_USER_DATA_ENTRY \<equiv> 4"
abbreviation (input) GDT_TSS_ENTRY :: nat where "GDT_TSS_ENTRY \<equiv> 5"
abbreviation (input) GDT_ENTRIES_COUNT :: nat where "GDT_ENTRIES_COUNT \<equiv> 6"
abbreviation (input) GDT_KERNEL_CODE_SEL :: nat where "GDT_KERNEL_CODE_SEL \<equiv> 0x08"
abbreviation (input) GDT_KERNEL_DATA_SEL :: nat where "GDT_KERNEL_DATA_SEL \<equiv> 0x10"

definition gdt_zero_entry :: gdt_entry where
  "gdt_zero_entry = \<lparr>ge_limit_low = 0, ge_base_low = 0, ge_base_middle = 0, ge_access = 0,
     ge_granularity = 0, ge_base_high = 0\<rparr>"

section \<open>Operations\<close>

text \<open>The table as the bytes the checksum loop walks.\<close>

definition gdt_entry_bytes :: "gdt_entry \<Rightarrow> u8 list" where
  "gdt_entry_bytes e = le16 (ge_limit_low e) @ le16 (ge_base_low e)
     @ [ge_base_middle e, ge_access e, ge_granularity e, ge_base_high e]"

definition rotate_left1 :: "u32 \<Rightarrow> u32" where
  "rotate_left1 c = push_bit 1 c OR drop_bit 31 c"

definition checksum_step :: "u8 \<Rightarrow> u32 \<Rightarrow> u32" where
  "checksum_step b checksum = rotate_left1 (checksum + ucast b)"

definition calculate_gdt_checksum :: "gdt_entry list \<Rightarrow> u32" where
  "calculate_gdt_checksum es = fold checksum_step (concat (map gdt_entry_bytes es)) 0"

text \<open>The fields \<open>gdt_set_entry\<close> stores.\<close>

definition gdt_encode :: "u32 \<Rightarrow> u32 \<Rightarrow> u8 \<Rightarrow> u8 \<Rightarrow> gdt_entry" where
  "gdt_encode base limit access gran =
     \<lparr>ge_limit_low = ucast (limit AND 0xFFFF),
      ge_base_low = ucast (base AND 0xFFFF),
      ge_base_middle = ucast (drop_bit 16 base AND 0xFF),
      ge_access = access,
      ge_granularity = ucast (drop_bit 16 limit AND 0x0F) OR (gran AND 0xF0),
      ge_base_high = ucast (drop_bit 24 base AND 0xFF)\<rparr>"

definition gdt_set_entry :: "int \<Rightarrow> u32 \<Rightarrow> u32 \<Rightarrow> u8 \<Rightarrow> u8 \<Rightarrow> gdt \<Rightarrow> gdt" where
  "gdt_set_entry index base limit access gran g =
     (if index < 0 \<or> index \<ge> int GDT_ENTRIES_COUNT then g
      else g\<lparr>gdt_entries := (gdt_entries g)[nat index := gdt_encode base limit access gran]\<rparr>)"

text \<open>Loading a segment register from a selector: the CPU may mark the descriptor accessed.\<close>

definition load_segment :: "(u8 \<Rightarrow> u8) \<Rightarrow> nat \<Rightarrow> gdt \<Rightarrow> gdt" where
  "load_segment cpu sel g = (let i = sel div 8; e = gdt_entries g ! i in
     g\<lparr>gdt_entries := (gdt_entries g)[i := e\<lparr>ge_access := cpu (ge_access e)\<rparr>]\<rparr>)"

text \<open>\<open>gdt_load\<close>: \<open>lgdt\<close>, five loads of the kernel data selector, a far jump through the kernel
  code selector.\<close>

definition gdt_load :: "(u8 \<Rightarrow> u8) \<Rightarrow> gdt \<Rightarrow> gdt" where
  "gdt_load cpu g = load_segment cpu GDT_KERNEL_CODE_SEL
     ((load_segment cpu GDT_KERNEL_DATA_SEL ^^ 5) g)"

definition gdt_verify_integrity :: "u32 \<Rightarrow> gdt \<Rightarrow> bool" where
  "gdt_verify_integrity addr g =
     (if \<not> gdt_initialized g then False
      else if calculate_gdt_checksum (gdt_entries g) \<noteq> gdt_checksum g then False
      else if ge_limit_low (gdt_entries g ! GDT_NULL_ENTRY) \<noteq> 0
        \<or> ge_base_low (gdt_entries g ! GDT_NULL_ENTRY) \<noteq> 0
        \<or> ge_access (gdt_entries g ! GDT_NULL_ENTRY) \<noteq> 0 then False
      else if ge_access (gdt_entries g ! GDT_KERNEL_CODE_ENTRY) AND 0xFE \<noteq> 0x9A then False
      else if ge_access (gdt_entries g ! GDT_KERNEL_DATA_ENTRY) AND 0xFE \<noteq> 0x92 then False
      else if ge_access (gdt_entries g ! GDT_USER_CODE_ENTRY) AND 0xFE \<noteq> 0xFA then False
      else if ge_access (gdt_entries g ! GDT_USER_DATA_ENTRY) AND 0xFE \<noteq> 0xF2 then False
      else if gdt_ptr_base g \<noteq> addr \<or> gdt_ptr_limit g \<noteq> of_nat (8 * GDT_ENTRIES_COUNT - 1) then False
      else True)"

definition gdt_setup :: "(u8 \<Rightarrow> u8) \<Rightarrow> u32 \<Rightarrow> gdt \<Rightarrow> gdt \<times> bool" where
  "gdt_setup cpu addr g0 =
     (let g = g0\<lparr>gdt_entries := fold (\<lambda>i es. es[i := gdt_zero_entry]) [0..<GDT_ENTRIES_COUNT] (gdt_entries g0)\<rparr>;
          g = gdt_set_entry (int GDT_NULL_ENTRY) 0 0 0 0 g;
          g = gdt_set_entry (int GDT_KERNEL_CODE_ENTRY) 0 0xFFFFF 0x9A 0xCF g;
          g = gdt_set_entry (int GDT_KERNEL_DATA_ENTRY) 0 0xFFFFF 0x92 0xCF g;
          g = gdt_set_entry (int GDT_USER_CODE_ENTRY) 0 0xFFFFF 0xFA 0xCF g;
          g = gdt_set_entry (int GDT_USER_DATA_ENTRY) 0 0xFFFFF 0xF2 0xCF g;
          g = g\<lparr>gdt_ptr_limit := of_nat (8 * GDT_ENTRIES_COUNT - 1), gdt_ptr_base := addr\<rparr>;
          g = gdt_load cpu g;
          g = g\<lparr>gdt_checksum := calculate_gdt_checksum (gdt_entries g)\<rparr>;
          g = g\<lparr>gdt_initialized := True\<rparr>
      in (g, gdt_verify_integrity addr g))"

section \<open>Specification: rings and segments\<close>

text \<open>Privilege levels, ordered by number: a smaller ring is more privileged.\<close>

datatype ring = Ring0 | Ring1 | Ring2 | Ring3

fun ring_nat :: "ring \<Rightarrow> nat" where
  "ring_nat Ring0 = 0"
| "ring_nat Ring1 = 1"
| "ring_nat Ring2 = 2"
| "ring_nat Ring3 = 3"

lemma ring_nat_inject [simp]: "ring_nat r = ring_nat s \<longleftrightarrow> r = s"
  by (cases r; cases s) simp_all

instantiation ring :: linorder
begin

definition less_eq_ring :: "ring \<Rightarrow> ring \<Rightarrow> bool" where
  "less_eq_ring r s \<longleftrightarrow> ring_nat r \<le> ring_nat s"

definition less_ring :: "ring \<Rightarrow> ring \<Rightarrow> bool" where
  "less_ring r s \<longleftrightarrow> ring_nat r < ring_nat s"

instance
  by standard (auto simp: less_eq_ring_def less_ring_def)

end

lemma ring0_least [simp]: "Ring0 \<le> r"
  by (simp add: less_eq_ring_def)

lemma ring3_le [simp]: "Ring3 \<le> r \<longleftrightarrow> r = Ring3"
  by (cases r) (simp_all add: less_eq_ring_def)

definition ring_of :: "nat \<Rightarrow> ring" where
  "ring_of n = (if n = 0 then Ring0 else if n = 1 then Ring1 else if n = 2 then Ring2 else Ring3)"

lemma ring_of_simps [simp]: "ring_of 0 = Ring0" "ring_of 1 = Ring1" "ring_of 2 = Ring2" "ring_of 3 = Ring3"
  "ring_of (Suc 0) = Ring1"
  by (simp_all add: ring_of_def)

text \<open>Bits 5 and 6 of an access byte (or of a gate's attribute byte).\<close>

definition dpl_of :: "u8 \<Rightarrow> ring" where
  "dpl_of access = ring_of (unat (drop_bit 5 access AND 3))"

record segment =
  seg_base :: u32
  seg_limit :: u32
  seg_access :: u8
  seg_flags :: u8

definition segment_of :: "gdt_entry \<Rightarrow> segment" where
  "segment_of e =
     \<lparr>seg_base = ucast (ge_base_low e) OR push_bit 16 (ucast (ge_base_middle e))
        OR push_bit 24 (ucast (ge_base_high e)),
      seg_limit = ucast (ge_limit_low e) OR push_bit 16 (ucast (ge_granularity e AND 0x0F)),
      seg_access = ge_access e,
      seg_flags = ge_granularity e AND 0xF0\<rparr>"

definition seg_present :: "segment \<Rightarrow> bool" where
  "seg_present s = bit (seg_access s) 7"

definition seg_code :: "segment \<Rightarrow> bool" where
  "seg_code s = (bit (seg_access s) 4 \<and> bit (seg_access s) 3)"

definition seg_dpl :: "segment \<Rightarrow> ring" where
  "seg_dpl s = dpl_of (seg_access s)"

definition cpu_marks_accessed :: "(u8 \<Rightarrow> u8) \<Rightarrow> bool" where
  "cpu_marks_accessed cpu \<longleftrightarrow> (\<forall>a. cpu a = a \<or> cpu a = a OR 1)"

definition gdt_shape :: "gdt \<Rightarrow> bool" where
  "gdt_shape g \<longleftrightarrow> length (gdt_entries g) = GDT_ENTRIES_COUNT"

section \<open>Lemmas: encoding\<close>

lemma and_masks:
  "(x :: u32) AND 0xFFFF = take_bit 16 x" "(x :: u32) AND 0xFF = take_bit 8 x"
  "(x :: u32) AND 0x0F = take_bit 4 x" "(x :: u32) AND 0xFFFFF = take_bit 20 x"
  "(y :: u8) AND 0x0F = take_bit 4 y" "(y :: u8) AND 0xF0 = y AND NOT (mask 4)"
proof -
  show "(x :: u32) AND 0xFFFF = take_bit 16 x" "(x :: u32) AND 0xFF = take_bit 8 x"
    "(x :: u32) AND 0x0F = take_bit 4 x" "(x :: u32) AND 0xFFFFF = take_bit 20 x"
    "(y :: u8) AND 0x0F = take_bit 4 y"
    by (simp_all add: take_bit_eq_mask mask_eq_exp_minus_1)
  have "(0xF0 :: u8) = NOT (mask 4)" by code_simp
  then show "(y :: u8) AND 0xF0 = y AND NOT (mask 4)" by simp
qed

lemma segment_of_encoding:
  "segment_of (gdt_encode base limit access gran)
    = \<lparr>seg_base = base, seg_limit = limit AND 0xFFFFF, seg_access = access, seg_flags = gran AND 0xF0\<rparr>"
proof -
  let ?b = "ucast (ucast (take_bit 16 base) :: u16)
    OR push_bit 16 (ucast (ucast (take_bit 8 (drop_bit 16 base)) :: u8))
    OR push_bit 24 (ucast (ucast (take_bit 8 (drop_bit 24 base)) :: u8)) :: u32"
  have base: "?b = base"
  proof (rule bit_word_eqI)
    fix n assume "n < LENGTH(32)"
    then consider "n < 16" | "16 \<le> n" "n < 24" | "24 \<le> n" "n < 32" by fastforce
    then show "bit ?b n = bit base n"
      by cases (auto simp: bit_simps)
  qed
  let ?g = "ucast (take_bit 4 (drop_bit 16 limit)) OR (gran AND NOT (mask 4)) :: u8"
  let ?l = "ucast (ucast (take_bit 16 limit) :: u16) OR push_bit 16 (ucast (take_bit 4 ?g)) :: u32"
  have limit: "?l = take_bit 20 limit"
  proof (rule bit_word_eqI)
    fix n assume "n < LENGTH(32)"
    then consider "n < 16" | "16 \<le> n" "n < 20" | "20 \<le> n" "n < 32" by fastforce
    then show "bit ?l n = bit (take_bit 20 limit) n"
      by cases (auto simp: bit_simps)
  qed
  have flags: "?g AND NOT (mask 4) = gran AND NOT (mask 4)"
    by (rule bit_word_eqI) (auto simp: bit_simps)
  show ?thesis
    unfolding segment_of_def gdt_encode_def and_masks gdt_entry.simps base limit flags ..
qed

lemma gdt_set_entry_shape: "gdt_shape g \<Longrightarrow> gdt_shape (gdt_set_entry i b l a gr g)"
  by (simp add: gdt_shape_def gdt_set_entry_def)

section \<open>Lemmas: set-up\<close>

text \<open>The flat segment of an access byte: base 0, 4 GiB in 4 KiB units, 32-bit.\<close>

definition flat_entry :: "u8 \<Rightarrow> gdt_entry" where
  "flat_entry access = \<lparr>ge_limit_low = 0xFFFF, ge_base_low = 0, ge_base_middle = 0,
     ge_access = access, ge_granularity = 0xCF, ge_base_high = 0\<rparr>"

definition flat_segment :: "u8 \<Rightarrow> segment" where
  "flat_segment access = \<lparr>seg_base = 0, seg_limit = 0xFFFFF, seg_access = access, seg_flags = 0xC0\<rparr>"

lemma gdt_encode_consts:
  "gdt_encode 0 0 0 0 = gdt_zero_entry" "gdt_encode 0 0xFFFFF a 0xCF = flat_entry a"
  by (simp_all add: gdt_encode_def gdt_zero_entry_def flat_entry_def)

lemma flat_entry_access [simp]:
  "ge_access (flat_entry a) = a" "(flat_entry a)\<lparr>ge_access := b\<rparr> = flat_entry b"
  by (simp_all add: flat_entry_def)

lemma segment_of_flat: "segment_of (flat_entry a) = flat_segment a"
  by (simp add: segment_of_def flat_entry_def flat_segment_def)

lemma six_entries:
  assumes "gdt_shape g"
  obtains a b c d e f where "gdt_entries g = [a, b, c, d, e, f]"
  using assms by (auto simp: gdt_shape_def numeral_eq_Suc length_Suc_conv)

lemma list_update_numeral: "(x # xs)[numeral k := v] = x # xs[pred_numeral k := v]"
  by (simp add: numeral_eq_Suc)

lemma load_segment_iterate:
  assumes "i = sel div 8" "i < length (gdt_entries g)"
  shows "(load_segment cpu sel ^^ n) g = g\<lparr>gdt_entries := (gdt_entries g)[i :=
    (gdt_entries g ! i)\<lparr>ge_access := (cpu ^^ n) (ge_access (gdt_entries g ! i))\<rparr>]\<rparr>"
  using assms by (induction n) (simp_all add: load_segment_def Let_def)

lemma gdt_load_six:
  assumes "gdt_entries g = [a, b, c, d, e, f]"
  shows "gdt_load cpu g = g\<lparr>gdt_entries := [a, b\<lparr>ge_access := cpu (ge_access b)\<rparr>,
    c\<lparr>ge_access := (cpu ^^ 5) (ge_access c)\<rparr>, d, e, f]\<rparr>"
proof -
  have "(load_segment cpu 0x10 ^^ 5) g
      = g\<lparr>gdt_entries := [a, b, c\<lparr>ge_access := (cpu ^^ 5) (ge_access c)\<rparr>, d, e, f]\<rparr>"
    using assms by (subst load_segment_iterate[where i = 2]) (simp_all add: list_update_numeral)
  then show ?thesis by (simp add: gdt_load_def load_segment_def)
qed

text \<open>The table \<open>gdt_setup\<close> hands to \<open>gdt_load\<close>.\<close>

lemma gdt_setup_eq:
  fixes cpu addr
  assumes "gdt_shape g0"
  defines "g \<equiv> g0\<lparr>gdt_ptr_limit := 47, gdt_ptr_base := addr, gdt_entries := [gdt_zero_entry,
    flat_entry (cpu 0x9A), flat_entry ((cpu ^^ 5) 0x92), flat_entry 0xFA, flat_entry 0xF2, gdt_zero_entry]\<rparr>"
  shows "gdt_setup cpu addr g0 = (let h = g\<lparr>gdt_checksum := calculate_gdt_checksum (gdt_entries g),
    gdt_initialized := True\<rparr> in (h, gdt_verify_integrity addr h))"
proof -
  obtain a b c d e f where g0: "gdt_entries g0 = [a, b, c, d, e, f]"
    by (rule six_entries[OF assms(1)])
  have upt: "[0..<6] = [0, 1, 2, 3, 4, 5]" by (simp add: upt_rec)
  have zero: "fold (\<lambda>i es. es[i := gdt_zero_entry]) [0..<6] (gdt_entries g0) = replicate 6 gdt_zero_entry"
    by (simp add: upt g0 list_update_numeral numeral_eq_Suc)
  let ?six = "[gdt_zero_entry, flat_entry 0x9A, flat_entry 0x92, flat_entry 0xFA, flat_entry 0xF2,
    gdt_zero_entry]"
  have set: "(replicate 6 gdt_zero_entry)[0 := gdt_zero_entry, Suc 0 := flat_entry 0x9A,
      2 := flat_entry 0x92, 3 := flat_entry 0xFA, 4 := flat_entry 0xF2] = ?six"
    by (simp add: numeral_eq_Suc)
  show ?thesis
    by (simp add: gdt_setup_def zero gdt_set_entry_def gdt_encode_consts set
        gdt_load_six[where a = gdt_zero_entry and f = gdt_zero_entry] g_def Let_def)
qed

lemma cpu_marks_iterate:
  assumes "cpu_marks_accessed cpu" "a AND 1 = 0"
  shows "(cpu ^^ n) a = a \<or> (cpu ^^ n) a = a OR 1"
proof (induction n)
  case 0
  then show ?case by simp
next
  case (Suc n)
  have "cpu (a OR 1) = a OR 1"
    using assms(1)[unfolded cpu_marks_accessed_def, THEN spec, of "a OR 1"] by (simp add: or.assoc)
  with Suc assms(1) show ?case by (auto simp: cpu_marks_accessed_def)
qed

lemma gdt_setup_result:
  assumes "gdt_shape g0" "cpu_marks_accessed cpu"
  obtains g a d where "gdt_setup cpu addr g0 = (g, True)" "a = 0x9A \<or> a = 0x9B" "d = 0x92 \<or> d = 0x93"
    "gdt_entries g = [gdt_zero_entry, flat_entry a, flat_entry d, flat_entry 0xFA, flat_entry 0xF2,
      gdt_zero_entry]" "gdt_ptr_base g = addr" "gdt_ptr_limit g = 47"
    "gdt_verify_integrity addr g"
proof -
  let ?a = "cpu 0x9A" and ?d = "(cpu ^^ 5) 0x92"
  have a: "?a = 0x9A \<or> ?a = 0x9B" using cpu_marks_iterate[OF assms(2), of "0x9A" 1] by simp
  have d: "?d = 0x92 \<or> ?d = 0x93" using cpu_marks_iterate[OF assms(2), of "0x92" 5] by simp
  obtain g where g: "gdt_setup cpu addr g0 = (g, gdt_verify_integrity addr g)"
    "gdt_entries g = [gdt_zero_entry, flat_entry ?a, flat_entry ?d, flat_entry 0xFA, flat_entry 0xF2,
      gdt_zero_entry]" "gdt_ptr_base g = addr" "gdt_ptr_limit g = 47" "gdt_initialized g"
    "gdt_checksum g = calculate_gdt_checksum (gdt_entries g)"
    using gdt_setup_eq[OF assms(1), of cpu addr] by (simp add: Let_def)
  have "?a AND 0xFE = 0x9A" "?d AND 0xFE = 0x92" using a d by auto
  then have "gdt_verify_integrity addr g"
    using g by (simp add: gdt_verify_integrity_def gdt_zero_entry_def)
  with that g a d show ?thesis by simp
qed

lemma flat_segment_rings:
  "a = 0x9A \<or> a = 0x9B \<Longrightarrow> seg_present (flat_segment a) \<and> seg_code (flat_segment a) \<and> seg_dpl (flat_segment a) = Ring0"
  "a = 0x92 \<or> a = 0x93 \<Longrightarrow> seg_present (flat_segment a) \<and> \<not> seg_code (flat_segment a) \<and> seg_dpl (flat_segment a) = Ring0"
  "seg_present (flat_segment 0xFA) \<and> seg_code (flat_segment 0xFA) \<and> seg_dpl (flat_segment 0xFA) = Ring3"
  "seg_present (flat_segment 0xF2) \<and> \<not> seg_code (flat_segment 0xF2) \<and> seg_dpl (flat_segment 0xF2) = Ring3"
  by (auto simp: flat_segment_def seg_present_def seg_code_def seg_dpl_def dpl_of_def)

section \<open>Lemmas: the checksum\<close>

lemma rotate_bit:
  assumes "n < 32"
  shows "bit (rotate_left1 x) (if n = 31 then 0 else Suc n) = bit x n"
proof (cases "n = 31")
  case True
  then show ?thesis
    unfolding rotate_left1_def bit_or_iff bit_push_bit_iff bit_drop_bit_eq comp_def by simp
next
  case False
  moreover have "\<not> bit x (31 + Suc n)" by (auto dest: bit_imp_le_length)
  ultimately show ?thesis
    unfolding rotate_left1_def bit_or_iff bit_push_bit_iff bit_drop_bit_eq comp_def
    using assms by simp
qed

lemma rotate_inject [simp]: "rotate_left1 c = rotate_left1 d \<longleftrightarrow> c = d"
proof
  assume eq: "rotate_left1 c = rotate_left1 d"
  show "c = d"
  proof (rule bit_word_eqI)
    fix n assume "n < LENGTH(32)"
    then have n: "n < 32" by simp
    show "bit c n = bit d n" using rotate_bit[OF n, of c] rotate_bit[OF n, of d] eq by simp
  qed
qed simp

lemma checksum_step_inject: "checksum_step b c = checksum_step b d \<Longrightarrow> c = d"
  by (simp add: checksum_step_def)

lemma checksum_step_byte: "checksum_step a c = checksum_step b c \<Longrightarrow> a = b"
proof -
  assume "checksum_step a c = checksum_step b c"
  then have eq: "ucast a = (ucast b :: u32)" by (simp add: checksum_step_def)
  show "a = b"
  proof (rule bit_word_eqI)
    fix n assume "n < LENGTH(8)"
    moreover have "bit (ucast a :: u32) n = bit (ucast b :: u32) n" unfolding eq ..
    ultimately show "bit a n = bit b n" by (simp add: bit_simps)
  qed
qed

lemma checksum_inject: "fold checksum_step xs c = fold checksum_step xs d \<Longrightarrow> c = d"
  by (induction xs arbitrary: c d) (auto dest: checksum_step_inject)

lemma checksum_one_byte:
  assumes "i < length xs" "xs ! i \<noteq> b"
  shows "fold checksum_step (xs[i := b]) c \<noteq> fold checksum_step xs c"
proof
  assume eq: "fold checksum_step (xs[i := b]) c = fold checksum_step xs c"
  let ?c = "fold checksum_step (take i xs) c"
  have "xs = take i xs @ xs ! i # drop (Suc i) xs" using assms(1) by (rule id_take_nth_drop)
  then have "fold checksum_step xs c = fold checksum_step (drop (Suc i) xs) (checksum_step (xs ! i) ?c)"
    by (metis fold_append fold_simps(2) comp_apply)
  moreover have "fold checksum_step (xs[i := b]) c
      = fold checksum_step (drop (Suc i) xs) (checksum_step b ?c)"
    using assms(1) by (simp add: upd_conv_take_nth_drop)
  ultimately have "checksum_step b ?c = checksum_step (xs ! i) ?c"
    using eq checksum_inject by metis
  with assms(2) show False using checksum_step_byte by metis
qed

section \<open>Properties\<close>

definition gdt_bytes :: "gdt \<Rightarrow> u8 list" where
  "gdt_bytes g = concat (map gdt_entry_bytes (gdt_entries g))"

text \<open>The tables before boot.\<close>

definition gdt_boot :: gdt where
  "gdt_boot = \<lparr>gdt_entries = replicate 6 gdt_zero_entry, gdt_ptr_limit = 0, gdt_ptr_base = 0,
     gdt_checksum = 0, gdt_initialized = False\<rparr>"

lemma gdt_boot_shape [simp]: "gdt_shape gdt_boot"
  by (simp add: gdt_shape_def gdt_boot_def)

text \<open>Descriptors decode to what was asked for. \<open>gdt_set_entry\<close> at a valid index stores a
  descriptor whose scattered fields read back as the given base, the low 20 bits of the limit, the
  access byte and the upper flag nibble, and changes no other entry; at any other index, negative
  ones included, it changes nothing.\<close>

theorem gdt_set_entry_decodes:
  assumes "gdt_shape g"
  shows "if 0 \<le> index \<and> index < 6
    then map segment_of (gdt_entries (gdt_set_entry index base limit access gran g))
      = (map segment_of (gdt_entries g))[nat index :=
          \<lparr>seg_base = base, seg_limit = limit AND 0xFFFFF, seg_access = access, seg_flags = gran AND 0xF0\<rparr>]
    else gdt_set_entry index base limit access gran g = g"
  by (simp add: gdt_set_entry_def map_update segment_of_encoding)

theorem gdt_set_entry_decodes_witness:
  "segment_of (gdt_entries (gdt_set_entry 5 0x12345678 103 0x89 0 gdt_boot) ! 5)
    = \<lparr>seg_base = 0x12345678, seg_limit = 103, seg_access = 0x89, seg_flags = 0\<rparr>"
proof -
  let ?es = "gdt_entries (gdt_set_entry 5 0x12345678 103 0x89 0 gdt_boot)"
  have "map segment_of ?es = (map segment_of (gdt_entries gdt_boot))[5 :=
      \<lparr>seg_base = 0x12345678, seg_limit = 103, seg_access = 0x89, seg_flags = 0\<rparr>]"
    using gdt_set_entry_decodes[OF gdt_boot_shape, of 5 "0x12345678" 103 "0x89" 0] by simp
  moreover have "length ?es = 6" by (simp add: gdt_set_entry_def gdt_boot_def)
  ultimately have "map segment_of ?es ! 5
      = \<lparr>seg_base = 0x12345678, seg_limit = 103, seg_access = 0x89, seg_flags = 0\<rparr>"
    by (simp add: gdt_boot_def)
  with \<open>length ?es = 6\<close> show ?thesis by simp
qed

text \<open>Set-up installs the flat memory model. Whatever the table held and whichever accessed bits
  the CPU sets while the segment registers are reloaded, \<open>gdt_setup\<close> reports success; entries 1 to 4
  decode to present 4 GiB segments at base 0: code and data of ring 0, then code and data of
  ring 3; entries 0 and 5 are null, and the pseudo-descriptor covers exactly the six entries.\<close>

theorem gdt_setup_installs:
  assumes "gdt_shape g0" "cpu_marks_accessed cpu"
  shows "\<exists>g. gdt_setup cpu addr g0 = (g, True) \<and> gdt_ptr_base g = addr \<and> gdt_ptr_limit g = 47
    \<and> (let s = map segment_of (gdt_entries g) in length s = 6
      \<and> s ! 0 = segment_of gdt_zero_entry \<and> s ! 5 = segment_of gdt_zero_entry
      \<and> (\<forall>i \<in> {1, 2, 3, 4}. seg_present (s ! i) \<and> seg_base (s ! i) = 0
          \<and> seg_limit (s ! i) = 0xFFFFF \<and> seg_flags (s ! i) = 0xC0
          \<and> seg_code (s ! i) = (i \<in> {1, 3})
          \<and> seg_dpl (s ! i) = (if i \<le> 2 then Ring0 else Ring3)))"
proof -
  obtain g a d where g: "gdt_setup cpu addr g0 = (g, True)" "a = 0x9A \<or> a = 0x9B"
    "d = 0x92 \<or> d = 0x93" "gdt_entries g = [gdt_zero_entry, flat_entry a, flat_entry d,
      flat_entry 0xFA, flat_entry 0xF2, gdt_zero_entry]" "gdt_ptr_base g = addr" "gdt_ptr_limit g = 47"
    by (rule gdt_setup_result[OF assms])
  have "seg_base (flat_segment x) = 0" "seg_limit (flat_segment x) = 0xFFFFF"
    "seg_flags (flat_segment x) = 0xC0" for x by (simp_all add: flat_segment_def)
  with g flat_segment_rings(1)[OF g(2)] flat_segment_rings(2)[OF g(3)] flat_segment_rings(3,4)
  show ?thesis by (simp add: segment_of_flat Let_def)
qed

theorem gdt_setup_installs_witness:
  "\<exists>g. gdt_setup (\<lambda>a. a OR 1) 0x109000 gdt_boot = (g, True)
    \<and> seg_dpl (segment_of (gdt_entries g ! 3)) = Ring3"
proof -
  have "cpu_marks_accessed (\<lambda>a. a OR 1)" by (simp add: cpu_marks_accessed_def)
  from gdt_setup_installs[OF gdt_boot_shape this, of "0x109000"] show ?thesis
    by (auto simp: Let_def)
qed

text \<open>C24: the checksum catches every change of one byte. If the table passes the integrity check,
  then after replacing any single byte of its 48 by another value it does not pass.\<close>

theorem gdt_integrity_detects_byte:
  assumes "gdt_verify_integrity addr g" "gdt_checksum h = gdt_checksum g"
    "i < length (gdt_bytes g)" "b \<noteq> gdt_bytes g ! i" "gdt_bytes h = (gdt_bytes g)[i := b]"
  shows "\<not> gdt_verify_integrity addr h"
proof -
  have "calculate_gdt_checksum (gdt_entries g) = gdt_checksum g"
    using assms(1) by (simp add: gdt_verify_integrity_def split: if_splits)
  moreover have "calculate_gdt_checksum (gdt_entries h) \<noteq> calculate_gdt_checksum (gdt_entries g)"
    unfolding calculate_gdt_checksum_def gdt_bytes_def[symmetric] assms(5)
    by (rule checksum_one_byte) (use assms(3,4) in auto)
  ultimately show ?thesis using assms(2) by (simp add: gdt_verify_integrity_def)
qed

text \<open>Turning the user code segment into a ring 0 segment is noticed.\<close>

theorem gdt_integrity_detects_byte_witness:
  "\<exists>g. gdt_setup (\<lambda>a. a) 0x109000 gdt_boot = (g, True)
    \<and> \<not> gdt_verify_integrity 0x109000 (g\<lparr>gdt_entries := (gdt_entries g)[3 := flat_entry 0x9A]\<rparr>)"
proof -
  have cpu: "cpu_marks_accessed (\<lambda>a. a)" by (simp add: cpu_marks_accessed_def)
  obtain g a d where g: "gdt_setup (\<lambda>a. a) 0x109000 gdt_boot = (g, True)"
    "gdt_entries g = [gdt_zero_entry, flat_entry a, flat_entry d, flat_entry 0xFA, flat_entry 0xF2,
      gdt_zero_entry]" "gdt_verify_integrity 0x109000 g"
    by (rule gdt_setup_result[OF gdt_boot_shape cpu])
  let ?h = "g\<lparr>gdt_entries := (gdt_entries g)[3 := flat_entry 0x9A]\<rparr>"
  have bytes: "gdt_bytes g = concat (map gdt_entry_bytes [gdt_zero_entry, flat_entry a, flat_entry d])
      @ [0xFF, 0xFF, 0, 0, 0, 0xFA, 0xCF, 0]
      @ concat (map gdt_entry_bytes [flat_entry 0xF2, gdt_zero_entry])"
    "gdt_bytes ?h = concat (map gdt_entry_bytes [gdt_zero_entry, flat_entry a, flat_entry d])
      @ [0xFF, 0xFF, 0, 0, 0, 0x9A, 0xCF, 0]
      @ concat (map gdt_entry_bytes [flat_entry 0xF2, gdt_zero_entry])"
    using g(2) by (simp_all add: gdt_bytes_def gdt_entry_bytes_def flat_entry_def le16_def
        list_update_numeral)
  have l24: "length (concat (map gdt_entry_bytes [gdt_zero_entry, flat_entry a, flat_entry d])) = 24"
    by (simp add: gdt_entry_bytes_def)
  have "29 < length (gdt_bytes g)" "0x9A \<noteq> gdt_bytes g ! 29"
    unfolding bytes nth_append length_append l24 by simp_all
  moreover have "gdt_bytes ?h = (gdt_bytes g)[29 := 0x9A]"
    unfolding bytes list_update_append l24 by (simp add: list_update_numeral)
  ultimately have "\<not> gdt_verify_integrity 0x109000 ?h"
    using gdt_integrity_detects_byte[OF g(3), of ?h 29 "0x9A"] by simp
  with g(1) show ?thesis by blast
qed

end
