(* ===== verification/Idt.thy ===== *)
theory Idt
  imports Gdt
begin

text \<open>
  The interrupt descriptor table and the task state segment (source/boot/idt/idt.c, idt.h): 256
  gates, the pseudo-descriptor for \<open>lidt\<close>, and the TSS whose ring 0 stack the CPU takes on an
  interrupt from user mode and whose descriptor is entry 5 of the GDT.

  Linker addresses are parameters: \<open>isr v\<close> and \<open>irq n\<close> are the entry points of the assembly stubs,
  \<open>idt_addr\<close> and \<open>tss_addr\<close> the addresses of the tables. The specification reads a gate as handler,
  type and privilege level, and states which gates user code may raise and which I/O ports the TSS
  opens to it, as the processor manual defines both.
\<close>

section \<open>State\<close>

record idt_entry =
  ie_handler_low :: u16
  ie_selector :: u16
  ie_reserved :: u8
  ie_type_attr :: u8
  ie_handler_high :: u16

record tss_entry =
  tss_prev_tss :: u32
  tss_esp0 :: u32
  tss_ss0 :: u32
  tss_esp1 :: u32
  tss_ss1 :: u32
  tss_esp2 :: u32
  tss_ss2 :: u32
  tss_cr3 :: u32
  tss_eip :: u32
  tss_eflags :: u32
  tss_eax :: u32
  tss_ecx :: u32
  tss_edx :: u32
  tss_ebx :: u32
  tss_esp :: u32
  tss_ebp :: u32
  tss_esi :: u32
  tss_edi :: u32
  tss_es :: u32
  tss_cs :: u32
  tss_ss :: u32
  tss_ds :: u32
  tss_fs :: u32
  tss_gs :: u32
  tss_ldt :: u32
  tss_trap :: u16
  tss_iomap_base :: u16

record idt =
  idt_entries :: "idt_entry list"
  idt_ptr_limit :: u16
  idt_ptr_base :: u32
  idt_tss :: tss_entry
  idt_initialized :: bool

abbreviation (input) IDT_ENTRIES_COUNT :: nat where "IDT_ENTRIES_COUNT \<equiv> 256"
abbreviation (input) IDT_TYPE_INTERRUPT_GATE :: u8 where "IDT_TYPE_INTERRUPT_GATE \<equiv> 0x8E"
abbreviation (input) IDT_TYPE_TRAP_GATE :: u8 where "IDT_TYPE_TRAP_GATE \<equiv> 0x8F"
abbreviation (input) IDT_FLAG_RING3 :: u8 where "IDT_FLAG_RING3 \<equiv> 0x60"

definition idt_zero_entry :: idt_entry where
  "idt_zero_entry = \<lparr>ie_handler_low = 0, ie_selector = 0, ie_reserved = 0, ie_type_attr = 0,
     ie_handler_high = 0\<rparr>"

definition tss_zero :: tss_entry where
  "tss_zero = \<lparr>tss_prev_tss = 0, tss_esp0 = 0, tss_ss0 = 0, tss_esp1 = 0, tss_ss1 = 0, tss_esp2 = 0,
     tss_ss2 = 0, tss_cr3 = 0, tss_eip = 0, tss_eflags = 0, tss_eax = 0, tss_ecx = 0, tss_edx = 0,
     tss_ebx = 0, tss_esp = 0, tss_ebp = 0, tss_esi = 0, tss_edi = 0, tss_es = 0, tss_cs = 0,
     tss_ss = 0, tss_ds = 0, tss_fs = 0, tss_gs = 0, tss_ldt = 0, tss_trap = 0, tss_iomap_base = 0\<rparr>"

section \<open>Operations\<close>

definition idt_encode :: "u32 \<Rightarrow> u16 \<Rightarrow> u8 \<Rightarrow> idt_entry" where
  "idt_encode handler selector type_attr =
     \<lparr>ie_handler_low = ucast (handler AND 0xFFFF), ie_selector = selector, ie_reserved = 0,
      ie_type_attr = type_attr, ie_handler_high = ucast (drop_bit 16 handler AND 0xFFFF)\<rparr>"

definition idt_set_entry :: "int \<Rightarrow> u32 \<Rightarrow> u16 \<Rightarrow> u8 \<Rightarrow> idt \<Rightarrow> idt" where
  "idt_set_entry index handler selector type_attr s =
     (if index < 0 \<or> index \<ge> int IDT_ENTRIES_COUNT then s
      else s\<lparr>idt_entries := (idt_entries s)[nat index := idt_encode handler selector type_attr]\<rparr>)"

text \<open>\<open>tss_setup\<close> clears the TSS byte by byte, sets the kernel selectors and stores the TSS
  descriptor; \<open>sizeof(tss_entry_t)\<close> is 104.\<close>

definition tss_setup :: "u32 \<Rightarrow> idt \<times> gdt \<Rightarrow> idt \<times> gdt" where
  "tss_setup tss_addr = (\<lambda>(s, g).
     (s\<lparr>idt_tss := tss_zero
          \<lparr>tss_ss0 := of_nat GDT_KERNEL_DATA_SEL, tss_esp0 := 0,
           tss_cs := of_nat GDT_KERNEL_CODE_SEL OR 0, tss_ss := of_nat GDT_KERNEL_DATA_SEL OR 0,
           tss_ds := of_nat GDT_KERNEL_DATA_SEL OR 0, tss_es := of_nat GDT_KERNEL_DATA_SEL OR 0,
           tss_fs := of_nat GDT_KERNEL_DATA_SEL OR 0, tss_gs := of_nat GDT_KERNEL_DATA_SEL OR 0\<rparr>\<rparr>,
      gdt_set_entry (int GDT_TSS_ENTRY) tss_addr (104 - 1) 0x89 0x00 g))"

text \<open>The gates in the order \<open>idt_setup\<close> sets them: vector, stub, attributes.\<close>

definition exception_vectors :: "nat list" where
  "exception_vectors = [0, 1, 2, 3, 4, 5, 6, 7, 8, 10, 11, 12, 13, 14, 16]"

definition idt_gates :: "(nat \<Rightarrow> u32) \<Rightarrow> (nat \<Rightarrow> u32) \<Rightarrow> (nat \<times> u32 \<times> u8) list" where
  "idt_gates isr irq = map (\<lambda>v. (v, isr v, IDT_TYPE_INTERRUPT_GATE)) exception_vectors
     @ [(32, irq 0, IDT_TYPE_INTERRUPT_GATE), (33, irq 1, IDT_TYPE_INTERRUPT_GATE),
        (0x80, isr 128, IDT_TYPE_TRAP_GATE OR IDT_FLAG_RING3)]"

definition set_gates :: "(nat \<times> u32 \<times> u8) list \<Rightarrow> idt \<Rightarrow> idt" where
  "set_gates gs s = fold (\<lambda>(v, h, t). idt_set_entry (int v) h (of_nat GDT_KERNEL_CODE_SEL) t) gs s"

definition idt_setup ::
    "(nat \<Rightarrow> u32) \<Rightarrow> (nat \<Rightarrow> u32) \<Rightarrow> u32 \<Rightarrow> u32 \<Rightarrow> idt \<times> gdt \<Rightarrow> (idt \<times> gdt) \<times> bool" where
  "idt_setup isr irq idt_addr tss_addr = (\<lambda>(s, g).
     let s = s\<lparr>idt_entries := fold (\<lambda>i es. es[i := idt_zero_entry]) [0..<IDT_ENTRIES_COUNT] (idt_entries s)\<rparr>;
         s = s\<lparr>idt_ptr_limit := of_nat (8 * IDT_ENTRIES_COUNT - 1), idt_ptr_base := idt_addr\<rparr>;
         s = set_gates (idt_gates isr irq) s;
         (s, g) = tss_setup tss_addr (s, g);
         s = s\<lparr>idt_initialized := True\<rparr>
     in ((s, g), True))"

definition idt_verify_integrity :: "u32 \<Rightarrow> idt \<Rightarrow> bool" where
  "idt_verify_integrity idt_addr s =
     (if \<not> idt_initialized s then False
      else if idt_ptr_base s \<noteq> idt_addr \<or> idt_ptr_limit s \<noteq> of_nat (8 * IDT_ENTRIES_COUNT - 1) then False
      else if ie_handler_low (idt_entries s ! 0) = 0 \<and> ie_handler_high (idt_entries s ! 0) = 0 then False
      else if ie_handler_low (idt_entries s ! 13) = 0 \<and> ie_handler_high (idt_entries s ! 13) = 0 then False
      else True)"

definition tss_set_kernel_stack :: "u32 \<Rightarrow> idt \<Rightarrow> idt" where
  "tss_set_kernel_stack stack s = s\<lparr>idt_tss := (idt_tss s)\<lparr>tss_esp0 := stack\<rparr>\<rparr>"

section \<open>Specification: gates\<close>

datatype gate_kind = Interrupt_Gate | Trap_Gate | Other_Gate

record gate =
  gate_handler :: u32
  gate_selector :: u16
  gate_kind :: gate_kind
  gate_dpl :: ring

definition gate_of :: "idt_entry \<Rightarrow> gate option" where
  "gate_of e = (if bit (ie_type_attr e) 7
     then Some \<lparr>gate_handler = ucast (ie_handler_low e) OR push_bit 16 (ucast (ie_handler_high e)),
       gate_selector = ie_selector e,
       gate_kind = (if ie_type_attr e AND 0x1F = 0x0E then Interrupt_Gate
         else if ie_type_attr e AND 0x1F = 0x0F then Trap_Gate else Other_Gate),
       gate_dpl = dpl_of (ie_type_attr e)\<rparr>
     else None)"

text \<open>\<open>int v\<close> at privilege level \<open>cpl\<close> reaches the handler: the gate is present and its level does
  not exclude the caller.\<close>

definition int_allowed :: "idt \<Rightarrow> ring \<Rightarrow> nat \<Rightarrow> bool" where
  "int_allowed s cpl v = (case gate_of (idt_entries s ! v) of None \<Rightarrow> False | Some g \<Rightarrow> cpl \<le> gate_dpl g)"

definition idt_shape :: "idt \<Rightarrow> bool" where
  "idt_shape s \<longleftrightarrow> length (idt_entries s) = IDT_ENTRIES_COUNT"

section \<open>Specification: the I/O permission bitmap\<close>

text \<open>The TSS as its 104 bytes.\<close>

definition tss_bytes :: "tss_entry \<Rightarrow> u8 list" where
  "tss_bytes t = concat (map le32 [tss_prev_tss t, tss_esp0 t, tss_ss0 t, tss_esp1 t, tss_ss1 t,
     tss_esp2 t, tss_ss2 t, tss_cr3 t, tss_eip t, tss_eflags t, tss_eax t, tss_ecx t, tss_edx t,
     tss_ebx t, tss_esp t, tss_ebp t, tss_esi t, tss_edi t, tss_es t, tss_cs t, tss_ss t, tss_ds t,
     tss_fs t, tss_gs t, tss_ldt t]) @ le16 (tss_trap t) @ le16 (tss_iomap_base t)"

text \<open>
  A byte access to \<open>port\<close> at a level above IOPL is permitted when the port's bit in the bitmap at
  \<open>iomap_base\<close> is clear; the CPU reads two bytes there and both must lie within the TSS limit.
\<close>

definition io_permitted :: "tss_entry \<Rightarrow> nat \<Rightarrow> nat \<Rightarrow> bool" where
  "io_permitted t limit port =
     (let k = unat (tss_iomap_base t) + port div 8
      in k + 1 \<le> limit \<and> \<not> bit (tss_bytes t ! k) (port mod 8))"

section \<open>Lemmas\<close>

lemma gate_of_encode:
  "gate_of (idt_encode h sel t) = (if bit t 7
     then Some \<lparr>gate_handler = h, gate_selector = sel,
       gate_kind = (if t AND 0x1F = 0x0E then Interrupt_Gate
         else if t AND 0x1F = 0x0F then Trap_Gate else Other_Gate), gate_dpl = dpl_of t\<rparr>
     else None)"
proof -
  let ?h = "ucast (ucast (take_bit 16 h) :: u16)
    OR push_bit 16 (ucast (ucast (take_bit 16 (drop_bit 16 h)) :: u16)) :: u32"
  have "?h = h"
  proof (rule bit_word_eqI)
    fix n assume "n < LENGTH(32)"
    then consider "n < 16" | "16 \<le> n" "n < 32" by fastforce
    then show "bit ?h n = bit h n" by cases (auto simp: bit_simps)
  qed
  then show ?thesis by (simp add: gate_of_def idt_encode_def and_masks)
qed

lemma gate_of_zero [simp]: "gate_of idt_zero_entry = None"
  by (simp add: gate_of_def idt_zero_entry_def)

lemma set_gates_nth:
  assumes "distinct (map fst gs)" "\<forall>v \<in> set (map fst gs). v < 256" "idt_shape s"
  shows "idt_shape (set_gates gs s) \<and> (\<forall>v. idt_entries (set_gates gs s) ! v = (case map_of gs v of
      None \<Rightarrow> idt_entries s ! v | Some (h, t) \<Rightarrow> idt_encode h 8 t))"
  using assms
proof (induction gs arbitrary: s)
  case Nil
  then show ?case by (simp add: set_gates_def)
next
  case (Cons g gs)
  obtain v h t where g: "g = (v, h, t)" by (cases g)
  let ?s = "idt_set_entry (int v) h 8 t s"
  have v: "v < 256" "v \<notin> set (map fst gs)" using Cons.prems g by auto
  have len: "length (idt_entries s) = 256" using Cons.prems(3) by (simp add: idt_shape_def)
  have "idt_shape ?s" using Cons.prems(3) by (simp add: idt_shape_def idt_set_entry_def)
  then have IH: "idt_shape (set_gates gs ?s) \<and> (\<forall>w. idt_entries (set_gates gs ?s) ! w
      = (case map_of gs w of None \<Rightarrow> idt_entries ?s ! w | Some (h, t) \<Rightarrow> idt_encode h 8 t))"
    using Cons.IH Cons.prems by simp
  have "map_of gs v = None" using v(2) by (simp add: map_of_eq_None_iff)
  with IH v(1) len show ?case
    by (auto simp: set_gates_def g idt_set_entry_def split: option.split)
qed

lemma gate_vectors:
  "map fst (idt_gates isr irq) = [0, 1, 2, 3, 4, 5, 6, 7, 8, 10, 11, 12, 13, 14, 16, 32, 33, 128]"
  by (simp add: idt_gates_def exception_vectors_def)

lemma map_of_gates:
  "map_of (idt_gates isr irq) v =
     (if v \<in> set exception_vectors then Some (isr v, 0x8E)
      else if v = 32 \<or> v = 33 then Some (irq (v - 32), 0x8E)
      else if v = 128 then Some (isr 128, 0x8F OR 0x60) else None)"
  by (simp add: idt_gates_def exception_vectors_def)

text \<open>The gate a vector has after set-up.\<close>

definition boot_gate :: "(nat \<Rightarrow> u32) \<Rightarrow> (nat \<Rightarrow> u32) \<Rightarrow> nat \<Rightarrow> gate option" where
  "boot_gate isr irq v =
     (if v \<in> set exception_vectors
        then Some \<lparr>gate_handler = isr v, gate_selector = 0x08, gate_kind = Interrupt_Gate, gate_dpl = Ring0\<rparr>
      else if v = 32 \<or> v = 33
        then Some \<lparr>gate_handler = irq (v - 32), gate_selector = 0x08, gate_kind = Interrupt_Gate, gate_dpl = Ring0\<rparr>
      else if v = 0x80
        then Some \<lparr>gate_handler = isr 128, gate_selector = 0x08, gate_kind = Trap_Gate, gate_dpl = Ring3\<rparr>
      else None)"

definition boot_tss :: tss_entry where
  "boot_tss = tss_zero\<lparr>tss_ss0 := 0x10, tss_cs := 0x08, tss_ss := 0x10, tss_ds := 0x10,
     tss_es := 0x10, tss_fs := 0x10, tss_gs := 0x10\<rparr>"

lemma fold_zero_entries:
  "length es = n \<Longrightarrow> fold (\<lambda>i es. es[i := z]) [0..<n] es = replicate n z"
proof -
  assume len: "length es = n"
  have "k \<le> n \<Longrightarrow> fold (\<lambda>i es. es[i := z]) [0..<k] es = replicate k z @ drop k es" for k
  proof (induction k)
    case 0
    then show ?case by simp
  next
    case (Suc k)
    then have "drop k es = es ! k # drop (Suc k) es" using len by (simp add: Cons_nth_drop_Suc)
    with Suc show ?case
      by (simp add: list_update_append replicate_append_same flip: replicate_Suc)
  qed
  from this[of n] len show ?thesis by simp
qed

lemma idt_setup_result:
  assumes "idt_shape s0"
  obtains s where "idt_setup isr irq idt_addr tss_addr (s0, g)
      = ((s, gdt_set_entry 5 tss_addr 103 0x89 0 g), True)"
    "idt_shape s" "\<forall>v < 256. gate_of (idt_entries s ! v) = boot_gate isr irq v"
    "idt_tss s = boot_tss" "idt_ptr_base s = idt_addr" "idt_ptr_limit s = 2047" "idt_initialized s"
proof -
  let ?z = "s0\<lparr>idt_entries := replicate 256 idt_zero_entry, idt_ptr_limit := 2047, idt_ptr_base := idt_addr\<rparr>"
  have "distinct (map fst (idt_gates isr irq))" "\<forall>v \<in> set (map fst (idt_gates isr irq)). v < 256"
    unfolding gate_vectors by simp_all
  moreover have "idt_shape ?z" by (simp add: idt_shape_def)
  ultimately have z: "idt_shape (set_gates (idt_gates isr irq) ?z)"
    "\<forall>v. idt_entries (set_gates (idt_gates isr irq) ?z) ! v = (case map_of (idt_gates isr irq) v of
      None \<Rightarrow> idt_entries ?z ! v | Some (h, t) \<Rightarrow> idt_encode h 8 t)"
    using set_gates_nth by blast+
  have keeps: "idt_ptr_base (set_gates gs t) = idt_ptr_base t
      \<and> idt_ptr_limit (set_gates gs t) = idt_ptr_limit t" for gs t
    by (induction gs arbitrary: t) (auto simp: set_gates_def idt_set_entry_def)
  let ?s = "(set_gates (idt_gates isr irq) ?z)\<lparr>idt_tss := boot_tss, idt_initialized := True\<rparr>"
  have tss: "tss_zero\<lparr>tss_ss0 := 16, tss_esp0 := 0, tss_cs := 8, tss_ss := 16, tss_ds := 16, tss_es := 16,
      tss_fs := 16, tss_gs := 16\<rparr> = boot_tss"
    by (simp add: boot_tss_def tss_zero_def)
  have "idt_setup isr irq idt_addr tss_addr (s0, g)
      = ((?s, gdt_set_entry 5 tss_addr 103 0x89 0 g), True)"
    using assms
    by (simp add: idt_setup_def tss_setup_def Let_def fold_zero_entries idt_shape_def tss)
  moreover have "gate_of (idt_entries ?s ! v) = boot_gate isr irq v" if "v < 256" for v
    using that z(2)
    by (simp add: map_of_gates boot_gate_def gate_of_encode dpl_of_def)
  moreover have "idt_shape ?s" using z(1) by (simp add: idt_shape_def)
  ultimately show ?thesis using that keeps by simp
qed

text \<open>The integrity check passes after set-up when the two stubs it looks at are not at address 0.\<close>

lemma gate_handler_zero:
  assumes "gate_of e = Some g" "ie_handler_low e = 0" "ie_handler_high e = 0"
  shows "gate_handler g = 0"
  using assms by (auto simp: gate_of_def split: if_splits)

lemma idt_setup_verifies:
  assumes "idt_shape s0" "isr 0 \<noteq> 0" "isr 13 \<noteq> 0"
    "idt_setup isr irq idt_addr tss_addr (s0, g) = ((s, h), ok)"
  shows "idt_verify_integrity idt_addr s"
proof -
  obtain t where t: "idt_setup isr irq idt_addr tss_addr (s0, g)
      = ((t, gdt_set_entry 5 tss_addr 103 0x89 0 g), True)"
    "\<forall>v < 256. gate_of (idt_entries t ! v) = boot_gate isr irq v"
    "idt_ptr_base t = idt_addr" "idt_ptr_limit t = 2047" "idt_initialized t"
    by (rule idt_setup_result[OF assms(1)])
  have "t = s" using t(1) assms(4) by simp
  have nz: "\<not> (ie_handler_low (idt_entries s ! v) = 0 \<and> ie_handler_high (idt_entries s ! v) = 0)"
    if "isr v \<noteq> 0" "v \<in> set exception_vectors" "v < 256" for v
    using t(2) that gate_handler_zero[of "idt_entries s ! v"] \<open>t = s\<close> by (auto simp: boot_gate_def)
  from nz[of 0] nz[of 13] t(3-5) assms(2,3) \<open>t = s\<close> show ?thesis
    by (simp add: idt_verify_integrity_def exception_vectors_def)
qed

text \<open>The TSS after boot and any number of kernel stack changes.\<close>

lemma tss_after_stacks:
  "idt_tss s = boot_tss \<Longrightarrow> \<exists>e. idt_tss (fold tss_set_kernel_stack stacks s) = boot_tss\<lparr>tss_esp0 := e\<rparr>"
proof (induction stacks rule: rev_induct)
  case Nil
  then show ?case by (intro exI[of _ 0]) (simp add: boot_tss_def tss_zero_def)
next
  case (snoc k stacks)
  then show ?case by (auto simp: tss_set_kernel_stack_def)
qed

lemma boot_tss_bytes:
  "k \<in> {12, 20} \<Longrightarrow> tss_bytes (boot_tss\<lparr>tss_esp0 := e\<rparr>) ! k = 0"
  by (auto simp: tss_bytes_def boot_tss_def tss_zero_def le32_def)

section \<open>Properties\<close>

text \<open>The tables before boot.\<close>

definition idt_boot :: idt where
  "idt_boot = \<lparr>idt_entries = replicate 256 idt_zero_entry, idt_ptr_limit = 0, idt_ptr_base = 0,
     idt_tss = tss_zero, idt_initialized = False\<rparr>"

lemma idt_boot_shape [simp]: "idt_shape idt_boot"
  by (simp add: idt_shape_def idt_boot_def)

text \<open>The interrupt table after set-up, vector by vector. \<open>idt_setup\<close> succeeds; the exceptions it
  lists, the timer, the keyboard and the system call vector hold gates to their stubs in the kernel
  code segment, and every other vector of the 256 is not present; the TSS descriptor replaces entry
  5 of the GDT and nothing else of it.\<close>

theorem idt_setup_vectors:
  assumes "idt_shape s0"
  shows "\<exists>s. idt_setup isr irq idt_addr tss_addr (s0, g)
      = ((s, gdt_set_entry 5 tss_addr 103 0x89 0 g), True)
    \<and> idt_ptr_base s = idt_addr \<and> idt_ptr_limit s = 2047
    \<and> (\<forall>v < 256. gate_of (idt_entries s ! v) =
        (if v \<in> {0, 1, 2, 3, 4, 5, 6, 7, 8, 10, 11, 12, 13, 14, 16}
           then Some \<lparr>gate_handler = isr v, gate_selector = 0x08, gate_kind = Interrupt_Gate, gate_dpl = Ring0\<rparr>
         else if v = 32 \<or> v = 33
           then Some \<lparr>gate_handler = irq (v - 32), gate_selector = 0x08, gate_kind = Interrupt_Gate, gate_dpl = Ring0\<rparr>
         else if v = 128
           then Some \<lparr>gate_handler = isr 128, gate_selector = 0x08, gate_kind = Trap_Gate, gate_dpl = Ring3\<rparr>
         else None))"
proof -
  obtain s where s: "idt_setup isr irq idt_addr tss_addr (s0, g)
      = ((s, gdt_set_entry 5 tss_addr 103 0x89 0 g), True)"
    "\<forall>v < 256. gate_of (idt_entries s ! v) = boot_gate isr irq v"
    "idt_ptr_base s = idt_addr" "idt_ptr_limit s = 2047"
    by (rule idt_setup_result[OF assms])
  have "set exception_vectors = {0, 1, 2, 3, 4, 5, 6, 7, 8, 10, 11, 12, 13, 14, 16}"
    by (auto simp: exception_vectors_def)
  with s(2) show ?thesis by (intro exI[of _ s]) (simp add: s(1,3,4) boot_gate_def)
qed

theorem idt_setup_vectors_witness:
  "\<exists>s g. idt_setup (\<lambda>v. 0x101000 + of_nat v) (\<lambda>n. 0x102000 + of_nat n) 0x103000 0x104000
      (idt_boot, gdt_boot) = ((s, g), True)
    \<and> gate_of (idt_entries s ! 33) = Some \<lparr>gate_handler = 0x102001, gate_selector = 0x08,
        gate_kind = Interrupt_Gate, gate_dpl = Ring0\<rparr>
    \<and> gate_of (idt_entries s ! 9) = None"
proof -
  obtain s where s: "idt_setup (\<lambda>v. 0x101000 + of_nat v) (\<lambda>n. 0x102000 + of_nat n) 0x103000 0x104000
      (idt_boot, gdt_boot) = ((s, gdt_set_entry 5 0x104000 103 0x89 0 gdt_boot), True)"
    "\<forall>v < 256. gate_of (idt_entries s ! v) =
        (if v \<in> {0, 1, 2, 3, 4, 5, 6, 7, 8, 10, 11, 12, 13, 14, 16}
           then Some \<lparr>gate_handler = 0x101000 + of_nat v, gate_selector = 0x08, gate_kind = Interrupt_Gate, gate_dpl = Ring0\<rparr>
         else if v = 32 \<or> v = 33
           then Some \<lparr>gate_handler = 0x102000 + of_nat (v - 32), gate_selector = 0x08, gate_kind = Interrupt_Gate, gate_dpl = Ring0\<rparr>
         else if v = 128
           then Some \<lparr>gate_handler = 0x101000 + of_nat 128, gate_selector = 0x08, gate_kind = Trap_Gate, gate_dpl = Ring3\<rparr>
         else None)"
    using idt_setup_vectors[OF idt_boot_shape] by blast
  from s(2)[rule_format, of 33] s(2)[rule_format, of 9] s(1) show ?thesis by simp
qed

text \<open>User code can raise the system call and nothing else. After \<open>idt_setup\<close>, a software
  interrupt from any ring but 0 passes the gate check for exactly one vector of the 256, 0x80,
  while ring 0 passes for every vector that has a handler.\<close>

theorem only_syscall_from_user:
  assumes "idt_shape s0" "idt_setup isr irq idt_addr tss_addr (s0, g) = ((s, h), ok)" "v < 256"
  shows "(cpl \<noteq> Ring0 \<longrightarrow> (int_allowed s cpl v \<longleftrightarrow> v = 0x80))
    \<and> (int_allowed s Ring0 v
        \<longleftrightarrow> v \<in> {0, 1, 2, 3, 4, 5, 6, 7, 8, 10, 11, 12, 13, 14, 16, 32, 33, 128})"
proof -
  have gates: "gate_of (idt_entries s ! v) = boot_gate isr irq v"
    using idt_setup_result[OF assms(1), of isr irq idt_addr tss_addr g] assms(2,3) by (metis Pair_inject)
  have "cpl \<le> Ring0 \<longleftrightarrow> cpl = Ring0" "cpl \<le> Ring3" for cpl
    by (cases cpl; simp add: less_eq_ring_def)+
  with gates show ?thesis
    by (auto simp: int_allowed_def boot_gate_def exception_vectors_def split: if_splits)
qed

theorem only_syscall_from_user_witness:
  "\<exists>s h. idt_setup (\<lambda>v. 0x101000) (\<lambda>n. 0x102000) 0x103000 0x104000 (idt_boot, gdt_boot) = ((s, h), True)
    \<and> int_allowed s Ring3 128 \<and> \<not> int_allowed s Ring3 14 \<and> int_allowed s Ring0 14"
proof -
  obtain s h where s: "idt_setup (\<lambda>v. 0x101000) (\<lambda>n. 0x102000) 0x103000 0x104000 (idt_boot, gdt_boot)
      = ((s, h), True)"
    by (rule idt_setup_result[OF idt_boot_shape])
  from only_syscall_from_user[OF idt_boot_shape s, of 128 Ring3]
    only_syscall_from_user[OF idt_boot_shape s, of 14 Ring3] s
  show ?thesis by auto
qed

text \<open>The TSS leaves I/O ports open to user code. \<open>idt_setup\<close> leaves \<open>iomap_base\<close> 0, inside the
  TSS limit it declares, so the CPU takes the TSS itself for the permission bitmap: whatever kernel
  stacks are set later, user code may access the keyboard controller (ports 0x60 and 0x64) and the
  second interrupt controller (ports 0xA0 and 0xA1).\<close>

theorem tss_opens_ports:
  assumes "idt_shape s0" "idt_setup isr irq idt_addr tss_addr (s0, g) = ((s, h), ok)"
    "gdt_shape g" "port \<in> {0x60, 0x64, 0xA0, 0xA1}"
  shows "io_permitted (idt_tss (fold tss_set_kernel_stack stacks s))
    (unat (seg_limit (segment_of (gdt_entries h ! 5)))) port"
proof -
  have "idt_tss s = boot_tss" "h = gdt_set_entry 5 tss_addr 103 0x89 0 g"
    using idt_setup_result[OF assms(1), of isr irq idt_addr tss_addr g] assms(2) by (metis Pair_inject)+
  moreover from tss_after_stacks[OF this(1), of stacks] obtain e where
    e: "idt_tss (fold tss_set_kernel_stack stacks s) = boot_tss\<lparr>tss_esp0 := e\<rparr>" by blast
  ultimately have "unat (seg_limit (segment_of (gdt_entries h ! 5))) = 103"
    using assms(3) by (simp add: gdt_set_entry_def gdt_shape_def segment_of_encoding)
  moreover have "tss_iomap_base (boot_tss\<lparr>tss_esp0 := e\<rparr>) = 0"
    by (simp add: boot_tss_def tss_zero_def)
  ultimately show ?thesis
    unfolding e using assms(4) boot_tss_bytes[of 12 e] boot_tss_bytes[of 20 e]
    by (auto simp: io_permitted_def Let_def)
qed

theorem tss_opens_ports_witness:
  "\<exists>s h. idt_setup (\<lambda>v. 0x101000) (\<lambda>n. 0x102000) 0x103000 0x104000 (idt_boot, gdt_boot) = ((s, h), True)
    \<and> io_permitted (idt_tss (tss_set_kernel_stack 0x200000 s))
        (unat (seg_limit (segment_of (gdt_entries h ! 5)))) 0x60"
proof -
  obtain s h where s: "idt_setup (\<lambda>v. 0x101000) (\<lambda>n. 0x102000) 0x103000 0x104000 (idt_boot, gdt_boot)
      = ((s, h), True)"
    by (rule idt_setup_result[OF idt_boot_shape])
  from tss_opens_ports[OF idt_boot_shape s gdt_boot_shape, of "0x60" "[0x200000]"] s
  show ?thesis by auto
qed

end
