(* ===== verification/Physical.thy ===== *)
theory Physical
  imports Memory
begin

text \<open>
  The physical sector allocator (source/system/memory/physical.c): a bitmap with one bit per
  8 KiB sector, bit set meaning free. The state is the bitmap, the address of the first sector
  and the number of sectors the machine has; the operations initialise it, take the first free
  sector, take the first free run of sectors, and give one sector back.

  The specification is the set of free sector numbers. The allocator is shown to take the least
  one (or the least run), to hand out each sector once until it is freed, and the cases in which
  the code leaves its contract (a bitmap smaller than the machine, freeing a run) are stated as
  theorems of their own.
\<close>

section \<open>State\<close>

abbreviation (input) PMM_SECTORS :: nat where "PMM_SECTORS \<equiv> 65536"
abbreviation (input) PMM_SECTOR_SIZE :: u32 where "PMM_SECTOR_SIZE \<equiv> 8192"

record pmm =
  mem_phys_map :: "u8 list"
  mem_phys_start :: u32
  mem_phys_sectors :: u32

text \<open>The static data before the first call: \<open>PMM_SECTORS / 8\<close> zero bytes.\<close>

definition pmm_static :: pmm where
  "pmm_static = \<lparr>mem_phys_map = replicate (PMM_SECTORS div 8) 0, mem_phys_start = 0,
     mem_phys_sectors = 0\<rparr>"

section \<open>Bits of the map\<close>

text \<open>\<open>map[b] & (1 << m)\<close>, \<open>map[b] &= ~(1 << m)\<close> and \<open>map[b] |= 1 << m\<close>, with the
  array bound checked.\<close>

definition map_test :: "u8 list \<Rightarrow> nat \<Rightarrow> nat \<Rightarrow> bool res" where
  "map_test mp b m = rbind (arr_get mp b) (\<lambda>c. Inr (c AND push_bit m 1 \<noteq> 0))"

definition map_clear :: "u8 list \<Rightarrow> nat \<Rightarrow> nat \<Rightarrow> u8 list res" where
  "map_clear mp b m = rbind (arr_get mp b) (\<lambda>c. arr_set mp b (c AND NOT (push_bit m 1)))"

definition map_mark :: "u8 list \<Rightarrow> nat \<Rightarrow> nat \<Rightarrow> u8 list res" where
  "map_mark mp b m = rbind (arr_get mp b) (\<lambda>c. arr_set mp b (c OR push_bit m 1))"

section \<open>Operations\<close>

definition mem_phys_init :: "u32 \<Rightarrow> u32 \<Rightarrow> pmm \<Rightarrow> pmm res" where
  "mem_phys_init start total_size p =
     rbind (rfold (\<lambda>mp i. arr_set mp i 0xFF) (mem_phys_map p) [0..<PMM_SECTORS div 8])
       (\<lambda>mp. Inr \<lparr>mem_phys_map = mp, mem_phys_start = start,
                  mem_phys_sectors = total_size div PMM_SECTOR_SIZE\<rparr>)"

text \<open>The two nested scans of \<open>mem_phys_alloc\<close>: the first byte that is not 0, its lowest bit.\<close>

fun alloc_scan :: "u8 list \<Rightarrow> nat list \<Rightarrow> (nat \<times> nat) option res" where
  "alloc_scan mp [] = Inr None"
| "alloc_scan mp (i # is) = rbind (arr_get mp i) (\<lambda>c.
     if c = 0 then alloc_scan mp is
     else case List.find (\<lambda>b. c AND push_bit b 1 \<noteq> 0) [0..<8] of
            Some b \<Rightarrow> Inr (Some (i, b))
          | None \<Rightarrow> alloc_scan mp is)"

definition mem_phys_alloc :: "pmm \<Rightarrow> (u32 \<times> pmm) res" where
  "mem_phys_alloc p = rbind (alloc_scan (mem_phys_map p) [0..<PMM_SECTORS div 8]) (\<lambda>r.
     case r of
       None \<Rightarrow> Inr (0, p)
     | Some (i, b) \<Rightarrow> rbind (map_clear (mem_phys_map p) i b) (\<lambda>mp.
         Inr (mem_phys_start p + PMM_SECTOR_SIZE * of_nat (i * 8 + b), p\<lparr>mem_phys_map := mp\<rparr>)))"

text \<open>
  \<open>mem_phys_alloc_sectors\<close>: the inner loop that checks the \<open>num_sectors\<close> sectors from \<open>i\<close> on,
  the outer loop over the candidates, the loop that clears the run. The sector numbers stay below
  \<open>2 ^ 19\<close> (a 32-bit size divided by 8192), so the \<open>size_t\<close> counters are naturals here.
\<close>

fun run_free :: "u8 list \<Rightarrow> nat \<Rightarrow> nat list \<Rightarrow> bool res" where
  "run_free mp i [] = Inr True"
| "run_free mp i (j # js) = rbind (map_test mp ((i + j) div 8) ((i + j) mod 8)) (\<lambda>f.
     if f then run_free mp i js else Inr False)"

fun find_run :: "u8 list \<Rightarrow> nat \<Rightarrow> nat list \<Rightarrow> nat option res" where
  "find_run mp n [] = Inr None"
| "find_run mp n (i # is) = rbind (run_free mp i [0..<n]) (\<lambda>f.
     if f then Inr (Some i) else find_run mp n is)"

definition clear_run :: "u8 list \<Rightarrow> nat \<Rightarrow> nat \<Rightarrow> u8 list res" where
  "clear_run mp i n =
     rfold (\<lambda>mp j. map_clear mp ((i + j) div 8) ((i + j) mod 8)) mp [0..<n]"

definition mem_phys_alloc_sectors :: "pmm \<Rightarrow> u32 \<Rightarrow> (u32 \<times> pmm) res" where
  "mem_phys_alloc_sectors p num_sectors =
     (if num_sectors = 0 \<or> num_sectors > mem_phys_sectors p then Inr (0, p)
      else let max = mem_phys_sectors p - num_sectors + 1 in
        rbind (find_run (mem_phys_map p) (unat num_sectors) [0..<unat max]) (\<lambda>r.
          case r of
            None \<Rightarrow> Inr (0, p)
          | Some i \<Rightarrow> rbind (clear_run (mem_phys_map p) i (unat num_sectors)) (\<lambda>mp.
              Inr (mem_phys_start p + PMM_SECTOR_SIZE * of_nat i, p\<lparr>mem_phys_map := mp\<rparr>))))"

definition mem_phys_free :: "pmm \<Rightarrow> u32 \<Rightarrow> pmm res" where
  "mem_phys_free p addr =
     (let offset = unat ((addr - mem_phys_start p) div PMM_SECTOR_SIZE)
      in rbind (map_mark (mem_phys_map p) (offset div 8) (offset mod 8)) (\<lambda>mp.
           Inr (p\<lparr>mem_phys_map := mp\<rparr>)))"

section \<open>Specification: the set of free sectors\<close>

definition free_bit :: "u8 list \<Rightarrow> nat \<Rightarrow> bool" where
  "free_bit mp k = bit (mp ! (k div 8)) (k mod 8)"

definition free_bits :: "u8 list \<Rightarrow> nat set" where
  "free_bits mp = {k. k < 8 * length mp \<and> free_bit mp k}"

definition pmm_free :: "pmm \<Rightarrow> nat set" where
  "pmm_free p = free_bits (mem_phys_map p)"

definition pmm_ok :: "pmm \<Rightarrow> bool" where
  "pmm_ok p \<longleftrightarrow> length (mem_phys_map p) = PMM_SECTORS div 8"

definition sector_addr :: "pmm \<Rightarrow> nat \<Rightarrow> u32" where
  "sector_addr p k = mem_phys_start p + PMM_SECTOR_SIZE * of_nat k"

section \<open>Lemmas: bits of the map\<close>

lemma bit_test_iff [simp]: "c AND 2 ^ m = 0 \<longleftrightarrow> \<not> bit (c :: u8) m"
  by (simp add: bit_iff_and_push_bit_not_eq_0)

lemma bit_clear_iff [simp]: "bit (c AND NOT (2 ^ m)) j \<longleftrightarrow> bit (c :: u8) j \<and> j \<noteq> m"
  using bit_unset_bit_iff[of m c j] by (auto simp: unset_bit_eq_and_not)

lemma bit_mark_iff [simp]: "j < 8 \<Longrightarrow> bit (c OR 2 ^ m) j \<longleftrightarrow> bit (c :: u8) j \<or> j = m"
  using bit_set_bit_iff[of m c j] by (auto simp: set_bit_eq_or)

lemma map_test_eq: "b < length mp \<Longrightarrow> map_test mp b m = Inr (bit (mp ! b) m)"
  by (simp add: map_test_def)

lemma sector_test:
  "k < 8 * length mp \<Longrightarrow> map_test mp (k div 8) (k mod 8) = Inr (free_bit mp k)"
  by (simp add: map_test_eq free_bit_def less_mult_imp_div_less mult.commute)

lemma free_bit_clear:
  assumes "k < 8 * length mp" "j < 8 * length mp"
  shows "free_bit (mp[k div 8 := mp ! (k div 8) AND NOT (2 ^ (k mod 8))]) j
    \<longleftrightarrow> free_bit mp j \<and> j \<noteq> k"
proof -
  have "j \<noteq> k \<longleftrightarrow> j div 8 \<noteq> k div 8 \<or> j mod 8 \<noteq> k mod 8"
    by (metis div_mod_decomp)
  moreover have "k div 8 < length mp" "j div 8 < length mp"
    using assms by (simp_all add: less_mult_imp_div_less mult.commute)
  ultimately show ?thesis
    by (auto simp: free_bit_def nth_list_update)
qed

lemma free_bit_mark:
  assumes "k < 8 * length mp" "j < 8 * length mp"
  shows "free_bit (mp[k div 8 := mp ! (k div 8) OR 2 ^ (k mod 8)]) j
    \<longleftrightarrow> free_bit mp j \<or> j = k"
proof -
  have "j = k \<longleftrightarrow> j div 8 = k div 8 \<and> j mod 8 = k mod 8"
    by (metis div_mod_decomp)
  moreover have "k div 8 < length mp" "j div 8 < length mp"
    using assms by (simp_all add: less_mult_imp_div_less mult.commute)
  moreover have "k mod 8 < 8" by simp
  ultimately show ?thesis
    by (auto simp: free_bit_def nth_list_update)
qed

lemma sector_clear:
  assumes "k < 8 * length mp"
  shows "\<exists>mp'. map_clear mp (k div 8) (k mod 8) = Inr mp' \<and> length mp' = length mp
    \<and> free_bits mp' = free_bits mp - {k}"
proof -
  have "k div 8 < length mp"
    using assms by (simp add: less_mult_imp_div_less mult.commute)
  then show ?thesis
    using assms by (auto simp: map_clear_def free_bits_def free_bit_clear)
qed

lemma sector_mark:
  assumes "k < 8 * length mp"
  shows "\<exists>mp'. map_mark mp (k div 8) (k mod 8) = Inr mp' \<and> length mp' = length mp
    \<and> free_bits mp' = insert k (free_bits mp)"
proof -
  have "k div 8 < length mp"
    using assms by (simp add: less_mult_imp_div_less mult.commute)
  then show ?thesis
    using assms by (auto simp: map_mark_def free_bits_def free_bit_mark)
qed

lemma finite_pmm_free [simp]: "finite (pmm_free p)"
  by (simp add: pmm_free_def free_bits_def)

lemma pmm_free_bound: "pmm_ok p \<Longrightarrow> k \<in> pmm_free p \<Longrightarrow> k < PMM_SECTORS"
  by (simp add: pmm_free_def free_bits_def pmm_ok_def)

section \<open>Lemmas: the scans\<close>

lemma find_low_bit_Some:
  "List.find (\<lambda>b. c AND 2 ^ b \<noteq> 0) [0..<8] = Some b \<Longrightarrow>
    b < 8 \<and> bit c b \<and> (\<forall>j < b. \<not> bit (c :: u8) j)"
  by (auto simp: find_Some_iff)

lemma find_low_bit_None:
  "List.find (\<lambda>b. c AND 2 ^ b \<noteq> 0) [0..<8] = None \<Longrightarrow> j < 8 \<Longrightarrow> \<not> bit (c :: u8) j"
  by (auto simp: find_None_iff)

text \<open>The scan over the bytes from \<open>i\<close> on finds the least free sector at or above \<open>8 * i\<close>.\<close>

lemma alloc_scan_spec:
  assumes "n \<le> length mp"
  shows "\<exists>r. alloc_scan mp [i..<n] = Inr r \<and>
    (case r of
       None \<Rightarrow> \<forall>k. 8 * i \<le> k \<and> k < 8 * n \<longrightarrow> \<not> free_bit mp k
     | Some (a, b) \<Rightarrow> b < 8 \<and> i \<le> a \<and> a < n \<and> free_bit mp (a * 8 + b) \<and>
         (\<forall>k. 8 * i \<le> k \<and> k < a * 8 + b \<longrightarrow> \<not> free_bit mp k))"
proof (induction "n - i" arbitrary: i)
  case 0
  then have "n \<le> i" "[i..<n] = []" by simp_all
  then show ?case by fastforce
next
  case (Suc d)
  then have i: "i < n" "[i..<n] = i # [Suc i..<n]" by (simp_all add: upt_rec)
  have "d = n - Suc i" using Suc.hyps(2) by simp
  from Suc.hyps(1)[OF this] obtain r where r: "alloc_scan mp [Suc i..<n] = Inr r"
    "case r of None \<Rightarrow> \<forall>k. 8 * Suc i \<le> k \<and> k < 8 * n \<longrightarrow> \<not> free_bit mp k
     | Some (a, b) \<Rightarrow> b < 8 \<and> Suc i \<le> a \<and> a < n \<and> free_bit mp (a * 8 + b) \<and>
         (\<forall>k. 8 * Suc i \<le> k \<and> k < a * 8 + b \<longrightarrow> \<not> free_bit mp k)"
    by blast
  let ?find = "List.find (\<lambda>b. mp ! i AND 2 ^ b \<noteq> 0) [0..<8]"
  show ?case
  proof (cases "mp ! i = 0 \<or> ?find = None")
    case True
    have "\<not> bit (mp ! i) j" if "j < 8" for j
      using True find_low_bit_None[OF _ that, of "mp ! i"] by fastforce
    then have none: "\<not> free_bit mp k" if "8 * i \<le> k" "k < 8 * Suc i" for k
    proof -
      have "k div 8 = i" using that by (intro div_nat_eqI) simp_all
      then show ?thesis using \<open>\<And>j. j < 8 \<Longrightarrow> \<not> bit (mp ! i) j\<close> by (simp add: free_bit_def)
    qed
    have "alloc_scan mp [i..<n] = Inr r"
      using i assms r(1) True by (auto split: option.splits)
    moreover have "case r of None \<Rightarrow> \<forall>k. 8 * i \<le> k \<and> k < 8 * n \<longrightarrow> \<not> free_bit mp k
     | Some (a, b) \<Rightarrow> b < 8 \<and> i \<le> a \<and> a < n \<and> free_bit mp (a * 8 + b) \<and>
         (\<forall>k. 8 * i \<le> k \<and> k < a * 8 + b \<longrightarrow> \<not> free_bit mp k)"
      using r(2) none not_le_imp_less by (fastforce split: option.splits)
    ultimately show ?thesis by blast
  next
    case False
    then obtain b where b: "?find = Some b" "mp ! i \<noteq> 0" by auto
    then have low: "b < 8" "bit (mp ! i) b" "\<And>j. j < b \<Longrightarrow> \<not> bit (mp ! i) j"
      using find_low_bit_Some[OF b(1)] by auto
    have "alloc_scan mp [i..<n] = Inr (Some (i, b))"
      using i assms b by simp
    moreover have "\<not> free_bit mp k" if "8 * i \<le> k" "k < i * 8 + b" for k
    proof -
      have "k div 8 = i" "k mod 8 < b"
        using that low(1) by (simp_all add: div_nat_eqI flip: minus_mult_div_eq_mod)
      then show ?thesis using low(3) by (simp add: free_bit_def)
    qed
    ultimately show ?thesis
      using low i by (simp add: free_bit_def)
  qed
qed


section \<open>Lemmas: runs\<close>

lemma run_free_spec:
  assumes "\<And>j. j \<in> set js \<Longrightarrow> i + j < 8 * length mp"
  shows "run_free mp i js = Inr (\<forall>j \<in> set js. free_bit mp (i + j))"
  using assms by (induction js) (auto simp: sector_test)

definition free_run_at :: "u8 list \<Rightarrow> nat \<Rightarrow> nat \<Rightarrow> bool" where
  "free_run_at mp n i \<longleftrightarrow> (\<forall>j < n. free_bit mp (i + j))"

lemma find_run_spec:
  assumes "k + n \<le> 8 * length mp + 1"
  shows "\<exists>r. find_run mp n [i..<k] = Inr r \<and>
    (case r of None \<Rightarrow> \<forall>a. i \<le> a \<and> a < k \<longrightarrow> \<not> free_run_at mp n a
     | Some a \<Rightarrow> i \<le> a \<and> a < k \<and> free_run_at mp n a \<and>
         (\<forall>b. i \<le> b \<and> b < a \<longrightarrow> \<not> free_run_at mp n b))"
proof (induction "k - i" arbitrary: i)
  case 0
  then have "k \<le> i" "[i..<k] = []" by simp_all
  then show ?case by fastforce
next
  case (Suc d)
  then have i: "i < k" "[i..<k] = i # [Suc i..<k]" by (simp_all add: upt_rec)
  have "d = k - Suc i" using Suc.hyps(2) by simp
  from Suc.hyps(1)[OF this] obtain r where r: "find_run mp n [Suc i..<k] = Inr r"
    "case r of None \<Rightarrow> \<forall>a. Suc i \<le> a \<and> a < k \<longrightarrow> \<not> free_run_at mp n a
     | Some a \<Rightarrow> Suc i \<le> a \<and> a < k \<and> free_run_at mp n a \<and>
         (\<forall>b. Suc i \<le> b \<and> b < a \<longrightarrow> \<not> free_run_at mp n b)"
    by blast
  have run: "run_free mp i [0..<n] = Inr (free_run_at mp n i)"
    using i(1) assms by (subst run_free_spec) (auto simp: free_run_at_def)
  show ?case
  proof (cases "free_run_at mp n i")
    case True
    with i run show ?thesis by fastforce
  next
    case False
    with i run r(1) have "find_run mp n [i..<k] = Inr r" by simp
    moreover have "a = i \<or> Suc i \<le> a" if "i \<le> a" for a using that by linarith
    ultimately show ?thesis using r(2) False i(1) by (fastforce split: option.splits)
  qed
qed

lemma clear_run_spec:
  assumes "i + n \<le> 8 * length mp"
  shows "\<exists>mp'. clear_run mp i n = Inr mp' \<and> length mp' = length mp
    \<and> free_bits mp' = free_bits mp - {i..<i + n}"
proof -
  let ?I = "\<lambda>j m. length m = length mp \<and> free_bits m = free_bits mp - {i..<i + j}"
  have "\<exists>t. rfold (\<lambda>mp j. map_clear mp ((i + j) div 8) ((i + j) mod 8)) mp [0..<n] = Inr t
    \<and> ?I n t"
  proof (rule rfold_nat_induct)
    fix j t assume j: "j < n" and t: "?I j t"
    then have "i + j < 8 * length t" using assms by simp
    from sector_clear[OF this] show
      "\<exists>u. map_clear t ((i + j) div 8) ((i + j) mod 8) = Inr u \<and> ?I (Suc j) u"
      using t by (auto simp: atLeastLessThanSuc)
  qed simp
  then show ?thesis by (auto simp: clear_run_def)
qed


section \<open>Lemmas: the operations against the free set\<close>

definition pmm_fresh :: "u32 \<Rightarrow> u32 \<Rightarrow> pmm" where
  "pmm_fresh start sectors = \<lparr>mem_phys_map = replicate (PMM_SECTORS div 8) 0xFF,
     mem_phys_start = start, mem_phys_sectors = sectors\<rparr>"

lemma mem_phys_init_spec:
  "pmm_ok p \<Longrightarrow> mem_phys_init start sz p = Inr (pmm_fresh start (sz div 8192))"
  by (simp add: mem_phys_init_def pmm_ok_def rfold_fill pmm_fresh_def)

lemma pmm_fresh_ok [simp]: "pmm_ok (pmm_fresh start sectors)"
  by (simp add: pmm_ok_def pmm_fresh_def)

lemma bit_0xFF:
  assumes "j < 8"
  shows "bit (0xFF :: u8) j"
proof -
  have "(0xFF :: u8) = mask 8" by (simp add: mask_numeral)
  with assms show ?thesis by (simp only: bit_mask_iff) simp
qed

lemma pmm_fresh_free [simp]: "pmm_free (pmm_fresh start sectors) = {..<PMM_SECTORS}"
proof -
  have "bit (0xFF :: u8) (k mod 8)" for k :: nat by (rule bit_0xFF) simp
  then show ?thesis
    by (auto simp: pmm_free_def free_bits_def pmm_fresh_def free_bit_def less_mult_imp_div_less)
qed

lemma pmm_fresh_nonempty [simp]: "pmm_free (pmm_fresh start sectors) \<noteq> {}"
  by (simp add: lessThan_empty_iff del: lessThan_eq_iff)

lemma Min_lessThan [simp]: "Min {..<PMM_SECTORS} = 0"
  by (intro Min_eqI) auto

lemma pmm_fresh_sel [simp]:
  "mem_phys_start (pmm_fresh start sectors) = start"
  "mem_phys_sectors (pmm_fresh start sectors) = sectors"
  by (simp_all add: pmm_fresh_def)

lemma mem_phys_alloc_empty:
  assumes "pmm_ok p" "pmm_free p = {}"
  shows "mem_phys_alloc p = Inr (0, p)"
proof -
  obtain r where r: "alloc_scan (mem_phys_map p) [0..<8192] = Inr r"
    "case r of None \<Rightarrow> True | Some (a, b) \<Rightarrow> b < 8 \<and> a < 8192 \<and> free_bit (mem_phys_map p) (a * 8 + b)"
    using alloc_scan_spec[of 8192 "mem_phys_map p" 0] assms(1)
    by (auto simp: pmm_ok_def split: option.splits)
  then have "r = None"
    using assms by (auto simp: pmm_free_def free_bits_def pmm_ok_def split: option.splits)
  with r(1) show ?thesis by (simp add: mem_phys_alloc_def)
qed

lemma mem_phys_alloc_nonempty:
  assumes "pmm_ok p" "pmm_free p \<noteq> {}"
  defines "k \<equiv> Min (pmm_free p)"
  shows "\<exists>q. mem_phys_alloc p = Inr (sector_addr p k, q) \<and> pmm_ok q \<and> pmm_free q = pmm_free p - {k}
    \<and> mem_phys_start q = mem_phys_start p \<and> mem_phys_sectors q = mem_phys_sectors p"
proof -
  have len: "length (mem_phys_map p) = 8192" using assms(1) by (simp add: pmm_ok_def)
  have in_free: "j \<in> pmm_free p \<longleftrightarrow> j < 65536 \<and> free_bit (mem_phys_map p) j" for j
    by (simp add: pmm_free_def free_bits_def len)
  obtain r where r: "alloc_scan (mem_phys_map p) [0..<8192] = Inr r" and
    spec: "case r of None \<Rightarrow> \<forall>k. 8 * 0 \<le> k \<and> k < 8 * 8192 \<longrightarrow> \<not> free_bit (mem_phys_map p) k
     | Some (a, b) \<Rightarrow> b < 8 \<and> 0 \<le> a \<and> a < 8192 \<and> free_bit (mem_phys_map p) (a * 8 + b) \<and>
         (\<forall>k. 8 * 0 \<le> k \<and> k < a * 8 + b \<longrightarrow> \<not> free_bit (mem_phys_map p) k)"
    using alloc_scan_spec[of 8192 "mem_phys_map p" 0] len by auto
  have "r \<noteq> None"
  proof
    assume "r = None"
    then have "\<forall>k < 65536. \<not> free_bit (mem_phys_map p) k" using spec by simp
    with assms(2) in_free show False by blast
  qed
  then obtain a b where ab: "r = Some (a, b)" by auto
  with spec have low: "b < 8" "a < 8192" "free_bit (mem_phys_map p) (a * 8 + b)"
    "\<And>k. k < a * 8 + b \<Longrightarrow> \<not> free_bit (mem_phys_map p) k" by auto
  have "k = a * 8 + b"
    unfolding k_def using low in_free by (intro Min_eqI) (auto simp: not_less[symmetric])
  moreover have "(a * 8 + b) div 8 = a" "(a * 8 + b) mod 8 = b" using low(1) by simp_all
  moreover have "a * 8 + b < 8 * length (mem_phys_map p)" using low len by simp
  then obtain mp where "map_clear (mem_phys_map p) ((a * 8 + b) div 8) ((a * 8 + b) mod 8) = Inr mp"
    "length mp = length (mem_phys_map p)" "free_bits mp = free_bits (mem_phys_map p) - {a * 8 + b}"
    using sector_clear by blast
  ultimately show ?thesis
    using r ab len by (simp add: mem_phys_alloc_def sector_addr_def pmm_ok_def pmm_free_def)
qed

text \<open>The candidates of \<open>mem_phys_alloc_sectors\<close>: where a run of \<open>n\<close> free sectors of the
  machine starts.\<close>

definition pmm_runs :: "pmm \<Rightarrow> nat \<Rightarrow> nat set" where
  "pmm_runs p n = {i. i + n \<le> unat (mem_phys_sectors p) \<and> {i..<i + n} \<subseteq> pmm_free p}"

definition pmm_sized :: "pmm \<Rightarrow> bool" where
  "pmm_sized p \<longleftrightarrow> pmm_ok p \<and> unat (mem_phys_sectors p) \<le> PMM_SECTORS"

lemma free_run_at_iff:
  assumes "pmm_ok p" "i + n \<le> PMM_SECTORS"
  shows "free_run_at (mem_phys_map p) n i \<longleftrightarrow> {i..<i + n} \<subseteq> pmm_free p"
proof -
  have "{i..<i + n} = (\<lambda>j. i + j) ` {..<n}"
    by (simp add: lessThan_atLeast0 add.commute)
  then show ?thesis
    using assms by (auto simp: free_run_at_def pmm_free_def free_bits_def pmm_ok_def)
qed

lemma alloc_sectors_bound:
  fixes n s :: u32
  assumes "n \<noteq> 0" "n \<le> s"
  shows "unat (s - n + 1) = unat s - unat n + 1" "unat n \<le> unat s" "0 < unat n"
proof -
  show le: "unat n \<le> unat s" using assms by (simp add: word_le_nat_alt)
  show pos: "0 < unat n" using assms by (simp add: unat_gt_0)
  have "unat (s - n) = unat s - unat n" using le by (simp add: unat_exact)
  moreover have "unat s - unat n + 1 < 4294967296" using pos unat_lt_32[of s] by linarith
  ultimately show "unat (s - n + 1) = unat s - unat n + 1" by (simp add: unat_exact)
qed

lemma pmm_runs_iff:
  assumes "pmm_sized p" "n \<noteq> 0" "n \<le> mem_phys_sectors p"
  shows "a \<in> pmm_runs p (unat n) \<longleftrightarrow>
    a < unat (mem_phys_sectors p - n + 1) \<and> free_run_at (mem_phys_map p) (unat n) a"
proof -
  note b = alloc_sectors_bound[OF assms(2,3)]
  then have "a < unat (mem_phys_sectors p - n + 1) \<longleftrightarrow> a + unat n \<le> unat (mem_phys_sectors p)"
    by linarith
  moreover have "free_run_at (mem_phys_map p) (unat n) a \<longleftrightarrow> {a..<a + unat n} \<subseteq> pmm_free p"
    if "a + unat n \<le> unat (mem_phys_sectors p)"
    using assms(1) that by (intro free_run_at_iff) (simp_all add: pmm_sized_def)
  ultimately show ?thesis by (auto simp: pmm_runs_def)
qed

lemma mem_phys_alloc_sectors_none:
  assumes "pmm_sized p" "n = 0 \<or> pmm_runs p (unat n) = {}"
  shows "mem_phys_alloc_sectors p n = Inr (0, p)"
proof (cases "n = 0 \<or> n > mem_phys_sectors p")
  case True
  then show ?thesis by (simp add: mem_phys_alloc_sectors_def)
next
  case False
  then have n: "n \<noteq> 0" "n \<le> mem_phys_sectors p" by auto
  note b = alloc_sectors_bound[OF n]
  let ?k = "unat (mem_phys_sectors p - n + 1)"
  have "?k + unat n \<le> 8 * length (mem_phys_map p) + 1"
    using assms(1) b by (simp add: pmm_sized_def pmm_ok_def)
  from find_run_spec[OF this, of 0] obtain r where r:
    "find_run (mem_phys_map p) (unat n) [0..<?k] = Inr r"
    "case r of None \<Rightarrow> True | Some a \<Rightarrow> a < ?k \<and> free_run_at (mem_phys_map p) (unat n) a"
    by (auto split: option.splits)
  have "r = None"
  proof (rule ccontr)
    assume "r \<noteq> None"
    then obtain a where "a < ?k" "free_run_at (mem_phys_map p) (unat n) a" using r(2) by auto
    then have "a \<in> pmm_runs p (unat n)"
      using pmm_runs_iff[OF assms(1) n] by simp
    with assms(2) n show False by auto
  qed
  with False r(1) show ?thesis by (simp add: mem_phys_alloc_sectors_def)
qed

lemma mem_phys_alloc_sectors_some:
  assumes "pmm_sized p" "n \<noteq> 0" "pmm_runs p (unat n) \<noteq> {}"
  defines "i \<equiv> Min (pmm_runs p (unat n))"
  shows "\<exists>q. mem_phys_alloc_sectors p n = Inr (sector_addr p i, q) \<and> pmm_sized q
    \<and> pmm_free q = pmm_free p - {i..<i + unat n}
    \<and> mem_phys_start q = mem_phys_start p \<and> mem_phys_sectors q = mem_phys_sectors p"
proof -
  have fin: "finite (pmm_runs p (unat n))"
    by (rule finite_subset[of _ "{..unat (mem_phys_sectors p)}"]) (auto simp: pmm_runs_def)
  from assms(3) obtain j where "j + unat n \<le> unat (mem_phys_sectors p)" by (auto simp: pmm_runs_def)
  then have n: "n \<le> mem_phys_sectors p" by (simp add: word_le_nat_alt)
  note b = alloc_sectors_bound[OF assms(2) n]
  let ?k = "unat (mem_phys_sectors p - n + 1)" and ?mp = "mem_phys_map p"
  note runs = pmm_runs_iff[OF assms(1,2) n]
  have "?k + unat n \<le> 8 * length ?mp + 1"
    using assms(1) b by (simp add: pmm_sized_def pmm_ok_def)
  from find_run_spec[OF this, of 0] obtain r where r:
    "find_run ?mp (unat n) [0..<?k] = Inr r" and spec:
    "case r of None \<Rightarrow> \<forall>a. 0 \<le> a \<and> a < ?k \<longrightarrow> \<not> free_run_at ?mp (unat n) a
     | Some a \<Rightarrow> 0 \<le> a \<and> a < ?k \<and> free_run_at ?mp (unat n) a \<and>
         (\<forall>b. 0 \<le> b \<and> b < a \<longrightarrow> \<not> free_run_at ?mp (unat n) b)"
    by auto
  have "r \<noteq> None" using spec assms(3) runs by (cases r) auto
  then obtain a where a: "r = Some a" "a \<in> pmm_runs p (unat n)"
    "\<And>c. c \<in> pmm_runs p (unat n) \<Longrightarrow> a \<le> c"
    using spec runs not_le_imp_less by (cases r) auto
  then have i: "i = a" unfolding i_def using fin by (intro Min_eqI)
  have "a + unat n \<le> 8 * length ?mp"
    using a(2) assms(1) by (simp add: pmm_runs_def pmm_sized_def pmm_ok_def)
  from clear_run_spec[OF this] obtain mp where "clear_run ?mp a (unat n) = Inr mp"
    "length mp = length ?mp" "free_bits mp = free_bits ?mp - {a..<a + unat n}" by blast
  then show ?thesis
    using r a(1) i leD[OF n] assms(1,2)
    by (simp add: mem_phys_alloc_sectors_def sector_addr_def pmm_sized_def pmm_ok_def pmm_free_def
        Let_def)
qed

lemma sector_of_addr:
  assumes "k < PMM_SECTORS"
  shows "unat ((sector_addr p k - mem_phys_start p) div PMM_SECTOR_SIZE) = k"
proof -
  have "unat (8192 * of_nat k :: u32) = 8192 * k" using assms by (simp add: unat_exact)
  then show ?thesis by (simp add: sector_addr_def unat_div)
qed

lemma mem_phys_free_spec:
  assumes "pmm_ok p" "k < PMM_SECTORS" "a = sector_addr p k"
  shows "\<exists>q. mem_phys_free p a = Inr q \<and> pmm_ok q \<and> pmm_free q = insert k (pmm_free p)
    \<and> mem_phys_start q = mem_phys_start p \<and> mem_phys_sectors q = mem_phys_sectors p"
proof -
  have "k < 8 * length (mem_phys_map p)" using assms(1,2) by (simp add: pmm_ok_def)
  from sector_mark[OF this] show ?thesis
    using assms by (auto simp: mem_phys_free_def sector_of_addr pmm_ok_def pmm_free_def)
qed


section \<open>The interface: a source of frames\<close>

text \<open>
  What the rest of the kernel relies on: while frames are free the source hands one of them out,
  never the same one twice, and says 0 when none is left.
\<close>

fun alloc_many :: "('s \<Rightarrow> (u32 \<times> 's) res) \<Rightarrow> nat \<Rightarrow> 's \<Rightarrow> (u32 list \<times> 's) res" where
  "alloc_many alloc 0 s = Inr ([], s)"
| "alloc_many alloc (Suc n) s = rbind (alloc s) (\<lambda>(a, t).
     rbind (alloc_many alloc n t) (\<lambda>(as, u). Inr (a # as, u)))"

locale frame_source =
  fixes ok :: "'s \<Rightarrow> bool"
    and frames :: "'s \<Rightarrow> nat set"
    and alloc :: "'s \<Rightarrow> (u32 \<times> 's) res"
    and addr :: "'s \<Rightarrow> nat \<Rightarrow> u32"
  assumes finite_frames: "finite (frames s)"
    and alloc_none: "ok s \<Longrightarrow> frames s = {} \<Longrightarrow> alloc s = Inr (0, s)"
    and alloc_some: "ok s \<Longrightarrow> frames s \<noteq> {} \<Longrightarrow>
      \<exists>k t. k \<in> frames s \<and> alloc s = Inr (addr s k, t) \<and> ok t \<and> frames t = frames s - {k}
        \<and> addr t = addr s"
    and addr_inj: "ok s \<Longrightarrow> inj_on (addr s) (frames s)"
begin

lemma alloc_many_fresh:
  assumes "ok s" "n \<le> card (frames s)"
  shows "\<exists>as t. alloc_many alloc n s = Inr (as, t) \<and> length as = n \<and> distinct as
    \<and> set as \<subseteq> addr s ` frames s \<and> ok t \<and> addr t = addr s \<and> frames t \<subseteq> frames s
    \<and> card (frames t) = card (frames s) - n \<and> set as \<inter> addr s ` frames t = {}"
  using assms
proof (induction n arbitrary: s)
  case 0
  then show ?case by simp
next
  case (Suc n)
  have "frames s \<noteq> {}" using Suc.prems(2) by auto
  with Suc.prems(1) obtain k t where k: "k \<in> frames s" "alloc s = Inr (addr s k, t)" "ok t"
    "frames t = frames s - {k}" "addr t = addr s" using alloc_some by blast
  have card_t: "card (frames t) = card (frames s) - 1"
    using k by (simp add: finite_frames card_Diff_singleton)
  then have n: "n \<le> card (frames t)" using Suc.prems(2) by simp
  obtain as u where u: "alloc_many alloc n t = Inr (as, u)" "length as = n" "distinct as"
    "set as \<subseteq> addr s ` frames t" "ok u" "addr u = addr s" "frames u \<subseteq> frames t"
    "card (frames u) = card (frames t) - n" "set as \<inter> addr s ` frames u = {}"
    using Suc.IH[OF k(3) n] k(5) by auto
  have "addr s k \<notin> addr s ` frames t"
    using addr_inj[OF Suc.prems(1)] k by (auto dest: inj_onD)
  moreover have "addr s ` frames u \<subseteq> addr s ` frames t" using u(7) by blast
  ultimately show ?case
    using k u card_t by auto
qed

lemma alloc_total:
  assumes "ok s"
  shows "\<exists>a t. alloc s = Inr (a, t) \<and> ok t \<and> frames t \<subseteq> frames s"
proof (cases "frames s = {}")
  case True
  with assms alloc_none show ?thesis by auto
next
  case False
  from alloc_some[OF assms this] obtain k t where
    "alloc s = Inr (addr s k, t)" "ok t" "frames t = frames s - {k}" by blast
  then show ?thesis by auto
qed

end

lemma sector_addr_inj: "inj_on (sector_addr p) {..<PMM_SECTORS}"
  by (rule inj_on_inverseI[of _
      "\<lambda>a. unat ((a - mem_phys_start p) div PMM_SECTOR_SIZE)"]) (rule sector_of_addr, simp only: lessThan_iff)

lemma sector_addr_cong: "mem_phys_start q = mem_phys_start p \<Longrightarrow> sector_addr q = sector_addr p"
  by (rule ext) (simp add: sector_addr_def)

interpretation sectors: frame_source pmm_ok pmm_free mem_phys_alloc sector_addr
proof unfold_locales
  fix p assume ok: "pmm_ok p"
  show "pmm_free p = {} \<Longrightarrow> mem_phys_alloc p = Inr (0, p)"
    using ok by (rule mem_phys_alloc_empty)
  show "inj_on (sector_addr p) (pmm_free p)"
    using ok pmm_free_bound by (auto intro: inj_on_subset[OF sector_addr_inj])
  assume ne: "pmm_free p \<noteq> {}"
  then have "Min (pmm_free p) \<in> pmm_free p" by simp
  with mem_phys_alloc_nonempty[OF ok ne] show "\<exists>k t. k \<in> pmm_free p
    \<and> mem_phys_alloc p = Inr (sector_addr p k, t) \<and> pmm_ok t \<and> pmm_free t = pmm_free p - {k}
    \<and> sector_addr t = sector_addr p"
    using sector_addr_cong by blast
qed simp

text \<open>Runs of one sector are a frame source too, on the sectors the machine has.\<close>

definition pmm_usable :: "pmm \<Rightarrow> nat set" where
  "pmm_usable p = pmm_free p \<inter> {..<unat (mem_phys_sectors p)}"

lemma pmm_runs_1: "pmm_runs p (Suc 0) = pmm_usable p"
  by (auto simp: pmm_runs_def pmm_usable_def)

interpretation single_runs: frame_source pmm_sized pmm_usable
  "\<lambda>p. mem_phys_alloc_sectors p 1" sector_addr
proof unfold_locales
  fix p
  show "finite (pmm_usable p)" by (simp add: pmm_usable_def)
  assume ok: "pmm_sized p"
  show "pmm_usable p = {} \<Longrightarrow> mem_phys_alloc_sectors p 1 = Inr (0, p)"
    using ok by (intro mem_phys_alloc_sectors_none) (simp_all add: pmm_runs_1)
  show "inj_on (sector_addr p) (pmm_usable p)"
    using ok by (auto intro: inj_on_subset[OF sector_addr_inj] simp: pmm_usable_def pmm_sized_def)
  assume ne: "pmm_usable p \<noteq> {}"
  have fin: "finite (pmm_usable p)" by (simp add: pmm_usable_def)
  then have m: "Min (pmm_usable p) \<in> pmm_usable p" using ne by (rule Min_in)
  obtain q where q: "mem_phys_alloc_sectors p 1 = Inr (sector_addr p (Min (pmm_usable p)), q)"
    "pmm_sized q" "pmm_free q = pmm_free p - {Min (pmm_usable p)}"
    "mem_phys_start q = mem_phys_start p" "mem_phys_sectors q = mem_phys_sectors p"
    using mem_phys_alloc_sectors_some[OF ok, of 1] ne by (auto simp: pmm_runs_1)
  then have "pmm_usable q = pmm_usable p - {Min (pmm_usable p)}" by (auto simp: pmm_usable_def)
  with q m show "\<exists>k t. k \<in> pmm_usable p \<and> mem_phys_alloc_sectors p 1 = Inr (sector_addr p k, t)
    \<and> pmm_sized t \<and> pmm_usable t = pmm_usable p - {k} \<and> sector_addr t = sector_addr p"
    using sector_addr_cong by blast
qed


section \<open>Properties\<close>

text \<open>Single-sector allocation implements its specification. With a full-size bitmap
  \<open>mem_phys_alloc\<close> never faults; when no sector is free it returns the null pointer and changes
  nothing, otherwise it returns the address of the least free sector, takes exactly that sector
  out of the free set and leaves the rest of the state alone.\<close>

theorem mem_phys_alloc_refines:
  assumes "pmm_ok p"
  shows "if pmm_free p = {} then mem_phys_alloc p = Inr (0, p)
    else \<exists>q. mem_phys_alloc p = Inr (sector_addr p (Min (pmm_free p)), q) \<and> pmm_ok q
      \<and> pmm_free q = pmm_free p - {Min (pmm_free p)}
      \<and> mem_phys_start q = mem_phys_start p \<and> mem_phys_sectors q = mem_phys_sectors p"
  using mem_phys_alloc_empty[OF assms] mem_phys_alloc_nonempty[OF assms] by simp

theorem mem_phys_alloc_refines_witness:
  "\<exists>q. mem_phys_alloc (pmm_fresh 0x100000 4096) = Inr (0x100000, q)
    \<and> pmm_free q = {..<65536} - {0}"
proof -
  have "pmm_free (pmm_fresh 0x100000 4096) \<noteq> {}" by (rule pmm_fresh_nonempty)
  then show ?thesis
    using mem_phys_alloc_refines[OF pmm_fresh_ok, of "0x100000" 4096]
    by (auto simp: sector_addr_def split: if_splits)
qed

text \<open>C14: run allocation implements its specification. While the bitmap covers the machine,
  \<open>mem_phys_alloc_sectors\<close> never faults; it returns the null pointer and changes nothing when the
  request is for 0 sectors or no run of that length is free below the machine's sector count, and
  otherwise returns the address of the lowest such run and takes exactly that run out of the free
  set.\<close>

theorem mem_phys_alloc_sectors_refines:
  assumes "pmm_sized p"
  shows "if n = 0 \<or> pmm_runs p (unat n) = {} then mem_phys_alloc_sectors p n = Inr (0, p)
    else let i = Min (pmm_runs p (unat n)) in
      \<exists>q. mem_phys_alloc_sectors p n = Inr (sector_addr p i, q) \<and> pmm_sized q
        \<and> pmm_free q = pmm_free p - {i..<i + unat n}
        \<and> mem_phys_start q = mem_phys_start p \<and> mem_phys_sectors q = mem_phys_sectors p"
  using mem_phys_alloc_sectors_none[OF assms] mem_phys_alloc_sectors_some[OF assms]
  by (simp add: Let_def)

lemma Min_runs_fresh:
  fixes n s :: u32
  assumes "unat n \<le> unat s" "unat s \<le> PMM_SECTORS"
  shows "Min (pmm_runs (pmm_fresh a s) (unat n)) = 0" "pmm_runs (pmm_fresh a s) (unat n) \<noteq> {}"
proof -
  have fin: "finite (pmm_runs (pmm_fresh a s) (unat n))"
    by (rule finite_subset[of _ "{..unat s}"]) (auto simp: pmm_runs_def)
  have z: "0 \<in> pmm_runs (pmm_fresh a s) (unat n)"
    using assms by (auto simp: pmm_runs_def)
  show "Min (pmm_runs (pmm_fresh a s) (unat n)) = 0" using fin z by (intro Min_eqI) auto
  show "pmm_runs (pmm_fresh a s) (unat n) \<noteq> {}" using z by auto
qed

theorem mem_phys_alloc_sectors_refines_witness:
  "\<exists>q. mem_phys_alloc_sectors (pmm_fresh 0x100000 4096) 3 = Inr (0x100000, q)
    \<and> pmm_free q = {..<65536} - {0..<3}"
proof -
  have ok: "pmm_sized (pmm_fresh 0x100000 4096)" by (simp add: pmm_sized_def)
  show ?thesis
    using mem_phys_alloc_sectors_refines[OF ok, of 3] Min_runs_fresh[of 3 4096 "0x100000"]
    by (auto simp: Let_def sector_addr_def)
qed

text \<open>Frames are never handed out twice. From the initialised allocator any number of
  successive \<open>mem_phys_alloc\<close> calls up to the bitmap's size return pairwise different sector
  addresses and leave exactly that many sectors fewer.\<close>

theorem mem_phys_alloc_distinct:
  assumes "n \<le> PMM_SECTORS"
  shows "\<exists>p as q. mem_phys_init start sz pmm_static = Inr p
    \<and> alloc_many mem_phys_alloc n p = Inr (as, q) \<and> length as = n \<and> distinct as
    \<and> set as \<subseteq> sector_addr p ` {..<PMM_SECTORS} \<and> card (pmm_free q) = PMM_SECTORS - n"
proof -
  have "mem_phys_init start sz pmm_static = Inr (pmm_fresh start (sz div 8192))"
    by (rule mem_phys_init_spec) (simp add: pmm_ok_def pmm_static_def)
  then show ?thesis
    using sectors.alloc_many_fresh[OF pmm_fresh_ok, of n start "sz div 8192"] assms by auto
qed

theorem mem_phys_alloc_distinct_witness:
  "\<exists>p as q. mem_phys_init 0x100000 0x7F00000 pmm_static = Inr p
    \<and> alloc_many mem_phys_alloc 64 p = Inr (as, q) \<and> length as = 64 \<and> distinct as
    \<and> set as \<subseteq> sector_addr p ` {..<65536} \<and> card (pmm_free q) = 65472"
  using mem_phys_alloc_distinct[of 64 "0x100000" "0x7F00000"] by simp

text \<open>Freeing undoes a single-sector allocation. The sector that \<open>mem_phys_alloc\<close> returned can
  be given back to \<open>mem_phys_free\<close>, which restores the free set, and the next allocation returns the
  same address.\<close>

theorem mem_phys_free_roundtrip:
  assumes "pmm_ok p" "pmm_free p \<noteq> {}" "mem_phys_alloc p = Inr (a, q)"
  shows "\<exists>r s. mem_phys_free q a = Inr r \<and> pmm_free r = pmm_free p
    \<and> mem_phys_alloc r = Inr (a, s)"
proof -
  let ?k = "Min (pmm_free p)"
  have q: "a = sector_addr p ?k" "pmm_ok q" "pmm_free q = pmm_free p - {?k}"
    "mem_phys_start q = mem_phys_start p"
    using mem_phys_alloc_nonempty[OF assms(1,2)] assms(3) by auto
  have k: "?k \<in> pmm_free p" "?k < 65536"
    using assms(1,2) pmm_free_bound[OF assms(1)] by simp_all
  obtain r where r: "mem_phys_free q a = Inr r" "pmm_ok r" "pmm_free r = insert ?k (pmm_free q)"
    "mem_phys_start r = mem_phys_start q"
    using mem_phys_free_spec[OF q(2) k(2)] q(1) sector_addr_cong[OF q(4)] by auto
  have "pmm_free r = pmm_free p" using r(3) q(3) k(1) by auto
  moreover from this obtain s where "mem_phys_alloc r = Inr (sector_addr r ?k, s)"
    using mem_phys_alloc_nonempty[OF r(2)] assms(2) by auto
  ultimately show ?thesis
    using r(1,4) q(1,4) sector_addr_cong[of r p] by auto
qed

theorem mem_phys_free_roundtrip_witness:
  "\<exists>q r s. mem_phys_alloc (pmm_fresh 0x100000 4096) = Inr (0x100000, q)
    \<and> mem_phys_free q 0x100000 = Inr r \<and> pmm_free r = {..<65536}
    \<and> mem_phys_alloc r = Inr (0x100000, s)"
proof -
  let ?p = "pmm_fresh 0x100000 4096"
  have ne: "pmm_free ?p \<noteq> {}" by (rule pmm_fresh_nonempty)
  then obtain q where q: "mem_phys_alloc ?p = Inr (0x100000, q)"
    using mem_phys_alloc_nonempty[OF pmm_fresh_ok ne] by (auto simp: sector_addr_def)
  then show ?thesis
    using mem_phys_free_roundtrip[OF pmm_fresh_ok ne q] by auto
qed

text \<open>Freeing a run loses memory. \<open>mem_phys_free\<close> gives back only the sector its argument
  points at: after a run of \<open>n\<close> sectors is allocated and its address freed, the other \<open>n - 1\<close>
  sectors of the run stay taken.\<close>

theorem mem_phys_free_run_leaks:
  assumes "pmm_sized p" "n \<noteq> 0" "pmm_runs p (unat n) \<noteq> {}"
  shows "\<exists>q r. mem_phys_alloc_sectors p n = Inr (sector_addr p (Min (pmm_runs p (unat n))), q)
    \<and> mem_phys_free q (sector_addr p (Min (pmm_runs p (unat n)))) = Inr r
    \<and> pmm_free r = pmm_free p
        - {Min (pmm_runs p (unat n)) + 1..<Min (pmm_runs p (unat n)) + unat n}"
proof -
  let ?i = "Min (pmm_runs p (unat n))"
  obtain q where q: "mem_phys_alloc_sectors p n = Inr (sector_addr p ?i, q)" "pmm_sized q"
    "pmm_free q = pmm_free p - {?i..<?i + unat n}" "mem_phys_start q = mem_phys_start p"
    using mem_phys_alloc_sectors_some[OF assms] by auto
  have "finite (pmm_runs p (unat n))"
    by (rule finite_subset[of _ "{..unat (mem_phys_sectors p)}"]) (auto simp: pmm_runs_def)
  then have "?i \<in> pmm_runs p (unat n)" using assms(3) by (rule Min_in)
  then have "{?i..<?i + unat n} \<subseteq> pmm_free p" unfolding pmm_runs_def by blast
  moreover have "?i \<in> {?i..<?i + unat n}" using assms(2) by (simp add: unat_gt_0)
  ultimately have i: "?i \<in> pmm_free p" by blast
  moreover have "pmm_ok p" using assms(1) by (simp add: pmm_sized_def)
  ultimately have i_less: "?i < 65536" by (intro pmm_free_bound[of p])
  have ok: "pmm_ok q" using q(2) by (simp add: pmm_sized_def)
  from mem_phys_free_spec[OF this i_less] q(4) obtain r where
    "mem_phys_free q (sector_addr p ?i) = Inr r" "pmm_free r = insert ?i (pmm_free q)"
    using sector_addr_cong[OF q(4)] by auto
  moreover have "insert ?i (pmm_free p - {?i..<?i + unat n})
      = pmm_free p - {?i + 1..<?i + unat n}" using i by auto
  ultimately show ?thesis using q(1,3) by auto
qed

theorem mem_phys_free_run_leaks_witness:
  "\<exists>q r. mem_phys_alloc_sectors (pmm_fresh 0x100000 4096) 3 = Inr (0x100000, q)
    \<and> mem_phys_free q 0x100000 = Inr r \<and> pmm_free r = {..<65536} - {1..<3}"
proof -
  have ok: "pmm_sized (pmm_fresh 0x100000 4096)" by (simp add: pmm_sized_def)
  show ?thesis
    using mem_phys_free_run_leaks[OF ok, of 3] Min_runs_fresh[of 3 4096 "0x100000"]
    by (auto simp: sector_addr_def)
qed

text \<open>Calls of the allocator, by whoever makes them.\<close>

datatype pmm_op = Take_One | Take_Run u32 | Give u32

fun pmm_call :: "pmm \<Rightarrow> pmm_op \<Rightarrow> pmm res" where
  "pmm_call p Take_One = rbind (mem_phys_alloc p) (\<lambda>(a, q). Inr q)"
| "pmm_call p (Take_Run n) = rbind (mem_phys_alloc_sectors p n) (\<lambda>(a, q). Inr q)"
| "pmm_call p (Give a) = mem_phys_free p a"

lemma map_change_length:
  "map_clear mp b k = Inr mp' \<Longrightarrow> length mp' = length mp" "map_mark mp b k = Inr mp' \<Longrightarrow> length mp' = length mp"
  by (auto simp: map_clear_def map_mark_def rbind_eq_Inr arr_set_def split: if_splits)

lemma clear_run_length: "clear_run mp i n = Inr mp' \<Longrightarrow> length mp' = length mp"
proof -
  have "rfold (\<lambda>mp j. map_clear mp ((i + j) div 8) ((i + j) mod 8)) m js = Inr mp' \<Longrightarrow> length mp' = length m" for js m
    by (induction js arbitrary: m) (auto simp: rbind_eq_Inr dest: map_change_length)
  then show "clear_run mp i n = Inr mp' \<Longrightarrow> length mp' = length mp" by (simp add: clear_run_def)
qed

lemma pmm_call_keeps:
  "pmm_call p op = Inr q \<Longrightarrow> pmm_ok p \<Longrightarrow> pmm_ok q \<and> mem_phys_sectors q = mem_phys_sectors p"
  by (cases op)
    (auto simp: mem_phys_alloc_def mem_phys_alloc_sectors_def mem_phys_free_def pmm_ok_def rbind_eq_Inr Let_def
      split: option.splits if_splits dest!: map_change_length clear_run_length)

lemma pmm_calls_keep:
  "rfold pmm_call p ops = Inr q \<Longrightarrow> pmm_ok p \<Longrightarrow> pmm_ok q \<and> mem_phys_sectors q = mem_phys_sectors p"
proof (induction ops arbitrary: p)
  case (Cons op ops)
  then obtain p1 where p1: "pmm_call p op = Inr p1" "rfold pmm_call p1 ops = Inr q" by (auto simp: rbind_eq_Inr)
  with pmm_call_keeps[OF p1(1) Cons.prems(2)] Cons.IH[OF p1(2)] show ?case by simp
qed simp

text \<open>The check of one candidate, at and across the end of the bitmap.\<close>

lemma run_free_cases:
  "s \<le> n \<Longrightarrow> run_free mp i [s..<n] =
    (if \<exists>j. s \<le> j \<and> j < n \<and> i + j < 8 * length mp \<and> \<not> free_bit mp (i + j) then Inr False
     else if s = n \<or> i + n \<le> 8 * length mp then Inr True else Inl Index_Out_Of_Bounds)"
proof (induction "n - s" arbitrary: s)
  case (Suc d)
  then have s: "s < n" "[s..<n] = s # [Suc s..<n]" by (simp_all add: upt_rec)
  note IH = Suc.hyps(1)[of "Suc s"]
  have step: "s \<le> j \<longleftrightarrow> j = s \<or> Suc s \<le> j" for j by auto
  show ?case
  proof (cases "i + s < 8 * length mp")
    case True
    with s IH Suc.hyps(2) show ?thesis unfolding step by (auto simp: sector_test)
  next
    case False
    then have "length mp \<le> (i + s) div 8" by (simp add: less_eq_div_iff_mult_less_eq)
    with False s show ?thesis by (auto simp: map_test_def)
  qed
qed simp

lemma find_run_overruns:
  assumes "0 < n" "\<forall>a. a + n \<le> 8 * length mp \<longrightarrow> \<not> free_run_at mp n a"
    "t \<le> 8 * length mp" "\<forall>a. t \<le> a \<and> a < 8 * length mp \<longrightarrow> free_bit mp a" "t < k"
  shows "i \<le> t \<Longrightarrow> find_run mp n [i..<k] = Inl Index_Out_Of_Bounds"
proof (induction "t - i" arbitrary: i)
  case 0
  then have i: "i = t" "[i..<k] = i # [Suc i..<k]" using assms(5) by (simp_all add: upt_rec)
  have "\<not> t + n \<le> 8 * length mp" using assms(2,4) by (auto simp: free_run_at_def)
  then have "run_free mp t [0..<n] = Inl Index_Out_Of_Bounds"
    using assms(1,4) by (subst run_free_cases) auto
  with i show ?case by simp
next
  case (Suc d)
  then have i: "i < t" "[i..<k] = i # [Suc i..<k]" using assms(5) by (simp_all add: upt_rec)
  have "run_free mp i [0..<n] \<noteq> Inr True"
  proof
    assume "run_free mp i [0..<n] = Inr True"
    then have r: "\<forall>j < n. i + j < 8 * length mp \<longrightarrow> free_bit mp (i + j)" "i + n \<le> 8 * length mp"
      using assms(1) by (auto simp: run_free_cases split: if_splits)
    then have "free_run_at mp n i" by (auto simp: free_run_at_def)
    with assms(2) r(2) show False by blast
  qed
  moreover have "run_free mp i [0..<n] \<in> {Inr True, Inr False, Inl Index_Out_Of_Bounds}" by (subst run_free_cases) auto
  ultimately show ?case using i Suc by auto
qed

text \<open>C26: a machine with more sectors than the bitmap has bits makes the run allocator read past
  the end of the bitmap. The bitmap has 65536 bits (512 MiB), but \<open>mem_phys_init\<close> takes the sector count from the size it is
  given. After any calls of the allocator, let no run of \<open>n\<close> sectors be free in the bitmap, and let the sectors that
  are free at its end start at \<open>t\<close> (at 65536 when there are none): if the machine has \<open>t + n\<close> sectors, then a request for
  \<open>n\<close> sectors, instead of the null pointer, indexes \<open>mem_phys_map\<close> out of bounds.\<close>

theorem mem_phys_alloc_sectors_overruns:
  assumes "mem_phys_init start sz pmm_static = Inr p" "rfold pmm_call p ops = Inr q" "n \<noteq> 0"
    "\<forall>i. i + unat n \<le> PMM_SECTORS \<longrightarrow> \<not> {i..<i + unat n} \<subseteq> pmm_free q"
    "t \<le> PMM_SECTORS" "{t..<PMM_SECTORS} \<subseteq> pmm_free q" "t + unat n \<le> unat sz div 8192"
  shows "mem_phys_alloc_sectors q n = Inl Index_Out_Of_Bounds"
proof -
  have "p = pmm_fresh start (sz div 8192)"
    using assms(1) mem_phys_init_spec[of pmm_static start sz] by (simp add: pmm_ok_def pmm_static_def)
  then have q: "pmm_ok q" "unat (mem_phys_sectors q) = unat sz div 8192"
    using pmm_calls_keep[OF assms(2)] by (simp_all add: unat_div)
  have le: "n \<le> mem_phys_sectors q" using assms(7) q(2) by (simp add: word_le_nat_alt)
  note b = alloc_sectors_bound[OF assms(3) le]
  have len: "8 * length (mem_phys_map q) = 65536" using q(1) by (simp add: pmm_ok_def)
  have "find_run (mem_phys_map q) (unat n) [0..<unat (mem_phys_sectors q - n + 1)] = Inl Index_Out_Of_Bounds"
  proof (rule find_run_overruns[where t = t])
    show "\<forall>a. a + unat n \<le> 8 * length (mem_phys_map q) \<longrightarrow> \<not> free_run_at (mem_phys_map q) (unat n) a"
      using assms(4) free_run_at_iff[OF q(1)] len by simp
    show "\<forall>a. t \<le> a \<and> a < 8 * length (mem_phys_map q) \<longrightarrow> free_bit (mem_phys_map q) a"
      using assms(6) len by (auto simp: pmm_free_def free_bits_def)
  qed (use b assms(5,7) q(2) len in simp_all)
  then show ?thesis using assms(3) leD[OF le] by (simp add: mem_phys_alloc_sectors_def Let_def)
qed

text \<open>On a machine with 1 GiB, after one sector has been taken, a request for half of its memory.\<close>

theorem mem_phys_alloc_sectors_overruns_witness:
  "\<exists>p q. mem_phys_init 0x100000 0x40000000 pmm_static = Inr p \<and> rfold pmm_call p [Take_One] = Inr q
    \<and> mem_phys_alloc_sectors q 0x10000 = Inl Index_Out_Of_Bounds"
proof -
  let ?p = "pmm_fresh 0x100000 131072"
  have init: "mem_phys_init 0x100000 0x40000000 pmm_static = Inr ?p"
    using mem_phys_init_spec[of pmm_static "0x100000" "0x40000000"] by (simp add: pmm_ok_def pmm_static_def)
  have ne: "pmm_free ?p \<noteq> {}" by (rule pmm_fresh_nonempty)
  obtain q where q: "mem_phys_alloc ?p = Inr (0x100000, q)" "pmm_free q = {..<65536} - {0}"
    using mem_phys_alloc_nonempty[OF pmm_fresh_ok ne] by (auto simp: sector_addr_def)
  then have calls: "rfold pmm_call ?p [Take_One] = Inr q" by simp
  have "mem_phys_alloc_sectors q 0x10000 = Inl Index_Out_Of_Bounds"
  proof (rule mem_phys_alloc_sectors_overruns[OF init calls, where t = 1])
    have "0 \<in> {i..<i + unat (0x10000 :: u32)}" if "i + unat (0x10000 :: u32) \<le> 65536" for i
      using that by simp
    then show "\<forall>i. i + unat (0x10000 :: u32) \<le> 65536 \<longrightarrow> \<not> {i..<i + unat (0x10000 :: u32)} \<subseteq> pmm_free q"
      unfolding q(2) by blast
    show "{1..<65536} \<subseteq> pmm_free q" unfolding q(2) by force
  qed simp_all
  with init calls show ?thesis by blast
qed

text \<open>The single-sector allocator ignores how much memory the machine has. Initialised for a
  machine with no memory at all, \<open>mem_phys_alloc\<close> still returns the start address as a sector,
  where \<open>mem_phys_alloc_sectors\<close> refuses the same request with the null pointer.\<close>

theorem mem_phys_alloc_ignores_size:
  "\<exists>p q. mem_phys_init start 0 pmm_static = Inr p \<and> mem_phys_sectors p = 0
    \<and> mem_phys_alloc p = Inr (start, q) \<and> mem_phys_alloc_sectors p 1 = Inr (0, p)"
proof -
  have init: "mem_phys_init start 0 pmm_static = Inr (pmm_fresh start 0)"
    using mem_phys_init_spec[of pmm_static start 0] by (simp add: pmm_ok_def pmm_static_def)
  have ne: "pmm_free (pmm_fresh start 0) \<noteq> {}" by (rule pmm_fresh_nonempty)
  then obtain q where "mem_phys_alloc (pmm_fresh start 0) = Inr (start, q)"
    using mem_phys_alloc_nonempty[OF pmm_fresh_ok ne] by (auto simp: sector_addr_def)
  moreover have "mem_phys_alloc_sectors (pmm_fresh start 0) 1 = Inr (0, pmm_fresh start 0)"
    by (simp add: mem_phys_alloc_sectors_def)
  ultimately show ?thesis using init by auto
qed

end
