(* ===== verification/Ext2.thy ===== *)
theory Ext2
  imports Physical
begin

text \<open>
  The read-only ext2 driver (source/system/filesystem/ext2/ext2.c, ext2.h) on a disk image in
  memory: the page-less allocator front end \<open>kpmalloc\<close>, mounting, reading an inode, walking a
  directory with a callback, reading a file's direct blocks.

  The image, the copy of the group descriptors and the caller's buffers are in the byte memory of
  the model; the mounted file system and inodes (C structs in the kernel's own data or stack) are
  records. All offsets are 32-bit and wrap, every division is checked, and a loop that the disk's
  contents could keep running is modelled with \<open>None\<close> for a run that does not return.

  The specification: the bytes of a file as a function of the offset, directory blocks as lists
  of entries with their encoding, and the entries a callback sees in order.
\<close>

section \<open>On-disk structures\<close>

record ext2_superblock =
  s_inodes_count :: u32
  s_blocks_count :: u32
  s_r_blocks_count :: u32
  s_free_blocks_count :: u32
  s_free_inodes_count :: u32
  s_first_data_block :: u32
  s_log_block_size :: u32
  s_log_frag_size :: u32
  s_blocks_per_group :: u32
  s_frags_per_group :: u32
  s_inodes_per_group :: u32
  s_mtime :: u32
  s_wtime :: u32
  s_mnt_count :: u16
  s_max_mnt_count :: u16
  s_magic :: u16
  s_state :: u16
  s_errors :: u16
  s_minor_rev_level :: u16
  s_lastcheck :: u32
  s_checkinterval :: u32
  s_creator_os :: u32
  s_rev_level :: u32
  s_def_resuid :: u16
  s_def_resgid :: u16

record ext2_inode =
  i_mode :: u16
  i_uid :: u16
  i_size_lo :: u32
  i_atime :: u32
  i_ctime :: u32
  i_mtime :: u32
  i_dtime :: u32
  i_gid :: u16
  i_links_count :: u16
  i_blocks :: u32
  i_flags :: u32
  i_osd1 :: u32
  i_block :: "u32 list"
  i_single :: u32
  i_double :: u32
  i_triple :: u32
  i_generation :: u32
  i_file_acl :: u32
  i_dir_acl :: u32
  i_faddr :: u32
  i_osd2 :: "u8 list"

record ext2_fs =
  fs_sb :: ext2_superblock
  fs_block_size :: u32
  fs_bgdt :: u32
  fs_image :: u32

abbreviation (input) EXT2_SUPER_MAGIC :: u16 where "EXT2_SUPER_MAGIC \<equiv> 0xEF53"
abbreviation (input) EXT2_SUPER_OFFSET :: u32 where "EXT2_SUPER_OFFSET \<equiv> 1024"
abbreviation (input) EXT2_ROOT_INO :: u32 where "EXT2_ROOT_INO \<equiv> 2"
abbreviation (input) SIZEOF_INODE :: u32 where "SIZEOF_INODE \<equiv> 128"
abbreviation (input) SIZEOF_GROUP_DESC :: u32 where "SIZEOF_GROUP_DESC \<equiv> 32"

text \<open>\<open>kpmemcpy\<close> of \<open>sizeof(ext2_superblock_t)\<close> = 84 and \<open>sizeof(ext2_inode_t)\<close> = 128 bytes into a
  packed struct: each field is the little-endian value at its offset.\<close>

definition load_superblock :: "memory \<Rightarrow> u32 \<Rightarrow> ext2_superblock" where
  "load_superblock m a =
     \<lparr>s_inodes_count = load32 m a, s_blocks_count = load32 m (a + 4),
      s_r_blocks_count = load32 m (a + 8), s_free_blocks_count = load32 m (a + 12),
      s_free_inodes_count = load32 m (a + 16), s_first_data_block = load32 m (a + 20),
      s_log_block_size = load32 m (a + 24), s_log_frag_size = load32 m (a + 28),
      s_blocks_per_group = load32 m (a + 32), s_frags_per_group = load32 m (a + 36),
      s_inodes_per_group = load32 m (a + 40), s_mtime = load32 m (a + 44),
      s_wtime = load32 m (a + 48), s_mnt_count = load16 m (a + 52),
      s_max_mnt_count = load16 m (a + 54), s_magic = load16 m (a + 56),
      s_state = load16 m (a + 58), s_errors = load16 m (a + 60),
      s_minor_rev_level = load16 m (a + 62), s_lastcheck = load32 m (a + 64),
      s_checkinterval = load32 m (a + 68), s_creator_os = load32 m (a + 72),
      s_rev_level = load32 m (a + 76), s_def_resuid = load16 m (a + 80),
      s_def_resgid = load16 m (a + 82)\<rparr>"

definition load_inode :: "memory \<Rightarrow> u32 \<Rightarrow> ext2_inode" where
  "load_inode m a =
     \<lparr>i_mode = load16 m a, i_uid = load16 m (a + 2), i_size_lo = load32 m (a + 4),
      i_atime = load32 m (a + 8), i_ctime = load32 m (a + 12), i_mtime = load32 m (a + 16),
      i_dtime = load32 m (a + 20), i_gid = load16 m (a + 24), i_links_count = load16 m (a + 26),
      i_blocks = load32 m (a + 28), i_flags = load32 m (a + 32), i_osd1 = load32 m (a + 36),
      i_block = map (\<lambda>k. load32 m (a + 40 + 4 * of_nat k)) [0..<12],
      i_single = load32 m (a + 88), i_double = load32 m (a + 92), i_triple = load32 m (a + 96),
      i_generation = load32 m (a + 100), i_file_acl = load32 m (a + 104),
      i_dir_acl = load32 m (a + 108), i_faddr = load32 m (a + 112),
      i_osd2 = read_bytes m (a + 116) 12\<rparr>"

definition bg_inode_table :: "memory \<Rightarrow> u32 \<Rightarrow> u32 \<Rightarrow> u32" where
  "bg_inode_table m bgdt grp = load32 m (bgdt + grp * SIZEOF_GROUP_DESC + 8)"

section \<open>Allocation\<close>

text \<open>\<open>while (num_sect * PMM_SECTOR_SIZE < size) num_sect++\<close>, with the product modulo \<open>2 ^ 32\<close>.\<close>

partial_function (option) kpmalloc_loop :: "u32 \<Rightarrow> u32 \<Rightarrow> u32 option" where
  "kpmalloc_loop sz num_sect =
     (if num_sect * PMM_SECTOR_SIZE < sz then kpmalloc_loop sz (num_sect + 1) else Some num_sect)"

definition kpmalloc :: "pmm \<Rightarrow> u32 \<Rightarrow> (u32 \<times> pmm) res" where
  "kpmalloc p sz = (case kpmalloc_loop sz 1 of
     None \<Rightarrow> Inl Hang | Some num_sect \<Rightarrow> mem_phys_alloc_sectors p num_sect)"

section \<open>Mounting\<close>

definition block_size_of :: "u32 \<Rightarrow> u32 res" where
  "block_size_of log = (if log \<ge> 32 then Inl Shift_Too_Large else Inr (push_bit (unat log) 1024))"

text \<open>The result: what the C function returns, the file system, the allocator and memory.\<close>

definition ext2_mount :: "ext2_fs \<Rightarrow> u32 \<Rightarrow> pmm \<Rightarrow> memory \<Rightarrow> (bool \<times> ext2_fs \<times> pmm \<times> memory) res" where
  "ext2_mount fs image_data p m =
     (let fs = fs\<lparr>fs_image := image_data, fs_sb := load_superblock m (image_data + EXT2_SUPER_OFFSET)\<rparr>
      in if s_magic (fs_sb fs) \<noteq> EXT2_SUPER_MAGIC then Inr (False, fs, p, m)
      else rbind (block_size_of (s_log_block_size (fs_sb fs))) (\<lambda>block_size.
        let fs = fs\<lparr>fs_block_size := block_size\<rparr>;
            gd_offset = block_size * (if block_size = 1024 then 2 else 1) in
        rbind (udiv (s_blocks_count (fs_sb fs) + s_blocks_per_group (fs_sb fs) - 1)
                 (s_blocks_per_group (fs_sb fs))) (\<lambda>groups.
        rbind (kpmalloc p (groups * SIZEOF_GROUP_DESC)) (\<lambda>(bgdt, p).
          let fs = fs\<lparr>fs_bgdt := bgdt\<rparr> in
          if bgdt = 0 then Inr (False, fs, p, m)
          else Inr (True, fs, p, kpmemcpy m bgdt (image_data + gd_offset) (groups * SIZEOF_GROUP_DESC))))))"

section \<open>Inodes\<close>

text \<open>\<open>None\<close> is the C function's \<open>false\<close>.\<close>

definition ext2_read_inode :: "memory \<Rightarrow> ext2_fs \<Rightarrow> u32 \<Rightarrow> ext2_inode option res" where
  "ext2_read_inode m fs inode_no =
     (if inode_no = 0 then Inr None
      else let inode_no = inode_no - 1 in
        rbind (udiv inode_no (s_inodes_per_group (fs_sb fs))) (\<lambda>grp.
        rbind (umod inode_no (s_inodes_per_group (fs_sb fs))) (\<lambda>index.
        let inode_table_block = bg_inode_table m (fs_bgdt fs) grp;
            inodes_per_block = fs_block_size fs div SIZEOF_INODE in
        rbind (udiv index inodes_per_block) (\<lambda>block_offset.
        rbind (umod index inodes_per_block) (\<lambda>inode_offset.
        let abs_offset = (inode_table_block + block_offset) * fs_block_size fs
              + inode_offset * SIZEOF_INODE in
        Inr (Some (load_inode m (fs_image fs + abs_offset))))))))"

section \<open>Directories\<close>

definition de_inode :: "memory \<Rightarrow> u32 \<Rightarrow> u32" where "de_inode m de = load32 m de"
definition de_rec_len :: "memory \<Rightarrow> u32 \<Rightarrow> u16" where "de_rec_len m de = load16 m (de + 4)"
definition de_name_len :: "memory \<Rightarrow> u32 \<Rightarrow> u8" where "de_name_len m de = load8 m (de + 6)"

text \<open>The callback's name argument: \<open>name_len\<close> bytes copied into a zeroed 256-byte buffer, as a C
  string. At most 255 bytes are copied, so there is always a terminator.\<close>

definition de_name :: "memory \<Rightarrow> u32 \<Rightarrow> char list" where
  "de_name m de = takeWhile (\<lambda>c. c \<noteq> NUL)
     (map to_char (read_bytes m (de + 8) (unat (de_name_len m de))))"

text \<open>A callback maps its context to whether to continue and the new context; it may fault.\<close>

type_synonym 's dirent_cb = "char list \<Rightarrow> u32 \<Rightarrow> 's \<Rightarrow> (bool \<times> 's) res"

definition dir_entry_cb :: "memory \<Rightarrow> u32 \<Rightarrow> 's dirent_cb \<Rightarrow> 's \<Rightarrow> (bool \<times> 's) res" where
  "dir_entry_cb m de cb s =
     (if de_inode m de \<noteq> 0 then cb (de_name m de) (de_inode m de) s else Inr (True, s))"

text \<open>The inner loop over one block. The flag of the result: the outer loop goes on.\<close>

partial_function (option) dir_block_loop ::
    "memory \<Rightarrow> u32 \<Rightarrow> u32 \<Rightarrow> 's dirent_cb \<Rightarrow> u32 \<Rightarrow> 's \<Rightarrow> (bool \<times> 's) res option" where
  "dir_block_loop m block block_size cb offset s =
     (if offset < block_size then
        (case dir_entry_cb m (block + offset) cb s of
           Inl e \<Rightarrow> Some (Inl e)
         | Inr r \<Rightarrow>
             (if \<not> fst r then Some (Inr (False, snd r))
              else if de_rec_len m (block + offset) = 0 then Some (Inr (True, snd r))
              else dir_block_loop m block block_size cb
                (offset + ucast (de_rec_len m (block + offset))) (snd r)))
      else Some (Inr (True, s)))"

definition dir_block :: "memory \<Rightarrow> ext2_fs \<Rightarrow> u32 \<Rightarrow> 's dirent_cb \<Rightarrow> 's \<Rightarrow> (bool \<times> 's) res" where
  "dir_block m fs blk cb s =
     (if blk = 0 then Inr (True, s)
      else case dir_block_loop m (fs_image fs + blk * fs_block_size fs) (fs_block_size fs) cb 0 s of
        None \<Rightarrow> Inl Hang | Some r \<Rightarrow> r)"

fun dir_blocks :: "memory \<Rightarrow> ext2_fs \<Rightarrow> u32 list \<Rightarrow> 's dirent_cb \<Rightarrow> 's \<Rightarrow> 's res" where
  "dir_blocks m fs [] cb s = Inr s"
| "dir_blocks m fs (blk # blks) cb s = rbind (dir_block m fs blk cb s) (\<lambda>(go_on, t).
     if go_on then dir_blocks m fs blks cb t else Inr t)"

text \<open>\<open>for (b = 0; b < 12 && b < blk_count; ++b)\<close>\<close>

definition ext2_read_dir :: "memory \<Rightarrow> ext2_fs \<Rightarrow> ext2_inode \<Rightarrow> 's dirent_cb \<Rightarrow> 's \<Rightarrow> 's res" where
  "ext2_read_dir m fs dir cb s =
     rbind (udiv (i_blocks dir) (fs_block_size fs div 512)) (\<lambda>blk_count.
       dir_blocks m fs (take (min 12 (unat blk_count)) (i_block dir)) cb s)"

section \<open>Files\<close>

text \<open>\<open>bytes_in_block\<close> after the clamp, for a block of which \<open>avail\<close> bytes are left.\<close>

definition clamp_block :: "u32 \<Rightarrow> u32 \<Rightarrow> u32 \<Rightarrow> u32" where
  "clamp_block bytes_read avail buf_len =
     (if bytes_read + avail > buf_len then buf_len - bytes_read else avail)"

text \<open>The block loop, over the remaining block numbers.\<close>

fun file_loop ::
    "ext2_fs \<Rightarrow> ext2_inode \<Rightarrow> u32 \<Rightarrow> u32 \<Rightarrow> u32 \<Rightarrow> u32 \<Rightarrow> u32 \<Rightarrow> nat list \<Rightarrow> u32 \<Rightarrow> memory \<Rightarrow> (u32 \<times> memory) res"
where
  "file_loop fs inode out buf_len blocks start start_offset [] bytes_read m = Inr (bytes_read, m)"
| "file_loop fs inode out buf_len blocks start start_offset (b # bs) bytes_read m =
     (if of_nat b < blocks \<and> bytes_read < buf_len then
        rbind (arr_get (i_block inode) b) (\<lambda>blk.
          let copy_offset = (if of_nat b = start then start_offset else 0);
              n = clamp_block bytes_read (fs_block_size fs - copy_offset) buf_len;
              m = (if blk = 0 then kpmemset m (out + bytes_read) 0 n
                   else kpmemcpy m (out + bytes_read)
                     (fs_image fs + blk * fs_block_size fs + copy_offset) n)
          in file_loop fs inode out buf_len blocks start start_offset bs (bytes_read + n) m)
      else Inr (bytes_read, m))"

text \<open>The inode pointer of the callers is never null; a null output buffer is address 0.\<close>

definition ext2_read_file ::
    "memory \<Rightarrow> ext2_fs \<Rightarrow> ext2_inode \<Rightarrow> u32 \<Rightarrow> u32 \<Rightarrow> u32 \<Rightarrow> (u32 \<times> memory) res" where
  "ext2_read_file m fs inode out_buf buf_len offset =
     (if out_buf = 0 then Inr (0, m)
      else if offset \<ge> i_size_lo inode then Inr (0, m)
      else let buf_len = (if offset + buf_len > i_size_lo inode then i_size_lo inode - offset else buf_len) in
        rbind (udiv (offset + buf_len + fs_block_size fs - 1) (fs_block_size fs)) (\<lambda>blocks.
        rbind (udiv offset (fs_block_size fs)) (\<lambda>start.
        rbind (umod offset (fs_block_size fs)) (\<lambda>start_offset.
          file_loop fs inode out_buf buf_len blocks start start_offset [unat start..<12] 0 m))))"

section \<open>Specification: the bytes of a file\<close>

text \<open>The byte of a file at an offset, through the direct block pointers: 0 in a hole.\<close>

definition file_byte :: "memory \<Rightarrow> ext2_fs \<Rightarrow> ext2_inode \<Rightarrow> nat \<Rightarrow> u8" where
  "file_byte m fs inode k =
     (let bs = unat (fs_block_size fs); blk = i_block inode ! (k div bs) in
      if blk = 0 then 0 else m (fs_image fs + blk * fs_block_size fs + of_nat (k mod bs)))"

text \<open>The caller's buffer does not overlap a data block of the file.\<close>

definition buffer_apart :: "ext2_fs \<Rightarrow> ext2_inode \<Rightarrow> u32 \<Rightarrow> nat \<Rightarrow> bool" where
  "buffer_apart fs inode out n \<longleftrightarrow> (\<forall>b < 12. i_block inode ! b \<noteq> 0 \<longrightarrow>
     disjoint_ranges (fs_image fs + i_block inode ! b * fs_block_size fs)
       (unat (fs_block_size fs)) out n)"

text \<open>Memory after the first \<open>r\<close> bytes of the file from offset \<open>off\<close> on have been stored.\<close>

definition stored_upto ::
    "memory \<Rightarrow> ext2_fs \<Rightarrow> ext2_inode \<Rightarrow> u32 \<Rightarrow> nat \<Rightarrow> nat \<Rightarrow> memory \<Rightarrow> bool" where
  "stored_upto m fs inode out off r m' \<longleftrightarrow>
     (\<forall>i < r. m' (out + of_nat i) = file_byte m fs inode (off + i))
     \<and> (\<forall>x. \<not> in_range out r x \<longrightarrow> m' x = m x)"

section \<open>Lemmas: reading a file\<close>

lemma clamp_block_exact:
  assumes "r \<le> n" "n < 4294967296" "r + a < 4294967296"
  shows "clamp_block (of_nat r) (of_nat a) (of_nat n) = of_nat (min a (n - r))"
proof -
  have "unat (of_nat r + of_nat a :: u32) = r + a" "unat (of_nat n :: u32) = n"
    using assms by (simp_all add: unat_exact)
  then have "(of_nat r + of_nat a > (of_nat n :: u32)) \<longleftrightarrow> n < r + a"
    by (simp add: word_less_nat_alt)
  then show ?thesis
    using assms(1) by (auto simp: clamp_block_def of_nat_diff min_def)
qed

lemma stored_upto_step:
  assumes inv: "stored_upto m fs inode out off r m1" and len: "r + k \<le> 4294967296"
    and step: "\<And>x. m2 x = (if in_range (out + of_nat r) k x
      then file_byte m fs inode (off + r + unat (x - (out + of_nat r))) else m1 x)"
  shows "stored_upto m fs inode out off (r + k) m2"
  unfolding stored_upto_def
proof (intro conjI allI impI)
  fix i assume i: "i < r + k"
  show "m2 (out + of_nat i) = file_byte m fs inode (off + i)"
  proof (cases "i < r")
    case True
    have "unat (of_nat i - of_nat r :: u32) = 4294967296 - r + i" if "k \<noteq> 0"
    proof -
      have "of_nat i - of_nat r = (- of_nat (r - i) :: u32)" using True by (simp add: of_nat_diff)
      moreover have "unat (of_nat (r - i) :: u32) = r - i"
        using True len that by (intro unat_of_nat_exact) linarith
      moreover from this have "(of_nat (r - i) :: u32) \<noteq> 0" using True by (auto simp: unat_eq_iff32)
      ultimately show ?thesis using unat_uminus32[of "of_nat (r - i)"] True len by simp
    qed
    then have "\<not> in_range (out + of_nat r) k (out + of_nat i)"
      using len by (cases "k = 0") (auto simp: in_range_def)
    with step True inv show ?thesis by (simp add: stored_upto_def)
  next
    case False
    then have d: "i - r < k" "out + of_nat i = out + of_nat r + of_nat (i - r)"
      using i by (simp_all add: of_nat_diff)
    then have "in_range (out + of_nat r) k (out + of_nat i)"
      unfolding d(2) using len by (intro in_range_offset) linarith+
    moreover have "unat (of_nat i - of_nat r :: u32) = i - r"
      using False i len by (simp add: unat_of_nat_exact flip: of_nat_diff)
    ultimately show ?thesis using step False by simp
  qed
next
  fix x assume "\<not> in_range out (r + k) x"
  then have "\<not> in_range out r x" "\<not> in_range (out + of_nat r) k x"
    using in_range_split[OF len] by blast+
  with step inv show "m2 x = m x" by (simp add: stored_upto_def)
qed

text \<open>One block: its bytes go to the buffer, or zeros for a hole.\<close>

lemma block_copy:
  fixes bs :: nat
  assumes bs: "bs = unat (fs_block_size fs)" and inv: "stored_upto m fs inode out off r m1"
    and apart: "buffer_apart fs inode out n" and b: "b < 12" and rn: "r + k \<le> n" "n < 4294967296"
    and pos: "off + r = b * bs + c" "c + k \<le> bs" "c < bs"
  defines "blk \<equiv> i_block inode ! b"
  shows "stored_upto m fs inode out off (r + k)
    (if blk = 0 then kpmemset m1 (out + of_nat r) 0 (of_nat k)
     else kpmemcpy m1 (out + of_nat r) (fs_image fs + blk * fs_block_size fs + of_nat c) (of_nat k))"
proof (rule stored_upto_step[OF inv])
  show "r + k \<le> 4294967296" using rn by linarith
next
  fix x
  let ?d = "out + of_nat r" and ?s = "fs_image fs + blk * fs_block_size fs + of_nat c"
  have k: "unat (of_nat k :: u32) = k" using rn by (intro unat_of_nat_exact) linarith
  have byte: "file_byte m fs inode (off + r + j) = (if blk = 0 then 0 else m (?s + of_nat j))"
    if "j < k" for j
  proof -
    have "off + r + j = (c + j) + b * bs" "c + j < bs" using pos that by simp_all
    then have "(off + r + j) div bs = b" "(off + r + j) mod bs = c + j"
      by (simp_all only: div_mult_self1 mod_mult_self1) simp_all
    then show ?thesis by (simp add: file_byte_def blk_def Let_def add.assoc flip: bs)
  qed
  have far: "\<not> in_range ?d k (?s + of_nat j)" "m1 (?s + of_nat j) = m (?s + of_nat j)"
    if "blk \<noteq> 0" "j < k" for j
  proof -
    have "disjoint_ranges (fs_image fs + blk * fs_block_size fs) bs out n"
      using apart b that(1) by (simp add: buffer_apart_def blk_def bs)
    moreover have "c + j < bs" using pos that(2) by linarith
    ultimately have "\<not> in_range out n (fs_image fs + blk * fs_block_size fs + of_nat (c + j))"
      unfolding disjoint_ranges_def by blast
    then have out: "\<not> in_range out (r + k) (?s + of_nat j)"
      using in_range_mono[OF _ rn(1)] by (auto simp: add.assoc)
    have "r + k \<le> 4294967296" using rn by linarith
    from out in_range_split[OF this] show "\<not> in_range ?d k (?s + of_nat j)" by blast
    from out in_range_split[OF \<open>r + k \<le> 4294967296\<close>] have "\<not> in_range out r (?s + of_nat j)" by blast
    then show "m1 (?s + of_nat j) = m (?s + of_nat j)" using inv by (simp add: stored_upto_def)
  qed
  show "(if blk = 0 then kpmemset m1 ?d 0 (of_nat k) else kpmemcpy m1 ?d ?s (of_nat k)) x
    = (if in_range ?d k x then file_byte m fs inode (off + r + unat (x - ?d)) else m1 x)"
  proof (cases "blk = 0")
    case True
    then show ?thesis using byte by (simp add: kpmemset_at k in_range_def)
  next
    case False
    have "disjoint_ranges ?s k ?d k" using far(1)[OF False] by (simp add: disjoint_ranges_def)
    then have "kpmemcpy m1 ?d ?s (of_nat k) x = (if in_range ?d k x then m1 (?s + (x - ?d)) else m1 x)"
      using kpmemcpy_at[of ?s "of_nat k" ?d m1 x] by (simp add: k)
    moreover have "m1 (?s + (x - ?d)) = file_byte m fs inode (off + r + unat (x - ?d))"
      if "in_range ?d k x"
    proof -
      have "unat (x - ?d) < k" using that by (simp add: in_range_def)
      from byte[OF this] far(2)[OF False this] False show ?thesis by simp
    qed
    ultimately show ?thesis using False by simp
  qed
qed

lemma buffer_apart_mono: "buffer_apart fs inode out n \<Longrightarrow> k \<le> n \<Longrightarrow> buffer_apart fs inode out k"
  unfolding buffer_apart_def by (blast intro: disjoint_ranges_mono order_refl)

lemma less_ceil_div: "0 < (bs :: nat) \<Longrightarrow> b * bs < n \<Longrightarrow> b < (n + bs - 1) div bs"
proof -
  assume a: "0 < bs" "b * bs < n"
  then have "Suc b * bs \<le> n + bs - 1" by simp
  then have "Suc b \<le> (n + bs - 1) div bs" using a(1) by (simp add: less_eq_div_iff_mult_less_eq)
  then show ?thesis by simp
qed

text \<open>
  The loop from block \<open>b\<close> on, with \<open>r\<close> bytes stored: either everything wanted is stored, or the
  next byte is the first one of block \<open>b\<close> at or after the offset.
\<close>

lemma file_loop_ok:
  fixes bs n off :: nat
  assumes bs: "bs = unat (fs_block_size fs)" "0 < bs" and blocks: "length (i_block inode) = 12"
    and bounds: "off + n + bs \<le> 4294967296"
    and apart: "buffer_apart fs inode out n"
  shows "off div bs \<le> b \<Longrightarrow> r \<le> n \<Longrightarrow> r \<le> 12 * bs - off \<Longrightarrow> r = n \<or> off + r = max off (b * bs) \<Longrightarrow>
    stored_upto m fs inode out off r m1 \<Longrightarrow>
    \<exists>m2. file_loop fs inode out (of_nat n) (of_nat ((off + n + bs - 1) div bs)) (of_nat (off div bs))
        (of_nat (off mod bs)) [b..<12] (of_nat r) m1 = Inr (of_nat (min n (12 * bs - off)), m2)
      \<and> stored_upto m fs inode out off (min n (12 * bs - off)) m2"
proof (induction "12 - b" arbitrary: b r m1)
  case 0
  then have "12 * bs \<le> b * bs" by (intro mult_le_mono1) simp
  moreover have "12 * bs \<le> y \<Longrightarrow> r = n \<or> off + r = max off y \<Longrightarrow> r = min n (12 * bs - off)" for y
    using "0.prems"(2,3) by (auto simp: max_def split: if_splits)
  ultimately have "r = min n (12 * bs - off)" using "0.prems"(4) by blast
  with 0 show ?case by auto
next
  case (Suc d)
  have b: "b < 12" "[b..<12] = b # [Suc b..<12]" using Suc.hyps(2) by (simp_all add: upt_rec)
  have n32: "n < 4294967296" "off < 4294967296" using bounds bs(2) by linarith+
  show ?case
  proof (cases "r = n")
    case True
    then have "\<not> (of_nat r :: u32) < of_nat n" by simp
    moreover have "min n (12 * bs - off) = r" using True Suc.prems(3) by simp
    ultimately show ?thesis using Suc.prems(5) unfolding b(2) by auto
  next
    case False
    then have rn: "r < n" and pos: "off + r = max off (b * bs)" using Suc.prems by auto
    define c where "c = (if b = off div bs then off mod bs else 0)"
    have c: "off + r = b * bs + c" "c < bs"
    proof -
      show "c < bs" using bs(2) by (simp add: c_def)
      show "off + r = b * bs + c"
      proof (cases "b = off div bs")
        case True
        then have "b * bs + off mod bs = off" by simp
        with pos True show ?thesis by (simp add: c_def)
      next
        case False
        then have "off div bs < b" using Suc.prems(1) by simp
        then have "off < b * bs" using bs(2) by (simp add: div_less_iff_less_mult)
        with pos False show ?thesis by (simp add: c_def)
      qed
    qed
    define k where "k = min (bs - c) (n - r)"
    have rk: "r + k \<le> n" "c + k \<le> bs" using rn c(2) by (auto simp: k_def)
    have small: "b < (off + n + bs - 1) div bs"
      using c rn by (intro less_ceil_div[OF bs(2)]) linarith
    have "(off + n + bs - 1) div bs \<le> off + n + bs - 1" by simp
    then have ceil32: "(off + n + bs - 1) div bs < 4294967296" using bounds bs(2) by linarith
    then have guard: "(of_nat b :: u32) < of_nat ((off + n + bs - 1) div bs)" "(of_nat r :: u32) < of_nat n"
      using small rn n32 b(1) by (simp_all add: word_less_nat_alt unat_of_nat_exact)
    have "off div bs \<le> off" by simp
    then have "off div bs < 4294967296" using n32 by linarith
    then have start: "(of_nat b = (of_nat (off div bs) :: u32)) \<longleftrightarrow> b = off div bs"
      using b(1) by (simp add: unat_eq_iff32 unat_of_nat_exact)
    have clamp: "clamp_block (of_nat r) (fs_block_size fs - of_nat c) (of_nat n) = of_nat k"
    proof -
      have "fs_block_size fs - of_nat c = of_nat (bs - c)" using c(2) bs(1) by (simp add: of_nat_diff)
      moreover have "r + (bs - c) < 4294967296" using rn bounds by linarith
      ultimately show ?thesis using clamp_block_exact[of r n "bs - c"] rn n32 by (simp add: k_def)
    qed
    let ?blk = "i_block inode ! b"
    let ?m2 = "if ?blk = 0 then kpmemset m1 (out + of_nat r) 0 (of_nat k)
      else kpmemcpy m1 (out + of_nat r) (fs_image fs + ?blk * fs_block_size fs + of_nat c) (of_nat k)"
    have inv: "stored_upto m fs inode out off (r + k) ?m2"
      by (rule block_copy[OF bs(1) Suc.prems(5) apart b(1) rk(1) n32(1) c(1) rk(2) c(2)])
    have "Suc b \<le> 12" using b(1) by simp
    from mult_le_mono1[OF this, of bs] have "bs + b * bs \<le> 12 * bs" by (simp only: mult_Suc)
    with c(1) rk(2) have bound: "off + (r + k) \<le> 12 * bs" by linarith
    have "off < Suc b * bs" using c by simp
    then have next_pos: "r + k = n \<or> off + (r + k) = max off (Suc b * bs)"
      using c rn by (auto simp: k_def min_def max_def)
    have copy: "(if of_nat b = (of_nat (off div bs) :: u32) then of_nat (off mod bs) else 0) = (of_nat c :: u32)"
      unfolding start c_def by simp
    have "\<exists>m3. file_loop fs inode out (of_nat n) (of_nat ((off + n + bs - 1) div bs)) (of_nat (off div bs))
        (of_nat (off mod bs)) [Suc b..<12] (of_nat (r + k)) ?m2 = Inr (of_nat (min n (12 * bs - off)), m3)
      \<and> stored_upto m fs inode out off (min n (12 * bs - off)) m3"
      by (rule Suc.hyps(1)) (use Suc.hyps(2) Suc.prems(1) rk(1) bound next_pos inv in auto)
    moreover have "arr_get (i_block inode) b = Inr ?blk" using b(1) blocks by simp
    ultimately show ?thesis
      unfolding b(2) file_loop.simps by (simp only: guard copy clamp Let_def rbind_Inr simp_thms if_True of_nat_add)
  qed
qed

lemma ext2_read_file_ok:
  assumes bs: "0 < unat (fs_block_size fs)" and blocks: "length (i_block inode) = 12"
    and buffer: "out_buf \<noteq> 0" "buffer_apart fs inode out_buf (unat buf_len)"
    and exact: "unat offset + unat buf_len < 4294967296"
      "unat (i_size_lo inode) + unat (fs_block_size fs) \<le> 4294967296"
  defines "r \<equiv> min (min (unat buf_len) (unat (i_size_lo inode) - unat offset))
    (12 * unat (fs_block_size fs) - unat offset)"
  shows "\<exists>m'. ext2_read_file m fs inode out_buf buf_len offset = Inr (of_nat r, m')
    \<and> stored_upto m fs inode out_buf (unat offset) r m'"
proof (cases "offset \<ge> i_size_lo inode")
  case True
  then have "r = 0" by (simp add: r_def word_le_nat_alt)
  moreover have "stored_upto m fs inode out_buf (unat offset) 0 m" by (simp add: stored_upto_def)
  ultimately show ?thesis using True buffer(1) by (auto simp: ext2_read_file_def)
next
  case False
  let ?bs = "unat (fs_block_size fs)" and ?off = "unat offset" and ?size = "unat (i_size_lo inode)"
  define n where "n = min (unat buf_len) (?size - ?off)"
  have off: "?off < ?size" using False by (simp add: word_le_nat_alt)
  have sum: "unat (offset + buf_len) = ?off + unat buf_len" using exact(1) by (simp add: unat_exact)
  have len: "(if offset + buf_len > i_size_lo inode then i_size_lo inode - offset else buf_len) = of_nat n"
    using off sum by (auto simp: n_def word_less_nat_alt min_def of_nat_diff)
  have on: "?off + n \<le> ?size" using off by (simp add: n_def)
  have "unat (of_nat n :: u32) = n" using on by (intro unat_of_nat_exact) (use unat_lt_32[of "i_size_lo inode"] in linarith)
  have total: "?off + n + ?bs - 1 < 4294967296" using on exact(2) bs by linarith
  have "offset + of_nat n + fs_block_size fs - 1 = (of_nat (?off + n + ?bs - 1) :: u32)"
    using bs by (simp add: of_nat_diff)
  then have "unat (offset + of_nat n + fs_block_size fs - 1) = ?off + n + ?bs - 1"
    using total by (simp only: unat_of_nat_exact)
  then have blocks': "(offset + of_nat n + fs_block_size fs - 1) div fs_block_size fs
      = of_nat ((?off + n + ?bs - 1) div ?bs)"
    by (simp only: unat_eq_iff32 unat_div unat_of_nat_exact[OF le_less_trans[OF div_le_dividend total]])
  have nz: "fs_block_size fs \<noteq> 0" using bs by auto
  have start: "offset div fs_block_size fs = of_nat (?off div ?bs)"
    "offset mod fs_block_size fs = of_nat (?off mod ?bs)"
    by (simp_all add: unat_eq_iff32 unat_div unat_mod unat_of_nat_exact
        le_less_trans[OF div_le_dividend unat_lt_32] le_less_trans[OF mod_less_eq_dividend unat_lt_32])
  have "unat (of_nat (?off div ?bs) :: u32) = ?off div ?bs"
    by (simp add: unat_of_nat_exact le_less_trans[OF div_le_dividend unat_lt_32])
  then have "ext2_read_file m fs inode out_buf buf_len offset
      = file_loop fs inode out_buf (of_nat n) (of_nat ((?off + n + ?bs - 1) div ?bs)) (of_nat (?off div ?bs))
          (of_nat (?off mod ?bs)) [?off div ?bs..<12] (of_nat 0) m"
    using False buffer(1) nz by (simp add: ext2_read_file_def len blocks' start)
  moreover have "\<exists>m2. file_loop fs inode out_buf (of_nat n) (of_nat ((?off + n + ?bs - 1) div ?bs))
      (of_nat (?off div ?bs)) (of_nat (?off mod ?bs)) [?off div ?bs..<12] (of_nat 0) m
        = Inr (of_nat (min n (12 * ?bs - ?off)), m2)
      \<and> stored_upto m fs inode out_buf ?off (min n (12 * ?bs - ?off)) m2"
  proof (rule file_loop_ok[OF refl bs blocks])
    show "?off + n + ?bs \<le> 4294967296" using on exact(2) by linarith
    show "buffer_apart fs inode out_buf n"
      using buffer(2) by (rule buffer_apart_mono) (simp add: n_def)
    show "0 = n \<or> ?off + 0 = max ?off (?off div ?bs * ?bs)" by simp
    show "stored_upto m fs inode out_buf ?off 0 m" by (simp add: stored_upto_def)
  qed simp_all
  ultimately show ?thesis by (simp add: r_def n_def)
qed

section \<open>Lemmas: allocation\<close>

text \<open>The number of sectors that cover \<open>sz\<close> bytes, at least one.\<close>

definition sectors_for :: "nat \<Rightarrow> nat" where
  "sectors_for sz = max 1 ((sz + 8191) div 8192)"

lemma kpmalloc_loop_ok:
  assumes "unat sz \<le> 0xFFFFE000"
  shows "kpmalloc_loop sz 1 = Some (of_nat (sectors_for (unat sz)))"
proof -
  let ?k = "sectors_for (unat sz)"
  have k: "1 \<le> ?k" "?k \<le> 524287" using assms by (auto simp: sectors_for_def)
  have "1 \<le> n \<Longrightarrow> n \<le> ?k \<Longrightarrow> kpmalloc_loop sz (of_nat n) = Some (of_nat ?k)" for n
  proof (induction "?k - n" arbitrary: n)
    case 0
    then have n: "n = ?k" by simp
    have "unat sz \<le> ?k * 8192" by (auto simp: sectors_for_def)
    moreover have "unat (of_nat ?k * 8192 :: u32) = ?k * 8192"
      using k by (simp add: unat_mult_exact unat_of_nat_exact)
    ultimately have "\<not> of_nat ?k * 8192 < sz" by (simp add: word_less_nat_alt)
    then show ?case unfolding n by (subst kpmalloc_loop.simps) simp
  next
    case (Suc d)
    then have n: "n < ?k" "1 \<le> n" by simp_all
    then have "n * 8192 < unat sz" unfolding sectors_for_def by linarith
    moreover have "unat (of_nat n * 8192 :: u32) = n * 8192"
      using n k by (simp add: unat_mult_exact unat_of_nat_exact)
    ultimately have "of_nat n * 8192 < sz" by (simp add: word_less_nat_alt)
    then have "kpmalloc_loop sz (of_nat n) = kpmalloc_loop sz (of_nat (Suc n))"
      by (subst kpmalloc_loop.simps) (simp add: add.commute)
    also have "\<dots> = Some (of_nat ?k)" by (rule Suc.hyps(1)) (use Suc.hyps(2) n in simp_all)
    finally show ?case .
  qed
  from this[of 1] k show ?thesis by simp
qed

lemma kpmalloc_loop_stuck:
  assumes "0xFFFFE000 < sz"
  shows "kpmalloc_loop sz k = None"
proof -
  have bound: "w * 8192 \<le> 0xFFFFE000" for w :: u32
  proof -
    have "unat (w * 8192) = 8192 * (unat w mod 524288)"
      using mult_mod_right[of 8192 "unat w" 524288] by (simp add: unat_word_ariths mult.commute)
    moreover have "unat w mod 524288 \<le> 524287" by (simp add: less_Suc_eq_le[symmetric])
    ultimately show ?thesis by (simp add: word_le_nat_alt)
  qed
  let ?P = "\<lambda>sz (k :: u32) (y :: u32). \<not> (0xFFFFE000 :: u32) < sz"
  have "?P sz k y" if returns: "kpmalloc_loop sz k = Some y" for y
  proof (rule kpmalloc_loop.raw_induct[where P = ?P, OF _ returns])
    fix f sz k y
    assume IH: "\<And>sz k y. f sz k = Some y \<Longrightarrow> ?P sz k y"
      and step: "(if k * 8192 < sz then f sz (k + 1) else Some k) = Some y"
    show "?P sz k y"
    proof
      assume big: "(0xFFFFE000 :: u32) < sz"
      then have "k * 8192 < sz" using bound[of k] by (rule order_le_less_trans[rotated])
      with step have "f sz (k + 1) = Some y" by simp
      from IH[OF this] big show False by blast
    qed
  qed
  with assms show ?thesis by (cases "kpmalloc_loop sz k") auto
qed

section \<open>Lemmas: fields of copied structures\<close>

lemma load32_cong:
  "(\<And>i. i < 4 \<Longrightarrow> m (a + of_nat i) = m' (b + of_nat i)) \<Longrightarrow> load32 m a = load32 m' b"
proof -
  assume h: "\<And>i. i < 4 \<Longrightarrow> m (a + of_nat i) = m' (b + of_nat i)"
  from h[of 0] h[of 1] h[of 2] h[of 3] show ?thesis by (simp add: load32_def)
qed

lemma load16_cong:
  "(\<And>i. i < 2 \<Longrightarrow> m (a + of_nat i) = m' (b + of_nat i)) \<Longrightarrow> load16 m a = load16 m' b"
proof -
  assume h: "\<And>i. i < 2 \<Longrightarrow> m (a + of_nat i) = m' (b + of_nat i)"
  from h[of 0] h[of 1] show ?thesis by (simp add: load16_def)
qed

lemma load_inode_cong:
  assumes "\<And>i. i < 128 \<Longrightarrow> m (a + of_nat i) = m' (a + of_nat i)"
  shows "load_inode m a = load_inode m' a"
proof -
  have w: "load32 m (a + of_nat k) = load32 m' (a + of_nat k)" if "k + 4 \<le> 128" for k
  proof (rule load32_cong)
    fix i :: nat assume "i < 4"
    with that assms[of "k + i"] show "m (a + of_nat k + of_nat i) = m' (a + of_nat k + of_nat i)"
      by (simp add: add.assoc)
  qed
  have h: "load16 m (a + of_nat k) = load16 m' (a + of_nat k)" if "k + 2 \<le> 128" for k
  proof (rule load16_cong)
    fix i :: nat assume "i < 2"
    with that assms[of "k + i"] show "m (a + of_nat k + of_nat i) = m' (a + of_nat k + of_nat i)"
      by (simp add: add.assoc)
  qed
  have blocks: "map (\<lambda>k. load32 m (a + 40 + 4 * of_nat k)) [0..<12]
      = map (\<lambda>k. load32 m' (a + 40 + 4 * of_nat k)) [0..<12]"
  proof (rule map_cong[OF refl])
    fix k assume "k \<in> set [0..<12]"
    then show "load32 m (a + 40 + 4 * of_nat k) = load32 m' (a + 40 + 4 * of_nat k)"
      using w[of "40 + 4 * k"] by (simp add: add.assoc)
  qed
  have osd: "read_bytes m (a + 116) 12 = read_bytes m' (a + 116) 12"
  proof (rule nth_equalityI)
    fix i assume "i < length (read_bytes m (a + 116) 12)"
    then show "read_bytes m (a + 116) 12 ! i = read_bytes m' (a + 116) 12 ! i"
      using assms[of "116 + i"] by (simp add: add.assoc)
  qed simp
  show ?thesis
    unfolding load_inode_def blocks osd
    using h[of 0] h[of 2] h[of 24] h[of 26] w[of 4] w[of 8] w[of 12] w[of 16] w[of 20] w[of 28]
      w[of 32] w[of 36] w[of 88] w[of 92] w[of 96] w[of 100] w[of 104] w[of 108] w[of 112]
    by simp
qed

lemma load_inode_blocks [simp]: "length (i_block (load_inode m a)) = 12"
  by (simp add: load_inode_def)

section \<open>Specification: a mountable image\<close>

text \<open>How many block groups a superblock describes, and where their descriptors are.\<close>

definition sb_groups :: "ext2_superblock \<Rightarrow> nat" where
  "sb_groups sb = (unat (s_blocks_count sb) + unat (s_blocks_per_group sb) - 1)
     div unat (s_blocks_per_group sb)"

definition sb_block_size :: "ext2_superblock \<Rightarrow> u32" where
  "sb_block_size sb = push_bit (unat (s_log_block_size sb)) 1024"

definition sb_gdt_offset :: "ext2_superblock \<Rightarrow> u32" where
  "sb_gdt_offset sb = sb_block_size sb * (if sb_block_size sb = 1024 then 2 else 1)"

text \<open>The fields the driver computes with are in range and no 32-bit sum of them wraps.\<close>

definition sb_valid :: "ext2_superblock \<Rightarrow> bool" where
  "sb_valid sb \<longleftrightarrow> s_magic sb = EXT2_SUPER_MAGIC \<and> s_log_block_size sb \<le> 21
     \<and> s_blocks_per_group sb \<noteq> 0 \<and> s_inodes_per_group sb \<noteq> 0
     \<and> unat (s_blocks_count sb) + unat (s_blocks_per_group sb) \<le> 4294967296
     \<and> 32 * sb_groups sb \<le> 0xFFFFE000"

section \<open>Lemmas: mounting and inodes\<close>

lemma sb_block_size_nat:
  assumes "s_log_block_size sb \<le> 21"
  shows "unat (sb_block_size sb) = 1024 * 2 ^ unat (s_log_block_size sb)"
    "1024 \<le> unat (sb_block_size sb)" "unat (sb_block_size sb) \<le> 2147483648"
proof -
  let ?k = "unat (s_log_block_size sb)"
  have k: "?k \<le> 21" using assms by (simp add: word_le_nat_alt)
  then have le: "(2 :: nat) ^ ?k \<le> 2 ^ 21" by (intro power_increasing) simp_all
  have "unat (1024 * 2 ^ ?k :: u32) = 1024 * 2 ^ ?k"
  proof -
    have "unat (2 ^ ?k :: u32) = 2 ^ ?k"
      using le unat_of_nat_exact[of "2 ^ ?k"] by simp
    then show ?thesis using le by (simp add: unat_mult_exact)
  qed
  then show n: "unat (sb_block_size sb) = 1024 * 2 ^ ?k"
    by (simp add: sb_block_size_def push_bit_eq_mult)
  show "1024 \<le> unat (sb_block_size sb)" "unat (sb_block_size sb) \<le> 2147483648"
    unfolding n using le by simp_all
qed

lemma sb_groups_word:
  assumes "sb_valid sb"
  shows "udiv (s_blocks_count sb + s_blocks_per_group sb - 1) (s_blocks_per_group sb)
      = Inr (of_nat (sb_groups sb))"
    "unat (of_nat (sb_groups sb) * 32 :: u32) = 32 * sb_groups sb"
proof -
  let ?c = "s_blocks_count sb" and ?p = "s_blocks_per_group sb"
  have nz: "?p \<noteq> 0" and sum: "unat ?c + unat ?p \<le> 4294967296" and g: "32 * sb_groups sb \<le> 0xFFFFE000"
    using assms by (simp_all add: sb_valid_def)
  have pos: "0 < unat ?p" using nz by (simp add: unat_gt_0)
  have "?c + ?p - 1 = of_nat (unat ?c + unat ?p - 1)" using pos by (simp add: of_nat_diff)
  moreover have "unat ?c + unat ?p - 1 < 4294967296" using sum pos by linarith
  ultimately have "unat (?c + ?p - 1) = unat ?c + unat ?p - 1" by (simp only: unat_of_nat_exact)
  then have "unat ((?c + ?p - 1) div ?p) = sb_groups sb" by (simp only: unat_div sb_groups_def)
  then have "(?c + ?p - 1) div ?p = of_nat (sb_groups sb)" by (metis of_nat_unat ucast_id)
  with nz show "udiv (?c + ?p - 1) ?p = Inr (of_nat (sb_groups sb))" by simp
  have "sb_groups sb < 4294967296" using g by linarith
  then have "unat (of_nat (sb_groups sb) :: u32) = sb_groups sb" by (rule unat_of_nat_exact)
  then show "unat (of_nat (sb_groups sb) * 32 :: u32) = 32 * sb_groups sb"
    using g by (simp add: unat_mult_exact)
qed

lemma ext2_mount_ok:
  fixes p :: pmm and sb :: ext2_superblock and m :: memory and img :: u32
  assumes valid: "sb_valid sb" "sb = load_superblock m (img + 1024)"
    and room: "pmm_sized p" "pmm_runs p (sectors_for (32 * sb_groups sb)) \<noteq> {}"
  defines "bgdt \<equiv> sector_addr p (Min (pmm_runs p (sectors_for (32 * sb_groups sb))))"
  assumes addr: "bgdt \<noteq> 0"
    "disjoint_ranges (img + sb_gdt_offset sb) (32 * sb_groups sb) bgdt (32 * sb_groups sb)"
  shows "\<exists>q m'. ext2_mount fs img p m = Inr (True, \<lparr>fs_sb = sb, fs_block_size = sb_block_size sb,
      fs_bgdt = bgdt, fs_image = img\<rparr>, q, m')
    \<and> pmm_sized q \<and> mem_phys_start q = mem_phys_start p \<and> mem_phys_sectors q = mem_phys_sectors p
    \<and> (let i = Min (pmm_runs p (sectors_for (32 * sb_groups sb)))
       in pmm_free q = pmm_free p - {i..<i + sectors_for (32 * sb_groups sb)})
    \<and> (\<forall>x. m' x = (if in_range bgdt (32 * sb_groups sb) x
         then m (img + sb_gdt_offset sb + (x - bgdt)) else m x))"
proof -
  let ?n = "sectors_for (32 * sb_groups sb)" and ?g = "of_nat (sb_groups sb) * 32 :: u32"
  note g = sb_groups_word[OF valid(1)]
  have g32: "32 * sb_groups sb \<le> 0xFFFFE000" using valid(1) by (simp add: sb_valid_def)
  have n: "1 \<le> ?n" "?n \<le> 524287" using g32 by (auto simp: sectors_for_def)
  then have un: "unat (of_nat ?n :: u32) = ?n" by (simp add: unat_of_nat_exact)
  then have nz: "(of_nat ?n :: u32) \<noteq> 0" using n(1) by (auto simp: unat_eq_iff32)
  obtain q where q: "mem_phys_alloc_sectors p (of_nat ?n) = Inr (bgdt, q)" "pmm_sized q"
    "pmm_free q = pmm_free p - {Min (pmm_runs p ?n)..<Min (pmm_runs p ?n) + ?n}"
    "mem_phys_start q = mem_phys_start p" "mem_phys_sectors q = mem_phys_sectors p"
    using mem_phys_alloc_sectors_some[OF room(1) nz] room(2) unfolding un bgdt_def by blast
  have loop: "kpmalloc_loop ?g 1 = Some (of_nat ?n)"
    using kpmalloc_loop_ok[of ?g] g32 unfolding g(2) by simp
  have log: "\<not> s_log_block_size sb \<ge> 32"
    using valid(1) by (auto simp: sb_valid_def word_le_nat_alt)
  have magic: "s_magic sb = 0xEF53" using valid(1) by (simp add: sb_valid_def)
  have "disjoint_ranges (img + sb_gdt_offset sb) (unat ?g) bgdt (unat ?g)"
    using addr(2) unfolding g(2) .
  note copied = kpmemcpy_at[OF this, of m, unfolded g(2)]
  have "ext2_mount fs img p m = Inr (True, \<lparr>fs_sb = sb, fs_block_size = sb_block_size sb,
      fs_bgdt = bgdt, fs_image = img\<rparr>, q, kpmemcpy m bgdt (img + sb_gdt_offset sb) ?g)"
    unfolding ext2_mount_def valid(2)[symmetric]
    using g(1) log magic q(1) addr(1)
    by (simp add: block_size_of_def kpmalloc_def loop sb_block_size_def sb_gdt_offset_def Let_def)
  then show ?thesis using q copied by (simp add: Let_def)
qed

text \<open>Where the driver looks for an inode, when the group descriptors are at \<open>gdt\<close>.\<close>

definition inode_location :: "memory \<Rightarrow> u32 \<Rightarrow> ext2_superblock \<Rightarrow> u32 \<Rightarrow> u32 \<Rightarrow> u32" where
  "inode_location m gdt sb img inode_no =
     (let k = inode_no - 1; index = k mod s_inodes_per_group sb; per_block = sb_block_size sb div 128
      in img + ((bg_inode_table m gdt (k div s_inodes_per_group sb) + index div per_block) * sb_block_size sb
        + index mod per_block * 128))"

lemma ext2_read_inode_ok:
  assumes "s_log_block_size sb \<le> 21" "s_inodes_per_group sb \<noteq> 0" "inode_no \<noteq> 0"
    "fs_sb fs = sb" "fs_block_size fs = sb_block_size sb"
  shows "ext2_read_inode m fs inode_no
    = Inr (Some (load_inode m (inode_location m (fs_bgdt fs) sb (fs_image fs) inode_no)))"
proof -
  have "sb_block_size sb div 128 \<noteq> 0"
  proof -
    have "128 \<le> unat (sb_block_size sb)" using sb_block_size_nat(2)[OF assms(1)] by linarith
    then have "0 < unat (sb_block_size sb) div 128" by (simp add: div_greater_zero_iff)
    then show ?thesis by (simp add: unat_eq_iff32 unat_div)
  qed
  with assms show ?thesis by (simp add: ext2_read_inode_def inode_location_def Let_def)
qed

text \<open>A descriptor of the copied table is the descriptor of the image.\<close>

lemma bg_inode_table_copied:
  assumes copy: "\<And>x. in_range bgdt (32 * g) x \<Longrightarrow> m' x = m (gdt + (x - bgdt))"
    and grp: "unat grp < g" "32 * g \<le> 4294967296"
  shows "bg_inode_table m' bgdt grp = bg_inode_table m gdt grp"
  unfolding bg_inode_table_def
proof (rule load32_cong)
  fix i :: nat assume i: "i < 4"
  let ?k = "32 * unat grp + 8 + i"
  have k: "?k < 32 * g" using grp(1) i by linarith
  have at: "x + grp * 32 + 8 + of_nat i = x + of_nat ?k" for x :: u32
    by (simp add: mult.commute add.assoc)
  show "m' (bgdt + grp * 32 + 8 + of_nat i) = m (gdt + grp * 32 + 8 + of_nat i)"
    unfolding at using copy[OF in_range_offset[OF k grp(2)]] by (simp only: add_diff_cancel_left')
qed

section \<open>Specification: directories\<close>

record dirent =
  d_inode :: u32
  d_type :: u8
  d_name :: "char list"
  d_pad :: "u8 list"

definition dirent_len :: "dirent \<Rightarrow> nat" where
  "dirent_len d = 8 + length (d_name d) + length (d_pad d)"

definition dirent_bytes :: "dirent \<Rightarrow> u8 list" where
  "dirent_bytes d = le32 (d_inode d) @ le16 (of_nat (dirent_len d))
     @ [of_nat (length (d_name d)), d_type d] @ map to_byte (d_name d) @ d_pad d"

definition dirent_wf :: "dirent \<Rightarrow> bool" where
  "dirent_wf d \<longleftrightarrow> length (d_name d) < 256 \<and> NUL \<notin> set (d_name d) \<and> dirent_len d < 65536"

text \<open>What a callback gets to see of a list of entries, in order.\<close>

definition dir_listing :: "dirent list \<Rightarrow> (char list \<times> u32) list" where
  "dir_listing ds = map (\<lambda>d. (d_name d, d_inode d)) (filter (\<lambda>d. d_inode d \<noteq> 0) ds)"

fun cb_run :: "'s dirent_cb \<Rightarrow> (char list \<times> u32) list \<Rightarrow> 's \<Rightarrow> (bool \<times> 's) res" where
  "cb_run cb [] s = Inr (True, s)"
| "cb_run cb ((name, inode) # es) s = rbind (cb name inode s) (\<lambda>(go_on, t).
     if go_on then cb_run cb es t else Inr (False, t))"

text \<open>A block pointer and the entries of its block, which fill it exactly; a hole has none.\<close>

definition dir_block_holds :: "memory \<Rightarrow> ext2_fs \<Rightarrow> u32 \<Rightarrow> dirent list \<Rightarrow> bool" where
  "dir_block_holds m fs blk ds \<longleftrightarrow> (if blk = 0 then ds = []
     else list_all dirent_wf ds \<and> sum_list (map dirent_len ds) = unat (fs_block_size fs)
       \<and> holds m (fs_image fs + blk * fs_block_size fs) (concat (map dirent_bytes ds)))"

section \<open>Lemmas: directories\<close>

lemma length_dirent_bytes: "length (dirent_bytes d) = dirent_len d"
  by (simp add: dirent_bytes_def dirent_len_def)

lemma holds_read_bytes: "holds m a bs \<Longrightarrow> read_bytes m a (length bs) = bs"
  by (intro nth_equalityI) (simp_all add: holds_nth)

lemma dirent_fields:
  assumes "holds m a (dirent_bytes d)" "dirent_wf d"
  shows "de_inode m a = d_inode d" "de_rec_len m a = of_nat (dirent_len d)" "de_name m a = d_name d"
proof -
  have h: "holds m a (le32 (d_inode d))" "holds m (a + 4) (le16 (of_nat (dirent_len d)))"
    "m (a + 6) = of_nat (length (d_name d))" "holds m (a + 8) (map to_byte (d_name d))"
    using assms(1) by (simp_all add: dirent_bytes_def holds_append add.assoc)
  show "de_inode m a = d_inode d" using h(1) by (simp add: de_inode_def holds_le32)
  show "de_rec_len m a = of_nat (dirent_len d)" using h(2) by (simp add: de_rec_len_def holds_le16)
  have "unat (de_name_len m a) = length (d_name d)"
    using h(3) assms(2) by (simp add: de_name_len_def load8_def dirent_wf_def unat_of_nat)
  moreover have "map to_char (read_bytes m (a + 8) (length (map to_byte (d_name d)))) = d_name d"
    unfolding holds_read_bytes[OF h(4)] by (simp add: o_def)
  moreover have "takeWhile (\<lambda>c. c \<noteq> NUL) (d_name d) = d_name d"
    using assms(2) by (auto simp: dirent_wf_def takeWhile_eq_all_conv)
  ultimately show "de_name m a = d_name d" by (simp add: de_name_def)
qed

lemma dir_block_loop_listing:
  "holds m (block + of_nat off) (concat (map dirent_bytes ds)) \<Longrightarrow> list_all dirent_wf ds \<Longrightarrow>
    off + sum_list (map dirent_len ds) < 4294967296 \<Longrightarrow>
    dir_block_loop m block (of_nat (off + sum_list (map dirent_len ds))) cb (of_nat off) s
      = Some (cb_run cb (dir_listing ds) s)"
proof (induction ds arbitrary: off s)
  case Nil
  then show ?case by (simp add: dir_block_loop.simps dir_listing_def)
next
  case (Cons d ds)
  let ?size = "of_nat (off + sum_list (map dirent_len (d # ds))) :: u32" and ?de = "block + of_nat off"
  have wf: "dirent_wf d" "list_all dirent_wf ds" using Cons.prems(2) by simp_all
  have h: "holds m ?de (dirent_bytes d)"
    "holds m (block + of_nat (off + dirent_len d)) (concat (map dirent_bytes ds))"
    using Cons.prems(1) by (simp_all add: holds_append length_dirent_bytes add.assoc)
  note f = dirent_fields[OF h(1) wf(1)]
  have "unat ?size = off + sum_list (map dirent_len (d # ds))"
    by (rule unat_of_nat_exact[OF Cons.prems(3)])
  moreover have "unat (of_nat off :: u32) = off" using Cons.prems(3) by (intro unat_of_nat_exact) simp
  ultimately have lt: "of_nat off < ?size" by (simp add: word_less_nat_alt dirent_len_def)
  have rec16: "unat (of_nat (dirent_len d) :: u16) = dirent_len d"
    using wf(1) by (simp add: dirent_wf_def unat_of_nat)
  have nz: "((of_nat (dirent_len d) :: u16) = 0) = False"
    using rec16 by (metis dirent_len_def unat_0 add_is_0 zero_neq_numeral)
  have "ucast (of_nat (dirent_len d) :: u16) = (of_nat (dirent_len d) :: u32)"
    using rec16 by (metis of_nat_unat)
  then have adv: "of_nat off + ucast (of_nat (dirent_len d) :: u16) = (of_nat (off + dirent_len d) :: u32)"
    by simp
  have unfold: "dir_block_loop m block ?size cb (of_nat off) s
    = (case dir_entry_cb m ?de cb s of Inl e \<Rightarrow> Some (Inl e)
       | Inr r \<Rightarrow> if \<not> fst r then Some (Inr (False, snd r))
           else dir_block_loop m block ?size cb (of_nat (off + dirent_len d)) (snd r))"
    by (subst dir_block_loop.simps) (simp only: lt f(2) nz adv if_True if_False)
  have size: "?size = of_nat (off + dirent_len d + sum_list (map dirent_len ds))"
    by (simp add: add.assoc)
  have IH: "dir_block_loop m block ?size cb (of_nat (off + dirent_len d)) t
      = Some (cb_run cb (dir_listing ds) t)" for t
    unfolding size by (rule Cons.IH[OF h(2) wf(2)]) (use Cons.prems(3) in simp)
  show ?case
  proof (cases "d_inode d = 0")
    case True
    then show ?thesis using unfold IH f by (simp add: dir_entry_cb_def dir_listing_def)
  next
    case False
    then show ?thesis
      using unfold IH f
      by (cases "cb (d_name d) (d_inode d) s") (auto simp: dir_entry_cb_def dir_listing_def split: prod.split)
  qed
qed

lemma cb_run_append: "cb_run cb (xs @ ys) s = rbind (cb_run cb xs s) (\<lambda>(go_on, t).
    if go_on then cb_run cb ys t else Inr (False, t))"
proof (induction xs arbitrary: s)
  case Nil
  then show ?case by simp
next
  case (Cons x xs)
  obtain name inode where "x = (name, inode)" by (cases x)
  with Cons show ?case by (cases "cb name inode s") (auto split: prod.split)
qed

lemma dir_block_listing:
  "dir_block_holds m fs blk ds \<Longrightarrow> dir_block m fs blk cb s = cb_run cb (dir_listing ds) s"
proof (cases "blk = 0")
  case True
  assume "dir_block_holds m fs blk ds"
  with True show ?thesis by (simp add: dir_block_def dir_block_holds_def dir_listing_def)
next
  case False
  assume "dir_block_holds m fs blk ds"
  with False have h: "list_all dirent_wf ds" "sum_list (map dirent_len ds) = unat (fs_block_size fs)"
    "holds m (fs_image fs + blk * fs_block_size fs) (concat (map dirent_bytes ds))"
    by (simp_all add: dir_block_holds_def)
  from dir_block_loop_listing[of m _ 0 ds cb s] h False show ?thesis by (simp add: dir_block_def)
qed

lemma dir_blocks_listing:
  "list_all2 (dir_block_holds m fs) blks dss \<Longrightarrow>
    dir_blocks m fs blks cb s = rbind (cb_run cb (concat (map dir_listing dss)) s) (\<lambda>r. Inr (snd r))"
proof (induction blks dss arbitrary: s rule: list_all2_induct)
  case Nil
  then show ?case by simp
next
  case (Cons blk blks ds dss)
  show ?case
    using Cons.IH dir_block_listing[OF Cons.hyps(1), of cb s]
    by (cases "cb_run cb (dir_listing ds) s") (auto simp: cb_run_append split: prod.split)
qed

lemma ext2_read_dir_listing:
  assumes "512 \<le> unat (fs_block_size fs)"
    "list_all2 (dir_block_holds m fs)
      (take (min 12 (unat (i_blocks dir div (fs_block_size fs div 512)))) (i_block dir)) dss"
  shows "ext2_read_dir m fs dir cb s
    = rbind (cb_run cb (concat (map dir_listing dss)) s) (\<lambda>r. Inr (snd r))"
proof -
  have "0 < unat (fs_block_size fs) div 512" using assms(1) by (simp add: div_greater_zero_iff)
  then have "fs_block_size fs div 512 \<noteq> 0" by (simp add: unat_eq_iff32 unat_div)
  then show ?thesis using dir_blocks_listing[OF assms(2)] by (simp add: ext2_read_dir_def)
qed

text \<open>The loop over a block ends on every disk, as long as the offset cannot wrap.\<close>

lemma dir_block_loop_returns:
  assumes "unat block_size \<le> 4294901760"
  shows "\<exists>r. dir_block_loop m block block_size cb offset s = Some r"
proof (induction "unat block_size - unat offset" arbitrary: offset s rule: less_induct)
  case less
  show ?case
  proof (cases "offset < block_size")
    case False
    then show ?thesis by (simp add: dir_block_loop.simps)
  next
    case True
    let ?len = "de_rec_len m (block + offset)"
    have "unat (ucast ?len :: u32) = unat ?len"
      using unsigned_less[of ?len, where ?'a = nat] by (simp add: unsigned_ucast_eq take_bit_nat_eq_self)
    moreover have "unat ?len < 65536" using unsigned_less[of ?len, where ?'a = nat] by simp
    moreover have "unat offset < unat block_size" using True by (simp add: word_less_nat_alt)
    ultimately have next_off: "unat (offset + ucast ?len) = unat offset + unat ?len"
      using assms by (simp add: unat_add_exact)
    have "\<exists>r. dir_block_loop m block block_size cb (offset + ucast ?len) t = Some r" if "?len \<noteq> 0" for t
    proof (rule less)
      have "0 < unat ?len" using that by (simp add: unat_gt_0)
      then show "unat block_size - unat (offset + ucast ?len) < unat block_size - unat offset"
        using next_off \<open>unat offset < unat block_size\<close> by linarith
    qed
    then show ?thesis
      using True by (subst dir_block_loop.simps) (simp split: sum.split)
  qed
qed

text \<open>Two walks of the same directory with callbacks that simulate each other on their contexts.\<close>

definition simulates :: "('s \<Rightarrow> 't \<Rightarrow> bool) \<Rightarrow> 's dirent_cb \<Rightarrow> 't dirent_cb \<Rightarrow> bool" where
  "simulates R cb cb' \<longleftrightarrow> (\<forall>name inode s s' g t. R s s' \<longrightarrow> cb name inode s = Inr (g, t) \<longrightarrow>
     (\<exists>t'. cb' name inode s' = Inr (g, t') \<and> R t t'))"

lemma dir_entry_cb_sim:
  assumes "simulates R cb cb'" "R s s'" "dir_entry_cb m de cb s = Inr (g, t)"
  shows "\<exists>t'. dir_entry_cb m de cb' s' = Inr (g, t') \<and> R t t'"
  using assms unfolding simulates_def dir_entry_cb_def by (cases "de_inode m de \<noteq> 0") auto

lemma dir_block_loop_sim:
  fixes cb :: "'s dirent_cb"
  assumes "simulates R cb cb'" "R s s'" "dir_block_loop m block block_size cb offset s = Some (Inr (g, t))"
  shows "\<exists>t'. dir_block_loop m block block_size cb' offset s' = Some (Inr (g, t')) \<and> R t t'"
proof -
  let ?P = "\<lambda>m block block_size (cb :: 's dirent_cb) offset s r. simulates R cb cb' \<longrightarrow>
    (\<forall>s' g t. R s s' \<longrightarrow> r = Inr (g, t) \<longrightarrow> (\<exists>t'. dir_block_loop m block block_size cb' offset s' = Some (Inr (g, t')) \<and> R t t'))"
  have "?P m block block_size cb offset s r" if "dir_block_loop m block block_size cb offset s = Some r" for r
  proof (rule dir_block_loop.raw_induct[where P = ?P, OF _ that])
    fix f m block block_size and cb :: "'s dirent_cb" and offset s r
    assume IH: "\<And>m block block_size cb offset s r. f m block block_size cb offset s = Some r \<Longrightarrow>
        ?P m block block_size cb offset s r"
      and step: "(if offset < block_size then
          case dir_entry_cb m (block + offset) cb s of Inl e \<Rightarrow> Some (Inl e)
          | Inr q \<Rightarrow> if \<not> fst q then Some (Inr (False, snd q))
              else if de_rec_len m (block + offset) = 0 then Some (Inr (True, snd q))
              else f m block block_size cb (offset + ucast (de_rec_len m (block + offset))) (snd q)
        else Some (Inr (True, s))) = Some r"
    show "?P m block block_size cb offset s r"
    proof (intro impI allI)
      fix s' g t assume cb: "simulates R cb cb'" and s: "R s s'" and r: "r = Inr (g, t)"
      show "\<exists>t'. dir_block_loop m block block_size cb' offset s' = Some (Inr (g, t')) \<and> R t t'"
      proof (cases "offset < block_size")
        case False
        with step s r show ?thesis by (simp add: dir_block_loop.simps)
      next
        case True
        with step r obtain h u where e: "dir_entry_cb m (block + offset) cb s = Inr (h, u)"
          by (cases "dir_entry_cb m (block + offset) cb s") auto
        obtain u' where u': "dir_entry_cb m (block + offset) cb' s' = Inr (h, u')" "R u u'"
          using dir_entry_cb_sim[OF cb s e] by blast
        note step' = dir_block_loop.simps[of m block block_size cb' offset s']
        show ?thesis
        proof (cases "h \<and> de_rec_len m (block + offset) \<noteq> 0")
          case False
          with step e True r u' show ?thesis by (auto simp: step' split: if_splits)
        next
          case more: True
          with step e True have "f m block block_size cb (offset + ucast (de_rec_len m (block + offset))) u = Some r"
            by simp
          from IH[OF this] cb u'(2) r more True u'(1) show ?thesis by (simp add: step')
        qed
      qed
    qed
  qed
  then show ?thesis using assms by blast
qed

lemma ext2_read_dir_sim:
  assumes sim: "simulates R cb cb'" and "R s s'" "ext2_read_dir m fs dir cb s = Inr t"
  shows "\<exists>t'. ext2_read_dir m fs dir cb' s' = Inr t' \<and> R t t'"
proof -
  have block: "\<exists>t'. dir_block m fs blk cb' s' = Inr (g, t') \<and> R t t'"
    if "R s s'" "dir_block m fs blk cb s = Inr (g, t)" for blk s s' g t
    using that dir_block_loop_sim[OF sim that(1)]
    by (cases "blk = 0") (fastforce simp: dir_block_def split: option.splits)+
  have "R s s' \<Longrightarrow> dir_blocks m fs blks cb s = Inr t \<Longrightarrow> \<exists>t'. dir_blocks m fs blks cb' s' = Inr t' \<and> R t t'" for blks s s'
  proof (induction blks arbitrary: s s')
    case (Cons blk blks)
    from Cons.prems(2) obtain g u where u: "dir_block m fs blk cb s = Inr (g, u)"
      "(if g then dir_blocks m fs blks cb u else Inr u) = Inr t"
      by (auto simp: rbind_eq_Inr)
    from block[OF Cons.prems(1) u(1)] u(2) Cons.IH show ?case by (cases g) fastforce+
  qed simp
  with assms(2,3) show ?thesis by (auto simp: ext2_read_dir_def rbind_eq_Inr)
qed

text \<open>What a callback keeps of its context, the walk keeps.\<close>

lemma ext2_read_dir_keeps:
  assumes "\<And>name inode s g t. Q s \<Longrightarrow> cb name inode s = Inr (g, t) \<Longrightarrow> Q t"
    and "Q s" "ext2_read_dir m fs dir cb s = Inr t"
  shows "Q t"
  using ext2_read_dir_sim[of "\<lambda>s s'. Q s \<and> s' = s" cb cb s s m fs dir t] assms by (auto simp: simulates_def)

section \<open>Encodings of the on-disk structures\<close>

definition superblock_bytes :: "ext2_superblock \<Rightarrow> u8 list" where
  "superblock_bytes sb =
     le32 (s_inodes_count sb) @ le32 (s_blocks_count sb) @ le32 (s_r_blocks_count sb)
     @ le32 (s_free_blocks_count sb) @ le32 (s_free_inodes_count sb) @ le32 (s_first_data_block sb)
     @ le32 (s_log_block_size sb) @ le32 (s_log_frag_size sb) @ le32 (s_blocks_per_group sb)
     @ le32 (s_frags_per_group sb) @ le32 (s_inodes_per_group sb) @ le32 (s_mtime sb)
     @ le32 (s_wtime sb) @ le16 (s_mnt_count sb) @ le16 (s_max_mnt_count sb) @ le16 (s_magic sb)
     @ le16 (s_state sb) @ le16 (s_errors sb) @ le16 (s_minor_rev_level sb) @ le32 (s_lastcheck sb)
     @ le32 (s_checkinterval sb) @ le32 (s_creator_os sb) @ le32 (s_rev_level sb)
     @ le16 (s_def_resuid sb) @ le16 (s_def_resgid sb)"

definition inode_bytes :: "ext2_inode \<Rightarrow> u8 list" where
  "inode_bytes i =
     le16 (i_mode i) @ le16 (i_uid i) @ le32 (i_size_lo i) @ le32 (i_atime i) @ le32 (i_ctime i)
     @ le32 (i_mtime i) @ le32 (i_dtime i) @ le16 (i_gid i) @ le16 (i_links_count i)
     @ le32 (i_blocks i) @ le32 (i_flags i) @ le32 (i_osd1 i) @ concat (map le32 (i_block i))
     @ le32 (i_single i) @ le32 (i_double i) @ le32 (i_triple i) @ le32 (i_generation i)
     @ le32 (i_file_acl i) @ le32 (i_dir_acl i) @ le32 (i_faddr i) @ i_osd2 i"

definition inode_wf :: "ext2_inode \<Rightarrow> bool" where
  "inode_wf i \<longleftrightarrow> length (i_block i) = 12 \<and> length (i_osd2 i) = 12"

lemma length_superblock_bytes [simp]: "length (superblock_bytes sb) = 84"
  by (simp add: superblock_bytes_def)

lemma length_concat_le32: "length (concat (map le32 ws)) = 4 * length ws"
  by (induction ws) simp_all

lemma length_inode_bytes: "inode_wf i \<Longrightarrow> length (inode_bytes i) = 128"
  by (simp add: inode_bytes_def inode_wf_def length_concat_le32)

lemma load_superblock_holds:
  assumes "holds m a (superblock_bytes sb)"
  shows "load_superblock m a = sb"
  using assms
  by (cases sb) (simp add: superblock_bytes_def load_superblock_def holds_append holds_le32 holds_le16
      add.assoc)

lemma holds_words:
  "holds m a (concat (map le32 ws)) \<Longrightarrow> map (\<lambda>k. load32 m (a + 4 * of_nat k)) [0..<length ws] = ws"
proof (induction ws arbitrary: a)
  case Nil
  then show ?case by simp
next
  case (Cons w ws)
  then have "load32 m a = w" "map (\<lambda>k. load32 m (a + 4 + 4 * of_nat k)) [0..<length ws] = ws"
    by (simp_all add: holds_append holds_le32)
  then show ?case
    by (simp add: upt_conv_Cons map_Suc_upt[symmetric] o_def algebra_simps del: upt_Suc)
qed

lemma load_inode_holds:
  assumes "holds m a (inode_bytes i)" "inode_wf i"
  shows "load_inode m a = i"
proof -
  have len: "length (i_block i) = 12" "length (i_osd2 i) = 12" using assms(2) by (simp_all add: inode_wf_def)
  have h: "holds m (a + 40) (concat (map le32 (i_block i)))" "holds m (a + 116) (i_osd2 i)"
    "load16 m a = i_mode i" "load16 m (a + 2) = i_uid i" "load32 m (a + 4) = i_size_lo i"
    "load32 m (a + 8) = i_atime i" "load32 m (a + 12) = i_ctime i" "load32 m (a + 16) = i_mtime i"
    "load32 m (a + 20) = i_dtime i" "load16 m (a + 24) = i_gid i" "load16 m (a + 26) = i_links_count i"
    "load32 m (a + 28) = i_blocks i" "load32 m (a + 32) = i_flags i" "load32 m (a + 36) = i_osd1 i"
    "load32 m (a + 88) = i_single i" "load32 m (a + 92) = i_double i" "load32 m (a + 96) = i_triple i"
    "load32 m (a + 100) = i_generation i" "load32 m (a + 104) = i_file_acl i"
    "load32 m (a + 108) = i_dir_acl i" "load32 m (a + 112) = i_faddr i"
    using assms(1)
    by (simp_all add: inode_bytes_def holds_append holds_le32 holds_le16 length_concat_le32 len add.assoc)
  have "read_bytes m (a + 116) 12 = i_osd2 i" using holds_read_bytes[OF h(2)] len by simp
  moreover have "map (\<lambda>k. load32 m (a + 40 + 4 * of_nat k)) [0..<12] = i_block i"
    using holds_words[OF h(1)] len by simp
  ultimately show ?thesis by (simp add: load_inode_def h)
qed

section \<open>A small disk\<close>

text \<open>
  An image at 2 MiB with 1 KiB blocks and one group: superblock, group descriptor, an inode table
  in blocks 3 and 4, the root directory in block 5 and in block 6 the program that rootfs/example.bin holds.
\<close>

definition demo_sb :: ext2_superblock where
  "demo_sb = \<lparr>s_inodes_count = 16, s_blocks_count = 64, s_r_blocks_count = 0,
     s_free_blocks_count = 0, s_free_inodes_count = 0, s_first_data_block = 1,
     s_log_block_size = 0, s_log_frag_size = 0, s_blocks_per_group = 8192,
     s_frags_per_group = 8192, s_inodes_per_group = 16, s_mtime = 0, s_wtime = 0, s_mnt_count = 0,
     s_max_mnt_count = 0, s_magic = 0xEF53, s_state = 1, s_errors = 0, s_minor_rev_level = 0,
     s_lastcheck = 0, s_checkinterval = 0, s_creator_os = 0, s_rev_level = 0, s_def_resuid = 0,
     s_def_resgid = 0\<rparr>"

definition demo_inode :: "u16 \<Rightarrow> u32 \<Rightarrow> u32 \<Rightarrow> ext2_inode" where
  "demo_inode mode sz blk = \<lparr>i_mode = mode, i_uid = 0, i_size_lo = sz, i_atime = 0, i_ctime = 0,
     i_mtime = 0, i_dtime = 0, i_gid = 0, i_links_count = 1, i_blocks = 2, i_flags = 0, i_osd1 = 0,
     i_block = blk # replicate 11 0, i_single = 0, i_double = 0, i_triple = 0, i_generation = 0,
     i_file_acl = 0, i_dir_acl = 0, i_faddr = 0, i_osd2 = replicate 12 0\<rparr>"

definition demo_root :: ext2_inode where "demo_root = demo_inode 0x41ED 1024 5"
definition demo_file :: ext2_inode where "demo_file = demo_inode 0x81A4 71 6"

definition demo_entries :: "dirent list" where
  "demo_entries = [\<lparr>d_inode = 2, d_type = 2, d_name = ''.'', d_pad = [0, 0, 0]\<rparr>,
     \<lparr>d_inode = 12, d_type = 1, d_name = ''example.bin'', d_pad = replicate 993 0\<rparr>]"

definition demo_program :: "u8 list" where
  "demo_program = [0xB8, 0x04, 0x00, 0x00, 0x00, 0xBB, 0x01, 0x00, 0x00, 0x00, 0xB9, 0x38, 0x00, 0x40, 0x00, 0xBA, 0x0F, 0x00,
     0x00, 0x00, 0xCD, 0x80, 0xB8, 0x04, 0x00, 0x00, 0x00, 0xBB, 0x02, 0x00, 0x00, 0x00, 0xB9, 0x38, 0x00, 0x40,
     0x00, 0xBA, 0x0F, 0x00, 0x00, 0x00, 0xCD, 0x80, 0xB8, 0x01, 0x00, 0x00, 0x00, 0xBB, 0x00, 0x00, 0x00, 0x00,
     0xCD, 0x80, 0x48, 0x65, 0x6C, 0x6C, 0x6F, 0x2C, 0x20, 0x57, 0x6F, 0x72, 0x6C, 0x64, 0x21, 0x0D, 0x0A]"

definition demo_image :: "(nat \<times> u8 list) list" where
  "demo_image =
     [(0x200400, superblock_bytes demo_sb),
      (0x200800, le32 0 @ le32 0 @ le32 3 @ replicate 20 0),
      (0x200C80, inode_bytes demo_root),
      (0x201180, inode_bytes demo_file),
      (0x201400, concat (map dirent_bytes demo_entries)),
      (0x201800, demo_program)]"

definition demo_disk :: memory where "demo_disk = place demo_image (\<lambda>_. 0)"

lemma demo_wf [simp]: "inode_wf (demo_inode mode sz blk)"
  by (simp add: inode_wf_def demo_inode_def)

lemma demo_laid_out: "laid_out 0x200000 demo_image"
  by (simp add: demo_image_def length_inode_bytes demo_root_def demo_file_def demo_entries_def
      length_dirent_bytes dirent_len_def demo_program_def)

lemma demo_holds:
  "holds demo_disk 0x200400 (superblock_bytes demo_sb)"
  "holds demo_disk 0x200800 (le32 0 @ le32 0 @ le32 3 @ replicate 20 0)"
  "holds demo_disk 0x200C80 (inode_bytes demo_root)"
  "holds demo_disk 0x201180 (inode_bytes demo_file)"
  "holds demo_disk 0x201400 (concat (map dirent_bytes demo_entries))"
  "holds demo_disk 0x201800 demo_program"
proof -
  have "(of_nat a :: u32) = w \<Longrightarrow> (a, bs) \<in> set demo_image \<Longrightarrow> holds demo_disk w bs" for a w bs
    using place_holds[OF demo_laid_out] unfolding demo_disk_def by blast
  note at = this
  show "holds demo_disk 0x200400 (superblock_bytes demo_sb)"
    by (rule at[of "0x200400"]) (simp_all add: demo_image_def)
  show "holds demo_disk 0x200800 (le32 0 @ le32 0 @ le32 3 @ replicate 20 0)"
    by (rule at[of "0x200800"]) (simp_all add: demo_image_def)
  show "holds demo_disk 0x200C80 (inode_bytes demo_root)"
    by (rule at[of "0x200C80"]) (simp_all add: demo_image_def)
  show "holds demo_disk 0x201180 (inode_bytes demo_file)"
    by (rule at[of "0x201180"]) (simp_all add: demo_image_def)
  show "holds demo_disk 0x201400 (concat (map dirent_bytes demo_entries))"
    by (rule at[of "0x201400"]) (simp_all add: demo_image_def)
  show "holds demo_disk 0x201800 demo_program"
    by (rule at[of "0x201800"]) (simp_all add: demo_image_def)
qed

definition fs_zero :: ext2_fs where
  "fs_zero = \<lparr>fs_sb = demo_sb, fs_block_size = 0, fs_bgdt = 0, fs_image = 0\<rparr>"

text \<open>The file system as mounted with its descriptors at 1 MiB.\<close>

definition demo_fs :: ext2_fs where
  "demo_fs = \<lparr>fs_sb = demo_sb, fs_block_size = 1024, fs_bgdt = 0x100000, fs_image = 0x200000\<rparr>"

lemma demo_sb_load: "load_superblock demo_disk 0x200400 = demo_sb"
  by (rule load_superblock_holds) (rule demo_holds(1))

lemma demo_sb_valid: "sb_valid demo_sb" "sb_groups demo_sb = 1" "sb_block_size demo_sb = 1024"
  "sb_gdt_offset demo_sb = 2048"
  by (simp_all add: sb_valid_def sb_groups_def sb_block_size_def sb_gdt_offset_def demo_sb_def)

lemma pmm_fresh_runs:
  assumes "sectors \<le> 65536" "n \<le> unat sectors"
  shows "pmm_sized (pmm_fresh start sectors)" "0 \<in> pmm_runs (pmm_fresh start sectors) n"
    "Min (pmm_runs (pmm_fresh start sectors) n) = 0"
proof -
  have s: "unat sectors \<le> 65536" using assms(1) by (simp add: word_le_nat_alt)
  then show "pmm_sized (pmm_fresh start sectors)" by (simp add: pmm_sized_def)
  show in0: "0 \<in> pmm_runs (pmm_fresh start sectors) n"
    using assms(2) s by (auto simp: pmm_runs_def)
  have "finite (pmm_runs (pmm_fresh start sectors) n)"
    by (rule finite_subset[of _ "{..unat sectors}"]) (auto simp: pmm_runs_def)
  with in0 show "Min (pmm_runs (pmm_fresh start sectors) n) = 0" by (intro Min_eqI) auto
qed

section \<open>Properties\<close>

text \<open>C29: mounting a valid image. When the superblock's magic, block size and group count are in
  range and the allocator has a run for the group descriptors, \<open>ext2_mount\<close> succeeds: it takes
  exactly that run, the mounted file system holds the decoded superblock and the block size, the
  run holds a copy of the image's descriptor table, and no other byte of memory changes.\<close>

theorem ext2_mount_correct:
  assumes "sb_valid sb" "holds m (img + 1024) (superblock_bytes sb)"
    "pmm_sized p" "pmm_runs p (sectors_for (32 * sb_groups sb)) = runs" "runs \<noteq> {}"
    "bgdt = sector_addr p (Min runs)" "bgdt \<noteq> 0"
    "disjoint_ranges (img + sb_gdt_offset sb) (32 * sb_groups sb) bgdt (32 * sb_groups sb)"
  shows "\<exists>q m'. ext2_mount fs img p m = Inr (True, \<lparr>fs_sb = sb, fs_block_size = sb_block_size sb,
      fs_bgdt = bgdt, fs_image = img\<rparr>, q, m')
    \<and> pmm_free q = pmm_free p - {Min runs..<Min runs + sectors_for (32 * sb_groups sb)}
    \<and> (\<forall>x. m' x = (if in_range bgdt (32 * sb_groups sb) x
         then m (img + sb_gdt_offset sb + (x - bgdt)) else m x))"
proof -
  have "sb = load_superblock m (img + 1024)" using load_superblock_holds[OF assms(2)] by simp
  from ext2_mount_ok[OF assms(1) this assms(3), of fs] assms(4-8) show ?thesis
    by (auto simp: Let_def)
qed

theorem ext2_mount_correct_witness:
  "\<exists>q m'. ext2_mount fs_zero 0x200000 (pmm_fresh 0x100000 1024) demo_disk = Inr (True, demo_fs, q, m')
    \<and> pmm_free q = {1..<65536}"
proof -
  let ?p = "pmm_fresh 0x100000 1024"
  have one: "sectors_for (32 * sb_groups demo_sb) = 1"
    by (simp add: demo_sb_valid sectors_for_def)
  have runs: "pmm_sized ?p" "0 \<in> pmm_runs ?p 1" "Min (pmm_runs ?p 1) = 0"
    using pmm_fresh_runs[of 1024 1 "0x100000"] by simp_all
  have "sector_addr ?p 0 = 0x100000" by (simp add: sector_addr_def)
  moreover have "disjoint_ranges (of_nat 0x200800) 32 (of_nat 0x100000) 32"
    by (rule disjoint_ranges_nat) simp_all
  moreover have "{..<65536} - {0..<1} = {1..<65536 :: nat}" by auto
  moreover have "holds demo_disk (0x200000 + 1024) (superblock_bytes demo_sb)"
    using demo_holds(1) by simp
  ultimately show ?thesis
    using ext2_mount_correct[OF demo_sb_valid(1), of demo_disk "0x200000" ?p "pmm_runs ?p 1" "0x100000" fs_zero]
      runs one by (auto simp: demo_sb_valid demo_fs_def)
qed

text \<open>C33: a mounted image gives back its inodes. Reading an inode after mounting, through the
  copied group descriptors, decodes exactly the 128 bytes the image holds at the inode's place,
  whatever inode they encode, when its group exists and the copy did not overwrite it.\<close>

theorem ext2_mount_read_inode:
  assumes "sb_valid sb" "holds m (img + 1024) (superblock_bytes sb)"
    "pmm_sized p" "pmm_runs p (sectors_for (32 * sb_groups sb)) = runs" "runs \<noteq> {}"
    "bgdt = sector_addr p (Min runs)" "bgdt \<noteq> 0"
    "disjoint_ranges (img + sb_gdt_offset sb) (32 * sb_groups sb) bgdt (32 * sb_groups sb)"
    "inode_no \<noteq> 0" "unat ((inode_no - 1) div s_inodes_per_group sb) < sb_groups sb"
    "loc = inode_location m (img + sb_gdt_offset sb) sb img inode_no"
    "holds m loc (inode_bytes ino)" "inode_wf ino" "disjoint_ranges loc 128 bgdt (32 * sb_groups sb)"
  shows "\<exists>fs' q m'. ext2_mount fs img p m = Inr (True, fs', q, m')
    \<and> ext2_read_inode m' fs' inode_no = Inr (Some ino)"
proof -
  let ?fs = "\<lparr>fs_sb = sb, fs_block_size = sb_block_size sb, fs_bgdt = bgdt, fs_image = img\<rparr>"
  have "sb = load_superblock m (img + 1024)" using load_superblock_holds[OF assms(2)] by simp
  from ext2_mount_ok[OF assms(1) this assms(3), of fs] assms(4-8) obtain q m' where
    mount: "ext2_mount fs img p m = Inr (True, ?fs, q, m')" and
    mem: "\<forall>x. m' x = (if in_range bgdt (32 * sb_groups sb) x
      then m (img + sb_gdt_offset sb + (x - bgdt)) else m x)"
    by (auto simp: Let_def)
  have ok: "s_log_block_size sb \<le> 21" "s_inodes_per_group sb \<noteq> 0" "32 * sb_groups sb \<le> 4294967296"
    using assms(1) by (simp_all add: sb_valid_def)
  have "bg_inode_table m' bgdt ((inode_no - 1) div s_inodes_per_group sb)
      = bg_inode_table m (img + sb_gdt_offset sb) ((inode_no - 1) div s_inodes_per_group sb)"
    by (rule bg_inode_table_copied[OF _ assms(10) ok(3)]) (simp add: mem)
  then have "inode_location m' bgdt sb img inode_no = loc"
    using assms(11) by (simp add: inode_location_def Let_def)
  moreover have "load_inode m' loc = load_inode m loc"
  proof (rule load_inode_cong)
    fix i :: nat assume "i < 128"
    then have "\<not> in_range bgdt (32 * sb_groups sb) (loc + of_nat i)"
      using assms(14) by (auto simp: disjoint_ranges_def)
    then show "m' (loc + of_nat i) = m (loc + of_nat i)" by (simp add: mem)
  qed
  ultimately have "ext2_read_inode m' ?fs inode_no = Inr (Some ino)"
    using ext2_read_inode_ok[OF ok(1,2) assms(9), of ?fs m'] load_inode_holds[OF assms(12,13)] by simp
  with mount show ?thesis by blast
qed

lemma demo_location:
  "inode_location demo_disk 0x200800 demo_sb 0x200000 2 = 0x200C80"
  "inode_location demo_disk 0x200800 demo_sb 0x200000 12 = 0x201180"
proof -
  have "holds demo_disk (0x200800 + 8) (le32 3)" using demo_holds(2) by (simp add: holds_append)
  then have "load32 demo_disk (0x200800 + 8) = 3" by (rule holds_le32)
  then have table: "load32 demo_disk 0x200808 = 3" by simp
  show "inode_location demo_disk 0x200800 demo_sb 0x200000 2 = 0x200C80"
    "inode_location demo_disk 0x200800 demo_sb 0x200000 12 = 0x201180"
    using table by (simp_all add: inode_location_def bg_inode_table_def demo_sb_valid Let_def)
      (simp_all add: demo_sb_def)
qed

theorem ext2_mount_read_inode_witness:
  "\<exists>fs' q m'. ext2_mount fs_zero 0x200000 (pmm_fresh 0x100000 1024) demo_disk = Inr (True, fs', q, m')
    \<and> ext2_read_inode m' fs' 12 = Inr (Some demo_file)"
proof -
  let ?p = "pmm_fresh 0x100000 1024"
  have one: "sectors_for (32 * sb_groups demo_sb) = 1"
    by (simp add: demo_sb_valid sectors_for_def)
  have runs: "pmm_sized ?p" "0 \<in> pmm_runs ?p 1" "Min (pmm_runs ?p 1) = 0"
    using pmm_fresh_runs[of 1024 1 "0x100000"] by simp_all
  have "sector_addr ?p 0 = 0x100000" by (simp add: sector_addr_def)
  moreover have "disjoint_ranges (of_nat 0x200800) 32 (of_nat 0x100000) 32"
    "disjoint_ranges (of_nat 0x201180) 128 (of_nat 0x100000) 32"
    by (rule disjoint_ranges_nat; simp)+
  moreover have "holds demo_disk (0x200000 + 1024) (superblock_bytes demo_sb)"
    using demo_holds(1) by simp
  moreover have "inode_wf demo_file" by (simp add: demo_file_def)
  moreover have "(12 - 1 :: u32) div s_inodes_per_group demo_sb = 0" by (simp add: demo_sb_def)
  ultimately show ?thesis
    using ext2_mount_read_inode[OF demo_sb_valid(1), of demo_disk "0x200000" ?p "pmm_runs ?p 1" "0x100000"
        12 "0x201180" demo_file fs_zero] runs one demo_location(2) demo_holds(4)
    by (auto simp: demo_sb_valid)
qed

text \<open>C27: reading a file. With a buffer that overlaps no data block and sums that do not wrap,
  \<open>ext2_read_file\<close> returns exactly the bytes that exist between the offset and the end of the
  request, of the file, or of its twelve direct blocks, whichever comes first; the buffer then
  holds those bytes of the file (zeros for holes) and nothing else in memory changed.\<close>

theorem ext2_read_file_correct:
  assumes "0 < unat (fs_block_size fs)" "length (i_block inode) = 12" "out_buf \<noteq> 0"
    "\<forall>b < 12. i_block inode ! b \<noteq> 0 \<longrightarrow> disjoint_ranges
      (fs_image fs + i_block inode ! b * fs_block_size fs) (unat (fs_block_size fs)) out_buf (unat buf_len)"
    "unat offset + unat buf_len < 4294967296"
    "unat (i_size_lo inode) + unat (fs_block_size fs) \<le> 4294967296"
    "r = min (min (unat buf_len) (unat (i_size_lo inode) - unat offset))
      (12 * unat (fs_block_size fs) - unat offset)"
  shows "\<exists>m'. ext2_read_file m fs inode out_buf buf_len offset = Inr (of_nat r, m')
    \<and> (\<forall>i < r. m' (out_buf + of_nat i) = file_byte m fs inode (unat offset + i))
    \<and> (\<forall>x. \<not> in_range out_buf r x \<longrightarrow> m' x = m x)"
  using ext2_read_file_ok[OF assms(1-3) _ assms(5,6), of m] assms(4,7)
  by (simp add: buffer_apart_def stored_upto_def)

theorem ext2_read_file_correct_witness:
  "\<exists>m'. ext2_read_file demo_disk demo_fs demo_file 0x400000 100 0 = Inr (71, m')
    \<and> m' 0x400000 = 0xB8 \<and> m' 0x400046 = 0x0A"
proof -
  have blk: "i_block demo_file = 6 # replicate 11 0" by (simp add: demo_file_def demo_inode_def)
  have apart: "\<forall>b < 12. i_block demo_file ! b \<noteq> 0 \<longrightarrow> disjoint_ranges
      (fs_image demo_fs + i_block demo_file ! b * fs_block_size demo_fs) (unat (fs_block_size demo_fs))
      0x400000 (unat (100 :: u32))"
  proof (intro allI impI)
    fix b :: nat assume "b < 12" "i_block demo_file ! b \<noteq> 0"
    then have "b = 0" by (simp add: blk nth_Cons split: nat.splits)
    have "disjoint_ranges (of_nat 0x201800) 1024 (of_nat 0x400000) 100"
      by (rule disjoint_ranges_nat) simp_all
    with \<open>b = 0\<close> show "disjoint_ranges
        (fs_image demo_fs + i_block demo_file ! b * fs_block_size demo_fs) (unat (fs_block_size demo_fs))
        0x400000 (unat (100 :: u32))"
      by (simp add: blk demo_fs_def)
  qed
  have r: "71 = min (min (unat (100 :: u32)) (unat (i_size_lo demo_file) - unat (0 :: u32)))
      (12 * unat (fs_block_size demo_fs) - unat (0 :: u32))"
    by (simp add: demo_file_def demo_inode_def demo_fs_def)
  have prog: "demo_disk 0x201800 = 0xB8" "demo_disk 0x201846 = 0x0A"
    using demo_holds(6) by (simp_all add: demo_program_def add.assoc)
  have "file_byte demo_disk demo_fs demo_file 0 = 0xB8" "file_byte demo_disk demo_fs demo_file 70 = 0x0A"
    using prog by (simp_all add: file_byte_def blk demo_fs_def)
  moreover have "i_size_lo demo_file = 71" by (simp add: demo_file_def demo_inode_def)
  with ext2_read_file_correct[OF _ _ _ apart _ _ r, of demo_disk] obtain m' where
    "ext2_read_file demo_disk demo_fs demo_file 0x400000 100 0 = Inr (of_nat 71, m')"
    "\<forall>i < 71. m' (0x400000 + of_nat i) = file_byte demo_disk demo_fs demo_file (unat (0 :: u32) + i)"
    by (auto simp: blk demo_fs_def)
  moreover from this(2)[rule_format, of 0] this(2)[rule_format, of 70]
  have "m' 0x400000 = file_byte demo_disk demo_fs demo_file 0"
    "m' 0x400046 = file_byte demo_disk demo_fs demo_file 70" by simp_all
  ultimately show ?thesis by auto
qed

text \<open>C28: walking a directory. When the directory's blocks hold well-formed entries, the callback
  sees each entry with a non-zero inode exactly once, with its exact name, in disk order, holes
  skipped, until it asks to stop; its context is threaded through, and its faults are the walk's.\<close>

theorem ext2_read_dir_correct:
  assumes "512 \<le> unat (fs_block_size fs)"
    "list_all2 (dir_block_holds m fs)
      (take (min 12 (unat (i_blocks dir div (fs_block_size fs div 512)))) (i_block dir)) dss"
  shows "ext2_read_dir m fs dir cb s
    = rbind (cb_run cb (concat (map dir_listing dss)) s) (\<lambda>r. Inr (snd r))"
  by (rule ext2_read_dir_listing[OF assms])

lemma demo_root_holds: "dir_block_holds demo_disk demo_fs 5 demo_entries"
  unfolding dir_block_holds_def
  using demo_holds(5)
  by (simp add: demo_fs_def demo_entries_def dirent_wf_def dirent_len_def)

text \<open>A callback that collects names.\<close>

theorem ext2_read_dir_correct_witness:
  "ext2_read_dir demo_disk demo_fs demo_root (\<lambda>name inode s. Inr (True, s @ [(name, inode)])) []
    = Inr [(''.'', 2), (''example.bin'', 12)]"
proof -
  have "list_all2 (dir_block_holds demo_disk demo_fs) [5] [demo_entries]"
    using demo_root_holds by simp
  moreover have "take (min 12 (unat (i_blocks demo_root div (fs_block_size demo_fs div 512))))
      (i_block demo_root) = [5]"
    by (simp add: demo_root_def demo_inode_def demo_fs_def)
  moreover have "dir_listing demo_entries = [(''.'', 2), (''example.bin'', 12)]"
    by (simp add: dir_listing_def demo_entries_def)
  ultimately show ?thesis
    using ext2_read_dir_correct[of demo_fs demo_disk demo_root "[demo_entries]"
        "\<lambda>name inode s. Inr (True, s @ [(name, inode)])" "[]"]
    by (simp add: demo_fs_def)
qed

text \<open>With a callback that never faults, the walk of one block never faults.\<close>

lemma dir_block_loop_total:
  fixes cb :: "'a dirent_cb"
  assumes "unat block_size \<le> 4294901760" "\<forall>name inode s. \<exists>r. cb name inode s = Inr r"
  shows "\<exists>r. dir_block_loop m block block_size cb offset s = Some (Inr r)"
proof -
  obtain r where r: "dir_block_loop m block block_size cb offset s = Some r"
    using dir_block_loop_returns[OF assms(1), of m block cb offset s] by blast
  let ?P = "\<lambda>m block block_size cb offset s (r :: (bool \<times> 'a) res).
    (\<forall>name inode s. \<exists>r. cb name inode s = Inr r) \<longrightarrow> (\<exists>t. r = Inr t)"
  have "?P m block block_size cb offset s r"
  proof (rule dir_block_loop.raw_induct[where P = ?P, OF _ r])
    fix f m block block_size and cb :: "'a dirent_cb" and offset s r
    assume IH: "\<And>m block block_size cb offset s r. f m block block_size cb offset s = Some r \<Longrightarrow>
        ?P m block block_size cb offset s r"
      and step: "(if offset < block_size then
          case dir_entry_cb m (block + offset) cb s of Inl e \<Rightarrow> Some (Inl e)
          | Inr q \<Rightarrow> if \<not> fst q then Some (Inr (False, snd q))
              else if de_rec_len m (block + offset) = 0 then Some (Inr (True, snd q))
              else f m block block_size cb (offset + ucast (de_rec_len m (block + offset))) (snd q)
        else Some (Inr (True, s))) = Some r"
    show "?P m block block_size cb offset s r"
    proof
      assume cb: "\<forall>name inode s. \<exists>r. cb name inode s = Inr r"
      then obtain g u where "dir_entry_cb m (block + offset) cb s = Inr (g, u)"
        unfolding dir_entry_cb_def by (cases "de_inode m (block + offset) = 0") fastforce+
      note entry = this
      show "\<exists>t. r = Inr t"
      proof (cases "offset < block_size \<and> g \<and> de_rec_len m (block + offset) \<noteq> 0")
        case True
        with step entry have "f m block block_size cb
            (offset + ucast (de_rec_len m (block + offset))) u = Some r" by simp
        from IH[OF this] cb show ?thesis by blast
      next
        case False
        with step entry have "r = Inr (True, s) \<or> r = Inr (False, u) \<or> r = Inr (True, u)"
          by (auto split: if_splits)
        then show ?thesis by blast
      qed
    qed
  qed
  with r assms(2) show ?thesis by auto
qed

text \<open>A block size of at least a sector is enough for a walk to end.\<close>

lemma ext2_read_dir_total:
  fixes cb :: "'a dirent_cb"
  assumes "512 \<le> unat (fs_block_size fs)" "unat (fs_block_size fs) \<le> 4294901760"
    "\<forall>name inode s. \<exists>r. cb name inode s = Inr r"
  shows "\<exists>t. ext2_read_dir m fs dir cb s = Inr t"
proof -
  have block: "\<exists>r. dir_block m fs blk cb s = Inr r" for blk s
    using dir_block_loop_total[OF assms(2,3), of m "fs_image fs + blk * fs_block_size fs" 0 s]
    by (auto simp: dir_block_def)
  have "\<exists>t. dir_blocks m fs blks cb s = Inr t" for blks s
  proof (induction blks arbitrary: s)
    case Nil
    then show ?case by simp
  next
    case (Cons blk blks)
    obtain go_on t where "dir_block m fs blk cb s = Inr (go_on, t)" using block by fastforce
    with Cons show ?case by simp
  qed
  moreover have "fs_block_size fs div 512 \<noteq> 0"
  proof -
    have "0 < unat (fs_block_size fs) div 512" using assms(1) by (simp add: div_greater_zero_iff)
    then show ?thesis by (simp add: unat_eq_iff32 unat_div)
  qed
  ultimately show ?thesis by (simp add: ext2_read_dir_def)
qed

text \<open>What a mount that succeeds says about the block size.\<close>

lemma mounted_block_size:
  assumes "ext2_mount fs0 img p m0 = Inr (True, fs, q, m1)"
  shows "s_log_block_size (load_superblock m0 (img + 1024)) < 32"
    "fs_block_size fs = push_bit (unat (s_log_block_size (load_superblock m0 (img + 1024)))) 1024"
  using assms
  by (auto simp: ext2_mount_def Let_def block_size_of_def rbind_eq_Inr not_le split: if_splits)

lemma block_size_wraps:
  assumes "22 \<le> n"
  shows "push_bit n (1024 :: u32) = 0"
proof -
  have "(1024 :: u32) = push_bit 10 1" by simp
  then have "push_bit n (1024 :: u32) = push_bit (n + 10) 1" by (simp only: push_bit_push_bit)
  also have "\<dots> = 0"
  proof (rule bit_word_eqI)
    fix i assume "i < LENGTH(32)"
    then show "bit (push_bit (n + 10) (1 :: u32)) i = bit (0 :: u32) i" using assms by (auto simp: bit_exp_iff)
  qed
  finally show ?thesis .
qed

text \<open>C38: walking a directory ends, or divides by zero at once. Behind any mount that succeeds, whatever memory and
  the inode hold, and with a callback that does not fault: for a block size exponent below 22
  \<open>ext2_read_dir\<close> returns, since an entry of length 0
  stops the walk of its block and any other length moves it forward. The mount accepts the exponents 22 to 31
  too, where the block size wraps to 0, and then every call is a division by zero.\<close>

theorem ext2_read_dir_returns:
  fixes cb :: "'a dirent_cb"
  assumes "ext2_mount fs0 img p m0 = Inr (True, fs, q, m1)" "\<forall>name inode s. \<exists>r. cb name inode s = Inr r"
  shows "let e = s_log_block_size (load_superblock m0 (img + 1024)) in e < 32
    \<and> (if e < 22 then \<exists>t. ext2_read_dir m fs dir cb s = Inr t else ext2_read_dir m fs dir cb s = Inl Divide_By_Zero)"
proof -
  let ?sb = "load_superblock m0 (img + 1024)"
  note b = mounted_block_size[OF assms(1)]
  have "\<exists>t. ext2_read_dir m fs dir cb s = Inr t" if "s_log_block_size ?sb < 22"
  proof -
    have "s_log_block_size ?sb \<le> 21" using that by (simp add: word_le_nat_alt word_less_nat_alt)
    with sb_block_size_nat(2,3)[of ?sb] b(2) show ?thesis
      by (intro ext2_read_dir_total assms(2)) (simp_all add: sb_block_size_def)
  qed
  moreover have "ext2_read_dir m fs dir cb s = Inl Divide_By_Zero" if "\<not> s_log_block_size ?sb < 22"
  proof -
    have "22 \<le> unat (s_log_block_size ?sb)" using that by (simp add: word_less_nat_alt)
    then have "fs_block_size fs = 0" using block_size_wraps b(2) by simp
    then show ?thesis by (simp add: ext2_read_dir_def)
  qed
  ultimately show ?thesis using b(1) by (simp add: Let_def)
qed

text \<open>The small image mounts, also with a block size exponent of 22.\<close>

lemma demo_mounts:
  assumes "n = 0 \<or> n = (22 :: u32)"
  defines "sb \<equiv> demo_sb\<lparr>s_log_block_size := n\<rparr>"
  shows "\<exists>fs q m1. ext2_mount fs_zero 0x200000 (pmm_fresh 0x100000 1024) (place [(0x200400, superblock_bytes sb)] (\<lambda>_. 0))
    = Inr (True, fs, q, m1)" "load_superblock (place [(0x200400, superblock_bytes sb)] (\<lambda>_. 0)) (0x200000 + 1024) = sb"
proof -
  let ?m = "place [(0x200400, superblock_bytes sb)] (\<lambda>_. 0)" and ?p = "pmm_fresh 0x100000 1024"
  have "holds ?m (of_nat 0x200400) (superblock_bytes sb)" by (rule place_holds[of 0]) simp_all
  then show sb: "load_superblock ?m (0x200000 + 1024) = sb" by (simp add: load_superblock_holds)
  have "pmm_sized ?p" by (simp add: pmm_sized_def)
  then obtain q where q: "mem_phys_alloc_sectors ?p 1 = Inr (0x100000, q)"
    using mem_phys_alloc_sectors_some[of ?p 1] Min_runs_fresh[of 1 1024 "0x100000"] by (auto simp: sector_addr_def)
  have "kpmalloc_loop 32 1 = Some 1" by (simp add: kpmalloc_loop.simps)
  moreover have "s_magic sb = 0xEF53" "(s_blocks_count sb + s_blocks_per_group sb - 1) div s_blocks_per_group sb = 1"
    "s_blocks_per_group sb \<noteq> 0" "\<not> s_log_block_size sb \<ge> 32"
    using assms(1) by (auto simp: sb_def demo_sb_def)
  ultimately show "\<exists>fs q m1. ext2_mount fs_zero 0x200000 ?p ?m = Inr (True, fs, q, m1)"
    using sb q by (simp add: ext2_mount_def block_size_of_def kpmalloc_def Let_def)
qed

text \<open>With exponent 0 the walk ends in any memory, here one full of ones; with exponent 22 it faults.\<close>

theorem ext2_read_dir_returns_witness:
  "\<exists>fs fs' t. ext2_read_dir (\<lambda>_. 0xFF) fs demo_root (\<lambda>name inode s. Inr (True, s + 1)) (0 :: nat) = Inr t
    \<and> ext2_read_dir (\<lambda>_. 0xFF) fs' demo_root (\<lambda>name inode s. Inr (True, s + 1)) (0 :: nat) = Inl Divide_By_Zero"
proof -
  let ?cb = "\<lambda>name inode s. Inr (True, s + 1) :: (bool \<times> nat) res"
  have cb: "\<forall>name inode s. \<exists>r. ?cb name inode s = Inr r" by blast
  obtain fs q m1 fs' q' m1' where mounts:
    "ext2_mount fs_zero 0x200000 (pmm_fresh 0x100000 1024) (place [(0x200400, superblock_bytes (demo_sb\<lparr>s_log_block_size := 0\<rparr>))] (\<lambda>_. 0))
      = Inr (True, fs, q, m1)"
    "ext2_mount fs_zero 0x200000 (pmm_fresh 0x100000 1024) (place [(0x200400, superblock_bytes (demo_sb\<lparr>s_log_block_size := 22\<rparr>))] (\<lambda>_. 0))
      = Inr (True, fs', q', m1')"
    using demo_mounts(1)[of 0] demo_mounts(1)[of 22] by auto
  have "\<exists>t. ext2_read_dir (\<lambda>_. 0xFF) fs demo_root ?cb 0 = Inr t"
    using ext2_read_dir_returns[OF mounts(1) cb, of "\<lambda>_. 0xFF" demo_root 0] demo_mounts(2)[of 0] by (simp add: Let_def)
  moreover have "ext2_read_dir (\<lambda>_. 0xFF) fs' demo_root ?cb 0 = Inl Divide_By_Zero"
    using ext2_read_dir_returns[OF mounts(2) cb, of "\<lambda>_. 0xFF" demo_root 0] demo_mounts(2)[of 22]
    by (simp add: Let_def)
  ultimately show ?thesis by blast
qed

text \<open>C39: a corrupt superblock ends the mount badly. A wrong magic number is the only corruption
  that is reported; with the right one, a block size exponent of 32 or more is an undefined shift,
  a group size of 0 divides by zero, and a group count whose descriptors need more than
  \<open>0xFFFFE000\<close> bytes keeps the allocator's size loop running for ever.\<close>

theorem ext2_mount_corrupt:
  assumes "sb = load_superblock m (img + 1024)" "s_magic sb = 0xEF53"
    "s_log_block_size sb \<ge> 32 \<or> s_blocks_per_group sb = 0
      \<or> 0xFFFFE000 < (s_blocks_count sb + s_blocks_per_group sb - 1) div s_blocks_per_group sb * 32"
  shows "ext2_mount fs img p m = Inl (if s_log_block_size sb \<ge> 32 then Shift_Too_Large
      else if s_blocks_per_group sb = 0 then Divide_By_Zero else Hang)"
  using assms
  by (auto simp: ext2_mount_def Let_def block_size_of_def kpmalloc_def kpmalloc_loop_stuck)

theorem ext2_mount_corrupt_witness:
  "ext2_mount fs_zero 0x200000 (pmm_fresh 0x100000 1024) (place [(0x200400, superblock_bytes
      (demo_sb\<lparr>s_blocks_count := 0x7FFFFFF, s_blocks_per_group := 1\<rparr>))] (\<lambda>_. 0)) = Inl Hang"
proof -
  let ?sb = "demo_sb\<lparr>s_blocks_count := 0x7FFFFFF, s_blocks_per_group := 1\<rparr>"
  let ?m = "place [(0x200400, superblock_bytes ?sb)] (\<lambda>_. 0)"
  have "holds ?m (of_nat 0x200400) (superblock_bytes ?sb)"
    by (rule place_holds[of 0]) simp_all
  then have "load_superblock ?m 0x200400 = ?sb" by (simp add: load_superblock_holds)
  then show ?thesis
    using ext2_mount_corrupt[of ?sb ?m "0x200000" fs_zero "pmm_fresh 0x100000 1024"] by (simp add: demo_sb_def)
qed

text \<open>An overflowing length reads past the end of a file. The check \<open>offset + buf_len > size\<close>
  wraps: with the largest length and an offset at least two bytes into its block, the rest of the
  block is copied, also when less than that is left of the file.\<close>

theorem ext2_read_file_past_end:
  assumes "length (i_block inode) = 12" "out_buf \<noteq> 0" "offset < i_size_lo inode"
    "offset div fs_block_size fs < 12" "2 \<le> offset mod fs_block_size fs"
    "unat offset + unat (fs_block_size fs) \<le> 4294967296"
    "unat (i_size_lo inode) - unat offset < unat (fs_block_size fs) - unat (offset mod fs_block_size fs)"
  shows "\<exists>m'. ext2_read_file m fs inode out_buf 0xFFFFFFFF offset
      = Inr (fs_block_size fs - offset mod fs_block_size fs, m')
    \<and> unat (fs_block_size fs - offset mod fs_block_size fs) > unat (i_size_lo inode) - unat offset"
proof -
  let ?bs = "fs_block_size fs"
  let ?q = "unat offset div unat ?bs" and ?c = "unat offset mod unat ?bs"
  have c: "2 \<le> ?c" using assms(5) by (simp add: word_le_nat_alt unat_mod)
  have bs: "0 < unat ?bs" using assms(7) by linarith
  then have nz: "?bs \<noteq> 0" by auto
  have cb: "?c < unat ?bs" using bs by simp
  have split: "unat offset = ?q * unat ?bs + ?c" by simp
  have q: "unat (offset div ?bs) = ?q" "?q < 12"
    using assms(4) by (simp_all add: unat_div word_less_nat_alt)
  have one: "1 \<le> unat offset" using c split by linarith
  have wrap: "offset + 0xFFFFFFFF = offset - 1" by simp
  have "unat (offset - 1) = unat offset - 1" using one by (simp add: unat_sub_exact)
  then have guard: "\<not> i_size_lo inode < offset + 0xFFFFFFFF"
    unfolding wrap using assms(3) one by (simp add: word_less_nat_alt)
  have "2 \<le> unat offset + unat ?bs" using one bs by linarith
  then have "of_nat (unat offset + unat ?bs - 2) = offset + ?bs - 2" by (simp add: of_nat_diff)
  moreover have "(0xFFFFFFFF :: u32) = - 1" by simp
  ultimately have "offset + 0xFFFFFFFF + ?bs - 1 = of_nat (unat offset + unat ?bs - 2)"
    by (simp only:) simp
  moreover have "unat offset + unat ?bs - 2 < 4294967296" using assms(6) by linarith
  ultimately have sum: "unat (offset + 0xFFFFFFFF + ?bs - 1) = unat offset + unat ?bs - 2"
    by (simp only: unat_of_nat_exact)
  have e: "unat offset + unat ?bs - 2 = (?c - 2) + Suc ?q * unat ?bs" using split c by simp
  have "?c - 2 < unat ?bs" using cb by linarith
  then have "(?c - 2) div unat ?bs = 0" by simp
  then have "(unat offset + unat ?bs - 2) div unat ?bs = Suc ?q"
    unfolding e using bs by (subst div_mult_self1) simp_all
  then have blocks: "unat ((offset + 0xFFFFFFFF + ?bs - 1) div ?bs) = Suc ?q"
    using sum by (simp only: unat_div)
  have iter: "[?q..<12] = ?q # [Suc ?q..<12]" using q(2) by (simp add: upt_rec)
  have "unat (of_nat ?q :: u32) = ?q" "unat (of_nat (Suc ?q) :: u32) = Suc ?q"
    using q(2) by (intro unat_of_nat_exact; simp)+
  then have lt: "of_nat ?q < (offset + 0xFFFFFFFF + ?bs - 1) div ?bs"
    "\<not> of_nat (Suc ?q) < (offset + 0xFFFFFFFF + ?bs - 1) div ?bs" "of_nat ?q = offset div ?bs"
    using blocks q(1) by (simp_all add: word_less_nat_alt unat_eq_iff32)
  have "\<not> (0xFFFFFFFF :: u32) < w" for w
  proof -
    have "unat w \<le> 4294967295" using unat_lt_32[of w] by linarith
    then show ?thesis by (simp add: word_less_nat_alt)
  qed
  then have clamp: "clamp_block 0 (?bs - offset mod ?bs) 0xFFFFFFFF = ?bs - offset mod ?bs"
    by (simp add: clamp_block_def)
  have stop: "file_loop fs inode out_buf 0xFFFFFFFF ((offset + 0xFFFFFFFF + ?bs - 1) div ?bs) (offset div ?bs)
      (offset mod ?bs) [Suc ?q..<12] r m2 = Inr (r, m2)" for r m2
    using lt(2) by (cases "Suc ?q < 12") (simp_all add: upt_rec[of "Suc ?q"])
  have len: "unat (?bs - offset mod ?bs) = unat ?bs - ?c"
    using cb by (simp add: unat_sub_exact unat_mod)
  have "(i_size_lo inode \<le> offset) = False" using assms(3) by (simp add: not_le)
  then show ?thesis
    using assms(1,2,7) guard nz q lt(1,3) clamp stop len
    by (simp add: ext2_read_file_def Let_def iter unat_mod)
qed

theorem ext2_read_file_past_end_witness:
  "\<exists>m'. ext2_read_file demo_disk demo_fs demo_file 0x400000 0xFFFFFFFF 2 = Inr (1022, m')"
proof -
  have "i_block demo_file = 6 # replicate 11 0" "i_size_lo demo_file = 71"
    by (simp_all add: demo_file_def demo_inode_def)
  then show ?thesis
    using ext2_read_file_past_end[of demo_file "0x400000" 2 demo_fs demo_disk]
    by (simp add: demo_fs_def word_less_nat_alt)
qed

end
