(* ===== verification/Processes.thy ===== *)
theory Processes
  imports Physical
begin

text \<open>
  The process table (source/system/usermode/processes.c, processes.h): 64 slots and a pointer to
  the current process. \<open>proc_create\<close> takes the first unused slot and a sector of physical memory
  for its kernel stack.

  The specification: which slots are in use, and that the kernel stacks of running processes are
  distinct frames the allocator no longer owns.
\<close>

abbreviation (input) PROC_MAX_COUNT :: nat where "PROC_MAX_COUNT \<equiv> 64"
abbreviation (input) PROC_UNUSED :: u8 where "PROC_UNUSED \<equiv> 0"
abbreviation (input) PROC_RUNNING :: u8 where "PROC_RUNNING \<equiv> 1"
abbreviation (input) USER_STACK_TOP :: u32 where "USER_STACK_TOP \<equiv> 0x800000"
abbreviation (input) USER_CODE_BASE :: u32 where "USER_CODE_BASE \<equiv> 0x400000"

section \<open>State\<close>

record process =
  pr_id :: u16
  pr_state :: u8
  pr_kernel_stack_top :: u32
  pr_user_stack_top :: u32
  pr_regs :: "u64 list"

text \<open>\<open>current_process\<close> is null or points into the table.\<close>

record proc_mgr =
  process_table :: "process list"
  current_process :: "nat option"

text \<open>The static data before the first call.\<close>

definition proc_zero :: process where
  "proc_zero = \<lparr>pr_id = 0, pr_state = 0, pr_kernel_stack_top = 0, pr_user_stack_top = 0,
     pr_regs = replicate 16 0\<rparr>"

definition proc_static :: proc_mgr where
  "proc_static = \<lparr>process_table = replicate PROC_MAX_COUNT proc_zero, current_process = None\<rparr>"

section \<open>Operations\<close>

text \<open>\<open>regs[r] = 0; r++\<close>, four times per round, while \<open>r < 16\<close>: the stores in order.\<close>

definition clear_regs :: "u64 list \<Rightarrow> u64 list res" where
  "clear_regs rs = rfold (\<lambda>rs r. arr_set rs r 0) rs
     (concat (map (\<lambda>k. [4 * k, 4 * k + 1, 4 * k + 2, 4 * k + 3]) [0..<4]))"

definition proc_reset :: "process list \<Rightarrow> nat \<Rightarrow> process list res" where
  "proc_reset t pid = rbind (arr_get t pid) (\<lambda>p.
     rbind (clear_regs (pr_regs p)) (\<lambda>rs.
       arr_set t pid (p\<lparr>pr_id := of_nat pid, pr_state := PROC_UNUSED, pr_regs := rs,
         pr_kernel_stack_top := 0\<rparr>)))"

definition proc_mgr_init :: "proc_mgr \<Rightarrow> proc_mgr res" where
  "proc_mgr_init pm = rbind (rfold proc_reset (process_table pm) [0..<PROC_MAX_COUNT]) (\<lambda>t.
     Inr (pm\<lparr>process_table := t\<rparr>))"

text \<open>The search for a free slot, over the remaining slot numbers. The result is the slot, or
  \<open>None\<close> for the null pointer.\<close>

fun proc_search :: "nat list \<Rightarrow> proc_mgr \<Rightarrow> pmm \<Rightarrow> (nat option \<times> proc_mgr \<times> pmm) res" where
  "proc_search [] pm p = Inr (None, pm, p)"
| "proc_search (pid # pids) pm p = rbind (arr_get (process_table pm) pid) (\<lambda>pr.
     if pr_state pr = PROC_UNUSED then
       rbind (mem_phys_alloc p) (\<lambda>(stack, p).
       rbind (arr_set (process_table pm) pid (pr\<lparr>pr_state := PROC_RUNNING,
           pr_kernel_stack_top := stack, pr_user_stack_top := USER_STACK_TOP\<rparr>)) (\<lambda>t.
         Inr (Some pid, \<lparr>process_table = t, current_process = Some pid\<rparr>, p)))
     else proc_search pids pm p)"

definition proc_create :: "proc_mgr \<Rightarrow> pmm \<Rightarrow> (nat option \<times> proc_mgr \<times> pmm) res" where
  "proc_create pm p = proc_search [0..<PROC_MAX_COUNT] pm p"

definition proc_current :: "proc_mgr \<Rightarrow> nat option" where
  "proc_current pm = current_process pm"

section \<open>Specification\<close>

definition proc_shape :: "proc_mgr \<Rightarrow> bool" where
  "proc_shape pm \<longleftrightarrow> length (process_table pm) = PROC_MAX_COUNT
     \<and> (\<forall>pr \<in> set (process_table pm). length (pr_regs pr) = 16)"

definition unused_slots :: "proc_mgr \<Rightarrow> nat set" where
  "unused_slots pm = {pid. pid < PROC_MAX_COUNT \<and> pr_state (process_table pm ! pid) = PROC_UNUSED}"

text \<open>
  Stack discipline: a slot in use has a kernel stack that is a sector the allocator has given
  away, and no two slots in use share one. (A process created when memory was exhausted has the
  null stack; the predicate leaves those out.)
\<close>

definition proc_stacks_ok :: "proc_mgr \<Rightarrow> pmm \<Rightarrow> bool" where
  "proc_stacks_ok pm p \<longleftrightarrow>
     (\<forall>i < PROC_MAX_COUNT. i \<notin> unused_slots pm \<longrightarrow>
        (\<exists>k < PMM_SECTORS. k \<notin> pmm_free p \<and> pr_kernel_stack_top (process_table pm ! i) = sector_addr p k))
     \<and> (\<forall>i < PROC_MAX_COUNT. \<forall>j < PROC_MAX_COUNT. i \<noteq> j \<longrightarrow> i \<notin> unused_slots pm \<longrightarrow> j \<notin> unused_slots pm \<longrightarrow>
        pr_kernel_stack_top (process_table pm ! i) \<noteq> pr_kernel_stack_top (process_table pm ! j))"

section \<open>Lemmas\<close>

lemma proc_static_shape [simp]: "proc_shape proc_static"
  by (simp add: proc_shape_def proc_static_def proc_zero_def)

lemma proc_static_unused [simp]: "unused_slots proc_static = {..<PROC_MAX_COUNT}"
  by (auto simp: unused_slots_def proc_static_def proc_zero_def)

lemma clear_regs_ok: "length rs = 16 \<Longrightarrow> clear_regs rs = Inr (replicate 16 0)"
proof -
  assume len: "length rs = 16"
  have "concat (map (\<lambda>k. [4 * k, 4 * k + 1, 4 * k + 2, 4 * k + 3]) [0..<4]) = [0..<16 :: nat]"
    by (simp add: upt_rec)
  with len rfold_fill[of 16 rs 0] show ?thesis by (simp add: clear_regs_def)
qed

lemma proc_search_full:
  "\<forall>pid \<in> set pids. pid < length (process_table pm) \<and> pr_state (process_table pm ! pid) \<noteq> 0 \<Longrightarrow>
    proc_search pids pm p = Inr (None, pm, p)"
  by (induction pids) simp_all

lemma proc_search_hit:
  assumes "\<forall>i \<in> set xs. i < length (process_table pm) \<and> pr_state (process_table pm ! i) \<noteq> 0"
    "pid < length (process_table pm)" "pr_state (process_table pm ! pid) = 0"
    "mem_phys_alloc p = Inr (stack, q)"
  shows "proc_search (xs @ pid # ys) pm p = Inr (Some pid, \<lparr>process_table = (process_table pm)[pid :=
      (process_table pm ! pid)\<lparr>pr_state := 1, pr_kernel_stack_top := stack, pr_user_stack_top := 0x800000\<rparr>],
      current_process = Some pid\<rparr>, q)"
  using assms by (induction xs) simp_all

lemma proc_create_ok:
  assumes "proc_shape pm" "unused_slots pm \<noteq> {}" "mem_phys_alloc p = Inr (stack, q)"
  defines "pid \<equiv> Min (unused_slots pm)"
  shows "proc_create pm p = Inr (Some pid, \<lparr>process_table = (process_table pm)[pid :=
      (process_table pm ! pid)\<lparr>pr_state := 1, pr_kernel_stack_top := stack, pr_user_stack_top := 0x800000\<rparr>],
      current_process = Some pid\<rparr>, q)"
proof -
  have fin: "finite (unused_slots pm)" by (simp add: unused_slots_def)
  then have "pid \<in> unused_slots pm" using assms(2) by (simp add: pid_def)
  then have pid: "pid < 64" "pr_state (process_table pm ! pid) = 0" by (simp_all add: unused_slots_def)
  have "i \<notin> unused_slots pm" if "i < pid" for i
    using that Min_le[OF fin, of i] by (auto simp: pid_def)
  then have low: "pr_state (process_table pm ! i) \<noteq> 0" if "i < pid" for i
    using that pid(1) by (auto simp: unused_slots_def)
  have "[0..<64] = [0..<pid] @ pid # [Suc pid..<64]"
    using pid(1) upt_add_eq_append[of 0 pid "64 - pid"] by (simp add: upt_conv_Cons)
  then show ?thesis
    using proc_search_hit[of "[0..<pid]" pm pid p stack q "[Suc pid..<64]"] low pid assms(1,3)
    by (simp add: proc_create_def proc_shape_def)
qed

lemma proc_create_none:
  assumes "proc_shape pm" "unused_slots pm = {}"
  shows "proc_create pm p = Inr (None, pm, p)"
  unfolding proc_create_def
  by (rule proc_search_full) (use assms in \<open>auto simp: proc_shape_def unused_slots_def\<close>)

text \<open>Initialisation frees every slot but leaves the user stack field, and the current process,
  as they were.\<close>

lemma proc_mgr_init_ok:
  assumes "proc_shape pm"
  shows "\<exists>t. proc_mgr_init pm = Inr (pm\<lparr>process_table := t\<rparr>) \<and> length t = 64
    \<and> (\<forall>i < 64. t ! i = \<lparr>pr_id = of_nat i, pr_state = 0, pr_kernel_stack_top = 0,
        pr_user_stack_top = pr_user_stack_top (process_table pm ! i), pr_regs = replicate 16 0\<rparr>)"
proof -
  let ?new = "\<lambda>i. \<lparr>pr_id = of_nat i, pr_state = 0, pr_kernel_stack_top = 0,
    pr_user_stack_top = pr_user_stack_top (process_table pm ! i), pr_regs = replicate 16 0\<rparr>"
  let ?I = "\<lambda>n t. length t = 64 \<and> (\<forall>i < 64. t ! i = (if i < n then ?new i else process_table pm ! i))"
  have "\<exists>t. rfold proc_reset (process_table pm) [0..<64] = Inr t \<and> ?I 64 t"
  proof (rule rfold_nat_induct[where I = ?I])
    show "?I 0 (process_table pm)" using assms by (simp add: proc_shape_def)
  next
    fix i t assume i: "i < 64" and t: "?I i t"
    then have "t ! i = process_table pm ! i" "i < length t" by simp_all
    moreover have "length (pr_regs (process_table pm ! i)) = 16"
      using assms i by (simp add: proc_shape_def)
    ultimately have "proc_reset t i = Inr (t[i := ?new i])"
      by (cases "process_table pm ! i") (simp add: proc_reset_def clear_regs_ok)
    then show "\<exists>u. proc_reset t i = Inr u \<and> ?I (Suc i) u"
      using i t by (auto simp: nth_list_update less_Suc_eq)
  qed
  then show ?thesis by (auto simp: proc_mgr_init_def)
qed

lemma proc_stacks_create:
  assumes ok: "proc_shape pm" "proc_stacks_ok pm p" and pid: "pid < 64"
    and k: "k \<in> pmm_free p" "pmm_free q = pmm_free p - {k}" "mem_phys_start q = mem_phys_start p" "pmm_ok p"
  defines "t \<equiv> (process_table pm)[pid := (process_table pm ! pid)\<lparr>pr_state := 1,
      pr_kernel_stack_top := sector_addr p k, pr_user_stack_top := 0x800000\<rparr>]"
  shows "proc_stacks_ok \<lparr>process_table = t, current_process = c\<rparr> q"
    "unused_slots \<lparr>process_table = t, current_process = c\<rparr> = unused_slots pm - {pid}"
proof -
  let ?pm = "\<lparr>process_table = t, current_process = c\<rparr>"
  let ?stack = "\<lambda>i. pr_kernel_stack_top (process_table pm ! i)"
  have len: "length (process_table pm) = 64" using ok(1) by (simp add: proc_shape_def)
  then show unused: "unused_slots ?pm = unused_slots pm - {pid}"
    using pid by (auto simp: unused_slots_def t_def nth_list_update)
  have addr: "sector_addr q = sector_addr p" by (rule sector_addr_cong[OF k(3)])
  have k64: "k < 65536" using k(1,4) pmm_free_bound by blast
  have new: "pr_kernel_stack_top (t ! i) = (if i = pid then sector_addr p k else ?stack i)" if "i < 64" for i
    using that len pid by (simp add: t_def nth_list_update)
  have fresh: "?stack i \<noteq> sector_addr p k" if used: "i < 64" "i \<notin> unused_slots pm" for i
  proof -
    obtain j where j: "j < 65536" "j \<notin> pmm_free p" "?stack i = sector_addr p j"
      using ok(2) used unfolding proc_stacks_ok_def by blast
    then have "j \<noteq> k" using k(1) by blast
    then show ?thesis using inj_onD[OF sector_addr_inj, of p j k] j k64 by auto
  qed
  show "proc_stacks_ok ?pm q"
    unfolding proc_stacks_ok_def
  proof (intro conjI allI impI)
    fix i :: nat assume i: "i < 64" "i \<notin> unused_slots ?pm"
    show "\<exists>k < 65536. k \<notin> pmm_free q \<and> pr_kernel_stack_top (process_table ?pm ! i) = sector_addr q k"
    proof (cases "i = pid")
      case True
      with new[OF i(1)] k64 k(2) addr show ?thesis by auto
    next
      case False
      with i unused have "i \<notin> unused_slots pm" by blast
      with ok(2) i(1) obtain j where "j < 65536" "j \<notin> pmm_free p" "?stack i = sector_addr p j"
        unfolding proc_stacks_ok_def by blast
      with new[OF i(1)] False k(2) addr show ?thesis by auto
    qed
  next
    fix i j :: nat
    assume i: "i < 64" "i \<notin> unused_slots ?pm" and j: "j < 64" "j \<notin> unused_slots ?pm" and ne: "i \<noteq> j"
    have used: "x \<notin> unused_slots pm" if "x \<noteq> pid" "x \<notin> unused_slots ?pm" for x
      using that unused by blast
    have "?stack i \<noteq> ?stack j" if "i \<noteq> pid" "j \<noteq> pid"
      using ok(2) used that i j ne unfolding proc_stacks_ok_def by blast
    moreover have "i \<noteq> pid \<Longrightarrow> ?stack i \<noteq> sector_addr p k" "j \<noteq> pid \<Longrightarrow> ?stack j \<noteq> sector_addr p k"
      using fresh[OF i(1)] fresh[OF j(1)] used i(2) j(2) by blast+
    ultimately
    show "pr_kernel_stack_top (process_table ?pm ! i) \<noteq> pr_kernel_stack_top (process_table ?pm ! j)"
      using new[OF i(1)] new[OF j(1)] ne by (cases "i = pid"; cases "j = pid") simp_all
  qed
qed

lemma proc_static_stacks [simp]: "proc_stacks_ok proc_static p"
  by (simp add: proc_stacks_ok_def)

section \<open>Properties\<close>

text \<open>C31: processes get their own kernel stacks. While a slot and a sector are free, \<open>proc_create\<close>
  takes the least unused slot, makes it the current process and gives it the least free sector,
  which the allocator then no longer owns; afterwards, as before, all slots in use have pairwise
  different stacks, none of them free. With no unused slot it returns null and changes nothing.\<close>

theorem proc_create_stacks:
  assumes "proc_shape pm" "proc_stacks_ok pm p" "pmm_ok p" "pmm_free p \<noteq> {}"
  shows "if unused_slots pm = {} then proc_create pm p = Inr (None, pm, p)
    else \<exists>pm' q. let pid = Min (unused_slots pm) in
      proc_create pm p = Inr (Some pid, pm', q) \<and> proc_current pm' = Some pid
      \<and> pr_kernel_stack_top (process_table pm' ! pid) = sector_addr p (Min (pmm_free p))
      \<and> pmm_free q = pmm_free p - {Min (pmm_free p)}
      \<and> unused_slots pm' = unused_slots pm - {pid} \<and> proc_stacks_ok pm' q"
proof (cases "unused_slots pm = {}")
  case True
  with proc_create_none[OF assms(1)] show ?thesis by simp
next
  case False
  let ?k = "Min (pmm_free p)" and ?pid = "Min (unused_slots pm)"
  obtain q where q: "mem_phys_alloc p = Inr (sector_addr p ?k, q)" "pmm_free q = pmm_free p - {?k}"
    "mem_phys_start q = mem_phys_start p"
    using mem_phys_alloc_nonempty[OF assms(3,4)] by blast
  have "finite (unused_slots pm)" by (simp add: unused_slots_def)
  then have "?pid \<in> unused_slots pm" using False by simp
  then have pid: "?pid < 64" "?pid < length (process_table pm)"
    using assms(1) by (simp_all add: unused_slots_def proc_shape_def)
  have k: "?k \<in> pmm_free p" using assms(4) by simp
  note created = proc_create_ok[OF assms(1) False q(1)]
  note stacks = proc_stacks_create[OF assms(1,2) pid(1) k q(2,3) assms(3), of "Some ?pid"]
  show ?thesis
    using False created stacks q(2) pid(2) by (simp add: Let_def proc_current_def)
qed

theorem proc_create_stacks_witness:
  "\<exists>pm q. proc_create proc_static (pmm_fresh 0x100000 1024) = Inr (Some 0, pm, q)
    \<and> pr_kernel_stack_top (process_table pm ! 0) = 0x100000 \<and> proc_stacks_ok pm q"
proof -
  have "Min {..<64 :: nat} = 0" by (intro Min_eqI) auto
  moreover have "{..<64 :: nat} \<noteq> {}" by (simp add: lessThan_empty_iff del: lessThan_eq_iff)
  ultimately show ?thesis
    using proc_create_stacks[OF proc_static_shape proc_static_stacks pmm_fresh_ok pmm_fresh_nonempty,
        of "0x100000" 1024]
    by (auto simp: Let_def sector_addr_def)
qed

text \<open>The kernel stack is the wrong way round. The field called \<open>kernel_stack_top\<close> holds the
  lowest address of the sector that was allocated for the stack, and the CPU pushes downwards:
  none of the 8192 bytes below the stack pointer belongs to that sector; they belong to the sector
  before it, which the allocator has given to someone else.\<close>

theorem kernel_stack_misses_sector:
  assumes "proc_shape pm" "unused_slots pm \<noteq> {}" "pmm_ok p" "pmm_free p \<noteq> {}"
  shows "\<exists>pid pm' q. proc_create pm p = Inr (Some pid, pm', q)
    \<and> (let top = pr_kernel_stack_top (process_table pm' ! pid); k = Min (pmm_free p) in
      (\<forall>i \<in> {1..8192}. \<not> in_range (sector_addr p k) 8192 (top - of_nat i))
      \<and> (0 < k \<longrightarrow> k - 1 \<notin> pmm_free p
          \<and> (\<forall>i \<in> {1..8192}. in_range (sector_addr p (k - 1)) 8192 (top - of_nat i))))"
proof -
  let ?k = "Min (pmm_free p)" and ?pid = "Min (unused_slots pm)"
  obtain q where q: "mem_phys_alloc p = Inr (sector_addr p ?k, q)"
    using mem_phys_alloc_nonempty[OF assms(3,4)] by blast
  have "finite (unused_slots pm)" by (simp add: unused_slots_def)
  then have "?pid \<in> unused_slots pm" using assms(2) by simp
  then have pid: "?pid < length (process_table pm)"
    using assms(1) by (simp add: unused_slots_def proc_shape_def)
  have miss: "\<not> in_range a 8192 (a - of_nat i)" if "i \<in> {1..8192}" for i :: nat and a :: u32
  proof -
    have i: "unat (of_nat i :: u32) = i" using that by (intro unat_of_nat_exact) simp
    then have "(of_nat i :: u32) \<noteq> 0" using that by auto
    then have "unat (- of_nat i :: u32) = 4294967296 - i" using unat_uminus32 i by simp
    moreover have "\<not> 4294967296 - i < 8192" using that by simp linarith
    ultimately show ?thesis by (simp add: in_range_def)
  qed
  have below: "in_range (sector_addr p (?k - 1)) 8192 (sector_addr p ?k - of_nat i)"
    if "0 < ?k" "i \<in> {1..8192}" for i
  proof -
    have "sector_addr p ?k = sector_addr p (?k - 1) + 8192"
      using that(1) by (simp add: sector_addr_def of_nat_diff algebra_simps)
    moreover have "(of_nat (8192 - i) :: u32) = 8192 - of_nat i" using that(2) by (simp add: of_nat_diff)
    ultimately have eq: "sector_addr p ?k - of_nat i = sector_addr p (?k - 1) + of_nat (8192 - i)"
      by (simp only: add_diff_eq)
    show ?thesis unfolding eq using that(2) by (intro in_range_offset) auto
  qed
  have "?k - 1 \<notin> pmm_free p" if "0 < ?k"
  proof
    assume "?k - 1 \<in> pmm_free p"
    from Min_le[OF finite_pmm_free this] that show False by linarith
  qed
  with proc_create_ok[OF assms(1,2) q] pid miss below show ?thesis by (simp add: Let_def)
qed

theorem kernel_stack_misses_sector_witness:
  "\<exists>pid pm q. proc_create proc_static (pmm_fresh 0x100000 1024) = Inr (Some pid, pm, q)
    \<and> \<not> in_range 0x100000 8192 (pr_kernel_stack_top (process_table pm ! pid) - 4)"
proof -
  have "unused_slots proc_static \<noteq> {}" by (simp add: lessThan_empty_iff del: lessThan_eq_iff)
  from kernel_stack_misses_sector[OF proc_static_shape this pmm_fresh_ok pmm_fresh_nonempty,
      of "0x100000" 1024]
  obtain pid pm q where "proc_create proc_static (pmm_fresh 0x100000 1024) = Inr (Some pid, pm, q)"
    "\<forall>i \<in> {1..8192}. \<not> in_range (sector_addr (pmm_fresh 0x100000 1024) 0) 8192
      (pr_kernel_stack_top (process_table pm ! pid) - of_nat i)"
    by (auto simp: Let_def)
  moreover from this(2)[rule_format, of 4] have
    "\<not> in_range 0x100000 8192 (pr_kernel_stack_top (process_table pm ! pid) - 4)"
    by (simp add: sector_addr_def)
  ultimately show ?thesis by blast
qed

end
