(* ===== verification/Kernel_State.thy ===== *)
theory Kernel_State
  imports Shell Idt Ext2 Processes
begin

text \<open>
  The state the kernel's parts share: the byte memory, the global pointer \<open>g_kernel_shell\<close> (null, or
  the one shell of \<open>kernel_entry\<close>), the allocator, the descriptor tables, the process table, the
  mounted file system, and the trace of port accesses. The operations of shell.c that the other
  parts reach through the global pointer are lifted to this state here; through a null pointer they
  fault.
\<close>

text \<open>Port accesses, in the order they happen.\<close>

datatype io = In u16 u8 | Out u16 u8

record kernel =
  k_memory :: memory
  k_shell :: "shell option"
  k_pmm :: pmm
  k_gdt :: gdt
  k_idt :: idt
  k_procs :: proc_mgr
  k_fs :: ext2_fs
  k_io :: "io list"

definition with_shell :: "(shell \<Rightarrow> shell res) \<Rightarrow> kernel \<Rightarrow> kernel res" where
  "with_shell f k = (case k_shell k of
     None \<Rightarrow> Inl Null_Pointer
   | Some sh \<Rightarrow> rbind (f sh) (\<lambda>t. Inr (k\<lparr>k_shell := Some t\<rparr>)))"

definition k_puts :: "char list \<Rightarrow> kernel \<Rightarrow> kernel res" where
  "k_puts str = with_shell (\<lambda>sh. sh_puts sh str)"

definition k_printf :: "char list \<Rightarrow> va_arg list \<Rightarrow> kernel \<Rightarrow> kernel res" where
  "k_printf fmt args = with_shell (\<lambda>sh. sh_printf sh fmt args)"

text \<open>\<open>outb\<close>, and \<open>inb\<close> from a device that answers \<open>v\<close>.\<close>

definition outb :: "u16 \<Rightarrow> u8 \<Rightarrow> kernel \<Rightarrow> kernel" where
  "outb port v k = k\<lparr>k_io := k_io k @ [Out port v]\<rparr>"

definition inb :: "(u16 \<Rightarrow> u8) \<Rightarrow> u16 \<Rightarrow> kernel \<Rightarrow> u8 \<times> kernel" where
  "inb dev port k = (dev port, k\<lparr>k_io := k_io k @ [In port (dev port)]\<rparr>)"

text \<open>A C string constant with its line ending.\<close>

definition line :: "char list \<Rightarrow> char list" where
  "line s = s @ [CR, LF]"

section \<open>Invariant\<close>

text \<open>A null shell pointer, or a well-formed shell; a full-size bitmap, table shapes.\<close>

definition shell_ok :: "kernel \<Rightarrow> bool" where
  "shell_ok k \<longleftrightarrow> (case k_shell k of None \<Rightarrow> True | Some sh \<Rightarrow> sh_ok sh)"

lemma shell_ok_updates [simp]:
  "shell_ok (k\<lparr>k_memory := m\<rparr>) = shell_ok k" "shell_ok (k\<lparr>k_pmm := p\<rparr>) = shell_ok k"
  "shell_ok (k\<lparr>k_gdt := g\<rparr>) = shell_ok k" "shell_ok (k\<lparr>k_idt := i\<rparr>) = shell_ok k"
  "shell_ok (k\<lparr>k_procs := pm\<rparr>) = shell_ok k" "shell_ok (k\<lparr>k_fs := fs\<rparr>) = shell_ok k"
  "shell_ok (k\<lparr>k_io := tr\<rparr>) = shell_ok k" "shell_ok (k\<lparr>k_shell := Some sh\<rparr>) = sh_ok sh"
  by (simp_all add: shell_ok_def)

lemma shell_ok_outb [simp]: "shell_ok (outb port v k) = shell_ok k"
  by (simp add: outb_def)

lemma outb_sel [simp]:
  "k_shell (outb port v k) = k_shell k" "k_memory (outb port v k) = k_memory k"
  "k_io (outb port v k) = k_io k @ [Out port v]" "k_pmm (outb port v k) = k_pmm k"
  "k_gdt (outb port v k) = k_gdt k" "k_idt (outb port v k) = k_idt k"
  "k_procs (outb port v k) = k_procs k" "k_fs (outb port v k) = k_fs k"
  by (simp_all add: outb_def)

text \<open>Rendering leaves the standard input alone.\<close>

lemma drained_stdin: "idx \<noteq> 0 \<Longrightarrow> sh_streams (drained idx sh) ! 0 = sh_streams sh ! 0"
  by (simp add: drained_def Let_def)

lemma render_stdin:
  assumes "sh_ok sh" "sh_render sh = Inr t"
  shows "sh_streams t ! 0 = sh_streams sh ! 0"
proof -
  have "t = (drained 2 ((drained 1 sh)\<lparr>sh_color := 0x04\<rparr>))\<lparr>sh_color := sh_color (drained 1 sh)\<rparr>"
    using sh_render_ok(1)[OF assms(1)] assms(2) by simp
  then show ?thesis by (simp add: drained_stdin)
qed

text \<open>A write appends to the standard input what fits, if it is for the standard input, and leaves it
  alone otherwise.\<close>

lemma write_stream_input:
  assumes "sh_ok sh"
  shows "\<exists>t w. sh_write_stream sh idx buf len = Inr (t, w) \<and> sh_ok t
    \<and> (if idx = 0 then \<exists>n. stream_write (sh_streams sh ! 0) buf len = Inr (sh_streams t ! 0, n)
       else sh_streams t ! 0 = sh_streams sh ! 0)"
proof (cases "idx < 0 \<or> 3 \<le> idx")
  case True
  with assms sh_write_stream_invalid[OF True] show ?thesis by auto
next
  case False
  then have idx: "0 \<le> idx" "idx < 3" by simp_all
  let ?s = "sh_streams sh ! nat idx"
  have i: "nat idx < 3" "nat idx < length (sh_streams sh)" "0 < length (sh_streams sh)"
    using idx assms by (simp_all add: sh_ok_iff)
  from sh_write_stream_valid[OF assms idx, of buf len] obtain u t n where
    w: "stream_write ?s buf len = Inr (u, n)" "stream_ok u"
      "sh_render (sh\<lparr>sh_color := 0x07, sh_streams := (sh_streams sh)[nat idx := u]\<rparr>) = Inr t" "sh_ok t"
      "sh_write_stream sh idx buf len = Inr (t, n)" by blast
  have "sh_ok (sh\<lparr>sh_color := 0x07, sh_streams := (sh_streams sh)[nat idx := u]\<rparr>)"
    using sh_ok_set_stream[of "sh\<lparr>sh_color := 0x07\<rparr>" u "nat idx"] assms w(2) by simp
  from render_stdin[OF this w(3)] have "sh_streams t ! 0 = (if idx = 0 then u else sh_streams sh ! 0)"
    using i idx by (auto simp: nth_list_update)
  with w(1,4,5) show ?thesis by auto
qed

lemma write_stream_stdin:
  assumes "sh_ok sh"
  shows "\<exists>t w. sh_write_stream sh idx buf len = Inr (t, w) \<and> sh_ok t
    \<and> stream_contents (sh_streams t ! 0) = stream_contents (sh_streams sh ! 0)
      @ (if idx = 0 then map buf [0..<nat (min len (1024 - st_count (sh_streams sh ! 0)))] else [])"
proof -
  have "stream_ok (sh_streams sh ! 0)" using sh_ok_stream[OF assms, of 0] by simp
  with write_stream_input[OF assms, of idx buf len] stream_write_ok[of "sh_streams sh ! 0" buf len] show ?thesis
    by (auto split: if_splits)
qed

text \<open>Every character printed keeps the console well-formed and the standard input as it is: a second
  instance of the character sink.\<close>

lemma sh_putc_stdin:
  assumes "sh_ok sh"
  shows "\<exists>t. sh_putc sh c = Inr t \<and> sh_ok t \<and> sh_streams t ! 0 = sh_streams sh ! 0"
proof -
  from sh_write_stream_valid[OF assms, of 1 "nth [c]" 1] obtain s t where
    t: "stream_ok s" "sh_render (sh\<lparr>sh_color := 0x07, sh_streams := (sh_streams sh)[1 := s]\<rparr>) = Inr t" "sh_ok t"
      "sh_putc sh c = Inr t"
    by (auto simp: sh_putc_def sh_write_stdout_def)
  have "sh_ok (sh\<lparr>sh_color := 0x07, sh_streams := (sh_streams sh)[1 := s]\<rparr>)"
    using sh_ok_set_stream[of "sh\<lparr>sh_color := 0x07\<rparr>" s 1] assms t(1) by simp
  from render_stdin[OF this t(2)] t(3,4) show ?thesis by simp
qed

interpretation input_kept: char_sink "\<lambda>sh. sh_ok sh \<and> sh_streams sh ! 0 = s0" sh_putc for s0
  using sh_putc_stdin by unfold_locales fastforce

text \<open>
  What printing does to the shared state: with a well-formed shell behind the pointer it returns,
  the shell stays well-formed, its standard input stays, and nothing else changes.
\<close>

definition prints :: "kernel \<Rightarrow> kernel res \<Rightarrow> bool" where
  "prints k r \<longleftrightarrow> (\<exists>sh0 sh. k_shell k = Some sh0 \<and> sh_ok sh \<and> sh_streams sh ! 0 = sh_streams sh0 ! 0
     \<and> r = Inr (k\<lparr>k_shell := Some sh\<rparr>))"

lemma printsE:
  assumes "prints k r"
  obtains sh where "sh_ok sh" "r = Inr (k\<lparr>k_shell := Some sh\<rparr>)"
  using assms by (auto simp: prints_def)

text \<open>The characters waiting on the standard input.\<close>

definition stdin_text :: "kernel \<Rightarrow> char list" where
  "stdin_text k = (case k_shell k of None \<Rightarrow> [] | Some sh \<Rightarrow> stream_contents (sh_streams sh ! STREAM_STDIN))"

lemma stdin_text_some [simp]: "stdin_text (k\<lparr>k_shell := Some sh\<rparr>) = stream_contents (sh_streams sh ! 0)"
  "stdin_text (k\<lparr>k_shell := Some sh, k_memory := m\<rparr>) = stream_contents (sh_streams sh ! 0)"
  "stdin_text (k\<lparr>k_memory := m\<rparr>) = stdin_text k" "stdin_text (k\<lparr>k_pmm := p\<rparr>) = stdin_text k"
  "stdin_text (k\<lparr>k_procs := pm\<rparr>) = stdin_text k" "stdin_text (k\<lparr>k_fs := fs\<rparr>) = stdin_text k"
  "stdin_text (k\<lparr>k_idt := i\<rparr>) = stdin_text k" "stdin_text (k\<lparr>k_gdt := g\<rparr>) = stdin_text k"
  "stdin_text (k\<lparr>k_io := tr\<rparr>) = stdin_text k"
  by (simp_all add: stdin_text_def)

lemma stdin_text_eq: "k_shell k = Some sh \<Longrightarrow> stdin_text k = stream_contents (sh_streams sh ! 0)"
  by (simp add: stdin_text_def)

lemma prints_stdin: "prints k (Inr k') \<Longrightarrow> stdin_text k' = stdin_text k"
  by (auto simp: prints_def stdin_text_eq)

lemma sh_puts_safe: "sh_ok sh \<Longrightarrow> \<exists>t. sh_puts sh str = Inr t \<and> sh_ok t \<and> sh_streams t ! 0 = sh_streams sh ! 0"
  unfolding sh_puts_def using input_kept.puts_ok[of sh "sh_streams sh ! 0"] by auto

lemma sh_printf_safe:
  "sh_ok sh \<Longrightarrow> fmt_text fmt args = Inr cs \<Longrightarrow>
    \<exists>t. sh_printf sh fmt args = Inr t \<and> sh_ok t \<and> sh_streams t ! 0 = sh_streams sh ! 0"
  using input_kept.puts_ok[of sh "sh_streams sh ! 0" cs] by (auto simp: sh_printf_text)

lemma k_puts_prints: "k_shell k = Some sh \<Longrightarrow> sh_ok sh \<Longrightarrow> prints k (k_puts str k)"
  using sh_puts_safe[of sh str] by (auto simp: k_puts_def with_shell_def prints_def)

lemma k_printf_prints:
  "k_shell k = Some sh \<Longrightarrow> sh_ok sh \<Longrightarrow> fmt_text fmt args = Inr cs \<Longrightarrow> prints k (k_printf fmt args k)"
  using sh_printf_safe[of sh fmt args cs] by (auto simp: k_printf_def with_shell_def prints_def)

text \<open>The standard input with all of its state.\<close>

definition stdin_of :: "kernel \<Rightarrow> stream" where
  "stdin_of k = (case k_shell k of None \<Rightarrow> stream_empty [] | Some sh \<Rightarrow> sh_streams sh ! STREAM_STDIN)"

lemma stdin_of_updates [simp]:
  "stdin_of (k\<lparr>k_shell := Some sh\<rparr>) = sh_streams sh ! 0" "stdin_of (k\<lparr>k_memory := m\<rparr>) = stdin_of k"
  "stdin_of (k\<lparr>k_pmm := p\<rparr>) = stdin_of k" "stdin_of (k\<lparr>k_procs := pm\<rparr>) = stdin_of k"
  "stdin_of (k\<lparr>k_fs := fs\<rparr>) = stdin_of k" "stdin_of (k\<lparr>k_idt := i\<rparr>) = stdin_of k"
  "stdin_of (k\<lparr>k_gdt := g\<rparr>) = stdin_of k" "stdin_of (k\<lparr>k_io := tr\<rparr>) = stdin_of k"
  by (simp_all add: stdin_of_def)

lemma stdin_of_eq: "k_shell k = Some sh \<Longrightarrow> stdin_of k = sh_streams sh ! 0"
  by (simp add: stdin_of_def)

lemma stdin_text_of: "k_shell k = Some sh \<Longrightarrow> stdin_text k = stream_contents (stdin_of k)"
  by (simp add: stdin_text_def stdin_of_def)

lemma prints_stdin_of: "prints k (Inr k') \<Longrightarrow> stdin_of k' = stdin_of k"
  by (auto simp: prints_def stdin_of_eq)

section \<open>Console text\<close>

text \<open>
  A live console behind the pointer, and the refinement of printing: from \<open>k\<close> to \<open>k'\<close> nothing
  but the console moves, and it moves by exactly the text \<open>cs\<close>.
\<close>

definition console_live :: "kernel \<Rightarrow> bool" where
  "console_live k \<longleftrightarrow> (\<exists>sh. k_shell k = Some sh \<and> con_ok sh)"

definition says :: "kernel \<Rightarrow> char list \<Rightarrow> kernel \<Rightarrow> bool" where
  "says k cs k' \<longleftrightarrow> (\<exists>sh t. k_shell k = Some sh \<and> con_ok sh \<and> k' = k\<lparr>k_shell := Some t\<rparr> \<and> con_ok t
     \<and> con_of t = fold con_step cs (con_of sh))"

lemma says_live: "says k cs k' \<Longrightarrow> console_live k \<and> console_live k'"
  by (auto simp: says_def console_live_def)

lemma says_nil: "console_live k \<Longrightarrow> says k [] k"
proof -
  assume "console_live k"
  then obtain sh where sh: "k_shell k = Some sh" "con_ok sh" by (auto simp: console_live_def)
  moreover from sh(1) have "k = k\<lparr>k_shell := Some sh\<rparr>" by (cases k) simp
  ultimately show "says k [] k" unfolding says_def by (intro exI[of _ sh] conjI) simp_all
qed

lemma says_trans: "says k cs k' \<Longrightarrow> says k' ds k'' \<Longrightarrow> says k (cs @ ds) k''"
  by (auto simp: says_def)

lemma says_frame:
  assumes "says k cs k'"
  shows "k_memory k' = k_memory k" "k_pmm k' = k_pmm k" "k_gdt k' = k_gdt k" "k_idt k' = k_idt k"
    "k_procs k' = k_procs k" "k_fs k' = k_fs k" "k_io k' = k_io k" "k_shell k \<noteq> None" "k_shell k' \<noteq> None"
  using assms by (auto simp: says_def)

lemma k_puts_says:
  assumes "console_live k"
  shows "\<exists>k'. k_puts str k = Inr k' \<and> says k (cstr str) k'"
proof -
  obtain sh where sh: "k_shell k = Some sh" "con_ok sh" using assms by (auto simp: console_live_def)
  from console.puts_view[OF sh(2), of "cstr str"] sh show ?thesis
    by (auto simp: k_puts_def with_shell_def says_def sh_puts_def)
qed

lemma k_printf_says:
  assumes "console_live k" "fmt_text fmt args = Inr cs"
  shows "\<exists>k'. k_printf fmt args k = Inr k' \<and> says k cs k'"
proof -
  obtain sh where sh: "k_shell k = Some sh" "con_ok sh" using assms by (auto simp: console_live_def)
  from console.puts_view[OF sh(2), of cs] sh sh_printf_text[OF assms(2)] show ?thesis
    by (auto simp: k_printf_def with_shell_def says_def)
qed

text \<open>The error stream of a live console is empty, and printing leaves it as it is: a third instance of
  the character sink.\<close>

definition stderr_of :: "kernel \<Rightarrow> stream" where
  "stderr_of k = (case k_shell k of None \<Rightarrow> stream_empty [] | Some sh \<Rightarrow> sh_streams sh ! STREAM_STDERR)"

lemma stderr_of_updates [simp]:
  "stderr_of (k\<lparr>k_shell := Some sh\<rparr>) = sh_streams sh ! 2" "stderr_of (k\<lparr>k_memory := m\<rparr>) = stderr_of k"
  "stderr_of (k\<lparr>k_pmm := p\<rparr>) = stderr_of k" "stderr_of (k\<lparr>k_procs := pm\<rparr>) = stderr_of k"
  "stderr_of (k\<lparr>k_fs := fs\<rparr>) = stderr_of k" "stderr_of (k\<lparr>k_idt := i\<rparr>) = stderr_of k"
  "stderr_of (k\<lparr>k_gdt := g\<rparr>) = stderr_of k" "stderr_of (k\<lparr>k_io := tr\<rparr>) = stderr_of k"
  by (simp_all add: stderr_of_def)

lemma con_putc_ok: "con_ok sh \<Longrightarrow> \<exists>t. sh_putc sh c = Inr t \<and> con_ok t"
  using con_putc[of sh c] by blast

lemma con_putc_stderr:
  assumes "con_ok sh"
  shows "\<exists>t. sh_putc sh c = Inr t \<and> con_ok t \<and> sh_streams t ! STREAM_STDERR = sh_streams sh ! STREAM_STDERR"
proof -
  have ok: "sh_ok sh" "st_count (sh_streams sh ! 2) = 0" using assms by (simp_all add: con_ok_def)
  obtain s n where s: "stream_write (sh_streams sh ! 1) (nth [c]) 1 = Inr (s, n)" "stream_ok s"
    using stream_write_ok[OF sh_ok_stream[OF ok(1), of 1], of "nth [c]" 1] by auto
  from con_putc_ok[OF assms, of c] sh_putc_eq[OF ok s] show ?thesis by (auto simp: drained_def Let_def)
qed

interpretation stderr_kept: char_sink "\<lambda>sh. con_ok sh \<and> sh_streams sh ! STREAM_STDERR = s2" sh_putc for s2
  using con_putc_stderr by unfold_locales fastforce

lemma k_puts_stderr: "console_live k \<Longrightarrow> \<exists>k'. k_puts str k = Inr k' \<and> stderr_of k' = stderr_of k"
proof -
  assume "console_live k"
  then obtain sh where "k_shell k = Some sh" "con_ok sh" by (auto simp: console_live_def)
  with stderr_kept.puts_ok[of sh "sh_streams sh ! 2" "cstr str"] show ?thesis
    by (auto simp: k_puts_def with_shell_def sh_puts_def) (simp add: stderr_of_def)
qed

lemma k_printf_stderr:
  assumes "console_live k" "fmt_text fmt args = Inr cs"
  shows "\<exists>k'. k_printf fmt args k = Inr k' \<and> stderr_of k' = stderr_of k"
proof -
  obtain sh where "k_shell k = Some sh" "con_ok sh" using assms(1) by (auto simp: console_live_def)
  with stderr_kept.puts_ok[of sh "sh_streams sh ! 2" cs] sh_printf_text[OF assms(2)] show ?thesis
    by (auto simp: k_printf_def with_shell_def) (simp add: stderr_of_def)
qed

lemma cstr_line: "NUL \<notin> set s \<Longrightarrow> cstr (line s) = line s"
  by (auto simp: line_def cstr_def takeWhile_eq_all_conv)

text \<open>Changing the rest of the state keeps the console live.\<close>

lemma console_live_updates [simp]:
  "console_live (k\<lparr>k_memory := m\<rparr>) = console_live k" "console_live (k\<lparr>k_pmm := p\<rparr>) = console_live k"
  "console_live (k\<lparr>k_gdt := g\<rparr>) = console_live k" "console_live (k\<lparr>k_idt := i\<rparr>) = console_live k"
  "console_live (k\<lparr>k_procs := pm\<rparr>) = console_live k" "console_live (k\<lparr>k_fs := fs\<rparr>) = console_live k"
  "console_live (k\<lparr>k_io := tr\<rparr>) = console_live k"
  by (simp_all add: console_live_def)

end
