(* ===== verification/Syscalls.thy ===== *)
theory Syscalls
  imports Kernel_State
begin

text \<open>
  System calls (source/system/interrupts/syscalls.c, syscalls.h, and the frame of interrupts.h).
  \<open>handle_syscall\<close> reads the call number and three arguments from the registers that the interrupt
  stub saved, and leaves the result in the saved \<open>eax\<close>, which the stub restores.

  User memory is the byte memory of the model. The addresses of \<open>exit_to_kernel\<close> and of the boot
  kernel stack are parameters. \<open>exit_to_kernel\<close> prints once and then idles for ever; its printing
  is \<open>exit_to_kernel_prints\<close>.
\<close>

section \<open>The interrupt frame\<close>

text \<open>In memory order: what the stub pushed last comes first.\<close>

record frame =
  fr_gs :: u32
  fr_fs :: u32
  fr_es :: u32
  fr_ds :: u32
  fr_edi :: u32
  fr_esi :: u32
  fr_ebp :: u32
  fr_esp :: u32
  fr_ebx :: u32
  fr_edx :: u32
  fr_ecx :: u32
  fr_eax :: u32
  fr_int_no :: u32
  fr_err_code :: u32
  fr_eip :: u32
  fr_cs :: u32
  fr_eflags :: u32
  fr_useresp :: u32
  fr_ss :: u32

abbreviation (input) SYS_EXIT :: u32 where "SYS_EXIT \<equiv> 0x01"
abbreviation (input) SYS_READ :: u32 where "SYS_READ \<equiv> 0x03"
abbreviation (input) SYS_WRITE :: u32 where "SYS_WRITE \<equiv> 0x04"
abbreviation (input) SYS_GETPID :: u32 where "SYS_GETPID \<equiv> 0x14"

section \<open>Operations\<close>

definition exit_to_kernel_prints :: "kernel \<Rightarrow> kernel res" where
  "exit_to_kernel_prints k = (if k_shell k \<noteq> None then k_puts (line ''Idling...'') k else Inr k)"

text \<open>The bytes behind a user pointer, by index.\<close>

definition user_text :: "memory \<Rightarrow> u32 \<Rightarrow> nat \<Rightarrow> char" where
  "user_text m a i = to_char (m (a + of_nat i))"

definition user_range :: "u32 \<Rightarrow> bool" where
  "user_range a \<longleftrightarrow> 0x400000 \<le> a \<and> a < 0x900000"

definition from_user :: "frame \<Rightarrow> bool" where
  "from_user fr \<longleftrightarrow> fr_cs fr AND 0x3 = 3"

definition sys_write :: "frame \<Rightarrow> kernel \<Rightarrow> (frame \<times> kernel) res" where
  "sys_write fr k =
     (let arg0 = fr_ebx fr; arg1 = fr_ecx fr; arg2 = fr_edx fr in
      if k_shell k \<noteq> None \<and> arg1 \<noteq> 0 then
        if user_range arg1 then
          rbind (with_shell (\<lambda>sh. rbind
              (sh_write_stream sh (to_int arg0) (user_text (k_memory k) arg1) (to_int arg2))
              (\<lambda>(t, _). Inr t)) k)
            (\<lambda>k. Inr (fr\<lparr>fr_eax := arg2\<rparr>, k))
        else rbind (k_printf (line ''Invalid string pointer: 0x%x'') [VInt arg1] k) (\<lambda>k.
          Inr (fr\<lparr>fr_eax := - 1\<rparr>, k))
      else Inr (fr\<lparr>fr_eax := - 1\<rparr>, k))"

definition sys_exit :: "u32 \<Rightarrow> u32 \<Rightarrow> frame \<Rightarrow> kernel \<Rightarrow> (frame \<times> kernel) res" where
  "sys_exit exit_to_kernel kernel_stack_top fr k =
     rbind (if k_shell k \<noteq> None then k_printf (line ''Exited with code %d'') [VInt (fr_ebx fr)] k
            else Inr k) (\<lambda>k.
       Inr (fr\<lparr>fr_eax := 0, fr_cs := 0x08, fr_ss := 0x10, fr_eip := exit_to_kernel,
         fr_useresp := kernel_stack_top, fr_ds := 0x10, fr_es := 0x10, fr_fs := 0x10, fr_gs := 0x10\<rparr>, k))"

text \<open>\<open>stream_read\<close> on the standard input stores its bytes behind the user's pointer.\<close>

definition sys_read :: "frame \<Rightarrow> kernel \<Rightarrow> (frame \<times> kernel) res" where
  "sys_read fr k =
     (let arg1 = fr_ecx fr; count = fr_edx fr in
      case k_shell k of
        None \<Rightarrow> Inr (fr\<lparr>fr_eax := - 1\<rparr>, k)
      | Some sh \<Rightarrow>
          if arg1 = 0 then Inr (fr\<lparr>fr_eax := - 1\<rparr>, k)
          else if user_range arg1 then
            rbind (arr_get (sh_streams sh) STREAM_STDIN) (\<lambda>s.
            rbind (stream_read s (to_int count)) (\<lambda>(s', bytes).
              Inr (fr\<lparr>fr_eax := of_nat (length bytes)\<rparr>,
                k\<lparr>k_shell := Some (sh\<lparr>sh_streams := (sh_streams sh)[STREAM_STDIN := s']\<rparr>),
                  k_memory := write_bytes (k_memory k) arg1 (map to_byte bytes)\<rparr>)))
          else rbind (k_printf (line ''Invalid buffer pointer: 0x%x'') [VInt arg1] k) (\<lambda>k.
            Inr (fr\<lparr>fr_eax := - 1\<rparr>, k)))"

definition handle_syscall :: "u32 \<Rightarrow> u32 \<Rightarrow> frame \<Rightarrow> kernel \<Rightarrow> (frame \<times> kernel) res" where
  "handle_syscall exit_to_kernel kernel_stack_top fr k =
     (if \<not> from_user fr then
        rbind (k_puts (line ''System call from kernel mode - ignoring'') k) (\<lambda>k. Inr (fr, k))
      else if fr_eax fr = SYS_WRITE then sys_write fr k
      else if fr_eax fr = SYS_EXIT then sys_exit exit_to_kernel kernel_stack_top fr k
      else if fr_eax fr = SYS_GETPID then Inr (fr\<lparr>fr_eax := 1\<rparr>, k)
      else if fr_eax fr = SYS_READ then sys_read fr k
      else rbind (if k_shell k \<noteq> None then k_printf (line ''Unknown system call: %d'') [VInt (fr_eax fr)] k
                  else Inr k) (\<lambda>k. Inr (fr\<lparr>fr_eax := - 1\<rparr>, k)))"

section \<open>Lemmas\<close>

lemma fmt_texts:
  "fmt_text (line ''Invalid string pointer: 0x%x'') [VInt v] = Inr (''Invalid string pointer: 0x'' @ int_text v 16 @ [CR, LF])"
  "fmt_text (line ''Invalid buffer pointer: 0x%x'') [VInt v] = Inr (''Invalid buffer pointer: 0x'' @ int_text v 16 @ [CR, LF])"
  "fmt_text (line ''Exited with code %d'') [VInt v] = Inr (''Exited with code '' @ int_text v 10 @ [CR, LF])"
  "fmt_text (line ''Unknown system call: %d'') [VInt v] = Inr (''Unknown system call: '' @ int_text v 10 @ [CR, LF])"
  by (simp_all add: line_def)

text \<open>What a system call may change of the shared state: the shell, which stays well-formed, and
  user memory at the read buffer.\<close>

definition call_effect :: "frame \<Rightarrow> kernel \<Rightarrow> kernel \<Rightarrow> bool" where
  "call_effect fr k k' \<longleftrightarrow> (\<exists>sh m. sh_ok sh \<and> k' = k\<lparr>k_shell := Some sh, k_memory := m\<rparr>
     \<and> (\<forall>x. m x \<noteq> k_memory k x \<longrightarrow> from_user fr \<and> fr_eax fr = SYS_READ \<and> user_range (fr_ecx fr)
         \<and> in_range (fr_ecx fr) (nat (to_int (fr_edx fr))) x \<and> in_range (fr_ecx fr) 1024 x))"

lemma call_effect_refl:
  assumes "k_shell k = Some sh" "sh_ok sh"
  shows "call_effect fr k k"
proof -
  have "k = k\<lparr>k_shell := Some sh, k_memory := k_memory k\<rparr>" using assms(1) by simp
  with assms(2) show ?thesis unfolding call_effect_def by blast
qed

lemma call_effect_shell: "sh_ok sh \<Longrightarrow> call_effect fr k (k\<lparr>k_shell := Some sh\<rparr>)"
  unfolding call_effect_def by (intro exI[of _ sh] exI[of _ "k_memory k"]) simp

lemma call_effect_prints: "prints k (Inr k') \<Longrightarrow> call_effect fr k k'"
  by (auto elim!: printsE intro: call_effect_shell)

lemma sys_write_effect:
  assumes "k_shell k = Some sh" "sh_ok sh"
  shows "\<exists>fr' k'. sys_write fr k = Inr (fr', k') \<and> call_effect fr k k'
    \<and> (\<exists>v. fr' = fr\<lparr>fr_eax := v\<rparr>)"
proof -
  consider "fr_ecx fr = 0" | "fr_ecx fr \<noteq> 0" "user_range (fr_ecx fr)"
    | "fr_ecx fr \<noteq> 0" "\<not> user_range (fr_ecx fr)" by blast
  then show ?thesis
  proof cases
    case 1
    with call_effect_refl[OF assms] show ?thesis by (auto simp: sys_write_def)
  next
    case 2
    from sh_write_stream_ok[OF assms(2)] obtain t w where
      "sh_write_stream sh (to_int (fr_ebx fr)) (user_text (k_memory k) (fr_ecx fr)) (to_int (fr_edx fr))
        = Inr (t, w)" "sh_ok t" by blast
    with 2 assms(1) call_effect_shell[OF this(2), of fr k] show ?thesis
      by (auto simp: sys_write_def with_shell_def Let_def)
  next
    case 3
    from k_printf_prints[OF assms fmt_texts(1), of "fr_ecx fr"] obtain t where
      "sh_ok t" "k_printf (line ''Invalid string pointer: 0x%x'') [VInt (fr_ecx fr)] k
        = Inr (k\<lparr>k_shell := Some t\<rparr>)" by (rule printsE)
    with 3 assms(1) call_effect_shell[OF this(1), of fr k] show ?thesis
      by (auto simp: sys_write_def Let_def)
  qed
qed

text \<open>What a read delivers: a prefix of the standard input, no longer than asked for.\<close>

lemma sys_read_exact:
  assumes "k_shell k = Some sh" "sh_ok sh" "fr_ecx fr \<noteq> 0" "user_range (fr_ecx fr)"
  defines "s \<equiv> sh_streams sh ! STREAM_STDIN"
  defines "n \<equiv> min (nat (to_int (fr_edx fr))) (min (nat (st_count s)) (lf_limit s))"
  shows "sys_read fr k = Inr (fr\<lparr>fr_eax := of_nat n\<rparr>,
      k\<lparr>k_shell := Some (sh\<lparr>sh_streams := (sh_streams sh)[STREAM_STDIN := stream_pop s n]\<rparr>),
        k_memory := write_bytes (k_memory k) (fr_ecx fr) (map to_byte (take n (stream_contents s)))\<rparr>)"
    "stream_ok s" "n \<le> length (stream_contents s)"
proof -
  have len: "0 < length (sh_streams sh)" using assms(2) by (simp add: sh_ok_iff)
  show s: "stream_ok s" using sh_ok_stream[OF assms(2), of 0] by (simp add: s_def)
  show n: "n \<le> length (stream_contents s)" by (simp add: n_def)
  then show "sys_read fr k = Inr (fr\<lparr>fr_eax := of_nat n\<rparr>,
      k\<lparr>k_shell := Some (sh\<lparr>sh_streams := (sh_streams sh)[STREAM_STDIN := stream_pop s n]\<rparr>),
        k_memory := write_bytes (k_memory k) (fr_ecx fr) (map to_byte (take n (stream_contents s)))\<rparr>)"
    using assms(1,3,4) stream_read_ok(1)[OF s, of "to_int (fr_edx fr)", folded n_def] len
    by (simp add: sys_read_def s_def min_absorb2)
qed

lemma sys_read_delivers:
  assumes "k_shell k = Some sh" "sh_ok sh" "fr_ecx fr \<noteq> 0" "user_range (fr_ecx fr)"
  shows "\<exists>bytes t. sys_read fr k = Inr (fr\<lparr>fr_eax := of_nat (length bytes)\<rparr>,
      k\<lparr>k_shell := Some t, k_memory := write_bytes (k_memory k) (fr_ecx fr) (map to_byte bytes)\<rparr>)
    \<and> sh_ok t \<and> sh_screen t = sh_screen sh
    \<and> stream_contents (sh_streams sh ! STREAM_STDIN) = bytes @ stream_contents (sh_streams t ! STREAM_STDIN)
    \<and> int (length bytes) \<le> max 0 (to_int (fr_edx fr)) \<and> length bytes \<le> 1024"
proof -
  let ?s = "sh_streams sh ! STREAM_STDIN"
  define n where "n = min (nat (to_int (fr_edx fr))) (min (nat (st_count ?s)) (lf_limit ?s))"
  note rd = sys_read_exact[OF assms, folded n_def]
  have "int n \<le> st_count ?s" using rd(2) by (simp add: n_def stream_ok_def min_def) linarith
  note pop = stream_pop_ok[OF rd(2) this]
  have n: "n \<le> nat (to_int (fr_edx fr))" "n \<le> 1024" using rd(2) by (auto simp: n_def stream_ok_def)
  have len: "0 < length (sh_streams sh)" "length (take n (stream_contents ?s)) = n"
    using assms(2) rd(3) by (simp_all add: sh_ok_iff min_absorb2)
  show ?thesis
    using rd(1) pop(2) sh_ok_set_stream[OF assms(2) pop(1), of 0] n len
    by (intro exI[of _ "take n (stream_contents ?s)"] exI[of _ "sh\<lparr>sh_streams := (sh_streams sh)[0 := stream_pop ?s n]\<rparr>"])
      (simp add: sh_screen_def)
qed

lemma sys_read_effect:
  assumes "k_shell k = Some sh" "sh_ok sh" "from_user fr" "fr_eax fr = SYS_READ"
  shows "\<exists>fr' k'. sys_read fr k = Inr (fr', k') \<and> call_effect fr k k'
    \<and> (\<exists>v. fr' = fr\<lparr>fr_eax := v\<rparr>)"
proof -
  consider "fr_ecx fr = 0" | "fr_ecx fr \<noteq> 0" "user_range (fr_ecx fr)"
    | "fr_ecx fr \<noteq> 0" "\<not> user_range (fr_ecx fr)" by blast
  then show ?thesis
  proof cases
    case 1
    with call_effect_refl[OF assms(1,2)] assms(1) show ?thesis by (auto simp: sys_read_def)
  next
    case 2
    from sys_read_delivers[OF assms(1,2) 2] obtain bytes t where
      r: "sys_read fr k = Inr (fr\<lparr>fr_eax := of_nat (length bytes)\<rparr>, k\<lparr>k_shell := Some t,
        k_memory := write_bytes (k_memory k) (fr_ecx fr) (map to_byte bytes)\<rparr>)" "sh_ok t"
      "int (length bytes) \<le> max 0 (to_int (fr_edx fr))" "length bytes \<le> 1024" by blast
    have n: "length bytes \<le> nat (to_int (fr_edx fr))" using r(3) by linarith
    have "in_range (fr_ecx fr) (length bytes) x"
      if "write_bytes (k_memory k) (fr_ecx fr) (map to_byte bytes) x \<noteq> k_memory k x" for x
      using that r(4) by (auto simp: write_bytes_at split: if_splits)
    then have "call_effect fr k (k\<lparr>k_shell := Some t,
        k_memory := write_bytes (k_memory k) (fr_ecx fr) (map to_byte bytes)\<rparr>)"
      unfolding call_effect_def using assms(3,4) 2(2) r(2,4) n in_range_mono by blast
    with r(1) show ?thesis by blast
  next
    case 3
    from k_printf_prints[OF assms(1,2) fmt_texts(2), of "fr_ecx fr"] obtain t where
      "sh_ok t" "k_printf (line ''Invalid buffer pointer: 0x%x'') [VInt (fr_ecx fr)] k
        = Inr (k\<lparr>k_shell := Some t\<rparr>)" by (rule printsE)
    with 3 assms(1) call_effect_shell[OF this(1), of fr k] show ?thesis
      by (auto simp: sys_read_def)
  qed
qed

lemma handle_syscall_outcome:
  assumes "k_shell k = Some sh" "sh_ok sh"
  shows "\<exists>fr' k'. handle_syscall ex st fr k = Inr (fr', k') \<and> call_effect fr k k'
    \<and> (if \<not> from_user fr then fr' = fr
       else if fr_eax fr = 1 then fr' = fr\<lparr>fr_eax := 0, fr_cs := 0x08, fr_ss := 0x10, fr_eip := ex,
         fr_useresp := st, fr_ds := 0x10, fr_es := 0x10, fr_fs := 0x10, fr_gs := 0x10\<rparr>
       else \<exists>v. fr' = fr\<lparr>fr_eax := v\<rparr>)"
proof -
  have printed: "\<exists>k'. r = Inr k' \<and> call_effect fr k k'" if "prints k r" for r
    using that by (auto elim!: printsE intro: call_effect_shell)
  show ?thesis
  proof (cases "from_user fr")
    case False
    obtain k' where "k_puts (line ''System call from kernel mode - ignoring'') k = Inr k'"
      "call_effect fr k k'" using printed[OF k_puts_prints[OF assms]] by blast
    with False show ?thesis by (auto simp: handle_syscall_def)
  next
    case user: True
    consider "fr_eax fr = 4" | "fr_eax fr = 1" | "fr_eax fr = 3" | "fr_eax fr = 0x14"
      | "fr_eax fr \<notin> {4, 1, 3, 0x14}" by blast
    then show ?thesis
    proof cases
      case 1
      with user sys_write_effect[OF assms, of fr] show ?thesis by (simp add: handle_syscall_def)
    next
      case 2
      obtain k' where "k_printf (line ''Exited with code %d'') [VInt (fr_ebx fr)] k = Inr k'"
        "call_effect fr k k'" using printed[OF k_printf_prints[OF assms fmt_texts(3)]] by blast
      with 2 user assms(1) show ?thesis by (auto simp: handle_syscall_def sys_exit_def)
    next
      case 3
      with user sys_read_effect[OF assms user 3] show ?thesis by (simp add: handle_syscall_def)
    next
      case 4
      with user call_effect_refl[OF assms, of fr] show ?thesis by (auto simp: handle_syscall_def)
    next
      case 5
      obtain k' where "k_printf (line ''Unknown system call: %d'') [VInt (fr_eax fr)] k = Inr k'"
        "call_effect fr k k'" using printed[OF k_printf_prints[OF assms fmt_texts(4)]] by blast
      with 5 user assms(1) show ?thesis by (auto simp: handle_syscall_def)
    qed
  qed
qed

lemma handle_syscall_effect:
  assumes "k_shell k = Some sh" "sh_ok sh"
  shows "\<exists>fr' k'. handle_syscall ex st fr k = Inr (fr', k') \<and> call_effect fr k k'
    \<and> fr_int_no fr' = fr_int_no fr"
proof -
  obtain fr' k' where o: "handle_syscall ex st fr k = Inr (fr', k')" "call_effect fr k k'"
    "if \<not> from_user fr then fr' = fr
     else if fr_eax fr = 1 then fr' = fr\<lparr>fr_eax := 0, fr_cs := 0x08, fr_ss := 0x10, fr_eip := ex,
       fr_useresp := st, fr_ds := 0x10, fr_es := 0x10, fr_fs := 0x10, fr_gs := 0x10\<rparr>
     else \<exists>v. fr' = fr\<lparr>fr_eax := v\<rparr>"
    using handle_syscall_outcome[OF assms, of ex st fr] by blast
  from o(3) have "fr_int_no fr' = fr_int_no fr" by (auto split: if_splits)
  with o(1,2) show ?thesis by blast
qed

section \<open>Properties\<close>

text \<open>A kernel with a small console, and a user frame.\<close>

definition demo_kernel :: "shell \<Rightarrow> kernel" where
  "demo_kernel sh = \<lparr>k_memory = (\<lambda>_. 0x41), k_shell = Some sh, k_pmm = pmm_fresh 0x100000 1024,
     k_gdt = gdt_boot, k_idt = idt_boot, k_procs = proc_static, k_fs = fs_zero, k_io = []\<rparr>"

definition demo_call :: "u32 \<Rightarrow> u32 \<Rightarrow> u32 \<Rightarrow> u32 \<Rightarrow> frame" where
  "demo_call eax ebx ecx edx = \<lparr>fr_gs = 0x23, fr_fs = 0x23, fr_es = 0x23, fr_ds = 0x23, fr_edi = 0,
     fr_esi = 0, fr_ebp = 0, fr_esp = 0, fr_ebx = ebx, fr_edx = edx, fr_ecx = ecx, fr_eax = eax,
     fr_int_no = 0x80, fr_err_code = 0, fr_eip = 0x400010, fr_cs = 0x1B, fr_eflags = 0x202,
     fr_useresp = 0x800000, fr_ss = 0x23\<rparr>"

lemma demo_call_user [simp]: "from_user (demo_call eax ebx ecx edx)"
  by (simp add: from_user_def demo_call_def)

lemma demo_call_sel [simp]:
  "fr_eax (demo_call a b c d) = a" "fr_ebx (demo_call a b c d) = b"
  "fr_ecx (demo_call a b c d) = c" "fr_edx (demo_call a b c d) = d"
  by (simp_all add: demo_call_def)

lemma demo_shell:
  obtains sh where "sh_init sh_raw (blank_cells 2000) 80 2000 = Inr sh" "sh_ok sh"
    "con_of sh = (80, (blank_cells 2000, 0), Live 0)" "st_count (sh_streams sh ! STREAM_STDIN) = 0"
proof -
  from sh_init_ok[of 80 2000 "blank_cells 2000" sh_raw] obtain sh where
    "sh_init sh_raw (blank_cells 2000) 80 2000 = Inr sh" "con_ok sh"
    "con_of sh = (80, (replicate 2000 (mk_char CHR '' '' 0x07), 0), Live 0)"
    "stream_contents (sh_streams sh ! STREAM_STDIN) = []"
    by (auto simp: sh_raw_def blank_cells_def)
  moreover from this(2) have "sh_ok sh" by (simp add: con_ok_def)
  moreover from this have "stream_ok (sh_streams sh ! 0)" using sh_ok_stream[of sh 0] by simp
  then have "0 \<le> st_count (sh_streams sh ! 0)" by (simp add: stream_ok_def)
  moreover have "nat (st_count (sh_streams sh ! 0)) = 0"
    using length_contents[of "sh_streams sh ! 0"] calculation(4) by simp
  ultimately show ?thesis using that by (simp add: blank_cells_def)
qed

text \<open>C30: no system call can crash the kernel or forge a frame. Whatever the registers, from either
  mode, \<open>handle_syscall\<close> returns without a fault: the console stays well-formed, memory changes only
  in a user read's buffer (at most as many bytes as asked for, at most 1024), no other shared state
  changes, and of the saved frame only \<open>eax\<close> does, except that exit redirects the frame to
  the kernel's idle routine and a call from kernel mode changes nothing.\<close>

theorem handle_syscall_safe:
  assumes "k_shell k = Some sh" "sh_ok sh"
  shows "\<exists>fr' k'. handle_syscall ex st fr k = Inr (fr', k')
    \<and> (\<exists>sh' m. sh_ok sh' \<and> k' = k\<lparr>k_shell := Some sh', k_memory := m\<rparr>
        \<and> (\<forall>x. m x \<noteq> k_memory k x \<longrightarrow> from_user fr \<and> fr_eax fr = 3 \<and> user_range (fr_ecx fr)
            \<and> in_range (fr_ecx fr) (nat (to_int (fr_edx fr))) x \<and> in_range (fr_ecx fr) 1024 x))
    \<and> (if \<not> from_user fr then fr' = fr
       else if fr_eax fr = 1 then fr' = fr\<lparr>fr_eax := 0, fr_cs := 0x08, fr_ss := 0x10, fr_eip := ex,
         fr_useresp := st, fr_ds := 0x10, fr_es := 0x10, fr_fs := 0x10, fr_gs := 0x10\<rparr>
       else \<exists>v. fr' = fr\<lparr>fr_eax := v\<rparr>)"
  using handle_syscall_outcome[OF assms, of ex st fr] unfolding call_effect_def by blast

theorem handle_syscall_safe_witness:
  "\<exists>sh fr k. sh_init sh_raw (blank_cells 2000) 80 2000 = Inr sh
    \<and> handle_syscall 0x101234 0x10A000 (demo_call 1 7 0 0) (demo_kernel sh) = Inr (fr, k)
    \<and> fr_cs fr = 0x08 \<and> fr_eip fr = 0x101234"
proof -
  obtain sh where sh: "sh_init sh_raw (blank_cells 2000) 80 2000 = Inr sh" "sh_ok sh" by (rule demo_shell)
  have "k_shell (demo_kernel sh) = Some sh" by (simp add: demo_kernel_def)
  from handle_syscall_safe[OF this sh(2), of "0x101234" "0x10A000" "demo_call 1 7 0 0"] sh(1)
  show ?thesis by fastforce
qed

text \<open>Reading from standard input. A user read with a buffer in the accepted range delivers a
  prefix of the characters waiting on the standard input, no longer than asked for, stores exactly
  them at the buffer, returns their number, leaves the rest waiting and does not touch the
  screen.\<close>

theorem sys_read_prefix:
  assumes "k_shell k = Some sh" "sh_ok sh" "from_user fr" "fr_eax fr = 3"
    "0x400000 \<le> fr_ecx fr" "fr_ecx fr < 0x900000"
  shows "\<exists>bytes t. handle_syscall ex st fr k = Inr (fr\<lparr>fr_eax := of_nat (length bytes)\<rparr>,
      k\<lparr>k_shell := Some t, k_memory := write_bytes (k_memory k) (fr_ecx fr) (map to_byte bytes)\<rparr>)
    \<and> stream_contents (sh_streams sh ! STREAM_STDIN) = bytes @ stream_contents (sh_streams t ! STREAM_STDIN)
    \<and> int (length bytes) \<le> max 0 (to_int (fr_edx fr)) \<and> sh_screen t = sh_screen sh"
proof -
  have "fr_ecx fr \<noteq> 0" "user_range (fr_ecx fr)"
    using assms(5,6) by (auto simp: user_range_def word_le_nat_alt)
  from sys_read_delivers[OF assms(1,2) this] assms(3,4) show ?thesis
    by (auto simp: handle_syscall_def)
qed

theorem sys_read_prefix_witness:
  "\<exists>sh bytes t. sh_init sh_raw (blank_cells 2000) 80 2000 = Inr sh
    \<and> handle_syscall 0 0 (demo_call 3 0 0x500000 10) (demo_kernel sh)
      = Inr ((demo_call 3 0 0x500000 10)\<lparr>fr_eax := of_nat (length bytes)\<rparr>,
          (demo_kernel sh)\<lparr>k_shell := Some t, k_memory := write_bytes (\<lambda>_. 0x41) 0x500000 (map to_byte bytes)\<rparr>)"
proof -
  obtain sh where sh: "sh_init sh_raw (blank_cells 2000) 80 2000 = Inr sh" "sh_ok sh" by (rule demo_shell)
  have k: "k_shell (demo_kernel sh) = Some sh" "k_memory (demo_kernel sh) = (\<lambda>_. 0x41)"
    by (simp_all add: demo_kernel_def)
  from sys_read_prefix[OF k(1) sh(2), of "demo_call 3 0 0x500000 10" 0 0] sh(1)
  show ?thesis by (auto simp: k(2) word_le_nat_alt word_less_nat_alt)
qed

text \<open>A write reports what was asked for, not what was written. A user write with a buffer in
  the accepted range returns its length argument in \<open>eax\<close> whether the stream index names a stream
  or not and however little fits: \<open>w\<close> is the number of bytes the stream accepted, or -1.\<close>

theorem sys_write_reports_request:
  assumes "k_shell k = Some sh" "sh_ok sh" "from_user fr" "fr_eax fr = 4"
    "0x400000 \<le> fr_ecx fr" "fr_ecx fr < 0x900000"
  shows "\<exists>t w. sh_write_stream sh (to_int (fr_ebx fr))
        (\<lambda>i. to_char (k_memory k (fr_ecx fr + of_nat i))) (to_int (fr_edx fr)) = Inr (t, w)
    \<and> handle_syscall ex st fr k = Inr (fr\<lparr>fr_eax := fr_edx fr\<rparr>, k\<lparr>k_shell := Some t\<rparr>)
    \<and> (if to_int (fr_ebx fr) < 0 \<or> 3 \<le> to_int (fr_ebx fr) then w = - 1 else w \<le> 1024)"
proof -
  have "fr_ecx fr \<noteq> 0" "user_range (fr_ecx fr)"
    using assms(5,6) by (auto simp: user_range_def word_le_nat_alt)
  moreover have buf: "user_text (k_memory k) (fr_ecx fr) = (\<lambda>i. to_char (k_memory k (fr_ecx fr + of_nat i)))"
    by (simp add: user_text_def fun_eq_iff)
  moreover obtain t w where w: "sh_write_stream sh (to_int (fr_ebx fr))
      (user_text (k_memory k) (fr_ecx fr)) (to_int (fr_edx fr)) = Inr (t, w)"
    "if to_int (fr_ebx fr) < 0 \<or> 3 \<le> to_int (fr_ebx fr) then w = - 1 else w \<le> 1024"
  proof (cases "to_int (fr_ebx fr) < 0 \<or> 3 \<le> to_int (fr_ebx fr)")
    case True
    with that sh_write_stream_invalid[OF True] show ?thesis by simp
  next
    case False
    then have i: "0 \<le> to_int (fr_ebx fr)" "to_int (fr_ebx fr) < 3" by simp_all
    then have "stream_ok (sh_streams sh ! nat (to_int (fr_ebx fr)))"
      using sh_ok_stream[OF assms(2), of "nat (to_int (fr_ebx fr))"] by simp
    then have "0 \<le> st_count (sh_streams sh ! nat (to_int (fr_ebx fr)))" by (simp add: stream_ok_def)
    then have "int (nat (min x (1024 - st_count (sh_streams sh ! nat (to_int (fr_ebx fr)))))) \<le> 1024" for x
      by (simp add: min_def)
    note accepted = this
    obtain t where "sh_write_stream sh (to_int (fr_ebx fr)) (user_text (k_memory k) (fr_ecx fr))
        (to_int (fr_edx fr)) = Inr (t, int (nat (min (to_int (fr_edx fr))
          (1024 - st_count (sh_streams sh ! nat (to_int (fr_ebx fr)))))))"
      using sh_write_stream_valid[OF assms(2) i, of "user_text (k_memory k) (fr_ecx fr)" "to_int (fr_edx fr)"]
      by blast
    from that[OF this] False accepted show ?thesis by simp
  qed
  ultimately show ?thesis
    using assms(1,3,4) by (simp add: handle_syscall_def sys_write_def with_shell_def Let_def)
qed

text \<open>Stream 9 does not exist; the call reports 100 bytes written.\<close>

theorem sys_write_reports_request_witness:
  "\<exists>sh t. sh_init sh_raw (blank_cells 2000) 80 2000 = Inr sh
    \<and> handle_syscall 0 0 (demo_call 4 9 0x400100 100) (demo_kernel sh)
      = Inr ((demo_call 4 9 0x400100 100)\<lparr>fr_eax := 100\<rparr>, (demo_kernel sh)\<lparr>k_shell := Some t\<rparr>)"
proof -
  obtain sh where sh: "sh_init sh_raw (blank_cells 2000) 80 2000 = Inr sh" "sh_ok sh" by (rule demo_shell)
  have k: "k_shell (demo_kernel sh) = Some sh" by (simp add: demo_kernel_def)
  from sys_write_reports_request[OF k sh(2), of "demo_call 4 9 0x400100 100" 0 0] sh(1)
  show ?thesis by (auto simp: word_le_nat_alt word_less_nat_alt)
qed

end
