(* ===== verification/Interrupts.thy ===== *)
theory Interrupts
  imports Syscalls
begin

text \<open>
  Interrupt handling (source/system/interrupts/interrupts.c): the exception and system call entry
  \<open>interrupt_handler\<close>, the hardware interrupt entry \<open>irq_handler\<close> with the keyboard, and the set-up
  and masking of the two interrupt controllers.

  What a device answers to \<open>inb\<close> is a parameter (\<open>dev\<close>, by port). A handler that ends in the
  \<open>hlt\<close> loop is reported as halted; nothing runs after it.
\<close>

section \<open>Operations\<close>

definition exception_messages :: "char list list" where
  "exception_messages = [''Division By Zero'', ''Debug'', ''Non Maskable Interrupt'', ''Breakpoint'',
     ''Into Detected Overflow'', ''Out of Bounds'', ''Invalid Opcode'', ''No Coprocessor'',
     ''Double Fault'', ''Coprocessor Segment Overrun'', ''Bad TSS'', ''Segment Not Present'',
     ''Stack Fault'', ''General Protection Fault'', ''Page Fault'', ''Unknown Interrupt'',
     ''Coprocessor Fault'']"

definition keymap :: "char list" where
  "keymap = [NUL, CHR 0x1B] @ ''1234567890-='' @ [CHR 0x08, CHR 0x09] @ ''qwertyuiop[]'' @ [LF, NUL]
     @ ''asdfghjkl;'' @ [CHR 0x27, CHR 0x60, NUL, CHR 0x5C] @ ''zxcvbnm,./'' @ [NUL] @ ''*'' @ [NUL]
     @ '' '' @ replicate 16 NUL @ ''-'' @ replicate 3 NUL @ ''+'' @ replicate 49 NUL"

definition scancode_to_ascii :: "u8 \<Rightarrow> char res" where
  "scancode_to_ascii scancode = (if scancode \<ge> 128 then Inr NUL else arr_get keymap (unat scancode))"

text \<open>The report of an exception, through the shell.\<close>

definition exception_report :: "frame \<Rightarrow> kernel \<Rightarrow> kernel res" where
  "exception_report fr k =
     rbind (arr_get exception_messages (unat (fr_int_no fr))) (\<lambda>msg.
     rbind (k_printf (line ''EXCEPTION: %s (0x%x)'') [VStr (Some msg), VInt (fr_int_no fr)] k) (\<lambda>k.
     rbind (k_printf (line ''Error Code: 0x%x'') [VInt (fr_err_code fr)] k) (\<lambda>k.
     rbind (k_printf (line ''EIP: 0x%x, CS: 0x%x'') [VInt (fr_eip fr), VInt (fr_cs fr)] k) (\<lambda>k.
       if from_user fr then k_puts (line ''Exception occurred in user mode!'') k else Inr k))))"

text \<open>The result: halted, the frame, the kernel.\<close>

definition interrupt_handler :: "u32 \<Rightarrow> u32 \<Rightarrow> frame \<Rightarrow> kernel \<Rightarrow> (bool \<times> frame \<times> kernel) res" where
  "interrupt_handler exit_to_kernel kernel_stack_top fr k =
     rbind (if k_shell k \<noteq> None then
         if fr_int_no fr < 17 then rbind (exception_report fr k) (\<lambda>k. Inr (fr, k))
         else if fr_int_no fr = 0x80 then handle_syscall exit_to_kernel kernel_stack_top fr k
         else rbind (k_printf (line ''Unknown interrupt: 0x%x'') [VInt (fr_int_no fr)] k) (\<lambda>k. Inr (fr, k))
       else Inr (fr, k)) (\<lambda>(fr, k).
       Inr (fr_int_no fr < 32 \<and> fr_int_no fr \<noteq> 3, fr, k))"

definition keyboard_irq :: "(u16 \<Rightarrow> u8) \<Rightarrow> kernel \<Rightarrow> kernel res" where
  "keyboard_irq dev k = (let (scancode, k) = inb dev 0x60 k in
     rbind (scancode_to_ascii scancode) (\<lambda>ascii.
       if scancode < 128 \<and> ascii \<noteq> NUL then
         with_shell (\<lambda>sh. rbind (sh_write_stream sh (int STREAM_STDIN) (nth [ascii]) 1) (\<lambda>(t, _). Inr t)) k
       else Inr k))"

definition irq_handler :: "(u16 \<Rightarrow> u8) \<Rightarrow> frame \<Rightarrow> kernel \<Rightarrow> kernel res" where
  "irq_handler dev fr k =
     rbind (if k_shell k \<noteq> None then
         if fr_int_no fr = 32 then Inr k
         else if fr_int_no fr = 33 then keyboard_irq dev k
         else k_printf (line ''Hardware interrupt: IRQ%d (INT 0x%x)'')
           [VInt (fr_int_no fr - 32), VInt (fr_int_no fr)] k
       else Inr k) (\<lambda>k.
       let k = (if fr_int_no fr \<ge> 40 then outb 0xA0 0x20 k else k) in Inr (outb 0x20 0x20 k))"

text \<open>The two masks are read and not used.\<close>

definition pic_init :: "(u16 \<Rightarrow> u8) \<Rightarrow> kernel \<Rightarrow> kernel" where
  "pic_init dev k =
     (let (mask1, k) = inb dev 0x21 k; (mask2, k) = inb dev 0xA1 k;
          k = outb 0x20 0x11 k; k = outb 0xA0 0x11 k;
          k = outb 0x21 0x20 k; k = outb 0xA1 0x28 k;
          k = outb 0x21 0x04 k; k = outb 0xA1 0x02 k;
          k = outb 0x21 0x01 k; k = outb 0xA1 0x01 k;
          k = outb 0x21 0xFC k
      in outb 0xA1 0xFF k)"

definition keyboard_test :: "(u16 \<Rightarrow> u8) \<Rightarrow> kernel \<Rightarrow> kernel res" where
  "keyboard_test dev k =
     (if k_shell k \<noteq> None then
        rbind (k_puts (line ''Testing keyboard controller...'') k) (\<lambda>k.
          let (status, k) = inb dev 0x64 k in
          rbind (k_printf (line ''Keyboard controller status: 0x%x'') [VInt (ucast status)] k) (\<lambda>k.
          rbind (if status AND 0x01 \<noteq> 0 then
              let (d, k) = inb dev 0x60 k in k_printf (line ''Data in keyboard buffer: 0x%x'') [VInt (ucast d)] k
            else Inr k)
            (k_puts (line ''Press any key to test interrupts...''))))
      else Inr k)"

text \<open>\<open>1 << irq\<close> is undefined from 32 on.\<close>

definition irq_bit :: "u8 \<Rightarrow> u8 res" where
  "irq_bit irq = (if irq \<ge> 32 then Inl Shift_Too_Large else Inr (ucast (push_bit (unat irq) (1 :: u32))))"

definition irq_enable :: "(u16 \<Rightarrow> u8) \<Rightarrow> u8 \<Rightarrow> kernel \<Rightarrow> kernel res" where
  "irq_enable dev irq k =
     (let (port, irq) = (if irq < 8 then (0x21, irq) else (0xA1, irq - 8));
          (v, k) = inb dev port k
      in rbind (irq_bit irq) (\<lambda>b. Inr (outb port (v AND NOT b) k)))"

definition irq_disable :: "(u16 \<Rightarrow> u8) \<Rightarrow> u8 \<Rightarrow> kernel \<Rightarrow> kernel res" where
  "irq_disable dev irq k =
     (let (port, irq) = (if irq < 8 then (0x21, irq) else (0xA1, irq - 8));
          (v, k) = inb dev port k
      in rbind (irq_bit irq) (\<lambda>b. Inr (outb port (v OR b) k)))"

section \<open>Lemmas\<close>

lemma keymap_length [simp]: "length keymap = 128"
  by (simp add: keymap_def)

lemma scancode_total: "\<exists>c. scancode_to_ascii scancode = Inr c"
proof (cases "scancode \<ge> 128")
  case False
  then have "unat scancode < 128" by (simp add: word_le_nat_alt)
  then show ?thesis by (simp add: scancode_to_ascii_def)
qed (simp add: scancode_to_ascii_def)

lemma inb_eq: "inb dev port k = (dev port, k\<lparr>k_io := k_io k @ [In port (dev port)]\<rparr>)"
  by (simp add: inb_def)

text \<open>A character for the standard input: appended while there is room, dropped otherwise.\<close>

lemma stdin_write:
  assumes "sh_ok sh"
  shows "\<exists>t w. sh_write_stream sh (int 0) (nth [c]) 1 = Inr (t, w) \<and> sh_ok t
    \<and> stream_contents (sh_streams t ! 0) = (if st_count (sh_streams sh ! 0) < 1024
        then stream_contents (sh_streams sh ! 0) @ [c] else stream_contents (sh_streams sh ! 0))"
proof -
  have "stream_ok (sh_streams sh ! 0)" using sh_ok_stream[OF assms, of 0] by simp
  then have "nat (min 1 (1024 - st_count (sh_streams sh ! 0)))
      = (if st_count (sh_streams sh ! 0) < 1024 then 1 else 0)" by (auto simp: stream_ok_def)
  with write_stream_stdin[OF assms, of 0 "nth [c]" 1] show ?thesis by auto
qed

lemma exception_texts:
  "\<exists>cs. fmt_text (line ''EXCEPTION: %s (0x%x)'') [VStr (Some msg), VInt v] = Inr cs"
  "\<exists>cs. fmt_text (line ''Error Code: 0x%x'') [VInt v] = Inr cs"
  "\<exists>cs. fmt_text (line ''EIP: 0x%x, CS: 0x%x'') [VInt v, VInt w] = Inr cs"
  "\<exists>cs. fmt_text (line ''Unknown interrupt: 0x%x'') [VInt v] = Inr cs"
  "\<exists>cs. fmt_text (line ''Hardware interrupt: IRQ%d (INT 0x%x)'') [VInt v, VInt w] = Inr cs"
  by (simp_all add: line_def)

lemma prints_chain:
  assumes "prints k r" "\<And>sh. sh_ok sh \<Longrightarrow> prints (k\<lparr>k_shell := Some sh\<rparr>) (f (k\<lparr>k_shell := Some sh\<rparr>))"
  shows "prints k (rbind r f)"
proof -
  obtain sh0 sh where sh: "k_shell k = Some sh0" "sh_ok sh" "sh_streams sh ! 0 = sh_streams sh0 ! 0"
    "r = Inr (k\<lparr>k_shell := Some sh\<rparr>)" using assms(1) by (auto simp: prints_def)
  from assms(2)[OF sh(2)] obtain t where "sh_ok t" "sh_streams t ! 0 = sh_streams sh ! 0"
    "f (k\<lparr>k_shell := Some sh\<rparr>) = Inr (k\<lparr>k_shell := Some t\<rparr>)"
    by (auto simp: prints_def)
  with sh show ?thesis by (auto simp: prints_def)
qed

lemma prints_skip: "sh_ok sh \<Longrightarrow> prints (k\<lparr>k_shell := Some sh\<rparr>) (Inr (k\<lparr>k_shell := Some sh\<rparr>))"
  by (auto simp: prints_def)

lemma k_printf_prints': "k_shell k = Some sh \<Longrightarrow> sh_ok sh \<Longrightarrow> \<exists>cs. fmt_text fmt args = Inr cs \<Longrightarrow>
    prints k (k_printf fmt args k)"
  using k_printf_prints by blast

text \<open>Printing with a well-formed shell put back into the state.\<close>

lemma printf_again:
  assumes "sh_ok sh" "\<exists>cs. fmt_text fmt args = Inr cs"
  shows "prints (k\<lparr>k_shell := Some sh\<rparr>) (k_printf fmt args (k\<lparr>k_shell := Some sh\<rparr>))"
  by (rule k_printf_prints'[OF _ assms]) simp

lemma puts_again:
  "sh_ok sh \<Longrightarrow> prints (k\<lparr>k_shell := Some sh\<rparr>) (k_puts str (k\<lparr>k_shell := Some sh\<rparr>))"
  by (rule k_puts_prints) simp_all

lemma prints_if: "prints k r \<Longrightarrow> prints k s \<Longrightarrow> prints k (if b then r else s)"
  by simp

lemma exception_report_prints:
  assumes "k_shell k = Some sh" "sh_ok sh" "fr_int_no fr < 17"
  shows "prints k (exception_report fr k)"
proof -
  have "unat (fr_int_no fr) < length exception_messages"
    using assms(3) by (simp add: word_less_nat_alt exception_messages_def)
  then obtain msg where msg: "arr_get exception_messages (unat (fr_int_no fr)) = Inr msg" by simp
  show ?thesis
    unfolding exception_report_def msg rbind_Inr
    by (intro prints_chain k_printf_prints'[OF assms(1,2)] printf_again exception_texts prints_if
        puts_again prints_skip)
qed

lemma keyboard_irq_ok:
  assumes "k_shell k = Some sh" "sh_ok sh" "fr_int_no fr = 33"
  shows "\<exists>t. let scancode = dev 0x60; stdin = stream_contents (sh_streams sh ! STREAM_STDIN) in
    irq_handler dev fr k = Inr (k\<lparr>k_shell := Some t, k_io := k_io k @ [In 0x60 scancode, Out 0x20 0x20]\<rparr>)
    \<and> sh_ok t
    \<and> stream_contents (sh_streams t ! STREAM_STDIN) =
      (if scancode < 128 \<and> keymap ! unat scancode \<noteq> NUL \<and> length stdin < 1024
       then stdin @ [keymap ! unat scancode] else stdin)"
proof (cases "dev 0x60 < 128 \<and> keymap ! unat (dev 0x60) \<noteq> NUL")
  case True
  let ?c = "keymap ! unat (dev 0x60)" and ?s = "sh_streams sh ! 0"
  have "unat (dev 0x60) < 128" using True by (simp add: word_less_nat_alt)
  then have asc: "scancode_to_ascii (dev 0x60) = Inr ?c"
    using True by (simp add: scancode_to_ascii_def not_le[symmetric])
  have "stream_ok ?s" using sh_ok_stream[OF assms(2), of 0] by simp
  then have "0 \<le> st_count ?s" by (simp add: stream_ok_def)
  then have room: "length (stream_contents ?s) < 1024 \<longleftrightarrow> st_count ?s < 1024"
    by (auto simp: length_contents)
  from stdin_write[OF assms(2), of ?c] obtain t w where
    "sh_write_stream sh (int 0) (nth [?c]) 1 = Inr (t, w)" "sh_ok t"
    "stream_contents (sh_streams t ! 0) = (if st_count ?s < 1024
        then stream_contents ?s @ [?c] else stream_contents ?s)" by blast
  with True assms(1,3) asc room show ?thesis
    by (intro exI[of _ t]) (simp add: irq_handler_def keyboard_irq_def inb_eq with_shell_def outb_def Let_def)
next
  case False
  obtain c where c: "scancode_to_ascii (dev 0x60) = Inr c" using scancode_total by blast
  have "\<not> (dev 0x60 < 128 \<and> c \<noteq> NUL)"
    using c False by (auto simp: scancode_to_ascii_def word_less_nat_alt split: if_splits)
  with c False assms show ?thesis
    by (intro exI[of _ sh]) (auto simp: irq_handler_def keyboard_irq_def inb_eq outb_def Let_def)
qed

section \<open>The interrupt controllers\<close>

text \<open>
  What the two 8259 controllers make of the trace: a write of 0x11 to the command port starts
  the set-up sequence, whose three data writes give the vector base, the cascade line and the mode;
  any other data write is the mask. \<open>pic_at\<close> replays a trace on the controller at a command and a
  data port.
\<close>

record pic =
  pic_step :: nat
  pic_base :: u8
  pic_mask :: u8

definition pic_data :: "u8 \<Rightarrow> pic \<Rightarrow> pic" where
  "pic_data v c =
     (if pic_step c = 1 then c\<lparr>pic_step := 2, pic_base := v\<rparr>
      else if pic_step c = 2 then c\<lparr>pic_step := 3\<rparr>
      else if pic_step c = 3 then c\<lparr>pic_step := 0\<rparr>
      else c\<lparr>pic_mask := v\<rparr>)"

fun pic_at :: "u16 \<Rightarrow> u16 \<Rightarrow> io list \<Rightarrow> pic \<Rightarrow> pic" where
  "pic_at cmd data [] c = c"
| "pic_at cmd data (In _ _ # tr) c = pic_at cmd data tr c"
| "pic_at cmd data (Out port v # tr) c = pic_at cmd data tr
     (if port = cmd then (if v = 0x11 then c\<lparr>pic_step := 1\<rparr> else c)
      else if port = data then pic_data v c else c)"

abbreviation master :: "io list \<Rightarrow> pic \<Rightarrow> pic" where "master \<equiv> pic_at 0x20 0x21"
abbreviation slave :: "io list \<Rightarrow> pic \<Rightarrow> pic" where "slave \<equiv> pic_at 0xA0 0xA1"

lemma pic_at_append [simp]: "pic_at cmd data (tr @ tr') c = pic_at cmd data tr' (pic_at cmd data tr c)"
  by (induction cmd data tr c rule: pic_at.induct) simp_all

text \<open>Which of the sixteen interrupt requests are let through, and the vector of each.\<close>

definition irq_open :: "pic \<Rightarrow> pic \<Rightarrow> nat \<Rightarrow> bool" where
  "irq_open m s irq \<longleftrightarrow> (if irq < 8 then \<not> bit (pic_mask m) irq else \<not> bit (pic_mask s) (irq - 8))"

definition irq_vector :: "pic \<Rightarrow> pic \<Rightarrow> nat \<Rightarrow> nat" where
  "irq_vector m s irq = (if irq < 8 then unat (pic_base m) + irq else unat (pic_base s) + (irq - 8))"

lemma irq_bit_bit:
  assumes "irq < 32"
  shows "\<exists>b. irq_bit irq = Inr b \<and> (\<forall>n < 8. bit b n = (n = unat irq))"
proof -
  have "irq_bit irq = Inr (ucast (push_bit (unat irq) (1 :: u32)))"
    using assms by (simp add: irq_bit_def not_le)
  moreover have "bit (ucast (push_bit (unat irq) (1 :: u32)) :: u8) n = (n = unat irq)" if "n < 8" for n
    using that by (auto simp: bit_simps)
  ultimately show ?thesis by blast
qed

section \<open>Properties\<close>

text \<open>C36: exceptions and system calls never fault in the handler. With the shell pointer null or
  a well-formed shell, \<open>interrupt_handler\<close> returns unless the vector is an exception other than the
  breakpoint, in which case it halts; only vector 0x80 reaches the system calls, and only once
  there is a shell; every other vector leaves the frame alone and changes nothing but the
  console.\<close>

theorem interrupt_handler_outcome:
  assumes "shell_ok k"
  shows "\<exists>fr' k'. interrupt_handler ex st fr k = Inr (fr_int_no fr < 32 \<and> fr_int_no fr \<noteq> 3, fr', k')
    \<and> shell_ok k' \<and> fr_int_no fr' = fr_int_no fr
    \<and> (if k_shell k = None then fr' = fr \<and> k' = k
       else if fr_int_no fr = 0x80 then handle_syscall ex st fr k = Inr (fr', k')
       else fr' = fr \<and> (\<exists>t. k' = k\<lparr>k_shell := Some t\<rparr>))"
proof (cases "k_shell k")
  case None
  with assms show ?thesis by (auto simp: interrupt_handler_def)
next
  case (Some sh)
  then have sh: "sh_ok sh" using assms by (simp add: shell_ok_def)
  have printed: "\<exists>t. sh_ok t \<and> r = Inr (k\<lparr>k_shell := Some t\<rparr>)" if "prints k r" for r
    using that by (auto elim: printsE)
  consider "fr_int_no fr < 17" | "fr_int_no fr = 0x80" | "\<not> fr_int_no fr < 17" "fr_int_no fr \<noteq> 0x80" by blast
  then show ?thesis
  proof cases
    case 1
    obtain t where "sh_ok t" "exception_report fr k = Inr (k\<lparr>k_shell := Some t\<rparr>)"
      using printed[OF exception_report_prints[OF Some sh 1]] by blast
    with 1 Some show ?thesis by (auto simp: interrupt_handler_def)
  next
    case 2
    from handle_syscall_effect[OF Some sh] obtain fr' k' where
      "handle_syscall ex st fr k = Inr (fr', k')" "call_effect fr k k'" "fr_int_no fr' = fr_int_no fr"
      by blast
    with 2 Some show ?thesis by (auto simp: interrupt_handler_def call_effect_def)
  next
    case 3
    obtain t where "sh_ok t" "k_printf (line ''Unknown interrupt: 0x%x'') [VInt (fr_int_no fr)] k
        = Inr (k\<lparr>k_shell := Some t\<rparr>)"
      using printed[OF k_printf_prints'[OF Some sh exception_texts(4)]] by blast
    with 3 Some show ?thesis by (auto simp: interrupt_handler_def)
  qed
qed

theorem interrupt_handler_outcome_witness:
  "\<exists>sh k'. sh_init sh_raw (blank_cells 2000) 80 2000 = Inr sh
    \<and> interrupt_handler 0 0 ((demo_call 0 0 0 0)\<lparr>fr_int_no := 14\<rparr>) (demo_kernel sh)
      = Inr (True, (demo_call 0 0 0 0)\<lparr>fr_int_no := 14\<rparr>, k')"
proof -
  obtain sh where sh: "sh_init sh_raw (blank_cells 2000) 80 2000 = Inr sh" "sh_ok sh" by (rule demo_shell)
  have k: "shell_ok (demo_kernel sh)" "k_shell (demo_kernel sh) = Some sh"
    using sh(2) by (simp_all add: demo_kernel_def shell_ok_def)
  from interrupt_handler_outcome[OF k(1), of 0 0 "(demo_call 0 0 0 0)\<lparr>fr_int_no := 14\<rparr>"] sh(1)
  show ?thesis by (auto simp: k(2))
qed

text \<open>The keyboard. A key press on a key with a character appends exactly that character to
  the standard input while it holds fewer than 1024, and drops it otherwise; a release, or a key
  without a character, leaves the standard input alone. In every case the scan code is read once
  and the master controller gets one end-of-interrupt, last; nothing but the console changes.\<close>

theorem keyboard_irq_input:
  assumes "k_shell k = Some sh" "sh_ok sh" "fr_int_no fr = 33"
  shows "\<exists>t. let scancode = dev 0x60; stdin = stream_contents (sh_streams sh ! STREAM_STDIN) in
    irq_handler dev fr k = Inr (k\<lparr>k_shell := Some t, k_io := k_io k @ [In 0x60 scancode, Out 0x20 0x20]\<rparr>)
    \<and> sh_ok t
    \<and> stream_contents (sh_streams t ! STREAM_STDIN) =
      (if scancode < 128 \<and> keymap ! unat scancode \<noteq> NUL \<and> length stdin < 1024
       then stdin @ [keymap ! unat scancode] else stdin)"
  by (rule keyboard_irq_ok[OF assms])

theorem keyboard_irq_input_witness:
  "\<exists>sh t. sh_init sh_raw (blank_cells 2000) 80 2000 = Inr sh
    \<and> irq_handler (\<lambda>_. 0x1E) ((demo_call 0 0 0 0)\<lparr>fr_int_no := 33\<rparr>) (demo_kernel sh)
      = Inr ((demo_kernel sh)\<lparr>k_shell := Some t, k_io := [In 0x60 0x1E, Out 0x20 0x20]\<rparr>)
    \<and> stream_contents (sh_streams t ! STREAM_STDIN) = ''a''"
proof -
  obtain sh where sh: "sh_init sh_raw (blank_cells 2000) 80 2000 = Inr sh" "sh_ok sh"
    "st_count (sh_streams sh ! STREAM_STDIN) = 0" by (rule demo_shell)
  have k: "k_shell (demo_kernel sh) = Some sh" "k_io (demo_kernel sh) = []" by (simp_all add: demo_kernel_def)
  have empty: "stream_contents (sh_streams sh ! 0) = []"
    using sh(3) length_contents[of "sh_streams sh ! 0"] by (metis length_0_conv nat_0)
  have "keymap ! 30 = CHR ''a''" by code_simp
  with keyboard_irq_input[OF k(1) sh(2), of "(demo_call 0 0 0 0)\<lparr>fr_int_no := 33\<rparr>" "\<lambda>_. 0x1E"] sh(1)
  show ?thesis by (auto simp: k(2) empty Let_def)
qed

text \<open>C37: setting up the controllers. From any state of the two controllers the port writes of
  \<open>pic_init\<close> leave both ready, with request \<open>irq\<close> on vector \<open>32 + irq\<close> and all requests
  masked but the timer and the keyboard.\<close>

theorem pic_init_programs:
  "\<exists>tr. pic_init dev k = k\<lparr>k_io := k_io k @ tr\<rparr>
    \<and> pic_step (master tr m) = 0 \<and> pic_step (slave tr s) = 0
    \<and> (\<forall>irq < 16. irq_vector (master tr m) (slave tr s) irq = 32 + irq
        \<and> irq_open (master tr m) (slave tr s) irq = (irq = 0 \<or> irq = 1))"
proof (intro exI conjI)
  let ?tr = "[In 0x21 (dev 0x21), In 0xA1 (dev 0xA1), Out 0x20 0x11, Out 0xA0 0x11, Out 0x21 0x20,
    Out 0xA1 0x28, Out 0x21 0x04, Out 0xA1 0x02, Out 0x21 0x01, Out 0xA1 0x01, Out 0x21 0xFC, Out 0xA1 0xFF]"
  show "pic_init dev k = k\<lparr>k_io := k_io k @ ?tr\<rparr>"
    by (simp add: pic_init_def inb_eq outb_def)
  have m: "master ?tr m = m\<lparr>pic_step := 0, pic_base := 0x20, pic_mask := 0xFC\<rparr>" 
    and s: "slave ?tr s = s\<lparr>pic_step := 0, pic_base := 0x28, pic_mask := 0xFF\<rparr>"
    by (simp_all add: pic_data_def)
  show "pic_step (master ?tr m) = 0" "pic_step (slave ?tr s) = 0"
    unfolding m s by simp_all
  have "bit (0xFC :: u8) n = (n \<in> {2..<8})" if "n < 8" for n
    using that by (auto simp: less_Suc_eq numeral_eq_Suc bit_simps)
  moreover have "bit (0xFF :: u8) n" if "n < 8" for n
    using that by (auto simp: less_Suc_eq numeral_eq_Suc bit_simps)
  ultimately show "\<forall>irq < 16. irq_vector (master ?tr m) (slave ?tr s) irq = 32 + irq
        \<and> irq_open (master ?tr m) (slave ?tr s) irq = (irq = 0 \<or> irq = 1)"
    unfolding m s by (auto simp: irq_open_def irq_vector_def)
qed

theorem pic_init_programs_witness:
  "\<exists>tr. pic_init (\<lambda>_. 0xFF) (demo_kernel sh_raw) = (demo_kernel sh_raw)\<lparr>k_io := tr\<rparr>
    \<and> irq_vector (master tr \<lparr>pic_step = 2, pic_base = 8, pic_mask = 0\<rparr>)
         (slave tr \<lparr>pic_step = 0, pic_base = 0x70, pic_mask = 0\<rparr>) 12 = 44
    \<and> \<not> irq_open (master tr \<lparr>pic_step = 2, pic_base = 8, pic_mask = 0\<rparr>)
         (slave tr \<lparr>pic_step = 0, pic_base = 0x70, pic_mask = 0\<rparr>) 12"
proof -
  let ?m = "\<lparr>pic_step = 2, pic_base = 8, pic_mask = 0\<rparr>" and ?s = "\<lparr>pic_step = 0, pic_base = 0x70, pic_mask = 0\<rparr>"
  obtain tr where "pic_init (\<lambda>_. 0xFF) (demo_kernel sh_raw) = (demo_kernel sh_raw)\<lparr>k_io := k_io (demo_kernel sh_raw) @ tr\<rparr>"
    "\<forall>irq < 16. irq_vector (master tr ?m) (slave tr ?s) irq = 32 + irq
        \<and> irq_open (master tr ?m) (slave tr ?s) irq = (irq = 0 \<or> irq = 1)"
    using pic_init_programs[of "\<lambda>_. 0xFF" "demo_kernel sh_raw" ?m ?s] by blast
  then show ?thesis by (intro exI[of _ tr]) (simp add: demo_kernel_def)
qed

text \<open>Masking one request. With ready controllers whose mask registers are what the ports read
  back, \<open>irq_enable\<close> lets exactly the given request through in addition to those already let
  through, \<open>irq_disable\<close> blocks exactly it, and neither moves a vector.\<close>

theorem irq_mask_exact:
  assumes "pic_step m = 0" "pic_step s = 0" "dev 0x21 = pic_mask m" "dev 0xA1 = pic_mask s" "irq < 16"
  shows "(\<exists>tr. irq_enable dev irq k = Inr (k\<lparr>k_io := k_io k @ tr\<rparr>)
      \<and> (\<forall>n < 16. irq_open (master tr m) (slave tr s) n = (irq_open m s n \<or> n = unat irq)
          \<and> irq_vector (master tr m) (slave tr s) n = irq_vector m s n))
    \<and> (\<exists>tr. irq_disable dev irq k = Inr (k\<lparr>k_io := k_io k @ tr\<rparr>)
      \<and> (\<forall>n < 16. irq_open (master tr m) (slave tr s) n = (irq_open m s n \<and> n \<noteq> unat irq)
          \<and> irq_vector (master tr m) (slave tr s) n = irq_vector m s n))"
proof (cases "irq < 8")
  case True
  then have irq: "irq < 32" "unat irq < 8" by (simp_all add: word_less_nat_alt)
  from irq_bit_bit[OF irq(1)] obtain b where b: "irq_bit irq = Inr b" "\<And>n. n < 8 \<Longrightarrow> bit b n = (n = unat irq)"
    by blast
  show ?thesis
  proof (intro conjI exI)
    show "irq_enable dev irq k = Inr (k\<lparr>k_io := k_io k @ [In 0x21 (dev 0x21), Out 0x21 (dev 0x21 AND NOT b)]\<rparr>)"
      "irq_disable dev irq k = Inr (k\<lparr>k_io := k_io k @ [In 0x21 (dev 0x21), Out 0x21 (dev 0x21 OR b)]\<rparr>)"
      using True b(1) by (simp_all add: irq_enable_def irq_disable_def inb_eq outb_def)
  qed (use assms b(2) irq in \<open>auto simp: pic_data_def irq_open_def irq_vector_def bit_simps\<close>)
next
  case False
  define i where "i = irq - 8"
  have i: "unat irq = unat i + 8" "unat i < 8"
    using False assms(5) by (simp_all add: i_def unat_sub_if' word_less_nat_alt word_le_nat_alt)
  then have "i < 32" by (simp add: word_less_nat_alt)
  from irq_bit_bit[OF this] obtain b where b: "irq_bit i = Inr b" "\<And>n. n < 8 \<Longrightarrow> bit b n = (n = unat i)"
    by blast
  show ?thesis
  proof (intro conjI exI)
    show "irq_enable dev irq k = Inr (k\<lparr>k_io := k_io k @ [In 0xA1 (dev 0xA1), Out 0xA1 (dev 0xA1 AND NOT b)]\<rparr>)"
      "irq_disable dev irq k = Inr (k\<lparr>k_io := k_io k @ [In 0xA1 (dev 0xA1), Out 0xA1 (dev 0xA1 OR b)]\<rparr>)"
      using False b(1) by (simp_all add: irq_enable_def irq_disable_def inb_eq outb_def i_def[symmetric])
  qed (use assms b(2) i in \<open>auto simp: pic_data_def irq_open_def irq_vector_def bit_simps\<close>)
qed

text \<open>After set-up, disabling the keyboard leaves only the timer.\<close>

theorem irq_mask_exact_witness:
  "\<exists>tr. irq_disable (\<lambda>p. if p = 0x21 then 0xFC else 0xFF) 1 (demo_kernel sh_raw) = Inr ((demo_kernel sh_raw)\<lparr>k_io := tr\<rparr>)
    \<and> \<not> irq_open (master tr \<lparr>pic_step = 0, pic_base = 0x20, pic_mask = 0xFC\<rparr>)
         (slave tr \<lparr>pic_step = 0, pic_base = 0x28, pic_mask = 0xFF\<rparr>) 1
    \<and> irq_open (master tr \<lparr>pic_step = 0, pic_base = 0x20, pic_mask = 0xFC\<rparr>)
         (slave tr \<lparr>pic_step = 0, pic_base = 0x28, pic_mask = 0xFF\<rparr>) 0"
proof -
  let ?m = "\<lparr>pic_step = 0, pic_base = 0x20, pic_mask = 0xFC\<rparr>" and ?s = "\<lparr>pic_step = 0, pic_base = 0x28, pic_mask = 0xFF\<rparr>"
  have open0: "irq_open ?m ?s 0" by (simp add: irq_open_def)
  from irq_mask_exact[of ?m ?s "\<lambda>p. if p = 0x21 then 0xFC else 0xFF" 1 "demo_kernel sh_raw"] obtain tr where
    "irq_disable (\<lambda>p. if p = 0x21 then 0xFC else 0xFF) 1 (demo_kernel sh_raw) = Inr ((demo_kernel sh_raw)\<lparr>k_io := tr\<rparr>)"
    "\<forall>n < 16. irq_open (master tr ?m) (slave tr ?s) n = (irq_open ?m ?s n \<and> n \<noteq> unat (1 :: u8))"
    by (auto simp: demo_kernel_def)
  with open0 show ?thesis by (intro exI[of _ tr]) auto
qed

section \<open>The keyboard test\<close>

lemma says_io: "says k cs k' \<Longrightarrow> says (k\<lparr>k_io := tr\<rparr>) cs (k'\<lparr>k_io := tr\<rparr>)"
proof -
  have swap: "(k\<lparr>k_shell := v\<rparr>)\<lparr>k_io := tr\<rparr> = (k\<lparr>k_io := tr\<rparr>)\<lparr>k_shell := v\<rparr>" for v by (cases k) simp
  assume "says k cs k'"
  then show ?thesis by (auto simp: says_def swap)
qed

lemma keyboard_test_texts:
  "fmt_text (line ''Keyboard controller status: 0x%x'') [VInt v] = Inr (''Keyboard controller status: 0x'' @ int_text v 16 @ [CR, LF])"
  "fmt_text (line ''Data in keyboard buffer: 0x%x'') [VInt v] = Inr (''Data in keyboard buffer: 0x'' @ int_text v 16 @ [CR, LF])"
  by (simp_all add: line_def)

text \<open>The keyboard test prints the controller's status and, if it has a byte, the byte, which it takes from
  the controller: no interrupt handler sees it any more.\<close>

theorem keyboard_test_prints:
  fixes dev :: "u16 \<Rightarrow> u8"
  assumes "console_live k"
  defines "full \<equiv> bit (dev 0x64) 0"
  shows "\<exists>k'. keyboard_test dev k = Inr k'
    \<and> says (k\<lparr>k_io := k_io k @ In 0x64 (dev 0x64) # (if full then [In 0x60 (dev 0x60)] else [])\<rparr>)
      (line ''Testing keyboard controller...''
        @ ''Keyboard controller status: 0x'' @ int_text (ucast (dev 0x64)) 16 @ [CR, LF]
        @ (if full then ''Data in keyboard buffer: 0x'' @ int_text (ucast (dev 0x60)) 16 @ [CR, LF] else [])
        @ line ''Press any key to test interrupts...'') k'"
proof -
  have full: "dev 0x64 AND 1 \<noteq> 0 \<longleftrightarrow> full" by (simp add: full_def and_one_eq odd_iff_mod_2_eq_one bit_0 even_iff_mod_2_eq_zero) 
  obtain k1 where k1: "k_puts (line ''Testing keyboard controller...'') k = Inr k1" "says k (line ''Testing keyboard controller...'') k1"
    using k_puts_says[OF assms(1), of "line ''Testing keyboard controller...''"] by (auto simp: cstr_line)
  let ?io = "k_io k @ [In 0x64 (dev 0x64)]"
  let ?io' = "k_io k @ In 0x64 (dev 0x64) # (if full then [In 0x60 (dev 0x60)] else [])"
  have io1: "k_io k1 = k_io k" by (rule says_frame(7)[OF k1(2)])
  have "console_live (k1\<lparr>k_io := ?io\<rparr>)" using says_live[OF k1(2)] by (simp add: console_live_def)
  from k_printf_says[OF this keyboard_test_texts(1)] obtain k2 where
    k2: "k_printf (line ''Keyboard controller status: 0x%x'') [VInt (ucast (dev 0x64))] (k1\<lparr>k_io := ?io\<rparr>) = Inr k2"
    "says (k1\<lparr>k_io := ?io\<rparr>) (''Keyboard controller status: 0x'' @ int_text (ucast (dev 0x64)) 16 @ [CR, LF]) k2" by blast
  have io2: "k_io k2 = ?io" using says_frame(7)[OF k2(2)] by simp
  have live2: "console_live (k2\<lparr>k_io := x\<rparr>)" for x using says_live[OF k2(2)] by (simp add: console_live_def)
  let ?data = "if full then ''Data in keyboard buffer: 0x'' @ int_text (ucast (dev 0x60)) 16 @ [CR, LF] else []"
  obtain k3 where k3: "(if full then k_printf (line ''Data in keyboard buffer: 0x%x'') [VInt (ucast (dev 0x60))] (k2\<lparr>k_io := ?io'\<rparr>) else Inr (k2\<lparr>k_io := ?io'\<rparr>)) = Inr k3"
    "says (k2\<lparr>k_io := ?io'\<rparr>) ?data k3"
  proof (cases full)
    case True
    with k_printf_says[OF live2[of ?io'] keyboard_test_texts(2)[of "ucast (dev 0x60)"]] that show ?thesis by auto
  next
    case False
    with says_nil[OF live2[of ?io']] that show ?thesis by simp
  qed
  have "console_live k3" using says_live[OF k3(2)] by simp
  from k_puts_says[OF this, of "line ''Press any key to test interrupts...''"] obtain k4 where
    k4: "k_puts (line ''Press any key to test interrupts...'') k3 = Inr k4" "says k3 (line ''Press any key to test interrupts...'') k4"
    by (auto simp: cstr_line)
  have s: "says (k\<lparr>k_io := ?io'\<rparr>) (line ''Testing keyboard controller...'') (k1\<lparr>k_io := ?io'\<rparr>)"
    "says (k1\<lparr>k_io := ?io'\<rparr>) (''Keyboard controller status: 0x'' @ int_text (ucast (dev 0x64)) 16 @ [CR, LF]) (k2\<lparr>k_io := ?io'\<rparr>)"
    using says_io[OF k1(2), of ?io'] says_io[OF k2(2), of ?io'] by simp_all
  have sh: "k_shell k \<noteq> None" using says_frame(8)[OF k1(2)] by simp
  have same: "k2\<lparr>k_io := ?io\<rparr> = k2" using io2 by (cases k2) simp
  have "keyboard_test dev k = Inr k4"
    using sh k1(1) k2(1) k3(1) k4(1) io1 io2 full by (cases full) (simp_all add: keyboard_test_def inb_eq same)
  moreover note says_trans[OF s(1) says_trans[OF s(2) says_trans[OF k3(2) k4(2)]]]
  ultimately show ?thesis by (intro exI[of _ k4]) simp
qed

end
