(* ===== verification/Rootdir.thy ===== *)
theory Rootdir
  imports Kernel_State
begin

text \<open>
  Looking a file up by name in the root directory (the first part of source/kernel.c): the string
  comparison, the two directory callbacks, and the lookup, which first prints the whole directory
  and then searches it.

  A C string is the list of its characters; a NUL in the list ends it, as the terminator does.
\<close>

section \<open>Operations\<close>

definition at_string :: "char list \<Rightarrow> char" where
  "at_string s = (case s of [] \<Rightarrow> NUL | c # _ \<Rightarrow> c)"

function test_strcmp :: "char list \<Rightarrow> char list \<Rightarrow> int" where
  "test_strcmp s1 s2 = (if at_string s1 \<noteq> NUL \<and> at_string s1 = at_string s2
     then test_strcmp (tl s1) (tl s2)
     else of_char (at_string s1) - of_char (at_string s2))"
  by auto
termination
  by (relation "measure (\<lambda>(s1, s2). length s1)") (auto simp: at_string_def split: list.splits)

declare test_strcmp.simps [simp del]

record find_file_ctx =
  target_name :: "char list"
  found_inode :: u32
  found :: bool

definition find_file_callback :: "find_file_ctx dirent_cb" where
  "find_file_callback name inode ffc =
     (if test_strcmp name (target_name ffc) = 0
      then Inr (False, ffc\<lparr>found_inode := inode, found := True\<rparr>)
      else Inr (True, ffc))"

text \<open>The inode argument has no conversion in the format.\<close>

definition print_dir_cb :: "kernel dirent_cb" where
  "print_dir_cb name inode k =
     rbind (k_printf (line '' - %s'') [VStr (Some name), VInt inode] k) (\<lambda>k. Inr (True, k))"

definition ext2_find_file_inode_by_name :: "char list \<Rightarrow> kernel \<Rightarrow> (u32 \<times> kernel) res" where
  "ext2_find_file_inode_by_name filename k =
     rbind (ext2_read_inode (k_memory k) (k_fs k) EXT2_ROOT_INO) (\<lambda>root.
     case root of
       None \<Rightarrow> rbind (k_puts (line (''EXT2: Can'' @ [CHR 0x27] @ ''t read root inode'')) k) (\<lambda>k. Inr (0, k))
     | Some root_inode \<Rightarrow>
         rbind (k_puts (line ''Disk Contents:'') k) (\<lambda>k.
         rbind (ext2_read_dir (k_memory k) (k_fs k) root_inode print_dir_cb k) (\<lambda>k.
         rbind (ext2_read_dir (k_memory k) (k_fs k) root_inode find_file_callback
             \<lparr>target_name = filename, found_inode = 0, found = False\<rparr>) (\<lambda>ctx.
         rbind (if found ctx then Inr k
                else k_printf (line (''DEBUG: '' @ [CHR 0x27] @ ''%s'' @ [CHR 0x27]
                  @ '' not found in root (tried exact match)'')) [VStr (Some filename)] k) (\<lambda>k.
           Inr (found_inode ctx, k))))))"

section \<open>Specification\<close>

text \<open>The inode of the first entry with a name, and 0 when there is none.\<close>

fun lookup :: "char list \<Rightarrow> (char list \<times> u32) list \<Rightarrow> u32" where
  "lookup name [] = 0"
| "lookup name ((n, i) # es) = (if n = name then i else lookup name es)"

text \<open>A file system whose root directory's blocks hold lists of entries.\<close>

definition root_holds :: "memory \<Rightarrow> ext2_fs \<Rightarrow> dirent list list \<Rightarrow> bool" where
  "root_holds m fs dss \<longleftrightarrow> 512 \<le> unat (fs_block_size fs) \<and> (\<exists>root.
     ext2_read_inode m fs 2 = Inr (Some root) \<and>
     list_all2 (dir_block_holds m fs)
       (take (min 12 (unat (i_blocks root div (fs_block_size fs div 512)))) (i_block root)) dss)"

section \<open>Lemmas\<close>

lemma at_string_Cons [simp]: "at_string (c # s) = c"
  by (simp add: at_string_def)

lemma at_string_Nil [simp]: "at_string [] = NUL"
  by (simp add: at_string_def)

lemma cstr_start: "cstr s = (if at_string s = NUL then [] else at_string s # cstr (tl s))"
  by (cases s) (simp_all add: cstr_def)

text \<open>Two strings compare equal exactly when they are the same C string.\<close>

lemma test_strcmp_zero: "test_strcmp s1 s2 = 0 \<longleftrightarrow> cstr s1 = cstr s2"
proof (induction s1 s2 rule: test_strcmp.induct)
  case (1 s1 s2)
  show ?case
  proof (cases "at_string s1 \<noteq> NUL \<and> at_string s1 = at_string s2")
    case True
    then obtain c t1 t2 where "s1 = c # t1" "s2 = c # t2" "c \<noteq> NUL"
      by (cases s1; cases s2) auto
    with 1 True show ?thesis by (subst test_strcmp.simps) (simp add: cstr_def)
  next
    case False
    have "cstr s1 = cstr s2 \<longleftrightarrow> at_string s1 = at_string s2"
      using False by (subst (1 2) cstr_start) auto
    with False show ?thesis by (subst test_strcmp.simps) auto
  qed
qed

text \<open>The order of C strings: by the first character that differs, as an unsigned byte, a proper
  prefix first.\<close>

definition byte_less :: "(char \<times> char) set" where
  "byte_less = {(c, d). (of_char c :: int) < of_char d}"

lemma test_strcmp_negative: "test_strcmp s1 s2 < 0 \<longleftrightarrow> (cstr s1, cstr s2) \<in> lexord byte_less"
proof (induction s1 s2 rule: test_strcmp.induct)
  case (1 s1 s2)
  have irr: "(c, c) \<notin> byte_less" for c by (simp add: byte_less_def)
  show ?case
  proof (cases "at_string s1 \<noteq> NUL \<and> at_string s1 = at_string s2")
    case True
    with 1 irr show ?thesis
      by (subst test_strcmp.simps, subst (1 2) cstr_start) simp
  next
    case False
    have nul: "(0 :: int) < of_char c" if "c \<noteq> NUL" for c :: char
    proof -
      have "(of_char c :: int) \<noteq> of_char NUL" using that by (metis of_char_eq_iff)
      moreover have "(0 :: int) \<le> of_char c" by (metis of_nat_of_char of_nat_0_le_iff)
      ultimately show ?thesis by simp
    qed
    have "test_strcmp s1 s2 < 0 \<longleftrightarrow> (of_char (at_string s1) :: int) < of_char (at_string s2)"
      using False by (subst test_strcmp.simps) auto
    also have "\<dots> \<longleftrightarrow> (cstr s1, cstr s2) \<in> lexord byte_less"
      using False nul[of "at_string s1"] nul[of "at_string s2"]
      by (subst (1 2) cstr_start) (auto simp: byte_less_def)
    finally show ?thesis .
  qed
qed

lemma cstr_id: "NUL \<notin> set s \<Longrightarrow> cstr s = s"
  by (auto simp: cstr_def takeWhile_eq_all_conv)

lemma dir_listing_names: "list_all dirent_wf ds \<Longrightarrow> (n, i) \<in> set (dir_listing ds) \<Longrightarrow> NUL \<notin> set n"
  by (auto simp: dir_listing_def dirent_wf_def list_all_iff)

lemma root_listing_names:
  assumes "root_holds m fs dss" "(n, i) \<in> set (concat (map dir_listing dss))"
  shows "NUL \<notin> set n" "i \<noteq> 0"
proof -
  obtain blks where all: "list_all2 (dir_block_holds m fs) blks dss"
    using assms(1) by (auto simp: root_holds_def)
  from assms(2) obtain ds where ds: "ds \<in> set dss" "(n, i) \<in> set (dir_listing ds)" by auto
  then obtain blk where "dir_block_holds m fs blk ds"
    using all by (auto simp: list_all2_conv_all_nth in_set_conv_nth)
  then have "list_all dirent_wf ds" by (auto simp: dir_block_holds_def split: if_splits)
  with ds(2) dir_listing_names show "NUL \<notin> set n" by blast
  show "i \<noteq> 0" using ds(2) by (auto simp: dir_listing_def)
qed

text \<open>The search callback, run over a listing.\<close>

lemma find_run_lookup:
  assumes "NUL \<notin> set name" "\<forall>(n, i) \<in> set es. NUL \<notin> set n"
  shows "\<exists>g ctx. cb_run find_file_callback es \<lparr>target_name = name, found_inode = 0, found = False\<rparr> = Inr (g, ctx)
    \<and> found_inode ctx = lookup name es \<and> found ctx = (name \<in> fst ` set es)"
  using assms(2)
proof (induction es)
  case Nil
  then show ?case by auto
next
  case (Cons e es)
  obtain n i where e: "e = (n, i)" by (cases e)
  with Cons.prems have "cstr n = n" "cstr name = name" using assms(1) by (auto intro: cstr_id)
  then have "find_file_callback n i \<lparr>target_name = name, found_inode = 0, found = False\<rparr>
    = (if n = name then Inr (False, \<lparr>target_name = name, found_inode = i, found = True\<rparr>)
       else Inr (True, \<lparr>target_name = name, found_inode = 0, found = False\<rparr>))"
    by (simp add: find_file_callback_def test_strcmp_zero)
  with Cons e show ?case by auto
qed

text \<open>The printing callback, run over a listing.\<close>

definition entry_line :: "char list \<Rightarrow> char list" where
  "entry_line n = line ('' - '' @ n)"

lemma print_run_says:
  "console_live k \<Longrightarrow> \<forall>(n, i) \<in> set es. NUL \<notin> set n \<Longrightarrow>
    \<exists>k'. cb_run print_dir_cb es k = Inr (True, k') \<and> says k (concat (map (\<lambda>(n, i). entry_line n) es)) k'"
proof (induction es arbitrary: k)
  case Nil
  then show ?case by (simp add: says_nil)
next
  case (Cons e es)
  obtain n i where e: "e = (n, i)" by (cases e)
  with Cons.prems(2) have "cstr n = n" by (auto intro: cstr_id)
  then have "fmt_text (line '' - %s'') [VStr (Some n), VInt i] = Inr (entry_line n)"
    by (simp add: line_def entry_line_def)
  from k_printf_says[OF Cons.prems(1) this] obtain k1 where
    k1: "k_printf (line '' - %s'') [VStr (Some n), VInt i] k = Inr k1" "says k (entry_line n) k1" by blast
  have "console_live k1" using says_live[OF k1(2)] by simp
  from Cons.IH[OF this] Cons.prems(2) obtain k2 where
    k2: "cb_run print_dir_cb es k1 = Inr (True, k2)"
      "says k1 (concat (map (\<lambda>(n, i). entry_line n) es)) k2" by auto
  moreover from k1(1) have "print_dir_cb n i k = Inr (True, k1)" by (simp add: print_dir_cb_def)
  ultimately show ?case using e says_trans[OF k1(2) k2(2)] by simp
qed

definition not_found_line :: "char list \<Rightarrow> char list" where
  "not_found_line name = line (''DEBUG: '' @ [CHR 0x27] @ name @ [CHR 0x27] @ '' not found in root (tried exact match)'')"

text \<open>What the lookup prints.\<close>

definition lookup_text :: "char list \<Rightarrow> (char list \<times> u32) list \<Rightarrow> char list" where
  "lookup_text name es = line ''Disk Contents:'' @ concat (map (\<lambda>(n, i). entry_line n) es)
     @ (if name \<in> fst ` set es then [] else not_found_line name)"

lemma lookup_ok:
  assumes "root_holds (k_memory k) (k_fs k) dss" "console_live k" "NUL \<notin> set name"
  defines "es \<equiv> concat (map dir_listing dss)"
  shows "\<exists>k'. ext2_find_file_inode_by_name name k = Inr (lookup name es, k') \<and> says k (lookup_text name es) k'"
proof -
  obtain root where inode: "ext2_read_inode (k_memory k) (k_fs k) 2 = Inr (Some root)"
    and blocks: "512 \<le> unat (fs_block_size (k_fs k))" "list_all2 (dir_block_holds (k_memory k) (k_fs k))
       (take (min 12 (unat (i_blocks root div (fs_block_size (k_fs k) div 512)))) (i_block root)) dss"
    using assms(1) by (auto simp: root_holds_def)
  note walk = ext2_read_dir_listing[OF blocks, folded es_def]
  have names: "\<forall>(n, i) \<in> set es. NUL \<notin> set n"
    using root_listing_names(1)[OF assms(1)] unfolding es_def by blast
  obtain k1 where k1: "k_puts (line ''Disk Contents:'') k = Inr k1" "says k (line ''Disk Contents:'') k1"
    using k_puts_says[OF assms(2), of "line ''Disk Contents:''"] by (auto simp: cstr_line)
  have "console_live k1" using says_live[OF k1(2)] by simp
  from print_run_says[OF this names] obtain k2 where k2: "cb_run print_dir_cb es k1 = Inr (True, k2)"
    "says k1 (concat (map (\<lambda>(n, i). entry_line n) es)) k2" by blast
  obtain g ctx where ctx: "cb_run find_file_callback es
      \<lparr>target_name = name, found_inode = 0, found = False\<rparr> = Inr (g, ctx)"
    "found_inode ctx = lookup name es" "found ctx = (name \<in> fst ` set es)"
    using find_run_lookup[OF assms(3) names] by blast
  have live2: "console_live k2" using says_live[OF k2(2)] by simp
  have fmt: "fmt_text (line (''DEBUG: '' @ [CHR 0x27] @ ''%s'' @ [CHR 0x27]
      @ '' not found in root (tried exact match)'')) [VStr (Some name)] = Inr (not_found_line name)"
    using cstr_id[OF assms(3)] by (simp add: line_def not_found_line_def)
  obtain k3 where k3: "(if name \<in> fst ` set es then Inr k2
      else k_printf (line (''DEBUG: '' @ [CHR 0x27] @ ''%s'' @ [CHR 0x27]
        @ '' not found in root (tried exact match)'')) [VStr (Some name)] k2) = Inr k3"
    "says k2 (if name \<in> fst ` set es then [] else not_found_line name) k3"
    using says_nil[OF live2] k_printf_says[OF live2 fmt] by (cases "name \<in> fst ` set es") auto
  have fr: "k_memory k1 = k_memory k" "k_fs k1 = k_fs k" "k_memory k2 = k_memory k" "k_fs k2 = k_fs k"
    using says_frame[OF k1(2)] says_frame[OF k2(2)] by simp_all
  have "ext2_find_file_inode_by_name name k = Inr (lookup name es, k3)"
    using k1(1) k2(1) ctx k3(1)
    by (simp add: ext2_find_file_inode_by_name_def inode walk fr)
  moreover have "says k (lookup_text name es) k3"
    unfolding lookup_text_def by (intro says_trans[OF k1(2)] says_trans[OF k2(2)] k3(2))
  ultimately show ?thesis by blast
qed

section \<open>Properties\<close>

text \<open>C40: the comparison is the order of C strings. \<open>test_strcmp\<close> is zero exactly on equal strings,
  negative exactly when the first precedes the second lexicographically by unsigned bytes (a prefix
  first), and positive otherwise; what follows a NUL plays no part.\<close>

theorem test_strcmp_order:
  "(test_strcmp s1 s2 = 0 \<longleftrightarrow> cstr s1 = cstr s2)
    \<and> (test_strcmp s1 s2 < 0 \<longleftrightarrow> (cstr s1, cstr s2) \<in> lexord {(c, d). (of_char c :: int) < of_char d})"
  using test_strcmp_zero test_strcmp_negative by (simp add: byte_less_def)

text \<open>C32: looking a file up. When the root directory's blocks hold well-formed entries, the lookup
  returns the inode of the first entry with exactly that name and 0 when there is none; it prints
  the heading, one line per entry in disk order and, only for a missing file, the diagnostic;
  nothing but the console changes.\<close>

theorem find_file_first_match:
  assumes "ext2_read_inode (k_memory k) (k_fs k) 2 = Inr (Some root)"
    "512 \<le> unat (fs_block_size (k_fs k))"
    "list_all2 (dir_block_holds (k_memory k) (k_fs k))
      (take (min 12 (unat (i_blocks root div (fs_block_size (k_fs k) div 512)))) (i_block root)) dss"
    "k_shell k = Some sh" "con_ok sh" "NUL \<notin> set name" "es = concat (map dir_listing dss)"
  shows "\<exists>t. ext2_find_file_inode_by_name name k = Inr (case find (\<lambda>e. fst e = name) es of
        None \<Rightarrow> 0 | Some e \<Rightarrow> snd e, k\<lparr>k_shell := Some t\<rparr>)
    \<and> con_of t = fold con_step (line ''Disk Contents:'' @ concat (map (\<lambda>e. line ('' - '' @ fst e)) es)
        @ (if name \<in> fst ` set es then []
           else line (''DEBUG: '' @ [CHR 0x27] @ name @ [CHR 0x27] @ '' not found in root (tried exact match)'')))
        (con_of sh)"
proof -
  have root: "root_holds (k_memory k) (k_fs k) dss" using assms(1-3) by (auto simp: root_holds_def)
  have live: "console_live k" using assms(4,5) by (auto simp: console_live_def)
  have "lookup name es = (case find (\<lambda>e. fst e = name) es of None \<Rightarrow> 0 | Some e \<Rightarrow> snd e)"
    by (induction es) auto
  moreover have "(\<lambda>(n, i). entry_line n) = (\<lambda>e :: char list \<times> u32. line ('' - '' @ fst e))"
    by (auto simp: entry_line_def)
  ultimately have printed: "lookup_text name es = line ''Disk Contents:'' @ concat (map (\<lambda>e. line ('' - '' @ fst e)) es)
      @ (if name \<in> fst ` set es then []
         else line (''DEBUG: '' @ [CHR 0x27] @ name @ [CHR 0x27] @ '' not found in root (tried exact match)''))"
    and look: "lookup name es = (case find (\<lambda>e. fst e = name) es of None \<Rightarrow> 0 | Some e \<Rightarrow> snd e)"
    by (simp_all only: lookup_text_def not_found_line_def)
  obtain k' where k': "ext2_find_file_inode_by_name name k = Inr (lookup name es, k')"
    "says k (lookup_text name es) k'"
    using lookup_ok[OF root live assms(6)] assms(7) by blast
  from k'(2) assms(4) obtain t where "k' = k\<lparr>k_shell := Some t\<rparr>"
    "con_of t = fold con_step (lookup_text name es) (con_of sh)"
    by (auto simp: says_def)
  with k'(1) show ?thesis unfolding look printed by blast
qed

text \<open>The entries of the small disk.\<close>

definition demo_kernel_fs :: "shell \<Rightarrow> kernel" where
  "demo_kernel_fs sh = \<lparr>k_memory = demo_disk, k_shell = Some sh, k_pmm = pmm_fresh 0x100000 1024,
     k_gdt = gdt_boot, k_idt = idt_boot, k_procs = proc_static, k_fs = demo_fs\<lparr>fs_bgdt := 0x200800\<rparr>, k_io = []\<rparr>"

theorem find_file_first_match_witness:
  "\<exists>sh t. sh_init sh_raw (blank_cells 2000) 80 2000 = Inr sh
    \<and> ext2_find_file_inode_by_name ''example.bin'' (demo_kernel_fs sh)
      = Inr (12, (demo_kernel_fs sh)\<lparr>k_shell := Some t\<rparr>)"
proof -
  from sh_raw_init[of 80 2000] obtain sh where sh: "sh_init sh_raw (blank_cells 2000) 80 2000 = Inr sh"
    "con_ok sh" by auto
  let ?k = "demo_kernel_fs sh" and ?fs = "demo_fs\<lparr>fs_bgdt := 0x200800\<rparr>"
  have k: "k_memory ?k = demo_disk" "k_fs ?k = ?fs" "k_shell ?k = Some sh" by (simp_all add: demo_kernel_fs_def)
  have sb: "s_log_block_size demo_sb \<le> 21" "s_inodes_per_group demo_sb \<noteq> 0" by (simp_all add: demo_sb_def)
  from ext2_read_inode_ok[OF sb, of 2 ?fs demo_disk]
  have "ext2_read_inode demo_disk ?fs 2 = Inr (Some (load_inode demo_disk 0x200C80))"
    using demo_location(1) by (simp add: demo_fs_def demo_sb_valid)
  then have root: "ext2_read_inode demo_disk ?fs 2 = Inr (Some demo_root)"
    using load_inode_holds[OF demo_holds(3)] by (simp add: demo_root_def)
  have "dir_block_holds demo_disk ?fs 5 demo_entries"
    using demo_root_holds by (simp add: dir_block_holds_def demo_fs_def)
  then have blocks: "list_all2 (dir_block_holds demo_disk ?fs)
      (take (min 12 (unat (i_blocks demo_root div (fs_block_size ?fs div 512)))) (i_block demo_root)) [demo_entries]"
    by (simp add: demo_root_def demo_inode_def demo_fs_def)
  have listing: "concat (map dir_listing [demo_entries]) = [(''.'', 2), (''example.bin'', 12)]"
    by (simp add: dir_listing_def demo_entries_def)
  have bs: "512 \<le> unat (fs_block_size ?fs)" by (simp add: demo_fs_def)
  note found = find_file_first_match[of ?k demo_root "[demo_entries]" sh "''example.bin''", unfolded k,
      OF root bs blocks refl sh(2) _ listing[symmetric]]
  then show ?thesis using sh(1) by auto
qed

end
