(* ===== verification/Usermode.thy ===== *)
theory Usermode
  imports Rootdir
begin

text \<open>
  Going to user mode (source/system/usermode/usermode.c, usermode.h): a process with its kernel
  stack, the program loaded from the root directory to the user code address, and the stack frame
  that \<open>iret\<close> consumes to drop to ring 3.

  The registers the CPU has after the switch are a record of their own; the inline assembly of
  \<open>um_switch\<close> is translated instruction by instruction.
\<close>

section \<open>Loading a program\<close>

text \<open>The part of \<open>um_setup_env\<close> after the lookup.\<close>

definition um_load :: "char list \<Rightarrow> u32 \<Rightarrow> kernel \<Rightarrow> kernel res" where
  "um_load program_name inode_num k =
     rbind (if inode_num = 0 then Inr None else ext2_read_inode (k_memory k) (k_fs k) inode_num) (\<lambda>found_inode.
     case found_inode of
       None \<Rightarrow> k_printf (line ''Failed to find program: %s'') [VStr (Some program_name)] k
     | Some inode \<Rightarrow>
         rbind (ext2_read_file (k_memory k) (k_fs k) inode USER_CODE_BASE (i_size_lo inode) 0) (\<lambda>(bytes_read, m).
         let k = k\<lparr>k_memory := m\<rparr> in
         if bytes_read \<noteq> i_size_lo inode then
           k_printf (line ''Failed to read complete program (read %d of %d bytes)'')
             [VInt bytes_read, VInt (i_size_lo inode)] k
         else Inr k))"

definition um_setup_env :: "char list \<Rightarrow> kernel \<Rightarrow> kernel res" where
  "um_setup_env program_name k =
     rbind (proc_create (k_procs k) (k_pmm k)) (\<lambda>(proc, pm, p).
     let k = k\<lparr>k_procs := pm, k_pmm := p\<rparr> in
     case proc of
       None \<Rightarrow> k_puts (line ''Failed to create process'') k
     | Some pid \<Rightarrow>
         rbind (arr_get (process_table pm) pid) (\<lambda>pr.
         let k = k\<lparr>k_idt := tss_set_kernel_stack (pr_kernel_stack_top pr) (k_idt k)\<rparr> in
         rbind (ext2_find_file_inode_by_name program_name k) (\<lambda>(inode_num, k).
           um_load program_name inode_num k)))"

section \<open>The switch\<close>

record user_context =
  uc_eip :: u32
  uc_cs :: u32
  uc_eflags :: u32
  uc_esp :: u32
  uc_ss :: u32
  uc_ds :: u32
  uc_es :: u32
  uc_fs :: u32
  uc_gs :: u32

text \<open>\<open>mov $0x23\<close> into the four data segment registers.\<close>

definition load_user_segments :: "user_context \<Rightarrow> user_context" where
  "load_user_segments c = c\<lparr>uc_ds := 0x23, uc_es := 0x23, uc_fs := 0x23, uc_gs := 0x23\<rparr>"

text \<open>The stack after the pushes, top first: each step is one instruction.\<close>

definition user_frame :: "u32 \<Rightarrow> u32 list" where
  "user_frame eflags =
     (let st = [0x23];
          st = USER_STACK_TOP # st;
          st = eflags # st;
          st = (hd st OR 0x200) # tl st;
          st = 0x1B # st
      in USER_CODE_BASE # st)"

text \<open>\<open>iret\<close> to an outer ring pops five words.\<close>

definition iret :: "u32 list \<Rightarrow> user_context \<Rightarrow> user_context" where
  "iret st c = c\<lparr>uc_eip := st ! 0, uc_cs := st ! 1, uc_eflags := st ! 2, uc_esp := st ! 3, uc_ss := st ! 4\<rparr>"

definition um_switch :: "user_context \<Rightarrow> user_context" where
  "um_switch c = iret (user_frame (uc_eflags c)) (load_user_segments c)"

section \<open>Lemmas\<close>

lemma um_switch_eq:
  "um_switch c = c\<lparr>uc_eip := 0x400000, uc_cs := 0x1B, uc_eflags := uc_eflags c OR 0x200, uc_esp := 0x800000,
     uc_ss := 0x23, uc_ds := 0x23, uc_es := 0x23, uc_fs := 0x23, uc_gs := 0x23\<rparr>"
  by (simp add: um_switch_def iret_def user_frame_def load_user_segments_def Let_def)

text \<open>How much of a program is loaded, and what is then said about it.\<close>

definition loaded_bytes :: "ext2_fs \<Rightarrow> ext2_inode \<Rightarrow> nat" where
  "loaded_bytes fs inode = min (unat (i_size_lo inode)) (12 * unat (fs_block_size fs))"

definition short_read_text :: "ext2_fs \<Rightarrow> ext2_inode \<Rightarrow> char list" where
  "short_read_text fs inode = (if loaded_bytes fs inode = unat (i_size_lo inode) then []
     else line (''Failed to read complete program (read '' @ int_text (of_nat (loaded_bytes fs inode)) 10
       @ '' of '' @ int_text (i_size_lo inode) 10 @ '' bytes)''))"

text \<open>A program file that can be loaded to the user code address.\<close>

definition loadable :: "ext2_fs \<Rightarrow> ext2_inode \<Rightarrow> bool" where
  "loadable fs inode \<longleftrightarrow> 0 < unat (fs_block_size fs) \<and> length (i_block inode) = 12
     \<and> buffer_apart fs inode 0x400000 (unat (i_size_lo inode))
     \<and> unat (i_size_lo inode) + unat (fs_block_size fs) \<le> 4294967296"

lemma um_load_missing:
  assumes "console_live k"
  shows "\<exists>k'. um_load name 0 k = Inr k' \<and> says k (line (''Failed to find program: '' @ cstr name)) k'"
proof -
  have "fmt_text (line ''Failed to find program: %s'') [VStr (Some name)]
      = Inr (line (''Failed to find program: '' @ cstr name))"
    by (simp add: line_def)
  from k_printf_says[OF assms this] show ?thesis by (simp add: um_load_def)
qed

lemma um_load_ok:
  assumes "console_live k" "ino \<noteq> 0" "ext2_read_inode (k_memory k) (k_fs k) ino = Inr (Some inode)"
    "loadable (k_fs k) inode"
  shows "\<exists>m k'. um_load name ino k = Inr k'
    \<and> stored_upto (k_memory k) (k_fs k) inode 0x400000 0 (loaded_bytes (k_fs k) inode) m
    \<and> says (k\<lparr>k_memory := m\<rparr>) (short_read_text (k_fs k) inode) k'"
proof -
  let ?n = "loaded_bytes (k_fs k) inode" and ?size = "i_size_lo inode"
  have l: "0 < unat (fs_block_size (k_fs k))" "length (i_block inode) = 12"
    "buffer_apart (k_fs k) inode 0x400000 (unat ?size)"
    "unat ?size + unat (fs_block_size (k_fs k)) \<le> 4294967296"
    using assms(4) by (simp_all add: loadable_def)
  have "unat (0 :: u32) + unat ?size < 4294967296" using unat_lt_32[of ?size] by simp
  from ext2_read_file_ok[OF l(1,2) _ l(3) this l(4), of "k_memory k"] obtain m where
    m: "ext2_read_file (k_memory k) (k_fs k) inode 0x400000 ?size 0 = Inr (of_nat ?n, m)"
      "stored_upto (k_memory k) (k_fs k) inode 0x400000 0 ?n m"
    by (auto simp: loaded_bytes_def)
  have "unat (of_nat ?n :: u32) = ?n"
    using unat_lt_32[of ?size] by (intro unat_of_nat_exact) (simp add: loaded_bytes_def min_less_iff_disj)
  then have eq: "of_nat ?n = ?size \<longleftrightarrow> ?n = unat ?size" by (metis unat_eq_iff32)
  have live: "console_live (k\<lparr>k_memory := m\<rparr>)" using assms(1) by simp
  show ?thesis
  proof (cases "?n = unat ?size")
    case True
    with eq m assms(2,3) says_nil[OF live] show ?thesis
      by (auto simp: um_load_def short_read_text_def Let_def)
  next
    case False
    have "fmt_text (line ''Failed to read complete program (read %d of %d bytes)'') [VInt (of_nat ?n), VInt ?size]
        = Inr (short_read_text (k_fs k) inode)"
      using False by (simp add: line_def short_read_text_def)
    from k_printf_says[OF live this] False eq m assms(2,3) show ?thesis
      by (auto simp: um_load_def Let_def)
  qed
qed

text \<open>The state after the process is created: its slot, its kernel stack, the TSS.\<close>

definition with_process :: "kernel \<Rightarrow> pmm \<Rightarrow> kernel" where
  "with_process k q = (let pid = Min (unused_slots (k_procs k)); stack = sector_addr (k_pmm k) (Min (pmm_free (k_pmm k)));
     t = process_table (k_procs k) in
     k\<lparr>k_procs := \<lparr>process_table = t[pid := (t ! pid)\<lparr>pr_state := 1, pr_kernel_stack_top := stack,
           pr_user_stack_top := 0x800000\<rparr>], current_process = Some pid\<rparr>,
       k_pmm := q, k_idt := tss_set_kernel_stack stack (k_idt k)\<rparr>)"

lemma with_process_sel [simp]:
  "k_memory (with_process k q) = k_memory k" "k_shell (with_process k q) = k_shell k"
  "k_gdt (with_process k q) = k_gdt k" "k_fs (with_process k q) = k_fs k"
  "k_io (with_process k q) = k_io k" "k_pmm (with_process k q) = q"
  "console_live (with_process k q) = console_live k"
  by (simp_all add: with_process_def Let_def console_live_def)

lemma um_setup_env_ok:
  assumes "console_live k" "proc_shape (k_procs k)" "unused_slots (k_procs k) \<noteq> {}"
    "pmm_ok (k_pmm k)" "pmm_free (k_pmm k) \<noteq> {}"
    "root_holds (k_memory k) (k_fs k) dss" "NUL \<notin> set name"
  defines "es \<equiv> concat (map dir_listing dss)"
  shows "\<exists>q k1. pmm_ok q \<and> pmm_free q = pmm_free (k_pmm k) - {Min (pmm_free (k_pmm k))}
    \<and> mem_phys_start q = mem_phys_start (k_pmm k)
    \<and> says (with_process k q) (lookup_text name es) k1
    \<and> um_setup_env name k = um_load name (lookup name es) k1"
proof -
  let ?pid = "Min (unused_slots (k_procs k))"
  obtain q where q: "mem_phys_alloc (k_pmm k) = Inr (sector_addr (k_pmm k) (Min (pmm_free (k_pmm k))), q)"
    "pmm_ok q" "pmm_free q = pmm_free (k_pmm k) - {Min (pmm_free (k_pmm k))}" "mem_phys_start q = mem_phys_start (k_pmm k)"
    using mem_phys_alloc_nonempty[OF assms(4,5)] by blast
  have "finite (unused_slots (k_procs k))" by (simp add: unused_slots_def)
  then have "?pid \<in> unused_slots (k_procs k)" using assms(3) by simp
  then have pid: "?pid < length (process_table (k_procs k))"
    using assms(2) by (simp add: unused_slots_def proc_shape_def)
  have "console_live (with_process k q)" using assms(1) by simp
  from lookup_ok[OF _ this assms(7), of dss] assms(6) obtain k1 where
    k1: "ext2_find_file_inode_by_name name (with_process k q) = Inr (lookup name es, k1)"
      "says (with_process k q) (lookup_text name es) k1"
    by (auto simp: es_def)
  have "um_setup_env name k = um_load name (lookup name es) k1"
    using proc_create_ok[OF assms(2,3) q(1)] pid k1(1)
    by (simp add: um_setup_env_def with_process_def Let_def)
  with q k1(2) show ?thesis by blast
qed

end
