(* ===== verification/Entry.thy ===== *)
theory Entry
  imports Interrupts Usermode
begin

text \<open>
  The way into the kernel's handlers and back (arch/x86/idt_asm.asm): what the CPU pushes when a
  gate is taken, the assembly stubs that complete the interrupt frame on the stack and call the C
  handler with its address, and the way out through \<open>iret\<close>.

  The stubs are lists of instructions, executed on the registers and the byte memory; the stack is
  memory. Selectors are kept zero-extended to 32 bits. What the compiled handler leaves in the
  registers it need not save, and the return address of its call, are parameters; its own local
  variables, further down the stack, are not modelled.
\<close>

section \<open>Registers and instructions\<close>

record regs = user_context +
  uc_eax :: u32
  uc_ebx :: u32
  uc_ecx :: u32
  uc_edx :: u32
  uc_esi :: u32
  uc_edi :: u32
  uc_ebp :: u32

datatype seg = Seg_ds | Seg_es | Seg_fs | Seg_gs

datatype instr = Push_imm u32 | Push_esp | Pushad | Popad | Push_seg seg | Pop_seg seg
  | Mov_ax u16 | Mov_seg seg | Add_esp u32 | Iret
  | Cli | Mov_esp u32 | Popf | Push_eax | Push_ebx

definition store32 :: "memory \<Rightarrow> u32 \<Rightarrow> u32 \<Rightarrow> memory" where
  "store32 m a v = write_bytes m a (le32 v)"

definition push :: "u32 \<Rightarrow> regs \<times> memory \<Rightarrow> regs \<times> memory" where
  "push w = (\<lambda>(c, m). (c\<lparr>uc_esp := uc_esp c - 4\<rparr>, store32 m (uc_esp c - 4) w))"

fun get_seg :: "seg \<Rightarrow> regs \<Rightarrow> u32" where
  "get_seg Seg_ds c = uc_ds c"
| "get_seg Seg_es c = uc_es c"
| "get_seg Seg_fs c = uc_fs c"
| "get_seg Seg_gs c = uc_gs c"

fun set_seg :: "seg \<Rightarrow> u32 \<Rightarrow> regs \<Rightarrow> regs" where
  "set_seg Seg_ds v c = c\<lparr>uc_ds := v\<rparr>"
| "set_seg Seg_es v c = c\<lparr>uc_es := v\<rparr>"
| "set_seg Seg_fs v c = c\<lparr>uc_fs := v\<rparr>"
| "set_seg Seg_gs v c = c\<lparr>uc_gs := v\<rparr>"

text \<open>\<open>iret\<close> takes the stack pointer and stack segment from the stack only when it goes to an
  outer ring.\<close>

definition iret_regs :: "memory \<Rightarrow> regs \<Rightarrow> regs" where
  "iret_regs m c =
     (let sp = uc_esp c; cs = load32 m (sp + 4);
          d = c\<lparr>uc_eip := load32 m sp, uc_cs := cs, uc_eflags := load32 m (sp + 8)\<rparr>
      in if cs AND 3 > uc_cs c AND 3 then d\<lparr>uc_esp := load32 m (sp + 12), uc_ss := load32 m (sp + 16)\<rparr>
         else d\<lparr>uc_esp := sp + 12\<rparr>)"

text \<open>\<open>popf\<close> in ring 0 takes all flags but RF and VM (bits 16 and 17); bit 1 is always set.\<close>

fun exec :: "instr \<Rightarrow> regs \<times> memory \<Rightarrow> regs \<times> memory" where
  "exec (Push_imm v) (c, m) = push v (c, m)"
| "exec Push_esp (c, m) = push (uc_esp c) (c, m)"
| "exec Pushad (c, m) = fold push [uc_eax c, uc_ecx c, uc_edx c, uc_ebx c, uc_esp c, uc_ebp c, uc_esi c, uc_edi c] (c, m)"
| "exec Popad (c, m) = (let sp = uc_esp c in
     (c\<lparr>uc_edi := load32 m sp, uc_esi := load32 m (sp + 4), uc_ebp := load32 m (sp + 8),
        uc_ebx := load32 m (sp + 16), uc_edx := load32 m (sp + 20), uc_ecx := load32 m (sp + 24),
        uc_eax := load32 m (sp + 28), uc_esp := sp + 32\<rparr>, m))"
| "exec (Push_seg s) (c, m) = push (get_seg s c) (c, m)"
| "exec (Pop_seg s) (c, m) = ((set_seg s (load32 m (uc_esp c)) c)\<lparr>uc_esp := uc_esp c + 4\<rparr>, m)"
| "exec (Mov_ax v) (c, m) = (c\<lparr>uc_eax := (uc_eax c AND NOT 0xFFFF) OR ucast v\<rparr>, m)"
| "exec (Mov_seg s) (c, m) = (set_seg s (uc_eax c AND 0xFFFF) c, m)"
| "exec (Add_esp n) (c, m) = (c\<lparr>uc_esp := uc_esp c + n\<rparr>, m)"
| "exec Iret (c, m) = (iret_regs m c, m)"
| "exec Cli (c, m) = (c\<lparr>uc_eflags := uc_eflags c AND NOT 0x200\<rparr>, m)"
| "exec (Mov_esp v) (c, m) = (c\<lparr>uc_esp := v\<rparr>, m)"
| "exec Popf (c, m) = (c\<lparr>uc_eflags := (load32 m (uc_esp c) AND NOT 0x30000) OR 2, uc_esp := uc_esp c + 4\<rparr>, m)"
| "exec Push_eax (c, m) = push (uc_eax c) (c, m)"
| "exec Push_ebx (c, m) = push (uc_ebx c) (c, m)"

section \<open>The stubs\<close>

text \<open>The exceptions for which the stubs rely on the CPU having pushed an error code.\<close>

definition error_code_vectors :: "nat list" where
  "error_code_vectors = [8, 10, 11, 12, 13, 14]"

definition isr_stub :: "nat \<Rightarrow> instr list" where
  "isr_stub v = (if v \<in> set error_code_vectors then [Push_imm (of_nat v)]
     else [Push_imm 0, Push_imm (of_nat v)])"

definition irq_stub :: "nat \<Rightarrow> instr list" where
  "irq_stub n = [Push_imm 0, Push_imm (32 + of_nat n)]"

text \<open>\<open>isr_common\<close> and \<open>irq_common\<close> are the same but for the handler they call: the part before the
  call and the part after it.\<close>

definition common_enter :: "instr list" where
  "common_enter = [Pushad, Push_seg Seg_ds, Push_seg Seg_es, Push_seg Seg_fs, Push_seg Seg_gs,
     Mov_ax 0x10, Mov_seg Seg_ds, Mov_seg Seg_es, Mov_seg Seg_fs, Mov_seg Seg_gs, Push_esp]"

definition common_leave :: "instr list" where
  "common_leave = [Add_esp 4, Pop_seg Seg_gs, Pop_seg Seg_fs, Pop_seg Seg_es, Pop_seg Seg_ds,
     Popad, Add_esp 8, Iret]"

text \<open>The frame as the handler sees it through its pointer, and what it leaves there.\<close>

definition frame_at :: "memory \<Rightarrow> u32 \<Rightarrow> frame" where
  "frame_at m a = \<lparr>fr_gs = load32 m a, fr_fs = load32 m (a + 4), fr_es = load32 m (a + 8),
     fr_ds = load32 m (a + 12), fr_edi = load32 m (a + 16), fr_esi = load32 m (a + 20),
     fr_ebp = load32 m (a + 24), fr_esp = load32 m (a + 28), fr_ebx = load32 m (a + 32),
     fr_edx = load32 m (a + 36), fr_ecx = load32 m (a + 40), fr_eax = load32 m (a + 44),
     fr_int_no = load32 m (a + 48), fr_err_code = load32 m (a + 52), fr_eip = load32 m (a + 56),
     fr_cs = load32 m (a + 60), fr_eflags = load32 m (a + 64), fr_useresp = load32 m (a + 68),
     fr_ss = load32 m (a + 72)\<rparr>"

definition frame_words :: "frame \<Rightarrow> u32 list" where
  "frame_words fr = [fr_gs fr, fr_fs fr, fr_es fr, fr_ds fr, fr_edi fr, fr_esi fr, fr_ebp fr, fr_esp fr,
     fr_ebx fr, fr_edx fr, fr_ecx fr, fr_eax fr, fr_int_no fr, fr_err_code fr, fr_eip fr, fr_cs fr,
     fr_eflags fr, fr_useresp fr, fr_ss fr]"

fun store_words :: "memory \<Rightarrow> u32 \<Rightarrow> u32 list \<Rightarrow> memory" where
  "store_words m a [] = m"
| "store_words m a (w # ws) = store_words (store32 m a w) (a + 4) ws"

text \<open>\<open>call handler\<close> with the frame pointer on the stack. The handler takes the frame and the kernel
  state; the flag of its result says that it halts. The frame is written back where it was read: a
  user read whose buffer overlapped the handler's stack is outside this model.\<close>

record clobbered =
  cl_eax :: u32
  cl_ecx :: u32
  cl_edx :: u32
  cl_eflags :: u32

definition call_handler ::
    "(frame \<Rightarrow> kernel \<Rightarrow> (bool \<times> frame \<times> kernel) res) \<Rightarrow> u32 \<Rightarrow> clobbered \<Rightarrow> regs \<times> kernel \<Rightarrow> (bool \<times> regs \<times> kernel) res"
where
  "call_handler h ret cl = (\<lambda>(c, k).
     let (_, m) = push ret (c, k_memory k);
         p = load32 m (uc_esp c)
     in rbind (h (frame_at m p) (k\<lparr>k_memory := m\<rparr>)) (\<lambda>(halts, fr, k).
       Inr (halts, c\<lparr>uc_eax := cl_eax cl, uc_ecx := cl_ecx cl, uc_edx := cl_edx cl, uc_eflags := cl_eflags cl\<rparr>,
         k\<lparr>k_memory := store_words (k_memory k) p (frame_words fr)\<rparr>)))"

text \<open>A stub from its first instruction on: the registers it returns with, or \<open>None\<close> when the handler
  halts.\<close>

definition run_stub ::
    "(frame \<Rightarrow> kernel \<Rightarrow> (bool \<times> frame \<times> kernel) res) \<Rightarrow> instr list \<Rightarrow> u32 \<Rightarrow> clobbered \<Rightarrow> regs \<times> kernel
      \<Rightarrow> (regs option \<times> kernel) res"
where
  "run_stub h stub ret cl = (\<lambda>(c, k).
     let (c, m) = fold exec (stub @ common_enter) (c, k_memory k) in
     rbind (call_handler h ret cl (c, k\<lparr>k_memory := m\<rparr>)) (\<lambda>(halts, c, k).
       if halts then Inr (None, k)
       else let (c, m) = fold exec common_leave (c, k_memory k) in Inr (Some c, k\<lparr>k_memory := m\<rparr>)))"

text \<open>\<open>irq_handler\<close> in the shape of \<open>interrupt_handler\<close>: it never changes the frame and never halts.\<close>

definition irq_handler_call :: "(u16 \<Rightarrow> u8) \<Rightarrow> frame \<Rightarrow> kernel \<Rightarrow> (bool \<times> frame \<times> kernel) res" where
  "irq_handler_call dev fr k = rbind (irq_handler dev fr k) (\<lambda>k. Inr (False, fr, k))"

section \<open>Taking a gate\<close>

text \<open>
  What the processor manual says of an interrupt through a gate: from an outer ring the CPU takes the
  ring 0 stack of the TSS and pushes the old one; then flags, code segment and instruction pointer
  and, for some exceptions, an error code. An interrupt gate also clears the interrupt flag (bit 9);
  both kinds clear TF, NT, RF and VM.
\<close>

definition gate_flags :: "gate_kind \<Rightarrow> u32 \<Rightarrow> u32" where
  "gate_flags kind fl = fl AND NOT 0x34100 AND (if kind = Interrupt_Gate then NOT 0x200 else NOT 0)"

definition deliver :: "idt \<Rightarrow> nat \<Rightarrow> u32 option \<Rightarrow> regs \<times> memory \<Rightarrow> (regs \<times> memory) option" where
  "deliver s v err = (\<lambda>(c, m). case gate_of (idt_entries s ! v) of
     None \<Rightarrow> None
   | Some g \<Rightarrow>
       let stacked = (if uc_cs c AND 3 = 0 then (c, m)
             else fold push [uc_ss c, uc_esp c] (c\<lparr>uc_esp := tss_esp0 (idt_tss s), uc_ss := tss_ss0 (idt_tss s)\<rparr>, m));
           (d, m') = fold push ([uc_eflags c, uc_cs c, uc_eip c] @ (case err of None \<Rightarrow> [] | Some e \<Rightarrow> [e])) stacked
       in Some (d\<lparr>uc_eip := gate_handler g, uc_cs := ucast (gate_selector g),
            uc_eflags := gate_flags (gate_kind g) (uc_eflags d)\<rparr>, m'))"

section \<open>Lemmas: words on the stack\<close>

lemma store32_outside: "\<not> in_range a 4 x \<Longrightarrow> store32 m a v x = m x"
  by (simp add: store32_def write_bytes_at)

lemma load32_store32 [simp]: "load32 (store32 m a v) a = v"
proof (rule holds_le32)
  show "holds (store32 m a v) a (le32 v)"
    unfolding holds_nth
  proof (intro allI impI)
    fix i assume i: "i < length (le32 v)"
    then have "unat (of_nat i :: u32) = i" by (intro unat_of_nat_exact) simp
    with i show "store32 m a v (a + of_nat i) = le32 v ! i"
      by (simp add: store32_def write_bytes_at in_range_def)
  qed
qed

lemma load32_agree: "(\<And>x. in_range a 4 x \<Longrightarrow> m' x = m x) \<Longrightarrow> load32 m' a = load32 m a"
proof -
  assume eq: "\<And>x. in_range a 4 x \<Longrightarrow> m' x = m x"
  have "in_range a 4 a" "in_range a 4 (a + 1)" "in_range a 4 (a + 2)" "in_range a 4 (a + 3)"
    by (simp_all add: in_range_def)
  with eq show ?thesis by (simp add: load32_def)
qed

text \<open>\<open>stack_at m sp ws\<close>: the words \<open>ws\<close> are in memory from \<open>sp\<close> upwards.\<close>

fun stack_at :: "memory \<Rightarrow> u32 \<Rightarrow> u32 list \<Rightarrow> bool" where
  "stack_at m sp [] = True"
| "stack_at m sp (w # ws) \<longleftrightarrow> load32 m sp = w \<and> stack_at m (sp + 4) ws"

lemma stack_at_cong:
  "4 * length ws \<le> 4294967296 \<Longrightarrow> (\<And>x. in_range sp (4 * length ws) x \<Longrightarrow> m' x = m x) \<Longrightarrow>
    stack_at m' sp ws = stack_at m sp ws"
proof (induction ws arbitrary: sp)
  case Nil
  then show ?case by simp
next
  case (Cons w ws)
  have split: "in_range sp (4 + 4 * length ws) x \<longleftrightarrow> in_range sp 4 x \<or> in_range (sp + 4) (4 * length ws) x" for x
    using in_range_split[of 4 "4 * length ws" sp x] Cons.prems(1) by simp
  have "load32 m' sp = load32 m sp" by (rule load32_agree) (use Cons.prems(2) split in simp)
  moreover have "stack_at m' (sp + 4) ws = stack_at m (sp + 4) ws"
    by (rule Cons.IH) (use Cons.prems split in simp_all)
  ultimately show ?case by simp
qed

text \<open>The memory after pushing a list of words, the first one first.\<close>

fun push_words :: "u32 list \<Rightarrow> u32 \<Rightarrow> memory \<Rightarrow> memory" where
  "push_words [] sp m = m"
| "push_words (w # ws) sp m = push_words ws (sp - 4) (store32 m (sp - 4) w)"

lemma push_words_snoc:
  "push_words (ws @ [w]) sp m = (let a = sp - 4 * of_nat (length ws) - 4 in store32 (push_words ws sp m) a w)"
  by (induction ws arbitrary: sp m) (simp_all add: algebra_simps)

lemma range_below:
  assumes "4 * n + 4 \<le> 4294967296"
  shows "in_range (sp - 4 * of_nat n - 4) (4 * n + 4) x
    \<longleftrightarrow> in_range (sp - 4 * of_nat n - 4) 4 x \<or> in_range (sp - 4 * of_nat n) (4 * n) x"
  using in_range_split[of 4 "4 * n" "sp - 4 * of_nat n - 4" x] assms by (simp add: add.commute)

lemma ranges_apart:
  assumes "in_range a n x" "in_range (a + of_nat n) k x" "n + k \<le> 4294967296"
  shows False
proof -
  have "unat (x - a) < n" using assms(1) by (simp add: in_range_def)
  moreover have d: "unat (x - a - of_nat n) < k" using assms(2) by (simp add: in_range_def diff_diff_add)
  moreover have "unat ((x - a - of_nat n) + of_nat n) = unat (x - a - of_nat n) + n"
  proof (subst unat_add_exact)
    have "n < 4294967296 \<or> k = 0" using assms(3) by linarith
    then have n: "unat (of_nat n :: u32) = n" using d by (auto intro: unat_of_nat_exact)
    show "unat (x - a - of_nat n) + unat (of_nat n :: u32) < 4294967296" using n d assms(3) by simp
    show "unat (x - a - of_nat n) + unat (of_nat n :: u32) = unat (x - a - of_nat n) + n" using n by simp
  qed
  ultimately show False by simp
qed

lemma push_words_ok:
  "4 * length ws \<le> 4294967296 \<Longrightarrow> stack_at (push_words ws sp m) (sp - 4 * of_nat (length ws)) (rev ws)
    \<and> (\<forall>x. \<not> in_range (sp - 4 * of_nat (length ws)) (4 * length ws) x \<longrightarrow> push_words ws sp m x = m x)"
proof (induction ws rule: rev_induct)
  case Nil
  then show ?case by simp
next
  case (snoc w ws)
  let ?a = "sp - 4 * of_nat (length ws) - 4" and ?m = "push_words ws sp m"
  have len: "4 * length ws + 4 \<le> 4294967296" using snoc.prems by simp
  then have IH: "stack_at ?m (?a + 4) (rev ws)" "\<And>x. \<not> in_range (?a + 4) (4 * length ws) x \<Longrightarrow> ?m x = m x"
    using snoc.IH by simp_all
  have "stack_at (store32 ?m ?a w) (?a + 4) (rev ws) = stack_at ?m (?a + 4) (rev ws)"
  proof (rule stack_at_cong)
    fix x assume "in_range (?a + 4) (4 * length (rev ws)) x"
    then have "\<not> in_range ?a 4 x" using ranges_apart[of ?a 4 x "4 * length ws"] len by auto
    then show "store32 ?m ?a w x = ?m x" by (rule store32_outside)
  qed (use len in simp)
  then have "stack_at (store32 ?m ?a w) ?a (rev (ws @ [w]))" using IH(1) by simp
  moreover have "store32 ?m ?a w x = m x" if "\<not> in_range ?a (4 * length ws + 4) x" for x
    using that IH(2)[of x] range_below[OF len, of sp x] by (simp add: store32_outside)
  moreover have "?a = sp - 4 * of_nat (length (ws @ [w]))" by (simp add: algebra_simps)
  ultimately show ?case unfolding push_words_snoc Let_def by (simp add: add.commute diff_diff_add)
qed


lemma push_words_append:
  "push_words (vs @ ws) sp m = push_words ws (sp - 4 * of_nat (length vs)) (push_words vs sp m)"
  by (induction vs arbitrary: sp m) (simp_all add: diff_diff_add)

lemma frame_at_words: "stack_at m p (frame_words fr @ ws) \<Longrightarrow> frame_at m p = fr"
  by (simp add: frame_words_def frame_at_def add.commute)

lemma stack_at_append:
  "stack_at m p (vs @ ws) \<longleftrightarrow> stack_at m p vs \<and> stack_at m (p + 4 * of_nat (length vs)) ws"
  by (induction vs arbitrary: p) (simp_all add: algebra_simps)

lemma frame_words_at: "stack_at m p (frame_words (frame_at m p))"
  by (simp add: frame_words_def frame_at_def add.commute)

text \<open>Writing words back: they are there, nothing else has changed, and words that were there
  already change nothing.\<close>

lemma store_words_ok:
  "4 * length ws \<le> 4294967296 \<Longrightarrow> stack_at (store_words m p ws) p ws
    \<and> (\<forall>x. \<not> in_range p (4 * length ws) x \<longrightarrow> store_words m p ws x = m x)"
proof (induction ws arbitrary: p m)
  case Nil
  then show ?case by simp
next
  case (Cons w ws)
  let ?m = "store32 m p w"
  have len: "4 + 4 * length ws \<le> 4294967296" using Cons.prems by simp
  have IH: "stack_at (store_words ?m (p + 4) ws) (p + 4) ws"
    "\<And>x. \<not> in_range (p + 4) (4 * length ws) x \<Longrightarrow> store_words ?m (p + 4) ws x = ?m x"
    using Cons.IH[of "?m" "p + 4"] Cons.prems by simp_all
  have split: "in_range p (4 + 4 * length ws) x \<longleftrightarrow> in_range p 4 x \<or> in_range (p + 4) (4 * length ws) x" for x
    using in_range_split[OF len, of p x] by simp
  have "load32 (store_words ?m (p + 4) ws) p = load32 ?m p"
  proof (rule load32_agree)
    fix x assume "in_range p 4 x"
    then have "\<not> in_range (p + 4) (4 * length ws) x" using ranges_apart[of p 4 x "4 * length ws"] len by auto
    then show "store_words ?m (p + 4) ws x = ?m x" by (rule IH(2))
  qed
  moreover have "store_words ?m (p + 4) ws x = m x" if "\<not> in_range p (4 + 4 * length ws) x" for x
    using that IH(2)[of x] split[of x] by (simp add: store32_outside)
  ultimately show ?case using IH(1) by simp
qed

lemma store32_same: "load32 m a = v \<Longrightarrow> store32 m a v = m"
proof -
  assume v: "load32 m a = v"
  have b: "le32 v ! 0 = m a" "le32 v ! 1 = m (a + 1)" "le32 v ! 2 = m (a + 2)" "le32 v ! 3 = m (a + 3)"
    unfolding v[symmetric] by (simp_all add: le32_def load32_def) (rule bit_word_eqI; auto simp: bit_simps dest: bit_imp_le_length)+
  show ?thesis
  proof (rule ext)
    fix x
    show "store32 m a v x = m x"
    proof (cases "in_range a 4 x")
      case True
      then obtain i where "i < 4" "x = a + of_nat i" by (auto simp: in_range_iff)
      then have "i \<in> {0, 1, 2, 3}" "x = a + of_nat i" by auto
      with b show ?thesis by (auto simp: store32_def write_bytes_at in_range_def)
    qed (rule store32_outside)
  qed
qed

lemma store_words_same: "stack_at m p ws \<Longrightarrow> store_words m p ws = m"
  by (induction ws arbitrary: p) (simp_all add: store32_same)

lemma length_frame_words [simp]: "length (frame_words fr) = 19"
  by (simp add: frame_words_def)

lemma frame_at_store [simp]: "frame_at (store_words m p (frame_words fr)) p = fr"
  using store_words_ok[of "frame_words fr" m p] frame_at_words[of _ p fr "[]"] by simp

section \<open>Lemmas: the stubs\<close>

text \<open>The words the common part saves, the last of them the address of the frame.\<close>

definition saved_words :: "regs \<Rightarrow> u32 list" where
  "saved_words c = [uc_eax c, uc_ecx c, uc_edx c, uc_ebx c, uc_esp c, uc_ebp c, uc_esi c, uc_edi c,
     uc_ds c, uc_es c, uc_fs c, uc_gs c, uc_esp c - 48]"

definition kernel_regs :: "regs \<Rightarrow> regs" where
  "kernel_regs c = c\<lparr>uc_esp := uc_esp c - 52, uc_eax := (uc_eax c AND NOT 0xFFFF) OR 0x10,
     uc_ds := 0x10, uc_es := 0x10, uc_fs := 0x10, uc_gs := 0x10\<rparr>"

lemma low_half: "(w AND - 65536 OR 16) AND 65535 = (16 :: u32)"
  by (simp add: bit.conj_disj_distrib2 and.assoc)

lemma exec_enter: "fold exec common_enter (c, m) = (kernel_regs c, push_words (saved_words c) (uc_esp c) m)"
  by (simp add: common_enter_def kernel_regs_def saved_words_def push_def low_half diff_diff_add)

text \<open>What the way out makes of the frame: everything from it, but the stack pointer and segment
  only when the ring changes.\<close>

definition leave_regs :: "frame \<Rightarrow> regs \<Rightarrow> regs" where
  "leave_regs fr c =
     (let d = c\<lparr>uc_eip := fr_eip fr, uc_cs := fr_cs fr, uc_eflags := fr_eflags fr, uc_ds := fr_ds fr,
            uc_es := fr_es fr, uc_fs := fr_fs fr, uc_gs := fr_gs fr, uc_eax := fr_eax fr, uc_ebx := fr_ebx fr,
            uc_ecx := fr_ecx fr, uc_edx := fr_edx fr, uc_esi := fr_esi fr, uc_edi := fr_edi fr, uc_ebp := fr_ebp fr\<rparr>
      in if fr_cs fr AND 3 > uc_cs c AND 3 then d\<lparr>uc_esp := fr_useresp fr, uc_ss := fr_ss fr\<rparr>
         else d\<lparr>uc_esp := uc_esp c + 72\<rparr>)"

lemma exec_leave: "fold exec common_leave (c, m) = (leave_regs (frame_at m (uc_esp c + 4)) c, m)"
  by (simp add: common_leave_def leave_regs_def frame_at_def iret_regs_def Let_def add.assoc)


text \<open>A handler that does not fault: unless it halts, its frame decides what the way out restores.
  \<open>ws\<close> are the words pushed up to the call, from the stack pointer \<open>base\<close> on.\<close>

lemma run_stub_ok:
  fixes c :: regs and ws :: "u32 list" and base ret :: u32 and m0 :: memory
  defines "p \<equiv> base - 4 * of_nat (length ws) + 4" and "m \<equiv> push_words (ws @ [ret]) base m0"
  assumes enter: "fold exec (stub @ common_enter) (c, k_memory k) = (c1, push_words ws base m0)"
    "uc_esp c1 = base - 4 * of_nat (length ws)" "last ws = p" "ws \<noteq> []" "4 * length ws + 4 \<le> 4294967296"
    and handler: "h (frame_at m p) (k\<lparr>k_memory := m\<rparr>) = Inr (halts, fr, k')"
  shows "run_stub h stub ret cl (c, k) = Inr (if halts then None else Some (leave_regs fr (c1\<lparr>uc_eax := cl_eax cl,
      uc_ecx := cl_ecx cl, uc_edx := cl_edx cl, uc_eflags := cl_eflags cl\<rparr>)), k'\<lparr>k_memory := store_words (k_memory k') p (frame_words fr)\<rparr>)"
proof -
  have "rev (ws @ [ret]) = ret # p # tl (rev ws)"
    using enter(3,4) by (cases ws rule: rev_cases) simp_all
  moreover have "stack_at m (base - 4 * of_nat (length (ws @ [ret]))) (rev (ws @ [ret]))"
    unfolding m_def by (rule push_words_ok[THEN conjunct1]) (use enter(5) in simp)
  ultimately have "load32 m (base - 4 * of_nat (length (ws @ [ret])) + 4) = p"
    by (simp only: stack_at.simps)
  moreover have "base - 4 * of_nat (length (ws @ [ret])) + 4 = uc_esp c1" using enter(2) by simp
  ultimately have arg: "load32 m (uc_esp c1) = p" by (simp only:)
  have frame_ptr: "uc_esp c1 + 4 = p" using enter(2) by (simp add: p_def)
  have pushed: "push ret (c1, push_words ws base m0) = (c1\<lparr>uc_esp := uc_esp c1 - 4\<rparr>, m)"
    unfolding m_def push_words_append using enter(2) by (simp add: push_def)
  show ?thesis
    using handler enter(1)
    by (simp add: run_stub_def call_handler_def pushed arg exec_leave frame_ptr)
qed

text \<open>Taking a gate: the ring 0 stack in use, the words the CPU pushes on it before any error code, and
  the registers.\<close>

definition trap_base :: "idt \<Rightarrow> regs \<Rightarrow> u32" where
  "trap_base s c = (if uc_cs c AND 3 = 0 then uc_esp c else tss_esp0 (idt_tss s))"

definition trap_words :: "regs \<Rightarrow> u32 list" where
  "trap_words c = (if uc_cs c AND 3 = 0 then [] else [uc_ss c, uc_esp c]) @ [uc_eflags c, uc_cs c, uc_eip c]"

definition trap_regs :: "idt \<Rightarrow> gate \<Rightarrow> regs \<Rightarrow> regs" where
  "trap_regs s g c = c\<lparr>uc_esp := trap_base s c - 4 * of_nat (length (trap_words c)),
     uc_ss := (if uc_cs c AND 3 = 0 then uc_ss c else tss_ss0 (idt_tss s)), uc_eip := gate_handler g,
     uc_cs := ucast (gate_selector g), uc_eflags := gate_flags (gate_kind g) (uc_eflags c)\<rparr>"

lemma deliver_ok:
  assumes "gate_of (idt_entries s ! v) = Some g"
  shows "deliver s v err (c, m) = Some ((trap_regs s g c)\<lparr>uc_esp := uc_esp (trap_regs s g c) - (if err = None then 0 else 4)\<rparr>,
    push_words (trap_words c @ (case err of None \<Rightarrow> [] | Some e \<Rightarrow> [e])) (trap_base s c) m)"
  using assms
  by (simp add: deliver_def push_def trap_regs_def trap_words_def trap_base_def diff_diff_add split: option.split)

text \<open>All the words on the stack when the handler is called: with the error code of the CPU or the
  stub's, the vector, and what the common part saves.\<close>

definition entry_words :: "idt \<Rightarrow> gate \<Rightarrow> regs \<Rightarrow> u32 \<Rightarrow> u32 \<Rightarrow> u32 list" where
  "entry_words s g c e v = trap_words c @ [e, v] @ saved_words ((trap_regs s g c)\<lparr>uc_esp := uc_esp (trap_regs s g c) - 8\<rparr>)"

definition entry_regs :: "idt \<Rightarrow> gate \<Rightarrow> regs \<Rightarrow> regs" where
  "entry_regs s g c = kernel_regs ((trap_regs s g c)\<lparr>uc_esp := uc_esp (trap_regs s g c) - 8\<rparr>)"

lemma entry_words_frame:
  "length (entry_words s g c e v) = length (trap_words c) + 15" "entry_words s g c e v \<noteq> []"
  "uc_esp (entry_regs s g c) = trap_base s c - 4 * of_nat (length (entry_words s g c e v))"
  "last (entry_words s g c e v) = trap_base s c - 4 * of_nat (length (entry_words s g c e v)) + 4"
  "4 * length (entry_words s g c e v) + 4 \<le> 84"
  by (simp_all add: entry_words_def entry_regs_def saved_words_def trap_regs_def trap_words_def kernel_regs_def)

lemma trap_enter_zero:
  "fold exec ([Push_imm 0, Push_imm v] @ common_enter) (trap_regs s g c, push_words (trap_words c) (trap_base s c) m)
    = (entry_regs s g c, push_words (entry_words s g c 0 v) (trap_base s c) m)"
proof -
  have "uc_esp (trap_regs s g c) = trap_base s c - 4 * of_nat (length (trap_words c))" by (simp add: trap_regs_def)
  then show ?thesis
    unfolding entry_words_def entry_regs_def push_words_append[of "trap_words c"]
    by (simp add: exec_enter push_def diff_diff_add add.commute)
qed

lemma trap_enter_code:
  "fold exec ([Push_imm v] @ common_enter) ((trap_regs s g c)\<lparr>uc_esp := uc_esp (trap_regs s g c) - 4\<rparr>,
      push_words (trap_words c @ [e]) (trap_base s c) m)
    = (entry_regs s g c, push_words (entry_words s g c e v) (trap_base s c) m)"
proof -
  have "uc_esp (trap_regs s g c) = trap_base s c - 4 * of_nat (length (trap_words c))" by (simp add: trap_regs_def)
  then show ?thesis
    unfolding entry_words_def entry_regs_def push_words_append[of "trap_words c"]
    by (simp add: exec_enter push_def diff_diff_add add.commute)
qed

text \<open>The frame of a trap, as the struct of interrupts.h reads it; the last two words are there only
  when the trap came from an outer ring.\<close>

definition trap_frame :: "idt \<Rightarrow> regs \<Rightarrow> u32 \<Rightarrow> u32 \<Rightarrow> u32 \<Rightarrow> u32 \<Rightarrow> frame" where
  "trap_frame s c e v useresp ss = \<lparr>fr_gs = uc_gs c, fr_fs = uc_fs c, fr_es = uc_es c, fr_ds = uc_ds c,
     fr_edi = uc_edi c, fr_esi = uc_esi c, fr_ebp = uc_ebp c,
     fr_esp = trap_base s c - 4 * of_nat (length (trap_words c)) - 8,
     fr_ebx = uc_ebx c, fr_edx = uc_edx c, fr_ecx = uc_ecx c, fr_eax = uc_eax c, fr_int_no = v,
     fr_err_code = e, fr_eip = uc_eip c, fr_cs = uc_cs c, fr_eflags = uc_eflags c,
     fr_useresp = useresp, fr_ss = ss\<rparr>"

lemma trap_frame_at:
  fixes m :: memory and c :: regs and s :: idt and g :: gate and e v ret :: u32
  defines "ws \<equiv> entry_words s g c e v"
  defines "fr \<equiv> frame_at (push_words (ws @ [ret]) (trap_base s c) m) (trap_base s c - 4 * of_nat (length ws) + 4)"
  shows "uc_cs c AND 3 \<noteq> 0 \<Longrightarrow> fr = trap_frame s c e v (uc_esp c) (uc_ss c)"
    "\<exists>us ss. fr = trap_frame s c e v us ss"
proof -
  let ?m = "push_words (ws @ [ret]) (trap_base s c) m" and ?a = "trap_base s c - 4 * of_nat (length (ws @ [ret]))"
  let ?p = "trap_base s c - 4 * of_nat (length ws) + 4"
  have "4 * length ws + 4 \<le> 84" unfolding ws_def by (rule entry_words_frame(5))
  then have st: "stack_at ?m ?a (rev (ws @ [ret]))" by (intro push_words_ok[THEN conjunct1]) simp
  let ?fr = "trap_frame s c e v (uc_esp c) (uc_ss c)"
  have rev: "rev (ws @ [ret]) = ret # last ws # (if uc_cs c AND 3 = 0 then take 17 (frame_words ?fr) else frame_words ?fr)"
    by (simp add: ws_def entry_words_def saved_words_def trap_words_def trap_regs_def trap_frame_def frame_words_def)
  have "?a + 4 + 4 = ?p" by simp
  then have words: "stack_at ?m ?p (if uc_cs c AND 3 = 0 then take 17 (frame_words ?fr) else frame_words ?fr)"
    using st unfolding rev by (simp only: stack_at.simps)
  show "fr = ?fr" if "uc_cs c AND 3 \<noteq> 0"
    using words that frame_at_words[of ?m ?p ?fr "[]"] by (simp add: fr_def)
  have "stack_at ?m ?p (take 17 (frame_words ?fr))"
    using words stack_at_append[of ?m ?p "take 17 (frame_words ?fr)" "drop 17 (frame_words ?fr)"]
    by (simp split: if_splits)
  then have "fr = trap_frame s c e v (fr_useresp fr) (fr_ss fr)"
    unfolding fr_def by (simp add: frame_at_def trap_frame_def frame_words_def add.commute)
  then show "\<exists>us ss. fr = trap_frame s c e v us ss" by blast
qed

text \<open>Leaving with that frame, but for the saved \<open>eax\<close>, restores the interrupted registers.\<close>

lemma leave_trap_frame:
  assumes "ucast (gate_selector g) AND 3 = (0 :: u32)" "uc_cs c AND 3 \<noteq> 0 \<longrightarrow> us = uc_esp c \<and> ss = uc_ss c"
  shows "leave_regs ((trap_frame s c e v us ss)\<lparr>fr_eax := r\<rparr>) ((entry_regs s g c)\<lparr>uc_eax := a, uc_ecx := b, uc_edx := d, uc_eflags := f\<rparr>) = c\<lparr>uc_eax := r\<rparr>"
  using assms
  by (auto simp: leave_regs_def trap_frame_def kernel_regs_def trap_regs_def trap_words_def trap_base_def
      entry_regs_def Let_def word_neq_0_conv)


text \<open>A trap from the gate to the way out: where the stub starts, what the handler is given, what
  the registers are afterwards and what is left in memory.\<close>

definition handler_memory :: "idt \<Rightarrow> gate \<Rightarrow> regs \<Rightarrow> u32 \<Rightarrow> u32 \<Rightarrow> u32 \<Rightarrow> memory \<Rightarrow> memory" where
  "handler_memory s g c e v ret = push_words (entry_words s g c e v @ [ret]) (trap_base s c)"

definition frame_base :: "idt \<Rightarrow> regs \<Rightarrow> u32" where
  "frame_base s c = trap_base s c - 4 * of_nat (length (trap_words c)) - 56"

definition code_words :: "u32 option \<Rightarrow> u32 \<Rightarrow> instr list" where
  "code_words err v = (case err of None \<Rightarrow> [Push_imm 0, Push_imm v] | Some e \<Rightarrow> [Push_imm v])"

definition code_value :: "u32 option \<Rightarrow> u32" where
  "code_value err = (case err of None \<Rightarrow> 0 | Some e \<Rightarrow> e)"

lemma frame_base_eq: "trap_base s c - 4 * of_nat (length (entry_words s g c e v)) + 4 = frame_base s c"
  by (simp add: frame_base_def entry_words_frame(1))

lemma run_trap:
  fixes k :: kernel and c :: regs and g :: gate and err :: "u32 option" and v ret :: u32
  defines "m2 \<equiv> handler_memory (k_idt k) g c (code_value err) v ret (k_memory k)" and "p \<equiv> frame_base (k_idt k) c"
  assumes gate: "gate_of (idt_entries (k_idt k) ! n) = Some g"
    and handler: "h (frame_at m2 p) (k\<lparr>k_memory := m2\<rparr>) = Inr (halts, fr, k')"
  shows "\<exists>c1 m1. deliver (k_idt k) n err (c, k_memory k) = Some (c1, m1) \<and> uc_eip c1 = gate_handler g
    \<and> run_stub h (code_words err v) ret cl (c1, k\<lparr>k_memory := m1\<rparr>)
      = Inr (if halts then None else Some (leave_regs fr ((entry_regs (k_idt k) g c)\<lparr>uc_eax := cl_eax cl,
          uc_ecx := cl_ecx cl, uc_edx := cl_edx cl, uc_eflags := cl_eflags cl\<rparr>)),
        k'\<lparr>k_memory := store_words (k_memory k') p (frame_words fr)\<rparr>)"
proof -
  let ?ws = "entry_words (k_idt k) g c (code_value err) v" and ?base = "trap_base (k_idt k) c"
  let ?c1 = "(trap_regs (k_idt k) g c)\<lparr>uc_esp := uc_esp (trap_regs (k_idt k) g c) - (if err = None then 0 else 4)\<rparr>"
  let ?m1 = "push_words (trap_words c @ (case err of None \<Rightarrow> [] | Some e \<Rightarrow> [e])) ?base (k_memory k)"
  have enter: "fold exec (code_words err v @ common_enter) (?c1, ?m1)
      = (entry_regs (k_idt k) g c, push_words ?ws ?base (k_memory k))"
    using trap_enter_zero trap_enter_code by (cases err) (simp_all add: code_words_def code_value_def)
  have len: "4 * length ?ws + 4 \<le> 4294967296"
    using entry_words_frame(5)[of "k_idt k" g c "code_value err" v] by simp
  have "run_stub h (code_words err v) ret cl (?c1, k\<lparr>k_memory := ?m1\<rparr>)
      = Inr (if halts then None else Some (leave_regs fr ((entry_regs (k_idt k) g c)\<lparr>uc_eax := cl_eax cl,
          uc_ecx := cl_ecx cl, uc_edx := cl_edx cl, uc_eflags := cl_eflags cl\<rparr>)),
        k'\<lparr>k_memory := store_words (k_memory k') p (frame_words fr)\<rparr>)"
    using run_stub_ok[of "code_words err v" ?c1 "k\<lparr>k_memory := ?m1\<rparr>" "entry_regs (k_idt k) g c" ?ws ?base "k_memory k" h ret]
      enter entry_words_frame(2-4)[where s = "k_idt k" and g = g and c = c and e = "code_value err" and v = v] len handler
    unfolding frame_base_eq by (simp add: m2_def p_def handler_memory_def)
  moreover have "uc_eip ?c1 = gate_handler g" by (simp add: trap_regs_def)
  ultimately show ?thesis using deliver_ok[OF gate] by blast
qed

end
