(* ===== verification/Multiboot.thy ===== *)
theory Multiboot
  imports Memory
begin

text \<open>
  The boot information parser (source/boot/multiboot.c, multiboot.h): \<open>mb2_get_memory\<close> walks the
  Multiboot2 tag list in memory to the first memory map and adds up the lengths of its available
  entries. Neither loop has a bound of its own: both step by a size that is read from memory, so
  they are modelled with \<open>None\<close> for a run that never returns.

  The specification is a list of tags, its byte encoding and the sum over the first memory map.
\<close>

abbreviation (input) MULTIBOOT_TAG_TYPE_END :: u32 where "MULTIBOOT_TAG_TYPE_END \<equiv> 0"
abbreviation (input) MULTIBOOT_TAG_TYPE_MMAP :: u32 where "MULTIBOOT_TAG_TYPE_MMAP \<equiv> 6"
abbreviation (input) MULTIBOOT_MEMORY_AVAILABLE :: u32 where "MULTIBOOT_MEMORY_AVAILABLE \<equiv> 1"

section \<open>The parser\<close>

text \<open>The fields of the packed structures at their offsets.\<close>

definition tag_type :: "memory \<Rightarrow> u32 \<Rightarrow> u32" where "tag_type m tag = load32 m tag"
definition tag_size :: "memory \<Rightarrow> u32 \<Rightarrow> u32" where "tag_size m tag = load32 m (tag + 4)"
definition mmap_entry_size :: "memory \<Rightarrow> u32 \<Rightarrow> u32" where
  "mmap_entry_size m tag = load32 m (tag + 8)"
definition entry_len :: "memory \<Rightarrow> u32 \<Rightarrow> u64" where "entry_len m e = load64 m (e + 8)"
definition entry_type :: "memory \<Rightarrow> u32 \<Rightarrow> u32" where "entry_type m e = load32 m (e + 16)"

partial_function (option) mmap_loop :: "memory \<Rightarrow> u32 \<Rightarrow> u32 \<Rightarrow> u32 \<Rightarrow> u64 \<Rightarrow> u64 option" where
  "mmap_loop m mmap_tag ends entry_ptr available =
     (if entry_ptr < ends
      then mmap_loop m mmap_tag ends (entry_ptr + mmap_entry_size m mmap_tag)
        (if entry_type m entry_ptr = MULTIBOOT_MEMORY_AVAILABLE then available + entry_len m entry_ptr
         else available)
      else Some available)"

partial_function (option) tag_loop :: "memory \<Rightarrow> u32 \<Rightarrow> u64 option" where
  "tag_loop m tag =
     (if tag_type m tag = MULTIBOOT_TAG_TYPE_END then Some 0
      else if tag_type m tag = MULTIBOOT_TAG_TYPE_MMAP
        then mmap_loop m tag (tag + tag_size m tag) (tag + 16) 0
      else tag_loop m (tag + ((tag_size m tag + 7) AND NOT 7)))"

definition mb2_get_memory :: "memory \<Rightarrow> u32 \<Rightarrow> u32 \<Rightarrow> u64 option" where
  "mb2_get_memory m magic addr =
     (if magic \<noteq> 0x36d76289 then Some 0 else tag_loop m (addr + 8))"

section \<open>Specification: tag lists and their encoding\<close>

record mmap_entry =
  me_addr :: u64
  me_len :: u64
  me_type :: u32

datatype mb2_tag =
    Plain_Tag u32 "u8 list"
  | Mmap_Tag nat u32 "mmap_entry list"

definition entry_bytes :: "nat \<Rightarrow> mmap_entry \<Rightarrow> u8 list" where
  "entry_bytes es e = le64 (me_addr e) @ le64 (me_len e) @ le32 (me_type e) @ replicate (es - 20) 0"

fun tag_body :: "mb2_tag \<Rightarrow> u8 list" where
  "tag_body (Plain_Tag ty payload) = payload"
| "tag_body (Mmap_Tag es version entries) =
     le32 (of_nat es) @ le32 version @ concat (map (entry_bytes es) entries)"

fun tag_code :: "mb2_tag \<Rightarrow> u32" where
  "tag_code (Plain_Tag ty payload) = ty"
| "tag_code (Mmap_Tag es version entries) = 6"

definition tag_bytes :: "mb2_tag \<Rightarrow> u8 list" where
  "tag_bytes t = (let n = 8 + length (tag_body t) in
     le32 (tag_code t) @ le32 (of_nat n) @ tag_body t @ replicate ((n + 7) div 8 * 8 - n) 0)"

definition mb2_encode :: "mb2_tag list \<Rightarrow> u8 list" where
  "mb2_encode tags = concat (map tag_bytes tags) @ le32 0 @ le32 8"

fun tag_wf :: "mb2_tag \<Rightarrow> bool" where
  "tag_wf (Plain_Tag ty payload) \<longleftrightarrow> ty \<noteq> 0 \<and> ty \<noteq> 6"
| "tag_wf (Mmap_Tag es version entries) \<longleftrightarrow> 24 \<le> es \<and> es < 4294967296"

definition available_sum :: "mmap_entry list \<Rightarrow> u64" where
  "available_sum es = sum_list (map me_len (filter (\<lambda>e. me_type e = 1) es))"

fun mb2_available :: "mb2_tag list \<Rightarrow> u64" where
  "mb2_available [] = 0"
| "mb2_available (Mmap_Tag es version entries # tags) = available_sum entries"
| "mb2_available (Plain_Tag ty payload # tags) = mb2_available tags"

section \<open>Lemmas\<close>

lemma align8_word:
  assumes "n + 7 < 4294967296"
  shows "((of_nat n :: u32) + 7) AND NOT 7 = of_nat ((n + 7) div 8 * 8)"
proof -
  let ?w = "of_nat n + 7 :: u32"
  have w: "unat ?w = n + 7" using assms by (simp add: unat_exact)
  have "?w AND NOT 7 = push_bit 3 (drop_bit 3 ?w)"
  proof (rule bit_word_eqI)
    fix k assume k: "k < LENGTH(32)"
    have seven: "(7 :: u32) = mask 3" by (simp add: mask_eq_exp_minus_1)
    show "bit (?w AND NOT 7) k = bit (push_bit 3 (drop_bit 3 ?w)) k"
      unfolding seven using k by (auto simp: bit_simps)
  qed
  also have "\<dots> = ?w div 8 * 8" by (simp add: push_bit_eq_mult drop_bit_eq_div)
  finally have e: "?w AND NOT 7 = ?w div 8 * 8" .
  have "(n + 7) div 8 * 8 < 4294967296" using assms by linarith
  then have "unat (?w div 8 * 8) = (n + 7) div 8 * 8"
    using w by (simp add: unat_exact unat_div)
  then have "of_nat (unat (?w div 8 * 8)) = (of_nat ((n + 7) div 8 * 8) :: u32)" by simp
  then show ?thesis unfolding e by simp
qed

lemma length_entry_bytes: "24 \<le> es \<Longrightarrow> length (entry_bytes es e) = es"
  by (simp add: entry_bytes_def)

lemma length_entries: "24 \<le> es \<Longrightarrow> length (concat (map (entry_bytes es) entries)) = es * length entries"
  by (induction entries) (simp_all add: length_entry_bytes)

lemma entry_fields:
  assumes "holds m p (entry_bytes es e)"
  shows "entry_type m p = me_type e" "entry_len m p = me_len e"
  using assms
  by (simp_all add: entry_bytes_def holds_append holds_le32 holds_le64 entry_type_def entry_len_def
      add.assoc)

lemma mmap_loop_entries:
  assumes "24 \<le> es" "mmap_entry_size m tag = of_nat es"
  shows "holds m (of_nat p) (concat (map (entry_bytes es) entries)) \<Longrightarrow>
    p + es * length entries < 4294967296 \<Longrightarrow>
    mmap_loop m tag (of_nat (p + es * length entries)) (of_nat p) acc
      = Some (acc + available_sum entries)"
proof (induction entries arbitrary: p acc)
  case Nil
  then show ?case by (simp add: mmap_loop.simps available_sum_def)
next
  case (Cons e entries)
  let ?fin = "of_nat (p + es * length (e # entries)) :: u32"
  have h: "holds m (of_nat p) (entry_bytes es e)"
    "holds m (of_nat (p + es)) (concat (map (entry_bytes es) entries))"
    using Cons.prems(1) assms(1) by (simp_all add: holds_append length_entry_bytes)
  have ends: "?fin = of_nat ((p + es) + es * length entries)" by (simp add: algebra_simps)
  have "unat ?fin = p + es * length (e # entries)" by (rule unat_of_nat_exact[OF Cons.prems(2)])
  moreover have "unat (of_nat p :: u32) = p" by (rule unat_of_nat_exact) (use Cons.prems(2) in simp)
  ultimately have "(of_nat p :: u32) < ?fin"
    unfolding word_less_nat_alt using assms(1) by simp
  then have "mmap_loop m tag ?fin (of_nat p) acc
      = mmap_loop m tag ?fin (of_nat p + of_nat es)
          (if me_type e = 1 then acc + me_len e else acc)"
    using entry_fields[OF h(1)] assms(2) by (subst mmap_loop.simps) simp
  also have "\<dots> = mmap_loop m tag (of_nat ((p + es) + es * length entries)) (of_nat (p + es))
          (if me_type e = 1 then acc + me_len e else acc)"
    unfolding ends by simp
  also have "\<dots> = Some ((if me_type e = 1 then acc + me_len e else acc) + available_sum entries)"
    by (rule Cons.IH[OF h(2)]) (use Cons.prems(2) in \<open>simp add: algebra_simps\<close>)
  finally show ?case by (simp add: available_sum_def add.assoc)
qed

text \<open>One tag: its header fields and where the next tag starts.\<close>

lemma tag_header:
  assumes "holds m p (tag_bytes t)"
  shows "tag_type m p = tag_code t" "tag_size m p = of_nat (8 + length (tag_body t))"
    "holds m (p + 8) (tag_body t)"
  using assms by (simp_all add: tag_bytes_def Let_def holds_append holds_le32 tag_type_def
      tag_size_def add.assoc)

lemma length_tag_bytes: "length (tag_bytes t) = (8 + length (tag_body t) + 7) div 8 * 8"
proof -
  have "n \<le> (n + 7) div 8 * 8" for n :: nat by presburger
  from this[of "8 + length (tag_body t)"] show ?thesis by (simp add: tag_bytes_def Let_def)
qed

text \<open>A tag that is neither the end nor a memory map is stepped over, padding included.\<close>

lemma tag_loop_plain:
  assumes "holds m (of_nat p) (tag_bytes t)" "tag_code t \<noteq> 0" "tag_code t \<noteq> 6" "p + length (tag_bytes t) < 4294967296"
  shows "tag_loop m (of_nat p) = tag_loop m (of_nat (p + length (tag_bytes t)))"
proof -
  let ?p = "of_nat p :: u32"
  note header = tag_header[OF assms(1)]
  have "8 + length (tag_body t) \<le> length (tag_bytes t)" unfolding length_tag_bytes by linarith
  moreover have "length (tag_bytes t) \<le> 4294967288"
  proof -
    have "q \<le> 536870911" if "q * 8 < (4294967296 :: nat)" for q using that by linarith
    then have "q * 8 \<le> 4294967288" if "q * 8 < (4294967296 :: nat)" for q using that by fastforce
    with assms(4) show ?thesis by (simp add: length_tag_bytes)
  qed
  ultimately have "8 + length (tag_body t) + 7 < 4294967296" by linarith
  from align8_word[OF this] have
    "?p + ((of_nat (8 + length (tag_body t)) + 7) AND NOT 7) = of_nat (p + length (tag_bytes t))" by (simp add: length_tag_bytes)
  moreover have "tag_loop m ?p = tag_loop m (?p + ((tag_size m ?p + 7) AND NOT 7))"
    using assms(2,3) header(1) by (subst tag_loop.simps) simp
  ultimately show ?thesis using header(2) by simp
qed

lemma tag_loop_correct:
  "holds m (of_nat p) (mb2_encode tags) \<Longrightarrow> list_all tag_wf tags \<Longrightarrow>
    p + length (mb2_encode tags) < 4294967296 \<Longrightarrow> tag_loop m (of_nat p) = Some (mb2_available tags)"
proof (induction tags arbitrary: p)
  case Nil
  then have "tag_type m (of_nat p) = 0"
    by (simp add: mb2_encode_def tag_type_def holds_append holds_le32)
  then show ?case by (simp add: tag_loop.simps)
next
  case (Cons t tags)
  let ?p = "of_nat p :: u32" and ?k = "(8 + length (tag_body t) + 7) div 8 * 8"
  have enc: "mb2_encode (t # tags) = tag_bytes t @ mb2_encode tags" by (simp add: mb2_encode_def)
  then have h: "holds m ?p (tag_bytes t)" "holds m (of_nat (p + ?k)) (mb2_encode tags)"
    using Cons.prems(1) by (simp_all add: holds_append length_tag_bytes)
  note header = tag_header[OF h(1)]
  have len: "p + ?k + length (mb2_encode tags) < 4294967296"
    using Cons.prems(3) unfolding enc by (simp add: length_tag_bytes)
  show ?case
  proof (cases t)
    case (Plain_Tag ty payload)
    have "tag_loop m ?p = tag_loop m (of_nat (p + ?k))"
      using tag_loop_plain[OF h(1)] Plain_Tag Cons.prems(2) len by (simp add: length_tag_bytes)
    with Cons.IH[OF h(2) _ len] Cons.prems(2) Plain_Tag show ?thesis by simp
  next
    case (Mmap_Tag es version entries)
    then have es: "24 \<le> es" "es < 4294967296" using Cons.prems(2) by simp_all
    have body: "holds m (?p + 8) (le32 (of_nat es))"
      "holds m (of_nat (p + 16)) (concat (map (entry_bytes es) entries))"
      using header(3) Mmap_Tag by (simp_all add: holds_append add.assoc)
    then have "mmap_entry_size m ?p = of_nat es" by (simp add: mmap_entry_size_def holds_le32)
    moreover have "length (tag_body t) = 8 + es * length entries"
      using Mmap_Tag es(1) by (simp add: length_entries)
    moreover from this have "p + 16 + es * length entries < 4294967296" using len by linarith
    ultimately have "mmap_loop m ?p (of_nat ((p + 16) + es * length entries)) (of_nat (p + 16)) 0
        = Some (0 + available_sum entries)"
      using mmap_loop_entries[OF es(1) _ body(2)] by blast
    moreover have "tag_loop m ?p = mmap_loop m ?p (?p + tag_size m ?p) (?p + 16) 0"
      using Mmap_Tag header(1) by (subst tag_loop.simps) simp
    ultimately show ?thesis
      using header(2) Mmap_Tag \<open>length (tag_body t) = _\<close> by (simp add: add.assoc)
  qed
qed

text \<open>A loop that steps by 0 never leaves.\<close>

lemma mmap_loop_stuck:
  assumes "mmap_entry_size m tag = 0" "ptr < ends"
  shows "mmap_loop m tag ends ptr acc = None"
proof -
  let ?P = "\<lambda>m tag ends ptr (acc :: u64) (y :: u64). mmap_entry_size m tag = 0 \<longrightarrow> \<not> ptr < ends"
  have "?P m tag ends ptr acc y" if returns: "mmap_loop m tag ends ptr acc = Some y" for y
  proof (rule mmap_loop.raw_induct[where P = ?P, OF _ returns])
    fix f m tag ends ptr acc y
    assume IH: "\<And>m tag ends ptr acc y. f m tag ends ptr acc = Some y \<Longrightarrow> ?P m tag ends ptr acc y"
      and step: "(if ptr < ends then f m tag ends (ptr + mmap_entry_size m tag)
          (if entry_type m ptr = 1 then acc + entry_len m ptr else acc) else Some acc) = Some y"
    show "?P m tag ends ptr acc y"
    proof (intro impI notI)
      assume "mmap_entry_size m tag = 0" "ptr < ends"
      with step IH show False by fastforce
    qed
  qed
  with assms show ?thesis by (cases "mmap_loop m tag ends ptr acc") simp_all
qed

lemma tag_loop_stuck:
  assumes "tag_type m tag \<noteq> 0" "tag_type m tag \<noteq> 6" "(tag_size m tag + 7) AND NOT 7 = 0"
  shows "tag_loop m tag = None"
proof -
  let ?P = "\<lambda>m tag (y :: u64). tag_type m tag = 0 \<or> tag_type m tag = 6
    \<or> (tag_size m tag + 7) AND NOT 7 \<noteq> 0"
  have "?P m tag y" if returns: "tag_loop m tag = Some y" for y
  proof (rule tag_loop.raw_induct[where P = ?P, OF _ returns])
    fix f m tag y
    assume IH: "\<And>m tag y. f m tag = Some y \<Longrightarrow> ?P m tag y"
      and step: "(if tag_type m tag = 0 then Some 0
        else if tag_type m tag = 6 then mmap_loop m tag (tag + tag_size m tag) (tag + 16) 0
        else f m (tag + ((tag_size m tag + 7) AND NOT 7))) = Some y"
    show "?P m tag y"
    proof (rule ccontr)
      assume n: "\<not> ?P m tag y"
      with step have "f m tag = Some y" by simp
      from IH[OF this] n show False by blast
    qed
  qed
  with assms show ?thesis by (cases "tag_loop m tag") simp_all
qed

lemma mb2_get_memory_encoded:
  assumes "holds m (addr + 8) (mb2_encode tags)" "list_all tag_wf tags"
    "unat addr + 8 + length (mb2_encode tags) < 4294967296"
  shows "mb2_get_memory m magic addr
    = Some (if magic = 0x36d76289 then mb2_available tags else 0)"
proof -
  have a: "of_nat (unat addr + 8) = addr + 8" by simp
  have "tag_loop m (of_nat (unat addr + 8)) = Some (mb2_available tags)"
    by (rule tag_loop_correct) (use assms a in simp_all)
  then show ?thesis unfolding a by (simp add: mb2_get_memory_def)
qed

section \<open>Properties\<close>

text \<open>C19: the boot information is read correctly. When memory holds the encoding of a well-formed
  tag list behind the 8-byte header and the structure does not wrap around the address space,
  \<open>mb2_get_memory\<close> returns: the sum (modulo \<open>2 ^ 64\<close>) of the lengths of the available entries of
  the first memory map, tags of other kinds skipped and padding stepped over; and 0 when the magic
  number is wrong.\<close>

theorem mb2_get_memory_correct:
  assumes "holds m (addr + 8) (mb2_encode tags)" "list_all tag_wf tags"
    "unat addr + 8 + length (mb2_encode tags) < 4294967296"
  shows "mb2_get_memory m magic addr
    = Some (if magic = 0x36d76289 then mb2_available tags else 0)"
  by (rule mb2_get_memory_encoded[OF assms])

text \<open>A boot loader name of 3 bytes, then a map of an available, a reserved and an available
  region.\<close>

definition demo_tags :: "mb2_tag list" where
  "demo_tags = [Plain_Tag 2 [0x67, 0x72, 0],
     Mmap_Tag 24 0 [\<lparr>me_addr = 0, me_len = 0x9FC00, me_type = 1\<rparr>,
       \<lparr>me_addr = 0x9FC00, me_len = 0x400, me_type = 2\<rparr>,
       \<lparr>me_addr = 0x100000, me_len = 0x7EE0000, me_type = 1\<rparr>]]"

lemma length_demo_tags: "length (mb2_encode demo_tags) = 112"
  by (simp add: mb2_encode_def demo_tags_def length_tag_bytes length_entry_bytes)

lemma demo_tags_facts: "list_all tag_wf demo_tags" "mb2_available demo_tags = 0x7F7FC00"
  by (simp_all add: demo_tags_def available_sum_def)

theorem mb2_get_memory_correct_witness:
  "mb2_get_memory (write_bytes (\<lambda>_. 0) 0x10008 (mb2_encode demo_tags)) 0x36d76289 0x10000
    = Some 0x7F7FC00"
proof -
  let ?bs = "mb2_encode demo_tags"
  let ?m = "write_bytes (\<lambda>_. 0) 0x10008 ?bs"
  have "holds ?m (0x10000 + 8) ?bs"
    by (simp add: holds_nth write_bytes_at length_demo_tags in_range_offset unat_of_nat_exact)
  then show ?thesis
    using mb2_get_memory_correct[of ?m "0x10000" demo_tags "0x36d76289"] demo_tags_facts
    by (simp add: length_demo_tags)
qed

text \<open>Tags that the walk steps over.\<close>

fun plain_tag :: "mb2_tag \<Rightarrow> bool" where
  "plain_tag (Plain_Tag ty payload) \<longleftrightarrow> ty \<noteq> 0 \<and> ty \<noteq> 6"
| "plain_tag (Mmap_Tag es version entries) \<longleftrightarrow> False"

lemma tag_loop_skips:
  "holds m (of_nat p) (concat (map tag_bytes tags)) \<Longrightarrow> list_all plain_tag tags \<Longrightarrow>
    p + length (concat (map tag_bytes tags)) < 4294967296 \<Longrightarrow>
    tag_loop m (of_nat p) = tag_loop m (of_nat (p + length (concat (map tag_bytes tags))))"
proof (induction tags arbitrary: p)
  case (Cons t tags)
  have "tag_code t \<noteq> 0 \<and> tag_code t \<noteq> 6" using Cons.prems(2) by (cases t) simp_all
  with Cons.prems have "tag_loop m (of_nat p) = tag_loop m (of_nat (p + length (tag_bytes t)))"
    by (intro tag_loop_plain) (simp_all add: holds_append)
  with Cons.IH[of "p + length (tag_bytes t)"] Cons.prems show ?case by (simp add: holds_append add.assoc)
qed simp

text \<open>A tag on which the walk stays for ever: the step to the next tag is 0, or it is a memory map with an entry
  size of 0 and room for an entry.\<close>

definition endless_tag :: "memory \<Rightarrow> u32 \<Rightarrow> bool" where
  "endless_tag m tag \<longleftrightarrow> tag_type m tag \<noteq> 0
     \<and> (if tag_type m tag = 6 then mmap_entry_size m tag = 0 \<and> tag + 16 < tag + tag_size m tag
        else (tag_size m tag + 7) AND NOT 7 = 0)"

lemma endless_tag_loop:
  assumes "endless_tag m tag"
  shows "tag_loop m tag = None"
proof (cases "tag_type m tag = 6")
  case True
  then have "tag_loop m tag = mmap_loop m tag (tag + tag_size m tag) (tag + 16) 0" by (subst tag_loop.simps) simp
  with True assms show ?thesis by (simp add: endless_tag_def mmap_loop_stuck)
next
  case False
  with assms show ?thesis by (simp add: endless_tag_def tag_loop_stuck)
qed

text \<open>C25: malformed boot information hangs the kernel. When the walk reaches, behind any number of tags that it
  steps over and before a memory map, a tag of size 0 (or one whose size rounds up to 0 modulo \<open>2 ^ 32\<close>) that is
  not the end, or a memory map with room for an entry and the entry size 0, then \<open>mb2_get_memory\<close> does
  not return. What lies behind the first memory map does not matter: the walk does not get there.\<close>

theorem mb2_get_memory_hangs:
  assumes "holds m (addr + 8) (concat (map tag_bytes tags))" "list_all plain_tag tags"
    "unat addr + 8 + length (concat (map tag_bytes tags)) < 4294967296"
    "endless_tag m (addr + 8 + of_nat (length (concat (map tag_bytes tags))))"
  shows "mb2_get_memory m 0x36d76289 addr = None"
proof -
  have a: "of_nat (unat addr + 8) = addr + 8" by simp
  then have "tag_loop m (addr + 8) = tag_loop m (addr + 8 + of_nat (length (concat (map tag_bytes tags))))"
    using tag_loop_skips[of m "unat addr + 8" tags] assms(1-3) by (simp add: add.assoc)
  with endless_tag_loop[OF assms(4)] show ?thesis by (simp add: mb2_get_memory_def)
qed

text \<open>A boot loader name, then a tag of type 1 and size 0.\<close>

theorem mb2_get_memory_hangs_witness:
  "mb2_get_memory (write_bytes (\<lambda>_. 0) 0x10008 (tag_bytes (Plain_Tag 2 [0x67, 0x72, 0]) @ le32 1)) 0x36d76289 0x10000 = None"
proof (rule mb2_get_memory_hangs)
  let ?t = "Plain_Tag 2 [0x67, 0x72, 0]" and ?bs = "tag_bytes (Plain_Tag 2 [0x67, 0x72, 0]) @ le32 1"
  let ?m = "write_bytes (\<lambda>_. 0) 0x10008 ?bs"
  have len: "length (tag_bytes ?t) = 16" by (simp add: length_tag_bytes)
  have "holds ?m 0x10008 ?bs" by (simp add: holds_nth write_bytes_at len in_range_offset unat_of_nat_exact)
  then have h: "holds ?m 0x10008 (tag_bytes ?t)" "load32 ?m 0x10018 = 1" by (simp_all add: holds_append len holds_le32)
  then show "holds ?m (0x10000 + 8) (concat (map tag_bytes [?t]))" by simp
  show "list_all plain_tag [?t]" by simp
  show "unat (0x10000 :: u32) + 8 + length (concat (map tag_bytes [?t])) < 4294967296" by (simp add: len)
  have "load32 ?m 0x1001C = 0"
    by (simp add: load32_def write_bytes_at in_range_def len)
  with h(2) show "endless_tag ?m (0x10000 + 8 + of_nat (length (concat (map tag_bytes [?t]))))"
    by (simp add: endless_tag_def tag_type_def tag_size_def len)
qed

end
