(* ===== verification/Boot.thy ===== *)
theory Boot
  imports Multiboot Interrupts Usermode
begin

text \<open>
  The kernel's entry point (the second half of source/kernel.c): console, descriptor tables,
  interrupt controllers, memory size, physical allocator, file system, first program, user mode.

  What the linker, the boot loader and the devices contribute is a record of parameters, the
  platform: physical memory at entry (with the boot information and the disk image in it), the text
  buffer and the uninitialised shell, the addresses of the tables, stubs and stacks, what the CPU
  does to accessed bits, what \<open>inb\<close> answers, and the registers at entry.

  The entry point never returns: it halts or drops to user mode. Interrupts that arrive between
  \<open>sti\<close> and the switch are the subject of theory Boot_Irqs, those afterwards of theory System.
\<close>

section \<open>Parameters and outcomes\<close>

record platform =
  pf_memory :: memory
  pf_vga :: "shell_char list"
  pf_ksh :: shell
  pf_cpu :: "u8 \<Rightarrow> u8"
  pf_dev :: "u16 \<Rightarrow> u8"
  pf_isr :: "nat \<Rightarrow> u32"
  pf_irq :: "nat \<Rightarrow> u32"
  pf_gdt_entries :: u32
  pf_idt_entries :: u32
  pf_tss :: u32
  pf_kernel_stack_top :: u32
  pf_disk_img_start :: u32
  pf_context :: user_context

text \<open>The static data of the kernel before its first instruction. The file system record is zero
  but for its superblock, which no code reads before \<open>ext2_mount\<close> fills it.\<close>

definition sb_zero :: ext2_superblock where
  "sb_zero = \<lparr>s_inodes_count = 0, s_blocks_count = 0, s_r_blocks_count = 0, s_free_blocks_count = 0,
     s_free_inodes_count = 0, s_first_data_block = 0, s_log_block_size = 0, s_log_frag_size = 0,
     s_blocks_per_group = 0, s_frags_per_group = 0, s_inodes_per_group = 0, s_mtime = 0, s_wtime = 0,
     s_mnt_count = 0, s_max_mnt_count = 0, s_magic = 0, s_state = 0, s_errors = 0,
     s_minor_rev_level = 0, s_lastcheck = 0, s_checkinterval = 0, s_creator_os = 0, s_rev_level = 0,
     s_def_resuid = 0, s_def_resgid = 0\<rparr>"

definition kernel_static :: "platform \<Rightarrow> kernel" where
  "kernel_static pf = \<lparr>k_memory = pf_memory pf, k_shell = None, k_pmm = pmm_static, k_gdt = gdt_boot,
     k_idt = idt_boot, k_procs = proc_static,
     k_fs = \<lparr>fs_sb = sb_zero, fs_block_size = 0, fs_bgdt = 0, fs_image = 0\<rparr>, k_io = []\<rparr>"

datatype boot_end = Boot_Halt kernel | Boot_User user_context kernel

section \<open>Operations\<close>

abbreviation (input) VGA_WIDTH :: u32 where "VGA_WIDTH \<equiv> 80"
abbreviation (input) VGA_HEIGHT :: u32 where "VGA_HEIGHT \<equiv> 25"

definition boot_console :: "platform \<Rightarrow> kernel \<Rightarrow> kernel res" where
  "boot_console pf k = rbind (sh_init (pf_ksh pf) (pf_vga pf) VGA_WIDTH (VGA_WIDTH * VGA_HEIGHT)) (\<lambda>ksh.
     Inr (k\<lparr>k_shell := Some ksh\<rparr>))"

text \<open>\<open>!gdt_setup() || !gdt_verify_integrity()\<close>; the flag of the result says the tables are good.\<close>

definition boot_gdt :: "platform \<Rightarrow> kernel \<Rightarrow> bool \<times> kernel" where
  "boot_gdt pf k = (let (g, ok) = gdt_setup (pf_cpu pf) (pf_gdt_entries pf) (k_gdt k) in
     (ok \<and> gdt_verify_integrity (pf_gdt_entries pf) g, k\<lparr>k_gdt := g\<rparr>))"

definition boot_idt :: "platform \<Rightarrow> kernel \<Rightarrow> bool \<times> kernel" where
  "boot_idt pf k = (let ((s, g), ok) = idt_setup (pf_isr pf) (pf_irq pf) (pf_idt_entries pf) (pf_tss pf) (k_idt k, k_gdt k) in
     (ok \<and> idt_verify_integrity (pf_idt_entries pf) s, k\<lparr>k_idt := s, k_gdt := g\<rparr>))"

definition boot_memory :: "u32 \<Rightarrow> u32 \<Rightarrow> kernel \<Rightarrow> kernel res" where
  "boot_memory mb2_magic mb2_address k =
     (case mb2_get_memory (k_memory k) mb2_magic mb2_address of
        None \<Rightarrow> Inl Hang
      | Some total_memory_bytes \<Rightarrow>
          rbind (k_printf (line ''Booted with %d MB of Memory.'')
            [VInt (ucast (total_memory_bytes div (1024 * 1024)))] k) (\<lambda>k.
          let pmm_start_addr = 0x100000;
              pmm_total_size = ucast (total_memory_bytes - ucast pmm_start_addr) in
          rbind (mem_phys_init pmm_start_addr pmm_total_size (k_pmm k)) (\<lambda>p. Inr (k\<lparr>k_pmm := p\<rparr>))))"

definition boot_program :: "platform \<Rightarrow> kernel \<Rightarrow> boot_end res" where
  "boot_program pf k =
     rbind (ext2_mount (k_fs k) (pf_disk_img_start pf) (k_pmm k) (k_memory k)) (\<lambda>(mounted, fs, p, m).
     let k = k\<lparr>k_fs := fs, k_pmm := p, k_memory := m\<rparr> in
     if mounted then
       rbind (k_printf (line ''EXT2 filesystem mounted successfully! Block size: %d bytes'')
         [VInt (fs_block_size (k_fs k))] k) (\<lambda>k.
       rbind (um_setup_env ''example.bin'' k) (\<lambda>k.
         Inr (Boot_User (um_switch (pf_context pf)) k)))
     else rbind (k_puts (line ''Failed to mount EXT2 filesystem from embedded image.'') k) (\<lambda>k.
       Inr (Boot_Halt k)))"

definition kernel_entry :: "platform \<Rightarrow> u32 \<Rightarrow> u32 \<Rightarrow> boot_end res" where
  "kernel_entry pf mb2_magic mb2_address =
     rbind (boot_console pf (kernel_static pf)) (\<lambda>k.
     let (gdt_good, k) = boot_gdt pf k in
     if \<not> gdt_good then rbind (k_puts (line ''FATAL: Failed to initialize GDT!'') k) (\<lambda>k. Inr (Boot_Halt k))
     else let (idt_good, k) = boot_idt pf k in
     if \<not> idt_good then rbind (k_puts (line ''FATAL: Failed to initialize IDT!'') k) (\<lambda>k. Inr (Boot_Halt k))
     else
       let k = pic_init (pf_dev pf) k;
           k = k\<lparr>k_idt := tss_set_kernel_stack (pf_kernel_stack_top pf) (k_idt k)\<rparr> in
       rbind (boot_memory mb2_magic mb2_address k) (boot_program pf))"

section \<open>Specification\<close>

text \<open>The tables as user code finds them: flat ring 3 segments behind the selectors 0x1B and 0x23,
  and one gate it may call.\<close>

definition user_tables :: "gdt \<Rightarrow> idt \<Rightarrow> bool" where
  "user_tables g s \<longleftrightarrow>
     (let code = segment_of (gdt_entries g ! (0x1B div 8)); data = segment_of (gdt_entries g ! (0x23 div 8)) in
      seg_present code \<and> seg_code code \<and> seg_dpl code = Ring3 \<and> seg_base code = 0 \<and> seg_limit code = 0xFFFFF
      \<and> seg_access code = 0xFA \<and> seg_flags code = 0xC0
      \<and> seg_present data \<and> \<not> seg_code data \<and> seg_dpl data = Ring3 \<and> seg_base data = 0 \<and> seg_limit data = 0xFFFFF
      \<and> seg_access data = 0xF2 \<and> seg_flags data = 0xC0)
     \<and> (\<forall>v < 256. int_allowed s Ring3 v \<longleftrightarrow> v = 0x80)"

text \<open>What the boot loader, the linker and the CPU must provide.\<close>

definition platform_ok :: "platform \<Rightarrow> bool" where
  "platform_ok pf \<longleftrightarrow> length (pf_vga pf) = 2000 \<and> length (sh_streams (pf_ksh pf)) = 3
     \<and> (\<forall>s \<in> set (sh_streams (pf_ksh pf)). length (st_data s) = 1024)
     \<and> cpu_marks_accessed (pf_cpu pf) \<and> pf_isr pf 0 \<noteq> 0 \<and> pf_isr pf 13 \<noteq> 0"

text \<open>What is on the console before the first line.\<close>

definition blank_console :: console where
  "blank_console = (80, (replicate 2000 (mk_char CHR '' '' 0x07), 0), Live 0)"

definition console_shows :: "kernel \<Rightarrow> char list \<Rightarrow> bool" where
  "console_shows k cs \<longleftrightarrow> (\<exists>sh. k_shell k = Some sh \<and> con_ok sh \<and> con_of sh = fold con_step cs blank_console)"

section \<open>Lemmas: console and tables\<close>

lemma console_shows_live: "console_shows k cs \<Longrightarrow> console_live k"
  by (auto simp: console_shows_def console_live_def)

lemma console_shows_says: "console_shows k cs \<Longrightarrow> says k ds k' \<Longrightarrow> console_shows k' (cs @ ds)"
  by (auto simp: console_shows_def says_def)

lemma console_shows_updates [simp]:
  "console_shows (k\<lparr>k_memory := m\<rparr>) cs = console_shows k cs" "console_shows (k\<lparr>k_pmm := p\<rparr>) cs = console_shows k cs"
  "console_shows (k\<lparr>k_gdt := g\<rparr>) cs = console_shows k cs" "console_shows (k\<lparr>k_idt := i\<rparr>) cs = console_shows k cs"
  "console_shows (k\<lparr>k_procs := pm\<rparr>) cs = console_shows k cs" "console_shows (k\<lparr>k_fs := fs\<rparr>) cs = console_shows k cs"
  "console_shows (k\<lparr>k_io := tr\<rparr>) cs = console_shows k cs" "console_shows (with_process k q) cs = console_shows k cs"
  by (simp_all add: console_shows_def)

lemma boot_console_ok:
  assumes "platform_ok pf"
  shows "\<exists>sh. boot_console pf k = Inr (k\<lparr>k_shell := Some sh\<rparr>) \<and> console_shows (k\<lparr>k_shell := Some sh\<rparr>) []
    \<and> stream_contents (sh_streams sh ! 0) = [] \<and> st_head (sh_streams sh ! 2) = 0 \<and> st_tail (sh_streams sh ! 0) = 0"
proof -
  obtain sh where "sh_init (pf_ksh pf) (pf_vga pf) 80 2000 = Inr sh" "con_ok sh"
    "con_of sh = (80, (replicate 2000 (mk_char CHR '' '' 0x07), 0), Live 0)"
    "stream_contents (sh_streams sh ! 0) = []" "st_head (sh_streams sh ! 2) = 0" "st_tail (sh_streams sh ! 0) = 0"
    using sh_init_ok[of 80 2000 "pf_vga pf" "pf_ksh pf"] assms by (auto simp: platform_ok_def)
  then show ?thesis by (auto simp: boot_console_def console_shows_def blank_console_def)
qed

text \<open>The entry point up to the memory size: it reaches \<open>boot_memory\<close> with good tables.\<close>

lemma boot_front:
  fixes magic addr :: u32
  assumes ok: "platform_ok pf"
  obtains k where "kernel_entry pf magic addr = rbind (boot_memory magic addr k) (boot_program pf)"
    "console_shows k []" "user_tables (k_gdt k) (k_idt k)" "stdin_text k = []"
    "idt_tss (k_idt k) = boot_tss\<lparr>tss_esp0 := pf_kernel_stack_top pf\<rparr>"
    "k_memory k = pf_memory pf" "k_pmm k = pmm_static" "k_procs k = proc_static"
    "k_fs k = k_fs (kernel_static pf)"
    "\<forall>v < 256. gate_of (idt_entries (k_idt k) ! v) = boot_gate (pf_isr pf) (pf_irq pf) v"
    "st_head (stderr_of k) = 0" "st_tail (stdin_of k) = 0"
proof -
  have cpu: "cpu_marks_accessed (pf_cpu pf)" and isr: "pf_isr pf 0 \<noteq> 0" "pf_isr pf 13 \<noteq> 0"
    using ok by (simp_all add: platform_ok_def)
  obtain sh where sh: "boot_console pf (kernel_static pf) = Inr ((kernel_static pf)\<lparr>k_shell := Some sh\<rparr>)"
    "console_shows ((kernel_static pf)\<lparr>k_shell := Some sh\<rparr>) []" "stream_contents (sh_streams sh ! 0) = []"
    "st_head (sh_streams sh ! 2) = 0" "st_tail (sh_streams sh ! 0) = 0"
    using boot_console_ok[OF ok] by blast
  obtain g a d where g: "gdt_setup (pf_cpu pf) (pf_gdt_entries pf) gdt_boot = (g, True)"
    "gdt_entries g = [gdt_zero_entry, flat_entry a, flat_entry d, flat_entry 0xFA, flat_entry 0xF2, gdt_zero_entry]"
    "gdt_verify_integrity (pf_gdt_entries pf) g"
    by (rule gdt_setup_result[OF gdt_boot_shape cpu])
  let ?h = "gdt_set_entry 5 (pf_tss pf) 103 0x89 0 g"
  obtain s where s: "idt_setup (pf_isr pf) (pf_irq pf) (pf_idt_entries pf) (pf_tss pf) (idt_boot, g) = ((s, ?h), True)"
    "\<forall>v < 256. gate_of (idt_entries s ! v) = boot_gate (pf_isr pf) (pf_irq pf) v" "idt_tss s = boot_tss"
    by (rule idt_setup_result[OF idt_boot_shape])
  have good: "idt_verify_integrity (pf_idt_entries pf) s"
    by (rule idt_setup_verifies[where g = g, OF idt_boot_shape isr s(1)])
  have seg: "gdt_entries ?h ! 3 = flat_entry 0xFA" "gdt_entries ?h ! 4 = flat_entry 0xF2"
    using g(2) by (simp_all add: gdt_set_entry_def)
  have gates: "int_allowed s Ring3 v \<longleftrightarrow> v = 0x80" if "v < 256" for v
    using s(2) that by (auto simp: int_allowed_def boot_gate_def exception_vectors_def less_eq_ring_def split: if_splits)
  let ?s = "tss_set_kernel_stack (pf_kernel_stack_top pf) s"
  have "int_allowed ?s = int_allowed s"
    by (simp add: fun_eq_iff int_allowed_def tss_set_kernel_stack_def)
  then have tables: "user_tables ?h ?s"
    using seg flat_segment_rings(3,4) gates
    by (simp add: user_tables_def Let_def segment_of_flat) (simp add: flat_segment_def)
  let ?k0 = "(kernel_static pf)\<lparr>k_shell := Some sh\<rparr>"
  obtain tr where tr: "pic_init (pf_dev pf) k = k\<lparr>k_io := k_io k @ tr\<rparr>" if "k = ?k0\<lparr>k_gdt := ?h, k_idt := s\<rparr>" for k
    by (simp add: pic_init_def inb_eq outb_def)
  let ?k = "?k0\<lparr>k_gdt := ?h, k_idt := ?s, k_io := tr\<rparr>"
  have "kernel_entry pf magic addr = rbind (boot_memory magic addr ?k) (boot_program pf)"
    using sh(1) g(1,3) s(1) good tr[OF refl]
    by (simp add: kernel_entry_def boot_gdt_def boot_idt_def kernel_static_def)
  then show ?thesis
    using tables sh(2-5) s(2,3)
    by (intro that[of ?k])
      (simp_all add: kernel_static_def tss_set_kernel_stack_def console_shows_def stdin_text_def stderr_of_def stdin_of_def)
qed

section \<open>Lemmas: memory and the file system\<close>

definition memory_line :: "u64 \<Rightarrow> char list" where
  "memory_line bytes = line (''Booted with '' @ int_text (ucast (bytes div 1048576)) 10 @ '' MB of Memory.'')"

definition mounted_line :: "u32 \<Rightarrow> char list" where
  "mounted_line bs = line (''EXT2 filesystem mounted successfully! Block size: '' @ int_text bs 10 @ '' bytes'')"

text \<open>The sectors the allocator is told of.\<close>

definition boot_sectors :: "u64 \<Rightarrow> u32" where
  "boot_sectors bytes = ucast (bytes - 0x100000) div 8192"

lemma boot_memory_ok:
  assumes "mb2_get_memory (k_memory k) magic addr = Some bytes" "console_live k" "pmm_ok (k_pmm k)"
  shows "\<exists>k'. says k (memory_line bytes) k'
    \<and> boot_memory magic addr k = Inr (k'\<lparr>k_pmm := pmm_fresh 0x100000 (boot_sectors bytes)\<rparr>)"
proof -
  have "fmt_text (line ''Booted with %d MB of Memory.'') [VInt (ucast (bytes div (1024 * 1024)))]
      = Inr (memory_line bytes)"
    by (simp add: line_def memory_line_def)
  from k_printf_says[OF assms(2) this] obtain k' where
    k': "k_printf (line ''Booted with %d MB of Memory.'') [VInt (ucast (bytes div (1024 * 1024)))] k = Inr k'"
      "says k (memory_line bytes) k'" by blast
  have "k_pmm k' = k_pmm k" using says_frame[OF k'(2)] by simp
  with k' assms(1,3) show ?thesis
    by (auto simp: boot_memory_def Let_def mem_phys_init_spec boot_sectors_def)
qed

lemma boot_memory_hangs:
  "mb2_get_memory (k_memory k) magic addr = None \<Longrightarrow> boot_memory magic addr k = Inl Hang"
  by (simp add: boot_memory_def)

lemma boot_memory_static:
  assumes "console_shows k []" "k_memory k = pf_memory pf" "k_pmm k = pmm_static"
    "mb2_get_memory (pf_memory pf) magic addr = Some bytes"
  shows "\<exists>k'. says k (memory_line bytes) k'
    \<and> boot_memory magic addr k = Inr (k'\<lparr>k_pmm := pmm_fresh 0x100000 (boot_sectors bytes)\<rparr>)"
proof (rule boot_memory_ok)
  show "mb2_get_memory (k_memory k) magic addr = Some bytes" using assms(2,4) by simp
  show "console_live k" by (rule console_shows_live[OF assms(1)])
  show "pmm_ok (k_pmm k)" by (simp add: assms(3) pmm_ok_def pmm_static_def)
qed

text \<open>A mount that fails for a wrong magic number, and one that succeeds.\<close>

lemma boot_program_unmounted:
  assumes "s_magic (load_superblock (k_memory k) (pf_disk_img_start pf + 1024)) \<noteq> 0xEF53" "console_live k"
  shows "\<exists>fs k'. boot_program pf k = Inr (Boot_Halt k')
    \<and> says (k\<lparr>k_fs := fs\<rparr>) (line ''Failed to mount EXT2 filesystem from embedded image.'') k'"
proof -
  let ?fs = "(k_fs k)\<lparr>fs_image := pf_disk_img_start pf,
    fs_sb := load_superblock (k_memory k) (pf_disk_img_start pf + 1024)\<rparr>"
  have mount: "ext2_mount (k_fs k) (pf_disk_img_start pf) (k_pmm k) (k_memory k)
      = Inr (False, ?fs, k_pmm k, k_memory k)"
    using assms(1) by (simp add: ext2_mount_def Let_def)
  have same: "k\<lparr>k_fs := ?fs, k_pmm := k_pmm k, k_memory := k_memory k\<rparr> = k\<lparr>k_fs := ?fs\<rparr>"
    by (cases k) simp
  have live: "console_live (k\<lparr>k_fs := ?fs\<rparr>)" using assms(2) by simp
  obtain k' where "k_puts (line ''Failed to mount EXT2 filesystem from embedded image.'') (k\<lparr>k_fs := ?fs\<rparr>) = Inr k'"
    "says (k\<lparr>k_fs := ?fs\<rparr>) (line ''Failed to mount EXT2 filesystem from embedded image.'') k'"
    using k_puts_says[OF live, of "line ''Failed to mount EXT2 filesystem from embedded image.''"]
    by (auto simp: cstr_line)
  then show ?thesis unfolding boot_program_def mount rbind_Inr prod.case Let_def same by auto
qed

lemma boot_program_mounted:
  assumes "ext2_mount (k_fs k) (pf_disk_img_start pf) (k_pmm k) (k_memory k) = Inr (True, fs, p, m)"
    "console_live k"
  shows "\<exists>k'. says (k\<lparr>k_fs := fs, k_pmm := p, k_memory := m\<rparr>) (mounted_line (fs_block_size fs)) k'
    \<and> boot_program pf k = rbind (um_setup_env ''example.bin'' k') (\<lambda>k. Inr (Boot_User (um_switch (pf_context pf)) k))"
proof -
  let ?k = "k\<lparr>k_fs := fs, k_pmm := p, k_memory := m\<rparr>"
  have fmt: "fmt_text (line ''EXT2 filesystem mounted successfully! Block size: %d bytes'') [VInt (fs_block_size fs)]
      = Inr (mounted_line (fs_block_size fs))"
    by (simp add: line_def mounted_line_def)
  have live: "console_live ?k" using assms(2) by simp
  from k_printf_says[OF live fmt] obtain k' where
    "k_printf (line ''EXT2 filesystem mounted successfully! Block size: %d bytes'') [VInt (fs_block_size fs)] ?k = Inr k'"
    "says ?k (mounted_line (fs_block_size fs)) k'" by blast
  then show ?thesis unfolding boot_program_def assms(1) rbind_Inr prod.case Let_def by auto
qed

section \<open>Lemmas: the whole boot\<close>

text \<open>A disk image the driver can mount on a machine with that many sectors, and the state of
  memory and of the file system once it has: the descriptor table is copied to 1 MiB.\<close>

definition mountable :: "memory \<Rightarrow> u32 \<Rightarrow> u32 \<Rightarrow> ext2_superblock \<Rightarrow> bool" where
  "mountable m img sectors sb \<longleftrightarrow> sb_valid sb \<and> holds m (img + 1024) (superblock_bytes sb)
     \<and> sectors \<le> 65536 \<and> sectors_for (32 * sb_groups sb) \<le> unat sectors
     \<and> sectors_for (32 * sb_groups sb) < 65536
     \<and> disjoint_ranges (img + sb_gdt_offset sb) (32 * sb_groups sb) 0x100000 (32 * sb_groups sb)"

definition mounted_memory :: "memory \<Rightarrow> u32 \<Rightarrow> ext2_superblock \<Rightarrow> memory" where
  "mounted_memory m img sb = (\<lambda>x. if in_range 0x100000 (32 * sb_groups sb) x
     then m (img + sb_gdt_offset sb + (x - 0x100000)) else m x)"

definition mounted_fs :: "u32 \<Rightarrow> ext2_superblock \<Rightarrow> ext2_fs" where
  "mounted_fs img sb = \<lparr>fs_sb = sb, fs_block_size = sb_block_size sb, fs_bgdt = 0x100000, fs_image = img\<rparr>"

lemma ext2_mount_fresh:
  assumes "mountable m img sectors sb"
  shows "\<exists>q. ext2_mount fs0 img (pmm_fresh 0x100000 sectors) m
      = Inr (True, mounted_fs img sb, q, mounted_memory m img sb)
    \<and> pmm_ok q \<and> mem_phys_start q = 0x100000 \<and> pmm_free q = {sectors_for (32 * sb_groups sb)..<65536}"
proof -
  let ?p = "pmm_fresh 0x100000 sectors" and ?n = "sectors_for (32 * sb_groups sb)"
  have mt: "sb_valid sb" "holds m (img + 1024) (superblock_bytes sb)" "sectors \<le> 65536" "?n \<le> unat sectors"
    "disjoint_ranges (img + sb_gdt_offset sb) (32 * sb_groups sb) 0x100000 (32 * sb_groups sb)"
    using assms by (simp_all add: mountable_def)
  have sb: "sb = load_superblock m (img + 1024)" using load_superblock_holds[OF mt(2)] by simp
  note runs = pmm_fresh_runs[OF mt(3,4), of "0x100000"]
  have at: "sector_addr ?p (Min (pmm_runs ?p ?n)) = 0x100000"
    using runs(3) by (simp add: sector_addr_def)
  have "pmm_runs ?p ?n \<noteq> {}" using runs(2) by blast
  from ext2_mount_ok[OF mt(1) sb runs(1) this, of fs0, unfolded at] mt(5) obtain q m' where
    q: "ext2_mount fs0 img ?p m = Inr (True, mounted_fs img sb, q, m')" "pmm_sized q"
      "mem_phys_start q = mem_phys_start ?p" "pmm_free q = pmm_free ?p - {0..<?n}"
    and m': "\<forall>x. m' x = (if in_range 0x100000 (32 * sb_groups sb) x
         then m (img + sb_gdt_offset sb + (x - 0x100000)) else m x)"
    by (auto simp: runs(3) mounted_fs_def Let_def)
  have "m' = mounted_memory m img sb" using m' by (simp add: mounted_memory_def fun_eq_iff)
  moreover have "pmm_free q = {?n..<65536}" unfolding q(4) pmm_fresh_free by auto
  moreover have "mem_phys_start ?p = 0x100000" by (simp add: pmm_fresh_def)
  ultimately show ?thesis using q(1-3) by (simp add: pmm_sized_def)
qed

text \<open>The process table and the allocator with the first process, whose stack is sector \<open>n\<close>.\<close>

definition first_process :: "nat \<Rightarrow> kernel \<Rightarrow> bool" where
  "first_process n k \<longleftrightarrow> current_process (k_procs k) = Some 0
     \<and> pr_kernel_stack_top (process_table (k_procs k) ! 0) = 0x100000 + of_nat n * 8192
     \<and> mem_phys_start (k_pmm k) = 0x100000 \<and> pmm_free (k_pmm k) = {Suc n..<65536}"

lemma first_process_cong:
  "k_procs k' = k_procs k \<Longrightarrow> k_pmm k' = k_pmm k \<Longrightarrow> first_process n k' = first_process n k"
  by (simp add: first_process_def)

text \<open>From the mounted file system to user mode, with the program found or not.\<close>

lemma um_setup_env_boot:
  assumes "console_shows k cs" "k_procs k = proc_static" "pmm_ok (k_pmm k)" "mem_phys_start (k_pmm k) = 0x100000"
    "pmm_free (k_pmm k) = {n..<65536}" "n < 65536" "root_holds (k_memory k) (k_fs k) dss" "NUL \<notin> set name"
  defines "ino \<equiv> lookup name (concat (map dir_listing dss))"
  assumes inode: "ino \<noteq> 0 \<Longrightarrow> ext2_read_inode (k_memory k) (k_fs k) ino = Inr (Some inode) \<and> loadable (k_fs k) inode"
  shows "\<exists>k'. um_setup_env name k = Inr k'
    \<and> (if ino = 0 then k_memory k' = k_memory k
       else stored_upto (k_memory k) (k_fs k) inode 0x400000 0 (loaded_bytes (k_fs k) inode) (k_memory k'))
    \<and> k_gdt k' = k_gdt k \<and> k_idt k' = tss_set_kernel_stack (0x100000 + of_nat n * 8192) (k_idt k)
    \<and> k_fs k' = k_fs k \<and> first_process n k'
    \<and> console_shows k' (cs @ lookup_text name (concat (map dir_listing dss))
        @ (if ino = 0 then line (''Failed to find program: '' @ name) else short_read_text (k_fs k) inode))"
proof -
  have live: "console_live k" by (rule console_shows_live[OF assms(1)])
  have slots: "proc_shape (k_procs k)" "unused_slots (k_procs k) \<noteq> {}"
    unfolding assms(2) by (simp_all add: lessThan_empty_iff del: lessThan_eq_iff)
  have free: "pmm_free (k_pmm k) \<noteq> {}" "Min (pmm_free (k_pmm k)) = n"
    unfolding assms(5) using assms(6) by (simp, intro Min_eqI, simp_all)
  then have stack: "sector_addr (k_pmm k) (Min (pmm_free (k_pmm k))) = 0x100000 + of_nat n * 8192"
    using assms(4) by (simp add: sector_addr_def)
  from um_setup_env_ok[OF live slots assms(3) free(1) assms(7,8)] obtain q k1 where
    k1: "says (with_process k q) (lookup_text name (concat (map dir_listing dss))) k1"
      "um_setup_env name k = um_load name ino k1" and q: "pmm_free q = pmm_free (k_pmm k) - {n}" "mem_phys_start q = 0x100000"
    using assms(4) free(2) by (auto simp: ino_def)
  note fr = says_frame[OF k1(1)]
  have "Min {..<64 :: nat} = 0" by (intro Min_eqI) simp_all
  then have pid: "Min (unused_slots (k_procs k)) = 0" by (simp only: assms(2) proc_static_unused)
  have "pmm_free q = {Suc n..<65536}" unfolding q(1) assms(5) by auto
  moreover have "0 < length (process_table (k_procs k))" by (simp add: assms(2) proc_static_def)
  ultimately have "first_process n (with_process k q)"
    using q(2) stack by (simp add: first_process_def with_process_def Let_def pid)
  then have proc: "first_process n k1" using fr(2,5) by (simp add: first_process_def)
  have idt: "k_idt k1 = tss_set_kernel_stack (0x100000 + of_nat n * 8192) (k_idt k)"
    using fr(4) stack by (simp add: with_process_def Let_def)
  have shows1: "console_shows k1 (cs @ lookup_text name (concat (map dir_listing dss)))"
    using console_shows_says[OF _ k1(1), of cs] assms(1) by simp
  have live1: "console_live k1" by (rule console_shows_live[OF shows1])
  show ?thesis
  proof (cases "ino = 0")
    case True
    from um_load_missing[OF live1, of name] obtain k' where k': "um_load name 0 k1 = Inr k'"
      "says k1 (line (''Failed to find program: '' @ name)) k'" unfolding cstr_id[OF assms(8)] by blast
    note fr' = says_frame[OF k'(2)]
    show ?thesis
    proof (intro exI conjI)
      show "um_setup_env name k = Inr k'" using k1(2) k'(1) True by simp
      show "k_fs k' = k_fs k" "first_process n k'" using fr(6) fr'(2,5,6) proc by (simp_all add: first_process_def)
      show "k_gdt k' = k_gdt k" "k_idt k' = tss_set_kernel_stack (0x100000 + of_nat n * 8192) (k_idt k)"
        "if ino = 0 then k_memory k' = k_memory k
         else stored_upto (k_memory k) (k_fs k) inode 0x400000 0 (loaded_bytes (k_fs k) inode) (k_memory k')"
        using fr' fr(1,3) idt True by simp_all
      show "console_shows k' (cs @ lookup_text name (concat (map dir_listing dss))
        @ (if ino = 0 then line (''Failed to find program: '' @ name) else short_read_text (k_fs k) inode))"
        using console_shows_says[OF shows1 k'(2)] by (simp only: append.assoc True refl if_True)
    qed
  next
    case False
    then have "ext2_read_inode (k_memory k1) (k_fs k1) ino = Inr (Some inode)" "loadable (k_fs k1) inode"
      using inode fr by simp_all
    from um_load_ok[OF live1 False this, of name] obtain m k' where
      k': "um_load name ino k1 = Inr k'"
        "stored_upto (k_memory k1) (k_fs k1) inode 0x400000 0 (loaded_bytes (k_fs k1) inode) m"
        "says (k1\<lparr>k_memory := m\<rparr>) (short_read_text (k_fs k1) inode) k'" by blast
    have "console_shows (k1\<lparr>k_memory := m\<rparr>) (cs @ lookup_text name (concat (map dir_listing dss)))"
      using shows1 by simp
    note shows' = console_shows_says[OF this k'(3)] and fr' = says_frame[OF k'(3)]
    show ?thesis
    proof (intro exI conjI)
      show "um_setup_env name k = Inr k'" using k1(2) k'(1) by simp
      show "k_fs k' = k_fs k" "first_process n k'" using fr(6) fr'(2,5,6) proc by (simp_all add: first_process_def)
      show "k_gdt k' = k_gdt k" "k_idt k' = tss_set_kernel_stack (0x100000 + of_nat n * 8192) (k_idt k)"
        "if ino = 0 then k_memory k' = k_memory k
         else stored_upto (k_memory k) (k_fs k) inode 0x400000 0 (loaded_bytes (k_fs k) inode) (k_memory k')"
        using k'(2) fr' fr(1,3,6) idt False by simp_all
      show "console_shows k' (cs @ lookup_text name (concat (map dir_listing dss))
        @ (if ino = 0 then line (''Failed to find program: '' @ name) else short_read_text (k_fs k) inode))"
        using shows' fr(6) by (simp only: append.assoc False if_False with_process_sel)
    qed
  qed
qed

lemma user_tables_stack: "user_tables g (tss_set_kernel_stack e s) = user_tables g s"
  by (simp add: user_tables_def int_allowed_def tss_set_kernel_stack_def)

section \<open>Lemmas: what boot leaves alone\<close>

text \<open>The descriptor tables, as far as the protection checks and the stack switch look at them.\<close>

definition tables :: "kernel \<Rightarrow> gdt \<times> idt_entry list \<times> u32" where
  "tables k = (k_gdt k, idt_entries (k_idt k), tss_ss0 (idt_tss (k_idt k)))"

lemma tables_updates [simp]:
  "tables (k\<lparr>k_memory := m\<rparr>) = tables k" "tables (k\<lparr>k_pmm := p\<rparr>) = tables k"
  "tables (k\<lparr>k_procs := pm\<rparr>) = tables k" "tables (k\<lparr>k_fs := fs\<rparr>) = tables k"
  "tables (k\<lparr>k_io := tr\<rparr>) = tables k" "tables (k\<lparr>k_shell := sh\<rparr>) = tables k"
  "tables (k\<lparr>k_idt := tss_set_kernel_stack e (k_idt k)\<rparr>) = tables k"
  by (simp_all add: tables_def tss_set_kernel_stack_def)

lemma user_tables_cong: "tables k = tables k' \<Longrightarrow> user_tables (k_gdt k) (k_idt k) = user_tables (k_gdt k') (k_idt k')"
  by (simp add: tables_def user_tables_def int_allowed_def)

text \<open>Whatever boot does after the tables are set up, if it goes on at all: they stay, and a live
  console stays live, its standard input unread and its error stream unused.\<close>

definition steady :: "kernel \<Rightarrow> kernel \<Rightarrow> bool" where
  "steady k k' \<longleftrightarrow> tables k' = tables k
     \<and> (console_live k \<longrightarrow> console_live k' \<and> stdin_text k' = stdin_text k \<and> stdin_of k' = stdin_of k \<and> stderr_of k' = stderr_of k)"

lemma steady_refl: "steady k k"
  by (simp add: steady_def)

lemma steady_trans: "steady k k1 \<Longrightarrow> steady k1 k2 \<Longrightarrow> steady k k2"
  by (simp add: steady_def)

lemma console_live_ok: "console_live k \<Longrightarrow> \<exists>sh. k_shell k = Some sh \<and> sh_ok sh"
  by (auto simp: console_live_def con_ok_def)

lemma steady_puts: "k_puts str k = Inr k' \<Longrightarrow> steady k k'"
proof -
  assume r: "k_puts str k = Inr k'"
  have "console_live k' \<and> stdin_text k' = stdin_text k \<and> stdin_of k' = stdin_of k \<and> stderr_of k' = stderr_of k" if "console_live k"
    using k_puts_says[OF that, of str] console_live_ok[OF that] k_puts_prints[of k _ str] k_puts_stderr[OF that, of str] r
    by (auto dest: says_live prints_stdin prints_stdin_of)
  moreover have "tables k' = tables k"
    using r by (auto simp: k_puts_def with_shell_def rbind_eq_Inr split: option.splits)
  ultimately show ?thesis by (simp add: steady_def)
qed

lemma steady_printf: "k_printf fmt args k = Inr k' \<Longrightarrow> steady k k'"
proof -
  assume r: "k_printf fmt args k = Inr k'"
  have "console_live k' \<and> stdin_text k' = stdin_text k \<and> stdin_of k' = stdin_of k \<and> stderr_of k' = stderr_of k" if live: "console_live k"
  proof (cases "fmt_text fmt args")
    case (Inl e)
    obtain sh where "k_shell k = Some sh" "con_ok sh" using live by (auto simp: console_live_def)
    with sh_printf_Inl[OF _ Inl] r show ?thesis by (auto simp: k_printf_def with_shell_def)
  next
    case (Inr cs)
    from k_printf_says[OF live Inr] console_live_ok[OF live] k_printf_prints[OF _ _ Inr, of k]
      k_printf_stderr[OF live Inr] r
    show ?thesis by (auto dest: says_live prints_stdin prints_stdin_of)
  qed
  moreover have "tables k' = tables k"
    using r by (auto simp: k_printf_def with_shell_def rbind_eq_Inr split: option.splits)
  ultimately show ?thesis by (simp add: steady_def)
qed

lemma steady_lookup:
  assumes "ext2_find_file_inode_by_name name k = Inr (ino, k')"
  shows "steady k k'"
proof -
  have walk: "steady k1 k2" if "ext2_read_dir m fs dir print_dir_cb k1 = Inr k2" for m fs dir k1 k2
    by (rule ext2_read_dir_keeps[where Q = "steady k1", OF _ steady_refl that])
      (auto simp: print_dir_cb_def rbind_eq_Inr intro: steady_trans dest: steady_printf)
  show ?thesis
    using assms
    by (auto simp: ext2_find_file_inode_by_name_def rbind_eq_Inr split: option.splits if_splits
        dest!: walk steady_puts steady_printf) (blast intro: steady_trans)+
qed

lemma steady_load: "um_load name ino k = Inr k' \<Longrightarrow> steady k k'"
  by (auto simp: um_load_def rbind_eq_Inr Let_def steady_refl split: option.splits if_splits dest!: steady_printf)
    (simp_all add: steady_def)

lemma steady_process: "steady k (k\<lparr>k_procs := pm, k_pmm := p, k_idt := tss_set_kernel_stack e (k_idt k)\<rparr>)"
  by (simp add: steady_def tables_def tss_set_kernel_stack_def)

lemma steady_setup_env:
  assumes "um_setup_env name k = Inr k'"
  shows "steady k k'"
proof -
  obtain proc pm p where c: "proc_create (k_procs k) (k_pmm k) = Inr (proc, pm, p)"
    using assms by (auto simp: um_setup_env_def rbind_eq_Inr)
  show ?thesis
  proof (cases proc)
    case None
    with assms c have "steady (k\<lparr>k_procs := pm, k_pmm := p\<rparr>) k'"
      by (auto simp: um_setup_env_def dest: steady_puts)
    then show ?thesis by (simp add: steady_def)
  next
    case (Some pid)
    with assms c obtain e ino k1 where
      "ext2_find_file_inode_by_name name (k\<lparr>k_procs := pm, k_pmm := p, k_idt := tss_set_kernel_stack e (k_idt k)\<rparr>)
        = Inr (ino, k1)" "um_load name ino k1 = Inr k'"
      by (auto simp: um_setup_env_def rbind_eq_Inr Let_def simp del: arr_get_def)
    with steady_process show ?thesis by (blast intro: steady_trans dest: steady_lookup steady_load)
  qed
qed

lemma steady_boot_memory: "boot_memory magic addr k = Inr k' \<Longrightarrow> steady k k'"
  by (auto simp: boot_memory_def rbind_eq_Inr Let_def split: option.splits dest!: steady_printf)
    (simp add: steady_def)

lemma steady_boot_program:
  assumes "boot_program pf k = Inr (Boot_User c k')"
  shows "steady k k' \<and> c = um_switch (pf_context pf)"
proof -
  obtain fs p m k1 where
    "k_printf (line ''EXT2 filesystem mounted successfully! Block size: %d bytes'') [VInt (fs_block_size fs)]
      (k\<lparr>k_fs := fs, k_pmm := p, k_memory := m\<rparr>) = Inr k1"
    "um_setup_env ''example.bin'' k1 = Inr k'" and c: "c = um_switch (pf_context pf)"
    using assms by (auto simp: boot_program_def rbind_eq_Inr Let_def split: if_splits)
  then have "steady (k\<lparr>k_fs := fs, k_pmm := p, k_memory := m\<rparr>) k'"
    by (blast intro: steady_trans dest: steady_printf steady_setup_env)
  with c show ?thesis by (simp add: steady_def)
qed

text \<open>A boot that reaches user mode leaves good tables and a live console.\<close>

lemma boot_reaches_user:
  assumes "platform_ok pf" "kernel_entry pf magic addr = Inr (Boot_User c k)"
  shows "user_tables (k_gdt k) (k_idt k)" "console_live k" "c = um_switch (pf_context pf)" "stdin_text k = []"
    "\<forall>v < 256. gate_of (idt_entries (k_idt k) ! v) = boot_gate (pf_isr pf) (pf_irq pf) v"
    "tss_ss0 (idt_tss (k_idt k)) = 0x10" "st_head (stderr_of k) = 0" "st_tail (stdin_of k) = 0"
proof -
  obtain k0 where k0: "kernel_entry pf magic addr = rbind (boot_memory magic addr k0) (boot_program pf)"
    "user_tables (k_gdt k0) (k_idt k0)" "console_shows k0 []" "stdin_text k0 = []" "st_head (stderr_of k0) = 0"
    "st_tail (stdin_of k0) = 0" "idt_tss (k_idt k0) = boot_tss\<lparr>tss_esp0 := pf_kernel_stack_top pf\<rparr>"
    "\<forall>v < 256. gate_of (idt_entries (k_idt k0) ! v) = boot_gate (pf_isr pf) (pf_irq pf) v"
    by (rule boot_front[OF assms(1)])
  from assms(2)[unfolded k0(1)] obtain k1 where
    k1: "boot_memory magic addr k0 = Inr k1" "boot_program pf k1 = Inr (Boot_User c k)"
    by (auto simp: rbind_eq_Inr)
  then have s: "steady k0 k" and c: "c = um_switch (pf_context pf)"
    using steady_boot_program[OF k1(2)] steady_boot_memory[OF k1(1)] by (auto intro: steady_trans)
  show "c = um_switch (pf_context pf)" by (rule c)
  show "user_tables (k_gdt k) (k_idt k)" using s k0(2) user_tables_cong[of k k0] by (simp add: steady_def)
  show "console_live k" "stdin_text k = []" "st_head (stderr_of k) = 0" "st_tail (stdin_of k) = 0"
    using s console_shows_live[OF k0(3)] k0(4-6) by (simp_all add: steady_def)
  have "tables k = tables k0" using s by (simp add: steady_def)
  then show "\<forall>v < 256. gate_of (idt_entries (k_idt k) ! v) = boot_gate (pf_isr pf) (pf_irq pf) v"
    "tss_ss0 (idt_tss (k_idt k)) = 0x10"
    using k0(7,8) by (simp_all add: tables_def boot_tss_def)
qed

lemma boot_user_state:
  assumes "platform_ok pf" "mb2_get_memory (pf_memory pf) magic addr = Some bytes"
    "mountable (pf_memory pf) (pf_disk_img_start pf) (boot_sectors bytes) sb"
    "m = mounted_memory (pf_memory pf) (pf_disk_img_start pf) sb" "fs = mounted_fs (pf_disk_img_start pf) sb"
    "root_holds m fs dss" "es = concat (map dir_listing dss)" "ino = lookup ''example.bin'' es"
    "ino \<noteq> 0 \<Longrightarrow> ext2_read_inode m fs ino = Inr (Some inode) \<and> loadable fs inode"
  shows "\<exists>k. kernel_entry pf magic addr = Inr (Boot_User (um_switch (pf_context pf)) k)
    \<and> (if ino = 0 then k_memory k = m
       else (\<forall>i < loaded_bytes fs inode. k_memory k (0x400000 + of_nat i) = file_byte m fs inode i)
         \<and> (\<forall>x. \<not> in_range 0x400000 (loaded_bytes fs inode) x \<longrightarrow> k_memory k x = m x))
    \<and> user_tables (k_gdt k) (k_idt k)
    \<and> tss_esp0 (idt_tss (k_idt k)) = 0x100000 + of_nat (sectors_for (32 * sb_groups sb)) * 8192
    \<and> k_fs k = fs \<and> first_process (sectors_for (32 * sb_groups sb)) k
    \<and> console_shows k (memory_line bytes @ mounted_line (sb_block_size sb) @ lookup_text ''example.bin'' es
        @ (if ino = 0 then line ''Failed to find program: example.bin'' else short_read_text fs inode))"
proof -
  let ?img = "pf_disk_img_start pf" and ?n = "sectors_for (32 * sb_groups sb)"
  obtain k0 where k0: "kernel_entry pf magic addr = rbind (boot_memory magic addr k0) (boot_program pf)"
    "console_shows k0 []" "user_tables (k_gdt k0) (k_idt k0)"
    "k_memory k0 = pf_memory pf" "k_pmm k0 = pmm_static" "k_procs k0 = proc_static"
    by (rule boot_front[OF assms(1)])
  obtain k1 where
    k1: "says k0 (memory_line bytes) k1"
      "boot_memory magic addr k0 = Inr (k1\<lparr>k_pmm := pmm_fresh 0x100000 (boot_sectors bytes)\<rparr>)"
    using boot_memory_static[OF k0(2,4,5) assms(2)] by blast
  note fr1 = says_frame[OF k1(1)]
  let ?k1 = "k1\<lparr>k_pmm := pmm_fresh 0x100000 (boot_sectors bytes)\<rparr>"
  obtain q where q: "ext2_mount (k_fs ?k1) ?img (k_pmm ?k1) (k_memory ?k1) = Inr (True, fs, q, m)"
    "pmm_ok q" "mem_phys_start q = 0x100000" "pmm_free q = {?n..<65536}"
    using ext2_mount_fresh[OF assms(3), of "k_fs ?k1"] fr1 k0(4) assms(4,5) by auto
  have shows1: "console_shows ?k1 (memory_line bytes)"
    using console_shows_says[OF k0(2) k1(1)] by simp
  from boot_program_mounted[OF q(1) console_shows_live[OF shows1]] obtain k2 where
    k2: "says (?k1\<lparr>k_fs := fs, k_pmm := q, k_memory := m\<rparr>) (mounted_line (fs_block_size fs)) k2"
      "boot_program pf ?k1 = rbind (um_setup_env ''example.bin'' k2)
        (\<lambda>k. Inr (Boot_User (um_switch (pf_context pf)) k))" by blast
  note fr2 = says_frame[OF k2(1), simplified]
  have "console_shows (?k1\<lparr>k_fs := fs, k_pmm := q, k_memory := m\<rparr>) (memory_line bytes)"
    using shows1 by simp
  note shows2 = console_shows_says[OF this k2(1)]
  have n: "?n < 65536" using assms(3) by (simp add: mountable_def)
  have at: "k_memory k2 = m" "k_fs k2 = fs" "k_procs k2 = proc_static" "k_pmm k2 = q"
    "k_gdt k2 = k_gdt k0" "k_idt k2 = k_idt k0"
    using fr2 fr1 k0 by simp_all
  have good: "pmm_ok (k_pmm k2)" "mem_phys_start (k_pmm k2) = 0x100000" "pmm_free (k_pmm k2) = {?n..<65536}"
    "root_holds (k_memory k2) (k_fs k2) dss" "NUL \<notin> set ''example.bin''"
    using at q assms(6) by simp_all
  have found: "lookup ''example.bin'' (concat (map dir_listing dss)) = ino" using assms(7,8) by simp
  have prog: "ext2_read_inode (k_memory k2) (k_fs k2) (lookup ''example.bin'' (concat (map dir_listing dss))) = Inr (Some inode)
      \<and> loadable (k_fs k2) inode" if "lookup ''example.bin'' (concat (map dir_listing dss)) \<noteq> 0"
    using assms(9) that unfolding found at by blast
  obtain k3 where k3: "um_setup_env ''example.bin'' k2 = Inr k3"
    "if ino = 0 then k_memory k3 = m
       else stored_upto m fs inode 0x400000 0 (loaded_bytes fs inode) (k_memory k3)"
    "k_gdt k3 = k_gdt k0" "k_idt k3 = tss_set_kernel_stack (0x100000 + of_nat ?n * 8192) (k_idt k0)"
    "k_fs k3 = fs" "first_process ?n k3" "console_shows k3 ((memory_line bytes @ mounted_line (fs_block_size fs)) @ lookup_text ''example.bin'' es
        @ (if ino = 0 then line (''Failed to find program: '' @ ''example.bin'') else short_read_text fs inode))"
    using um_setup_env_boot[OF shows2 at(3) good(1-3) n good(4,5) prog] unfolding found at assms(7) by blast
  have "user_tables (k_gdt k3) (k_idt k3)"
    unfolding k3(3,4) user_tables_stack by (rule k0(3))
  moreover have "tss_esp0 (idt_tss (k_idt k3)) = 0x100000 + of_nat ?n * 8192"
    using k3(4) by (simp add: tss_set_kernel_stack_def)
  moreover have "fs_block_size fs = sb_block_size sb" using assms(5) by (simp add: mounted_fs_def)
  moreover have "kernel_entry pf magic addr = Inr (Boot_User (um_switch (pf_context pf)) k3)"
    by (simp only: k0(1) k1(2) k2(2) k3(1) rbind_Inr)
  moreover have "if ino = 0 then k_memory k3 = m
      else (\<forall>i < loaded_bytes fs inode. k_memory k3 (0x400000 + of_nat i) = file_byte m fs inode i)
         \<and> (\<forall>x. \<not> in_range 0x400000 (loaded_bytes fs inode) x \<longrightarrow> k_memory k3 x = m x)"
    using k3(2) by (simp add: stored_upto_def split: if_splits)
  moreover have "line (''Failed to find program: '' @ ''example.bin'') = line ''Failed to find program: example.bin''"
    by (simp only: append.simps)
  ultimately show ?thesis using k3(5-7) by (metis append.assoc)
qed

lemma boot_user_mode:
  assumes "platform_ok pf" "mb2_get_memory (pf_memory pf) magic addr = Some bytes"
    "mountable (pf_memory pf) (pf_disk_img_start pf) (boot_sectors bytes) sb"
    "m = mounted_memory (pf_memory pf) (pf_disk_img_start pf) sb" "fs = mounted_fs (pf_disk_img_start pf) sb"
    "root_holds m fs dss" "es = concat (map dir_listing dss)" "ino = lookup ''example.bin'' es"
    "ino \<noteq> 0 \<Longrightarrow> ext2_read_inode m fs ino = Inr (Some inode) \<and> loadable fs inode"
  shows "\<exists>k. kernel_entry pf magic addr = Inr (Boot_User (um_switch (pf_context pf)) k)
    \<and> (if ino = 0 then k_memory k = m
       else (\<forall>i < loaded_bytes fs inode. k_memory k (0x400000 + of_nat i) = file_byte m fs inode i)
         \<and> (\<forall>x. \<not> in_range 0x400000 (loaded_bytes fs inode) x \<longrightarrow> k_memory k x = m x))
    \<and> user_tables (k_gdt k) (k_idt k)
    \<and> tss_esp0 (idt_tss (k_idt k)) = 0x100000 + of_nat (sectors_for (32 * sb_groups sb)) * 8192
    \<and> console_shows k (memory_line bytes @ mounted_line (sb_block_size sb) @ lookup_text ''example.bin'' es
        @ (if ino = 0 then line ''Failed to find program: example.bin'' else short_read_text fs inode))"
  using boot_user_state[OF assms] by blast

section \<open>Properties\<close>

text \<open>A machine with 127 MiB whose boot information is at 0x10000 and whose disk is the small image; the
  boot stack below 0x150000 holds the return address and the two arguments of \<open>kernel_entry\<close>.\<close>

definition demo_stack :: "u8 list" where
  "demo_stack = le32 0x100060 @ le32 0x36d76289 @ le32 0x10000"

definition demo_memory :: memory where
  "demo_memory = place ((0x10008, mb2_encode demo_tags) # (0x14FFF4, demo_stack) # demo_image) (\<lambda>_. 0)"

definition demo_platform :: platform where
  "demo_platform = \<lparr>pf_memory = demo_memory, pf_vga = blank_cells 2000, pf_ksh = sh_raw, pf_cpu = (\<lambda>a. a OR 1),
     pf_dev = (\<lambda>_. 0xFF), pf_isr = (\<lambda>v. 0x101000 + of_nat v), pf_irq = (\<lambda>n. 0x102000 + of_nat n),
     pf_gdt_entries = 0x109000, pf_idt_entries = 0x10A000, pf_tss = 0x10B000, pf_kernel_stack_top = 0x10E000,
     pf_disk_img_start = 0x200000,
     pf_context = \<lparr>uc_eip = 0, uc_cs = 0x08, uc_eflags = 2, uc_esp = 0, uc_ss = 0x10, uc_ds = 0x10, uc_es = 0x10,
       uc_fs = 0x10, uc_gs = 0x10\<rparr>\<rparr>"

lemma demo_platform_sel [simp]:
  "pf_memory demo_platform = demo_memory" "pf_disk_img_start demo_platform = 0x200000"
  by (simp_all add: demo_platform_def)

lemma demo_platform_ok: "platform_ok demo_platform"
  by (simp add: platform_ok_def demo_platform_def blank_cells_def sh_raw_def cpu_marks_accessed_def)

lemma demo_memory_holds:
  assumes "(a, bs) \<in> set ((0x10008, mb2_encode demo_tags) # (0x14FFF4, demo_stack) # demo_image)"
  shows "holds demo_memory (of_nat a) bs"
proof -
  have "laid_out 0x10000 ((0x10008, mb2_encode demo_tags) # (0x14FFF4, demo_stack) # demo_image)"
    by (simp add: length_demo_tags demo_stack_def demo_image_def length_inode_bytes demo_root_def demo_file_def
        demo_entries_def length_dirent_bytes dirent_len_def demo_program_def)
  from place_holds[OF this assms] show ?thesis by (simp add: demo_memory_def)
qed

definition demo_mounted :: memory where
  "demo_mounted = mounted_memory demo_memory 0x200000 demo_sb"

lemma demo_mounted_at:
  "demo_mounted x = (if in_range 0x100000 32 x then demo_memory (0x200800 + (x - 0x100000)) else demo_memory x)"
  by (simp add: demo_mounted_def mounted_memory_def demo_sb_valid)

lemma demo_mounted_holds:
  assumes "(a, bs) \<in> set demo_image" "0x200000 \<le> a" "a + length bs < 4294967296"
  shows "holds demo_mounted (of_nat a) bs"
proof -
  have "disjoint_ranges (of_nat a) (length bs) (of_nat 0x100000) 32"
    by (rule disjoint_ranges_nat) (use assms(2,3) in simp_all)
  then have "\<not> in_range 0x100000 32 (of_nat a + of_nat i)" if "i < length bs" for i
    using that by (auto simp: disjoint_ranges_def)
  moreover have "holds demo_memory (of_nat a) bs" using demo_memory_holds assms(1) by simp
  ultimately show ?thesis by (simp add: holds_nth demo_mounted_at)
qed

lemma demo_mounted_parts:
  "holds demo_mounted 0x200C80 (inode_bytes demo_root)" "holds demo_mounted 0x201180 (inode_bytes demo_file)"
  "holds demo_mounted 0x201400 (concat (map dirent_bytes demo_entries))" "holds demo_mounted 0x201800 demo_program"
proof -
  have len: "length (inode_bytes demo_root) = 128" "length (inode_bytes demo_file) = 128"
    "length (concat (map dirent_bytes demo_entries)) = 1024" "length demo_program = 71"
    by (simp_all add: length_inode_bytes demo_root_def demo_file_def demo_entries_def length_dirent_bytes
        dirent_len_def demo_program_def)
  have at: "w = of_nat a \<Longrightarrow> (a, bs) \<in> set demo_image \<Longrightarrow> 0x200000 \<le> a \<Longrightarrow> a + length bs < 4294967296 \<Longrightarrow>
      holds demo_mounted w bs" for w a bs
    using demo_mounted_holds by blast
  show "holds demo_mounted 0x200C80 (inode_bytes demo_root)"
    by (rule at[of _ "0x200C80"]) (simp_all only: len, simp_all add: demo_image_def)
  show "holds demo_mounted 0x201180 (inode_bytes demo_file)"
    by (rule at[of _ "0x201180"]) (simp_all only: len, simp_all add: demo_image_def)
  show "holds demo_mounted 0x201400 (concat (map dirent_bytes demo_entries))"
    by (rule at[of _ "0x201400"]) (simp_all only: len, simp_all add: demo_image_def)
  show "holds demo_mounted 0x201800 demo_program"
    by (rule at[of _ "0x201800"]) (simp_all only: len, simp_all add: demo_image_def)
qed

lemma demo_mounted_fs: "mounted_fs 0x200000 demo_sb = demo_fs"
  by (simp add: mounted_fs_def demo_fs_def demo_sb_valid)

lemma demo_mounted_inode:
  "ext2_read_inode demo_mounted demo_fs 2 = Inr (Some demo_root)"
  "ext2_read_inode demo_mounted demo_fs 12 = Inr (Some demo_file)"
proof -
  have gd: "holds demo_memory 0x200800 (le32 0 @ le32 0 @ le32 3 @ replicate 20 0)"
    using demo_memory_holds[of "0x200800" "le32 0 @ le32 0 @ le32 3 @ replicate 20 0"] by (simp add: demo_image_def)
  have "holds demo_mounted 0x100000 (le32 0 @ le32 0 @ le32 3 @ replicate 20 0)"
    using gd by (simp add: holds_nth demo_mounted_at in_range_offset)
  then have "holds demo_mounted (0x100000 + 8) (le32 3)" by (simp add: holds_append)
  then have table: "load32 demo_mounted 0x100008 = 3" using holds_le32 by fastforce
  have loc: "inode_location demo_mounted 0x100000 demo_sb 0x200000 2 = 0x200C80"
    "inode_location demo_mounted 0x100000 demo_sb 0x200000 12 = 0x201180"
    using table by (simp_all add: inode_location_def bg_inode_table_def demo_sb_valid Let_def)
      (simp_all add: demo_sb_def)
  have sb: "s_log_block_size demo_sb \<le> 21" "s_inodes_per_group demo_sb \<noteq> 0" by (simp_all add: demo_sb_def)
  have fs: "fs_sb demo_fs = demo_sb" "fs_block_size demo_fs = sb_block_size demo_sb" "fs_bgdt demo_fs = 0x100000"
    "fs_image demo_fs = 0x200000" by (simp_all add: demo_fs_def demo_sb_valid)
  have wf: "inode_wf demo_root" "inode_wf demo_file" by (simp_all add: demo_root_def demo_file_def)
  show "ext2_read_inode demo_mounted demo_fs 2 = Inr (Some demo_root)"
    "ext2_read_inode demo_mounted demo_fs 12 = Inr (Some demo_file)"
    using ext2_read_inode_ok[OF sb _ fs(1,2), of _ demo_mounted] loc fs(3,4)
      load_inode_holds[OF demo_mounted_parts(1) wf(1)] load_inode_holds[OF demo_mounted_parts(2) wf(2)]
    by simp_all
qed

lemma demo_mounted_root: "root_holds demo_mounted demo_fs [demo_entries]"
proof -
  have "dir_block_holds demo_mounted demo_fs 5 demo_entries"
    unfolding dir_block_holds_def using demo_mounted_parts(3)
    by (simp add: demo_fs_def demo_entries_def dirent_wf_def dirent_len_def)
  then have "list_all2 (dir_block_holds demo_mounted demo_fs)
      (take (min 12 (unat (i_blocks demo_root div (fs_block_size demo_fs div 512)))) (i_block demo_root)) [demo_entries]"
    by (simp add: demo_root_def demo_inode_def demo_fs_def)
  moreover have "512 \<le> unat (fs_block_size demo_fs)" by (simp add: demo_fs_def)
  ultimately show ?thesis using demo_mounted_inode(1) unfolding root_holds_def by blast
qed

lemma demo_file_loadable: "loadable demo_fs demo_file"
proof -
  have blk: "i_block demo_file = 6 # replicate 11 0" by (simp add: demo_file_def demo_inode_def)
  have "disjoint_ranges (of_nat 0x201800) 1024 (of_nat 0x400000) 71" by (rule disjoint_ranges_nat) simp_all
  then have far: "disjoint_ranges (fs_image demo_fs + i_block demo_file ! 0 * fs_block_size demo_fs)
      (unat (fs_block_size demo_fs)) 0x400000 71"
    by (simp add: blk demo_fs_def)
  have "b = 0" if "b < 12" "i_block demo_file ! b \<noteq> 0" for b
    using that by (simp add: blk nth_Cons split: nat.splits)
  with far have "buffer_apart demo_fs demo_file 0x400000 71"
    unfolding buffer_apart_def by blast
  then show ?thesis by (simp add: loadable_def blk) (simp add: demo_fs_def demo_file_def demo_inode_def)
qed

lemma demo_bytes: "mb2_get_memory demo_memory 0x36d76289 0x10000 = Some 0x7F7FC00"
proof -
  have "holds demo_memory (of_nat 0x10008) (mb2_encode demo_tags)" by (rule demo_memory_holds) simp
  then show ?thesis
    using mb2_get_memory_encoded[of demo_memory "0x10000" demo_tags "0x36d76289"] demo_tags_facts
    by (simp add: length_demo_tags)
qed

lemma demo_mountable:
  "sectors_for (32 * sb_groups demo_sb) = 1" "mountable demo_memory 0x200000 (boot_sectors 0x7F7FC00) demo_sb"
proof -
  show one: "sectors_for (32 * sb_groups demo_sb) = 1" by (simp add: demo_sb_valid sectors_for_def)
  have "holds demo_memory (of_nat 0x200400) (superblock_bytes demo_sb)"
    by (rule demo_memory_holds) (simp add: demo_image_def)
  moreover have "disjoint_ranges (of_nat 0x200800) 32 (of_nat 0x100000) 32"
    by (rule disjoint_ranges_nat) simp_all
  ultimately show "mountable demo_memory 0x200000 (boot_sectors 0x7F7FC00) demo_sb"
    using one by (simp add: mountable_def demo_sb_valid boot_sectors_def)
qed

lemma demo_found: "lookup ''example.bin'' (concat (map dir_listing [demo_entries])) = 12"
  by (simp add: dir_listing_def demo_entries_def)

lemma demo_boot: "\<exists>k. kernel_entry demo_platform 0x36d76289 0x10000
    = Inr (Boot_User (um_switch (pf_context demo_platform)) k) \<and> tss_esp0 (idt_tss (k_idt k)) = 0x102000"
proof -
  note boot = boot_user_mode[OF demo_platform_ok, unfolded demo_platform_sel, OF demo_bytes
      demo_mountable(2) demo_mounted_def demo_mounted_fs[symmetric] demo_mounted_root refl demo_found[symmetric]]
  from boot[of demo_file] demo_mounted_inode(2) demo_file_loadable show ?thesis
    by (auto simp: demo_mountable(1))
qed

lemma demo_memory_beyond:
  assumes "0x201847 \<le> k" "k < 4294967296"
  shows "demo_memory (of_nat k) = 0"
proof -
  have out: "\<not> in_range (of_nat a) n (of_nat k)" if "a + n \<le> 0x201847" for a n :: nat
    using in_range_nat[of a n k] that assms by simp
  show ?thesis
    unfolding demo_memory_def
    by (rule place_outside)
      (auto simp: demo_image_def demo_stack_def length_demo_tags length_inode_bytes demo_root_def demo_file_def demo_entries_def
        length_dirent_bytes dirent_len_def demo_program_def intro!: out simp del: of_nat_numeral)
qed

text \<open>C3: the kernel boots into the first program. On a good platform with a mountable disk whose
  root directory holds well-formed entries, the entry point reaches user mode. If the directory
  has \<open>example.bin\<close>, its bytes (as many as twelve direct blocks hold) are at the user code address
  and the rest of memory is as mounting left it; if not, user mode is entered all the same, on
  whatever memory held there. The console shows exactly the boot messages and the directory, the
  descriptor tables are good, and the kernel stack pointer for traps is the start of the sector
  behind the copied descriptor table.\<close>

theorem boot_enters_user:
  assumes "platform_ok pf" "mb2_get_memory (pf_memory pf) magic addr = Some bytes"
    "mountable (pf_memory pf) (pf_disk_img_start pf) (boot_sectors bytes) sb"
    "m = mounted_memory (pf_memory pf) (pf_disk_img_start pf) sb" "fs = mounted_fs (pf_disk_img_start pf) sb"
    "root_holds m fs dss" "es = concat (map dir_listing dss)" "ino = lookup ''example.bin'' es"
    "ino \<noteq> 0 \<Longrightarrow> ext2_read_inode m fs ino = Inr (Some inode) \<and> loadable fs inode"
  shows "\<exists>k. kernel_entry pf magic addr = Inr (Boot_User (um_switch (pf_context pf)) k)
    \<and> (if ino = 0 then k_memory k = m
       else (\<forall>i < loaded_bytes fs inode. k_memory k (0x400000 + of_nat i) = file_byte m fs inode i)
         \<and> (\<forall>x. \<not> in_range 0x400000 (loaded_bytes fs inode) x \<longrightarrow> k_memory k x = m x))
    \<and> user_tables (k_gdt k) (k_idt k)
    \<and> tss_esp0 (idt_tss (k_idt k)) = 0x100000 + of_nat (sectors_for (32 * sb_groups sb)) * 8192
    \<and> console_shows k (memory_line bytes @ mounted_line (sb_block_size sb) @ lookup_text ''example.bin'' es
        @ (if ino = 0 then line ''Failed to find program: example.bin'' else short_read_text fs inode))"
  by (rule boot_user_mode[OF assms])

text \<open>The first byte of the program is where the CPU starts, and the kernel stack is at 0x102000,
  inside the kernel's own image.\<close>

theorem boot_enters_user_witness:
  "\<exists>k. kernel_entry demo_platform 0x36d76289 0x10000 = Inr (Boot_User (um_switch (pf_context demo_platform)) k)
    \<and> k_memory k (uc_eip (um_switch (pf_context demo_platform))) = 0xB8
    \<and> tss_esp0 (idt_tss (k_idt k)) = 0x102000"
proof -
  have n: "0 < loaded_bytes demo_fs demo_file"
    by (simp add: loaded_bytes_def demo_fs_def demo_file_def demo_inode_def)
  have "demo_mounted 0x201800 = 0xB8" using demo_mounted_parts(4) by (simp add: demo_program_def)
  then have first: "file_byte demo_mounted demo_fs demo_file 0 = 0xB8"
    by (simp add: file_byte_def demo_fs_def demo_file_def demo_inode_def)
  note boot = boot_enters_user[OF demo_platform_ok, unfolded demo_platform_sel, OF demo_bytes
      demo_mountable(2) demo_mounted_def demo_mounted_fs[symmetric] demo_mounted_root refl demo_found[symmetric]]
  from boot[of demo_file] demo_mounted_inode(2) demo_file_loadable obtain k where
    k: "kernel_entry demo_platform 0x36d76289 0x10000 = Inr (Boot_User (um_switch (pf_context demo_platform)) k)"
      "\<forall>i < loaded_bytes demo_fs demo_file. k_memory k (0x400000 + of_nat i) = file_byte demo_mounted demo_fs demo_file i"
      "tss_esp0 (idt_tss (k_idt k)) = 0x100000 + of_nat (sectors_for (32 * sb_groups demo_sb)) * 8192"
    by auto
  from k(2)[rule_format, OF n] first have "k_memory k 0x400000 = 0xB8" by simp
  moreover have "tss_esp0 (idt_tss (k_idt k)) = 0x102000" using k(3) demo_mountable(1) by simp
  ultimately show ?thesis using k(1) by (simp add: um_switch_eq)
qed



text \<open>Without a file system the kernel stops and says so. If the disk image does not carry the
  magic number, the entry point halts, after exactly the two lines of the memory size and the
  failure.\<close>

theorem boot_no_filesystem:
  assumes "platform_ok pf" "mb2_get_memory (pf_memory pf) magic addr = Some bytes"
    "s_magic (load_superblock (pf_memory pf) (pf_disk_img_start pf + 1024)) \<noteq> 0xEF53"
  shows "\<exists>k. kernel_entry pf magic addr = Inr (Boot_Halt k) \<and> k_memory k = pf_memory pf
    \<and> console_shows k (memory_line bytes @ line ''Failed to mount EXT2 filesystem from embedded image.'')"
proof -
  obtain k0 where k0: "kernel_entry pf magic addr = rbind (boot_memory magic addr k0) (boot_program pf)"
    "console_shows k0 []" "k_memory k0 = pf_memory pf" "k_pmm k0 = pmm_static"
    by (rule boot_front[OF assms(1)])
  obtain k1 where k1: "says k0 (memory_line bytes) k1"
      "boot_memory magic addr k0 = Inr (k1\<lparr>k_pmm := pmm_fresh 0x100000 (boot_sectors bytes)\<rparr>)"
    using boot_memory_static[OF k0(2-4) assms(2)] by blast
  let ?k1 = "k1\<lparr>k_pmm := pmm_fresh 0x100000 (boot_sectors bytes)\<rparr>"
  have mem: "k_memory ?k1 = pf_memory pf" using says_frame(1)[OF k1(1)] k0(3) by simp
  have shows1: "console_shows ?k1 (memory_line bytes)"
    using console_shows_says[OF k0(2) k1(1)] by simp
  obtain fs k where k: "boot_program pf ?k1 = Inr (Boot_Halt k)"
    "says (?k1\<lparr>k_fs := fs\<rparr>) (line ''Failed to mount EXT2 filesystem from embedded image.'') k"
    using boot_program_unmounted[OF _ console_shows_live[OF shows1], of pf] assms(3) mem by auto
  have "console_shows (?k1\<lparr>k_fs := fs\<rparr>) (memory_line bytes)" using shows1 by simp
  from console_shows_says[OF this k(2)] k0(1) k1(2) k(1) says_frame(1)[OF k(2)] mem show ?thesis by auto
qed

text \<open>The same machine with the disk image gone.\<close>

theorem boot_no_filesystem_witness:
  "\<exists>k. kernel_entry (demo_platform\<lparr>pf_disk_img_start := 0x300000\<rparr>) 0x36d76289 0x10000 = Inr (Boot_Halt k)"
proof -
  let ?pf = "demo_platform\<lparr>pf_disk_img_start := 0x300000\<rparr>"
  have ok: "platform_ok ?pf" using demo_platform_ok by (simp add: platform_ok_def)
  have bytes: "mb2_get_memory (pf_memory ?pf) 0x36d76289 0x10000 = Some 0x7F7FC00" using demo_bytes by simp
  have "demo_memory 0x300438 = 0"
    using demo_memory_beyond[of "0x300438"] by simp
  moreover have "demo_memory 0x300439 = 0"
    using demo_memory_beyond[of "0x300439"] by simp
  ultimately have "s_magic (load_superblock (pf_memory ?pf) (pf_disk_img_start ?pf + 1024)) \<noteq> 0xEF53"
    by (simp add: load_superblock_def load16_def)
  from boot_no_filesystem[OF ok bytes this] show ?thesis by blast
qed

end
