(* ===== verification/System.thy ===== *)
theory System
  imports Boot "HOL-Library.Sublist"
begin

text \<open>
  The running system: what happens after \<open>kernel_entry\<close> has dropped to user mode, as a step relation
  over events. The events are traps (system calls and exceptions, with the frame before and after),
  interrupt requests of the timer and the keyboard, and the user program storing to its own memory.
  The handlers are the functions of Interrupts and Syscalls; a handler that faulted would leave its
  event without a step.

  The user area is the range the system calls accept. Nothing in the hardware set-up holds the
  program to it (the user segments cover all of memory and there is no paging), so a program that
  stores elsewhere is outside this model. The stack the handlers run on is not part of this step
  relation's memory; theories Traps and Machine add it.

  After an exit the frame sends the CPU to the kernel's idle routine, where only interrupt requests
  and exceptions remain; an exception other than the breakpoint stops the machine.
\<close>

section \<open>The step relation\<close>

datatype mode = User | Idle | Stopped

datatype event = Trap frame frame | Irq "u16 \<Rightarrow> u8" frame | Store

inductive sys_step :: "u32 \<Rightarrow> u32 \<Rightarrow> event \<Rightarrow> mode \<Rightarrow> kernel \<Rightarrow> mode \<Rightarrow> kernel \<Rightarrow> bool"
  for exit_to_kernel kernel_stack_top :: u32
where
  Call: "fr_int_no fr = 0x80 \<Longrightarrow> from_user fr \<Longrightarrow> int_allowed (k_idt k) Ring3 0x80 \<Longrightarrow>
    interrupt_handler exit_to_kernel kernel_stack_top fr k = Inr (False, fr', k') \<Longrightarrow> from_user fr' \<Longrightarrow>
    sys_step exit_to_kernel kernel_stack_top (Trap fr fr') User k User k'"
| Exit: "fr_int_no fr = 0x80 \<Longrightarrow> from_user fr \<Longrightarrow> int_allowed (k_idt k) Ring3 0x80 \<Longrightarrow>
    interrupt_handler exit_to_kernel kernel_stack_top fr k = Inr (False, fr', k') \<Longrightarrow> \<not> from_user fr' \<Longrightarrow>
    exit_to_kernel_prints k' = Inr k'' \<Longrightarrow>
    sys_step exit_to_kernel kernel_stack_top (Trap fr fr') User k Idle k''"
| Exception: "md \<noteq> Stopped \<Longrightarrow> unat (fr_int_no fr) \<in> set exception_vectors \<Longrightarrow>
    interrupt_handler exit_to_kernel kernel_stack_top fr k = Inr (halts, fr', k') \<Longrightarrow>
    sys_step exit_to_kernel kernel_stack_top (Trap fr fr') md k (if halts then Stopped else md) k'"
| Request: "md \<noteq> Stopped \<Longrightarrow> fr_int_no fr = 32 \<or> fr_int_no fr = 33 \<Longrightarrow> irq_handler dev fr k = Inr k' \<Longrightarrow>
    sys_step exit_to_kernel kernel_stack_top (Irq dev fr) md k md k'"
| Program: "\<forall>x. \<not> user_range x \<longrightarrow> m x = k_memory k x \<Longrightarrow>
    sys_step exit_to_kernel kernel_stack_top Store User k User (k\<lparr>k_memory := m\<rparr>)"

inductive_cases sys_stepE: "sys_step ex st ev md k md' k'"
inductive_cases store_stepE: "sys_step ex st Store md k md' k'"
inductive_simps stopped_step [simp]: "sys_step ex st ev Stopped k md' k'"
inductive_simps irq_step: "sys_step ex st (Irq dev fr) md k md' k'"

section \<open>Input and output of a run\<close>

text \<open>What an event offers to the standard input: a key with a character, or a user write to
  stream 0.\<close>

fun offered :: "kernel \<Rightarrow> event \<Rightarrow> char list" where
  "offered k (Irq dev fr) = (if fr_int_no fr = 33 \<and> dev 0x60 < 128 \<and> keymap ! unat (dev 0x60) \<noteq> NUL
     then [keymap ! unat (dev 0x60)] else [])"
| "offered k (Trap fr fr') = (if fr_int_no fr = 0x80 \<and> from_user fr \<and> fr_eax fr = SYS_WRITE
       \<and> user_range (fr_ecx fr) \<and> fr_ebx fr = 0
     then map (user_text (k_memory k) (fr_ecx fr)) [0..<nat (to_int (fr_edx fr))] else [])"
| "offered k Store = []"

text \<open>What a user read finds in its buffer afterwards: as many characters as the call returned.\<close>

fun delivered :: "event \<Rightarrow> kernel \<Rightarrow> char list" where
  "delivered (Trap fr fr') k = (if fr_int_no fr = 0x80 \<and> from_user fr \<and> fr_eax fr = SYS_READ \<and> user_range (fr_ecx fr)
     then map (user_text (k_memory k) (fr_ecx fr)) [0..<unat (fr_eax fr')] else [])"
| "delivered (Irq dev fr) k = []"
| "delivered Store k = []"

text \<open>A run over a list of events, with all that was offered and all that was delivered.\<close>

inductive sys_run ::
    "u32 \<Rightarrow> u32 \<Rightarrow> event list \<Rightarrow> char list \<Rightarrow> char list \<Rightarrow> mode \<Rightarrow> kernel \<Rightarrow> mode \<Rightarrow> kernel \<Rightarrow> bool"
  for ex st :: u32
where
  Rest: "sys_run ex st [] [] [] md k md k"
| Move: "sys_step ex st ev md k md' k' \<Longrightarrow> sys_run ex st evs ins outs md' k' md'' k'' \<Longrightarrow>
    sys_run ex st (ev # evs) (offered k ev @ ins) (delivered ev k' @ outs) md k md'' k''"

section \<open>Invariant\<close>

definition sys_ok :: "kernel \<Rightarrow> bool" where
  "sys_ok k \<longleftrightarrow> (\<exists>sh. k_shell k = Some sh \<and> sh_ok sh) \<and> int_allowed (k_idt k) Ring3 0x80"

text \<open>What no event changes: the tables, the allocator, the processes, the file system, and memory
  outside the user area and the 1024 bytes behind it.\<close>

definition kernel_kept :: "kernel \<Rightarrow> kernel \<Rightarrow> bool" where
  "kernel_kept k k' \<longleftrightarrow> k_gdt k' = k_gdt k \<and> k_idt k' = k_idt k \<and> k_pmm k' = k_pmm k \<and> k_procs k' = k_procs k
     \<and> k_fs k' = k_fs k \<and> (\<forall>x. x < 0x400000 \<or> 0x900400 \<le> x \<longrightarrow> k_memory k' x = k_memory k x)"

text \<open>The step's account of the standard input.\<close>

definition input_step :: "kernel \<Rightarrow> char list \<Rightarrow> char list \<Rightarrow> kernel \<Rightarrow> bool" where
  "input_step k ins outs k' \<longleftrightarrow> (\<exists>acc. prefix acc ins \<and> outs @ stdin_text k' = stdin_text k @ acc
     \<and> (length (stdin_text k) + length ins \<le> 1024 \<longrightarrow> acc = ins))"

section \<open>Lemmas: one system call\<close>

lemma input_step_none: "stdin_text k' = stdin_text k \<Longrightarrow> input_step k [] [] k'"
  by (simp add: input_step_def)

lemma input_step_prints: "prints k (Inr k') \<Longrightarrow> input_step k [] [] k'"
  by (intro input_step_none prints_stdin)

lemma to_int_zero: "to_int w = 0 \<longleftrightarrow> w = 0"
proof -
  have nz: "unat w = 0 \<longleftrightarrow> w = 0" by (simp add: unat_eq_iff32)
  show ?thesis
  proof (cases "unat w < 2147483648")
    case True
    show ?thesis unfolding to_int_small[OF True] of_nat_eq_0_iff by (rule nz)
  next
    case False
    with to_int_large[of w] nz show ?thesis by auto
  qed
qed

lemma prefix_upt: "a \<le> b \<Longrightarrow> prefix [0..<a] [0..<b]"
  using upt_add_eq_append[of 0 a "b - a"] by (auto simp: prefix_def)

lemma user_range_nonzero: "user_range a \<Longrightarrow> a \<noteq> 0"
  by (auto simp: user_range_def)

lemma write_input:
  assumes sh: "k_shell k = Some sh" "sh_ok sh" and call: "from_user fr" "fr_eax fr = 4" "user_range (fr_ecx fr)"
    and r: "handle_syscall ex st fr k = Inr (fr', k')" and vec: "fr_int_no fr = 0x80"
  shows "input_step k (offered k (Trap fr fr')) [] k'"
proof -
  let ?buf = "user_text (k_memory k) (fr_ecx fr)" and ?len = "to_int (fr_edx fr)" and ?s = "sh_streams sh ! 0"
  from write_stream_stdin[OF sh(2), of "to_int (fr_ebx fr)" ?buf ?len] obtain t w where
    t: "sh_write_stream sh (to_int (fr_ebx fr)) ?buf ?len = Inr (t, w)"
      "stream_contents (sh_streams t ! 0) = stream_contents ?s
        @ (if fr_ebx fr = 0 then map ?buf [0..<nat (min ?len (1024 - st_count ?s))] else [])"
    by (auto simp: to_int_zero)
  have k': "k' = k\<lparr>k_shell := Some t\<rparr>"
    using r call user_range_nonzero[OF call(3)] sh(1) t(1)
    by (auto simp: handle_syscall_def sys_write_def with_shell_def Let_def)
  have "stream_ok ?s" using sh_ok_stream[OF sh(2), of 0] by simp
  then have c: "0 \<le> st_count ?s" "length (stream_contents ?s) = nat (st_count ?s)"
    by (simp_all add: stream_ok_def length_contents)
  have pre: "prefix (map ?buf [0..<nat (min ?len n)]) (map ?buf [0..<nat ?len])" for n
    by (intro map_mono_prefix prefix_upt) simp
  show ?thesis
    using t(2) c pre[of "1024 - st_count ?s"] vec call k' sh(1)
    by (auto simp: input_step_def stdin_text_eq intro!: exI[of _ "map ?buf [0..<nat (min ?len (1024 - st_count ?s))]"])
qed

lemma read_input:
  assumes sh: "k_shell k = Some sh" "sh_ok sh" and call: "from_user fr" "fr_eax fr = 3" "user_range (fr_ecx fr)"
    and r: "handle_syscall ex st fr k = Inr (fr', k')" and vec: "fr_int_no fr = 0x80"
  shows "input_step k [] (delivered (Trap fr fr') k') k'"
proof -
  from sys_read_delivers[OF sh user_range_nonzero[OF call(3)] call(3)] obtain bytes t where
    b: "sys_read fr k = Inr (fr\<lparr>fr_eax := of_nat (length bytes)\<rparr>,
      k\<lparr>k_shell := Some t, k_memory := write_bytes (k_memory k) (fr_ecx fr) (map to_byte bytes)\<rparr>)"
    "stream_contents (sh_streams sh ! 0) = bytes @ stream_contents (sh_streams t ! 0)" "length bytes \<le> 1024"
    by blast
  have r': "fr' = fr\<lparr>fr_eax := of_nat (length bytes)\<rparr>"
    "k' = k\<lparr>k_shell := Some t, k_memory := write_bytes (k_memory k) (fr_ecx fr) (map to_byte bytes)\<rparr>"
    using r b(1) call by (simp_all add: handle_syscall_def)
  have n: "unat (of_nat (length bytes) :: u32) = length bytes" using b(3) by (intro unat_of_nat_exact) simp
  have "write_bytes (k_memory k) (fr_ecx fr) (map to_byte bytes) (fr_ecx fr + of_nat i) = to_byte (bytes ! i)"
    if "i < length bytes" for i
  proof -
    have "unat (of_nat i :: u32) = i" using that b(3) by (intro unat_of_nat_exact) simp
    with that b(3) show ?thesis by (simp add: write_bytes_at in_range_def)
  qed
  then have "map (user_text (k_memory k') (fr_ecx fr)) [0..<length bytes] = bytes"
    unfolding r'(2) by (intro nth_equalityI) (simp_all add: user_text_def)
  then have "delivered (Trap fr fr') k' = bytes" using r'(1) n call vec by simp
  with b(2) r'(2) sh(1) show ?thesis by (simp add: input_step_def stdin_text_eq)
qed

lemma other_call:
  assumes sh: "k_shell k = Some sh" "sh_ok sh" and call: "from_user fr" "\<not> (fr_eax fr \<in> {3, 4} \<and> user_range (fr_ecx fr))"
    and r: "handle_syscall ex st fr k = Inr (fr', k')"
  shows "k' = k \<or> prints k (Inr k')"
proof -
  have printed: "prints k (k_printf fmt args k)" if "\<exists>cs. fmt_text fmt args = Inr cs" for fmt args
    by (rule k_printf_prints'[OF sh that])
  show ?thesis
    using r call sh(1) printed[OF exI, OF fmt_texts(1), of "fr_ecx fr"] printed[OF exI, OF fmt_texts(2), of "fr_ecx fr"]
      printed[OF exI, OF fmt_texts(3), of "fr_ebx fr"] printed[OF exI, OF fmt_texts(4), of "fr_eax fr"]
    by (auto simp: handle_syscall_def sys_write_def sys_read_def sys_exit_def rbind_eq_Inr Let_def split: if_splits)
qed

lemma other_input:
  assumes "k_shell k = Some sh" "sh_ok sh" "from_user fr" "\<not> (fr_eax fr \<in> {3, 4} \<and> user_range (fr_ecx fr))"
    "handle_syscall ex st fr k = Inr (fr', k')"
  shows "input_step k [] [] k'"
  using other_call[OF assms] by (auto intro: input_step_prints input_step_none)

section \<open>Lemmas: one event\<close>

lemma user_buffer_bounds:
  assumes "user_range a" "in_range a 1024 x"
  shows "\<not> (x < 0x400000 \<or> 0x900400 \<le> x)"
proof -
  have a: "0x400000 \<le> unat a" "unat a < 0x900000"
    using assms(1) by (simp_all add: user_range_def word_le_nat_alt word_less_nat_alt)
  have d: "unat (x - a) < 1024" using assms(2) by (simp add: in_range_def)
  have "unat (a + (x - a)) = unat a + unat (x - a)" using a d by (subst unat_add_exact) simp_all
  then have "unat x = unat a + unat (x - a)" by simp
  with a d show ?thesis by (simp add: word_le_nat_alt word_less_nat_alt)
qed

lemma kept_refl [simp]: "kernel_kept k k"
  by (simp add: kernel_kept_def)

lemma kept_trans: "kernel_kept k k1 \<Longrightarrow> kernel_kept k1 k2 \<Longrightarrow> kernel_kept k k2"
  by (auto simp: kernel_kept_def)

lemma kept_shell_io [simp]:
  "kernel_kept k (k\<lparr>k_shell := sh\<rparr>)" "kernel_kept k (k\<lparr>k_shell := sh, k_io := tr\<rparr>)"
  "kernel_kept k (k\<lparr>k_io := tr\<rparr>)" "kernel_kept k (outb port v k)"
  by (simp_all add: kernel_kept_def)

lemma call_effect_kept: "call_effect fr k k' \<Longrightarrow> kernel_kept k k'"
proof -
  assume "call_effect fr k k'"
  then obtain sh m where k': "k' = k\<lparr>k_shell := Some sh, k_memory := m\<rparr>"
    "\<And>x. m x \<noteq> k_memory k x \<Longrightarrow> user_range (fr_ecx fr) \<and> in_range (fr_ecx fr) 1024 x"
    unfolding call_effect_def by blast
  then have "m x = k_memory k x" if "x < 0x400000 \<or> 0x900400 \<le> x" for x
    using user_buffer_bounds that by blast
  with k'(1) show ?thesis by (simp add: kernel_kept_def)
qed

lemma sys_okE:
  assumes "sys_ok k"
  obtains sh where "k_shell k = Some sh" "sh_ok sh" "int_allowed (k_idt k) Ring3 0x80"
  using assms by (auto simp: sys_ok_def)

lemma sys_ok_kept: "sys_ok k \<Longrightarrow> kernel_kept k k' \<Longrightarrow> k_shell k' = Some sh \<Longrightarrow> sh_ok sh \<Longrightarrow> sys_ok k'"
  by (simp add: sys_ok_def kernel_kept_def)

text \<open>A system call returns with the invariant; only an exit leaves user mode.\<close>

lemma call_step:
  assumes "sys_ok k" "from_user fr" "fr_int_no fr = 0x80"
  shows "\<exists>fr' k'. interrupt_handler ex st fr k = Inr (False, fr', k') \<and> sys_ok k' \<and> kernel_kept k k'
    \<and> input_step k (offered k (Trap fr fr')) (delivered (Trap fr fr') k') k'
    \<and> (from_user fr' \<longleftrightarrow> fr_eax fr \<noteq> 1)"
proof -
  obtain sh where sh: "k_shell k = Some sh" "sh_ok sh" using assms(1) by (rule sys_okE)
  obtain fr' k' where r: "handle_syscall ex st fr k = Inr (fr', k')" "call_effect fr k k'"
    "if fr_eax fr = 1 then fr' = fr\<lparr>fr_eax := 0, fr_cs := 0x08, fr_ss := 0x10, fr_eip := ex,
       fr_useresp := st, fr_ds := 0x10, fr_es := 0x10, fr_fs := 0x10, fr_gs := 0x10\<rparr>
     else \<exists>v. fr' = fr\<lparr>fr_eax := v\<rparr>"
    using handle_syscall_outcome[OF sh, of ex st fr] assms(2) by auto
  have "from_user fr' \<longleftrightarrow> fr_eax fr \<noteq> 1"
    using r(3) assms(2) by (auto simp: from_user_def split: if_splits)
  moreover have "interrupt_handler ex st fr k = Inr (False, fr', k')"
    using r(1,3) sh(1) assms(3) by (auto simp: interrupt_handler_def split: if_splits)
  moreover have "input_step k (offered k (Trap fr fr')) (delivered (Trap fr fr') k') k'"
    using write_input[OF sh assms(2) _ _ r(1) assms(3)] read_input[OF sh assms(2) _ _ r(1) assms(3)]
      other_input[OF sh assms(2) _ r(1)] assms(2,3)
    by (cases "fr_eax fr = 4 \<and> user_range (fr_ecx fr)"; cases "fr_eax fr = 3 \<and> user_range (fr_ecx fr)") auto
  moreover have "sys_ok k'"
    using assms(1) r(2) by (auto simp: call_effect_def sys_ok_def)
  ultimately show ?thesis using call_effect_kept[OF r(2)] by blast
qed

lemma prints_step:
  assumes "sys_ok k" "prints k r"
  shows "\<exists>k'. r = Inr k' \<and> sys_ok k' \<and> kernel_kept k k' \<and> input_step k [] [] k'"
proof -
  obtain sh where sh: "sh_ok sh" "r = Inr (k\<lparr>k_shell := Some sh\<rparr>)" using assms(2) by (rule printsE)
  then have "input_step k [] [] (k\<lparr>k_shell := Some sh\<rparr>)" using assms(2) input_step_prints by blast
  with sh assms(1) show ?thesis by (auto simp: sys_ok_def)
qed

lemma exception_step:
  assumes "sys_ok k" "unat (fr_int_no fr) \<in> set exception_vectors"
  shows "\<exists>k'. interrupt_handler ex st fr k = Inr (fr_int_no fr \<noteq> 3, fr, k') \<and> sys_ok k' \<and> kernel_kept k k'
    \<and> input_step k [] [] k'"
proof -
  have v: "unat (fr_int_no fr) < 17" using assms(2) by (auto simp: exception_vectors_def)
  then have lt: "fr_int_no fr < 17" "fr_int_no fr < 32" by (simp_all add: word_less_nat_alt)
  obtain sh where sh: "k_shell k = Some sh" "sh_ok sh" using assms(1) by (rule sys_okE)
  from prints_step[OF assms(1) exception_report_prints[OF sh lt(1)]] sh(1) lt show ?thesis
    by (auto simp: interrupt_handler_def)
qed

lemma request_step:
  assumes "sys_ok k" "fr_int_no fr = 32 \<or> fr_int_no fr = 33"
  shows "\<exists>k'. irq_handler dev fr k = Inr k' \<and> sys_ok k' \<and> kernel_kept k k'
    \<and> input_step k (offered k (Irq dev fr)) [] k'"
proof -
  obtain sh where sh: "k_shell k = Some sh" "sh_ok sh" using assms(1) by (rule sys_okE)
  show ?thesis
  proof (cases "fr_int_no fr = 32")
    case True
    then have "irq_handler dev fr k = Inr (outb 0x20 0x20 k)"
      using sh(1) by (simp add: irq_handler_def Let_def)
    moreover have "sys_ok (outb 0x20 0x20 k)" using assms(1) by (simp add: sys_ok_def)
    moreover have "stdin_text (outb 0x20 0x20 k) = stdin_text k" by (simp add: stdin_text_def)
    ultimately show ?thesis using True by (simp add: input_step_none)
  next
    case False
    then have v: "fr_int_no fr = 33" using assms(2) by simp
    obtain t where t: "irq_handler dev fr k
        = Inr (k\<lparr>k_shell := Some t, k_io := k_io k @ [In 0x60 (dev 0x60), Out 0x20 0x20]\<rparr>)" "sh_ok t"
      "stream_contents (sh_streams t ! 0) = (if dev 0x60 < 128 \<and> keymap ! unat (dev 0x60) \<noteq> NUL
          \<and> length (stream_contents (sh_streams sh ! 0)) < 1024
        then stream_contents (sh_streams sh ! 0) @ [keymap ! unat (dev 0x60)] else stream_contents (sh_streams sh ! 0))"
      using keyboard_irq_ok[OF sh v, of dev] by (auto simp: Let_def)
    let ?k = "k\<lparr>k_shell := Some t, k_io := k_io k @ [In 0x60 (dev 0x60), Out 0x20 0x20]\<rparr>"
    let ?acc = "if length (stdin_text k) < 1024 then offered k (Irq dev fr) else []"
    have stdin: "stdin_text ?k = stdin_text k @ ?acc"
      using t(3) sh(1) v by (simp add: stdin_text_def)
    have "input_step k (offered k (Irq dev fr)) [] ?k"
      unfolding input_step_def stdin by (intro exI[of _ ?acc]) auto
    moreover have "sys_ok ?k" using assms(1) t(2) by (simp add: sys_ok_def)
    ultimately show ?thesis using t(1) by auto
  qed
qed

section \<open>Lemmas: one step\<close>

fun stops :: "event \<Rightarrow> bool" where
  "stops (Trap fr fr') \<longleftrightarrow> fr_int_no fr < 32 \<and> fr_int_no fr \<noteq> 3"
| "stops (Irq dev fr) \<longleftrightarrow> False"
| "stops Store \<longleftrightarrow> False"

lemma exit_step:
  assumes "sys_ok k"
  shows "\<exists>k'. exit_to_kernel_prints k = Inr k' \<and> sys_ok k' \<and> kernel_kept k k' \<and> stdin_text k' = stdin_text k"
proof -
  obtain sh where sh: "k_shell k = Some sh" "sh_ok sh" using assms by (rule sys_okE)
  have "prints k (exit_to_kernel_prints k)"
    using k_puts_prints[OF sh] sh(1) by (simp add: exit_to_kernel_prints_def)
  with prints_step[OF assms this] show ?thesis by (auto dest: prints_stdin)
qed

lemma delivered_cong: "k_memory k = k_memory k' \<Longrightarrow> delivered ev k = delivered ev k'"
  by (cases ev) (simp_all add: user_text_def)

lemma exception_no_io:
  "unat (fr_int_no fr) \<in> set exception_vectors \<Longrightarrow> offered k (Trap fr fr') = [] \<and> delivered (Trap fr fr') k' = []"
  by (auto simp: exception_vectors_def)

text \<open>Every step keeps the invariant, the kernel's state and the account of the input.\<close>

lemma step_effect:
  assumes "sys_step ex st ev md k md' k'" "sys_ok k"
  shows "sys_ok k' \<and> kernel_kept k k' \<and> input_step k (offered k ev) (delivered ev k') k'
    \<and> md \<noteq> Stopped \<and> (md' = Stopped \<longleftrightarrow> stops ev)"
  using assms(1)
proof cases
  case (Call fr fr')
  with call_step[OF assms(2) Call(5,4), of ex st] show ?thesis by auto
next
  case (Exit fr fr' k1)
  with call_step[OF assms(2) Exit(5,4), of ex st] have c: "sys_ok k1" "kernel_kept k k1"
    "input_step k (offered k ev) (delivered ev k1) k1" "fr_eax fr = 1" by auto
  from exit_step[OF c(1)] Exit(9) have e: "sys_ok k'" "kernel_kept k1 k'" "stdin_text k' = stdin_text k1" by auto
  have "delivered ev k' = []" "delivered ev k1 = []" using Exit(1) c(4) by simp_all
  with c(3) e(3) have "input_step k (offered k ev) (delivered ev k') k'" by (simp add: input_step_def)
  with e kept_trans[OF c(2) e(2)] Exit show ?thesis by simp
next
  case (Exception fr halts fr')
  have "fr_int_no fr < 32" using Exception(4) by (auto simp: exception_vectors_def word_less_nat_alt)
  with Exception exception_step[OF assms(2) Exception(4), of ex st] exception_no_io[OF Exception(4)]
  show ?thesis by auto
next
  case (Request fr dev)
  with request_step[OF assms(2) Request(4), of dev] show ?thesis by auto
next
  case (Program m)
  have "m x = k_memory k x" if "x < 0x400000 \<or> 0x900400 \<le> x" for x
  proof -
    have "\<not> user_range x" using that by (auto simp: user_range_def word_le_nat_alt word_less_nat_alt)
    with Program show ?thesis by blast
  qed
  then have "kernel_kept k k'" using Program(4) by (simp add: kernel_kept_def)
  with Program assms(2) show ?thesis by (auto simp: sys_ok_def intro: input_step_none)
qed

text \<open>And no event the CPU can deliver is without a step.\<close>

lemma step_exists:
  assumes "sys_ok k"
  shows "fr_int_no fr = 0x80 \<Longrightarrow> from_user fr \<Longrightarrow> \<exists>fr' md' k'. sys_step ex st (Trap fr fr') User k md' k'"
    "md \<noteq> Stopped \<Longrightarrow> unat (fr_int_no fr) \<in> set exception_vectors \<Longrightarrow>
      \<exists>fr' md' k'. sys_step ex st (Trap fr fr') md k md' k'"
    "md \<noteq> Stopped \<Longrightarrow> fr_int_no fr = 32 \<or> fr_int_no fr = 33 \<Longrightarrow> \<exists>k'. sys_step ex st (Irq dev fr) md k md k'"
proof -
  show "\<exists>fr' md' k'. sys_step ex st (Trap fr fr') User k md' k'" if v: "fr_int_no fr = 0x80" "from_user fr"
  proof -
    have gate: "int_allowed (k_idt k) Ring3 0x80" using assms by (rule sys_okE)
    obtain fr' k' where c: "interrupt_handler ex st fr k = Inr (False, fr', k')" "sys_ok k'"
      using call_step[OF assms v(2,1)] by blast
    obtain k'' where "exit_to_kernel_prints k' = Inr k''" using exit_step[OF c(2)] by blast
    with v gate c(1) show ?thesis
      using sys_step.Call[OF v gate c(1)] sys_step.Exit[OF v gate c(1)] by (cases "from_user fr'") blast+
  qed
  show "\<exists>fr' md' k'. sys_step ex st (Trap fr fr') md k md' k'"
    if "md \<noteq> Stopped" "unat (fr_int_no fr) \<in> set exception_vectors"
    using exception_step[OF assms that(2), of ex st] sys_step.Exception[OF that] by blast
  show "\<exists>k'. sys_step ex st (Irq dev fr) md k md k'" if "md \<noteq> Stopped" "fr_int_no fr = 32 \<or> fr_int_no fr = 33"
    using request_step[OF assms that(2), of dev] sys_step.Request[OF that] by blast
qed

section \<open>Lemmas: runs\<close>

definition input_run :: "kernel \<Rightarrow> char list \<Rightarrow> char list \<Rightarrow> kernel \<Rightarrow> bool" where
  "input_run k ins outs k' \<longleftrightarrow> (\<exists>acc. subseq acc ins \<and> outs @ stdin_text k' = stdin_text k @ acc
     \<and> (length (stdin_text k) + length ins \<le> 1024 \<longrightarrow> acc = ins))"

lemma input_run_step:
  assumes "input_step k ins1 outs1 k1" "input_run k1 ins2 outs2 k2"
  shows "input_run k (ins1 @ ins2) (outs1 @ outs2) k2"
proof -
  obtain a1 where a1: "prefix a1 ins1" "outs1 @ stdin_text k1 = stdin_text k @ a1"
    "length (stdin_text k) + length ins1 \<le> 1024 \<longrightarrow> a1 = ins1"
    using assms(1) by (auto simp: input_step_def)
  obtain a2 where a2: "subseq a2 ins2" "outs2 @ stdin_text k2 = stdin_text k1 @ a2"
    "length (stdin_text k1) + length ins2 \<le> 1024 \<longrightarrow> a2 = ins2"
    using assms(2) by (auto simp: input_run_def)
  have "subseq (a1 @ a2) (ins1 @ ins2)"
    using a1(1) a2(1) by (intro list_emb_append_mono) (auto intro: prefix_imp_subseq)
  moreover have "(outs1 @ outs2) @ stdin_text k2 = stdin_text k @ a1 @ a2"
    using a1(2) a2(2) by (metis append.assoc)
  moreover have "a1 @ a2 = ins1 @ ins2" if "length (stdin_text k) + length (ins1 @ ins2) \<le> 1024"
  proof -
    have "length (stdin_text k1) \<le> length (stdin_text k) + length ins1"
      using arg_cong[OF a1(2), of length] prefix_length_le[OF a1(1)] by simp
    with that a1(3) a2(3) show ?thesis by simp
  qed
  ultimately show ?thesis unfolding input_run_def by blast
qed

lemma run_effect:
  "sys_run ex st evs ins outs md k md' k' \<Longrightarrow> sys_ok k \<Longrightarrow>
    sys_ok k' \<and> kernel_kept k k' \<and> input_run k ins outs k'
    \<and> (md' = Stopped \<longleftrightarrow> md = Stopped \<or> (\<exists>ev \<in> set evs. stops ev))"
proof (induction rule: sys_run.induct)
  case (Rest md k)
  then show ?case by (auto simp: input_run_def)
next
  case (Move ev md k md' k' evs ins outs md'' k'')
  note s = step_effect[OF Move.hyps(1) Move.prems]
  then have "sys_ok k'" by blast
  note r = Move.IH[OF this]
  have "input_run k (offered k ev @ ins) (delivered ev k' @ outs) k''"
    by (rule input_run_step) (use s r in blast)+
  with s r kept_trans show ?case by auto
qed

text \<open>The kernel that boot hands to user mode satisfies the invariant.\<close>

lemma boot_sys_ok:
  assumes "platform_ok pf" "kernel_entry pf magic addr = Inr (Boot_User c k)"
  shows "sys_ok k"
  using boot_reaches_user(1,2)[OF assms] console_live_ok[of k] by (auto simp: sys_ok_def user_tables_def)

section \<open>Properties\<close>

text \<open>A run of the booted machine: the key A, then an exit.\<close>

definition demo_key :: event where
  "demo_key = Irq (\<lambda>_. 0x1E) ((demo_call 0 0 0 0)\<lparr>fr_int_no := 33\<rparr>)"

lemma demo_run: "\<exists>c k0 k. kernel_entry demo_platform 0x36d76289 0x10000 = Inr (Boot_User c k0)
    \<and> sys_run 0 0 [demo_key] ''a'' [] User k0 User k"
proof -
  obtain k0 where k0: "kernel_entry demo_platform 0x36d76289 0x10000
      = Inr (Boot_User (um_switch (pf_context demo_platform)) k0)" using demo_boot by blast
  have ok: "sys_ok k0" by (rule boot_sys_ok[OF demo_platform_ok k0])
  have v: "fr_int_no ((demo_call 0 0 0 0)\<lparr>fr_int_no := 33\<rparr>) = 32 \<or> fr_int_no ((demo_call 0 0 0 0)\<lparr>fr_int_no := 33\<rparr>) = 33"
    by simp
  obtain k where k: "sys_step 0 0 demo_key User k0 User k"
    using step_exists(3)[OF ok _ v] unfolding demo_key_def by blast
  have "keymap ! 30 = CHR ''a''" by code_simp
  then have io: "offered k0 demo_key = ''a''" "delivered demo_key k = []" by (simp_all add: demo_key_def)
  from sys_run.Move[OF k sys_run.Rest] io have "sys_run 0 0 [demo_key] ''a'' [] User k0 User k" by simp
  with k0 show ?thesis by blast
qed

text \<open>C2: the kernel never faults once it runs. After any boot into user mode and any run of events,
  unless an exception stopped the machine, every event the CPU can deliver next has a step: the
  timer, the keyboard whatever it sends, each exception with a gate, and from user mode a system
  call with any registers; and the protection tables still confine user code.\<close>

theorem system_never_faults:
  assumes "platform_ok pf" "kernel_entry pf magic addr = Inr (Boot_User c k0)"
    "sys_run ex st evs ins outs User k0 md k"
  shows "(md = User \<longrightarrow> (\<forall>fr. fr_int_no fr = 0x80 \<and> from_user fr \<longrightarrow> (\<exists>fr' md' k'. sys_step ex st (Trap fr fr') md k md' k')))
    \<and> (md \<noteq> Stopped \<longrightarrow>
        (\<forall>fr. unat (fr_int_no fr) \<in> set exception_vectors \<longrightarrow> (\<exists>fr' md' k'. sys_step ex st (Trap fr fr') md k md' k'))
        \<and> (\<forall>dev fr. fr_int_no fr = 32 \<or> fr_int_no fr = 33 \<longrightarrow> (\<exists>k'. sys_step ex st (Irq dev fr) md k md k')))
    \<and> user_tables (k_gdt k) (k_idt k)"
proof -
  note r = run_effect[OF assms(3) boot_sys_ok[OF assms(1,2)]]
  then have "user_tables (k_gdt k) (k_idt k)"
    using boot_reaches_user(1)[OF assms(1,2)] by (simp add: kernel_kept_def)
  with r step_exists[of k] show ?thesis by blast
qed

theorem system_never_faults_witness:
  "\<exists>k0 k fr' md' k'. sys_run 0 0 [demo_key] ''a'' [] User k0 User k
    \<and> sys_step 0 0 (Trap (demo_call 1 7 0 0) fr') User k md' k'"
proof -
  obtain c k0 k where r: "kernel_entry demo_platform 0x36d76289 0x10000 = Inr (Boot_User c k0)"
    "sys_run 0 0 [demo_key] ''a'' [] User k0 User k" using demo_run by blast
  have "fr_int_no (demo_call 1 7 0 0) = 0x80 \<and> from_user (demo_call 1 7 0 0)" by (simp add: demo_call_def from_user_def)
  with system_never_faults[OF demo_platform_ok r] r(2) show ?thesis by blast
qed

text \<open>The kernel's state is safe from every run. Whatever the user program stores in the user area,
  calls, and is interrupted by, the descriptor tables, the TSS with its kernel stack, the allocator, the process
  table and the mounted file system stay as boot left them, and so does every byte of memory below
  4 MiB or 1024 bytes past the user area, apart from the stack
  the handlers run on, which theory Traps adds.\<close>

theorem system_keeps_kernel:
  assumes "platform_ok pf" "kernel_entry pf magic addr = Inr (Boot_User c k0)"
    "sys_run ex st evs ins outs User k0 md k"
  shows "k_gdt k = k_gdt k0 \<and> k_idt k = k_idt k0 \<and> k_pmm k = k_pmm k0 \<and> k_procs k = k_procs k0 \<and> k_fs k = k_fs k0
    \<and> (\<forall>x. x < 0x400000 \<or> 0x900400 \<le> x \<longrightarrow> k_memory k x = k_memory k0 x)
    \<and> (\<exists>sh. k_shell k = Some sh \<and> sh_ok sh)"
  using run_effect[OF assms(3) boot_sys_ok[OF assms(1,2)]] by (auto simp: kernel_kept_def sys_ok_def)

theorem system_keeps_kernel_witness:
  "\<exists>k0 k. sys_run 0 0 [demo_key] ''a'' [] User k0 User k \<and> k_memory k 0x100000 = k_memory k0 0x100000"
proof -
  obtain c k0 k where r: "kernel_entry demo_platform 0x36d76289 0x10000 = Inr (Boot_User c k0)"
    "sys_run 0 0 [demo_key] ''a'' [] User k0 User k" using demo_run by blast
  from system_keeps_kernel[OF demo_platform_ok r] have "k_memory k 0x100000 = k_memory k0 0x100000"
    by (auto simp: word_less_nat_alt)
  with r(2) show ?thesis by blast
qed

text \<open>No input is invented, duplicated or reordered. Over any run from boot, the characters that
  user reads found in their buffers, followed by those still waiting, are a subsequence of the
  characters offered by the keyboard and by user writes to stream 0, in order; and all of them, when
  at most 1024 were offered.\<close>

theorem system_input_fifo:
  assumes "platform_ok pf" "kernel_entry pf magic addr = Inr (Boot_User c k0)"
    "sys_run ex st evs ins outs User k0 md k"
  shows "subseq (outs @ stdin_text k) ins \<and> (length ins \<le> 1024 \<longrightarrow> outs @ stdin_text k = ins)"
proof -
  have "input_run k0 ins outs k" "stdin_text k0 = []"
    using run_effect[OF assms(3) boot_sys_ok[OF assms(1,2)]] boot_reaches_user(4)[OF assms(1,2)] by simp_all
  then show ?thesis by (auto simp: input_run_def)
qed

theorem system_input_fifo_witness:
  "\<exists>k0 k. sys_run 0 0 [demo_key] ''a'' [] User k0 User k \<and> stdin_text k = ''a''"
proof -
  obtain c k0 k where r: "kernel_entry demo_platform 0x36d76289 0x10000 = Inr (Boot_User c k0)"
    "sys_run 0 0 [demo_key] ''a'' [] User k0 User k" using demo_run by blast
  from system_input_fifo[OF demo_platform_ok r] r(2) show ?thesis by auto
qed

text \<open>The machine stops exactly on exceptions. A run from boot ends stopped if and only if one of
  its events was an exception other than the breakpoint, and that event was its last: no step leaves
  the stopped mode.\<close>

theorem system_stops_on_exception:
  assumes "platform_ok pf" "kernel_entry pf magic addr = Inr (Boot_User c k0)"
    "sys_run ex st evs ins outs User k0 md k"
  shows "(md = Stopped \<longleftrightarrow> (\<exists>fr fr'. Trap fr fr' \<in> set evs \<and> fr_int_no fr < 32 \<and> fr_int_no fr \<noteq> 3))
    \<and> (md = Stopped \<longrightarrow> \<not> (\<exists>ev md' k'. sys_step ex st ev md k md' k'))"
proof -
  have "stops ev \<longleftrightarrow> (\<exists>fr fr'. ev = Trap fr fr' \<and> fr_int_no fr < 32 \<and> fr_int_no fr \<noteq> 3)" for ev
    by (cases ev) auto
  with run_effect[OF assms(3) boot_sys_ok[OF assms(1,2)]] show ?thesis by auto
qed

theorem system_stops_on_exception_witness:
  "\<exists>k0 k fr k'. sys_run 0 0 [demo_key] ''a'' [] User k0 User k
    \<and> sys_run 0 0 [Trap fr fr] [] [] User k0 Stopped k' \<and> fr_int_no fr = 14"
proof -
  obtain c k0 k where r: "kernel_entry demo_platform 0x36d76289 0x10000 = Inr (Boot_User c k0)"
    "sys_run 0 0 [demo_key] ''a'' [] User k0 User k" using demo_run by blast
  let ?fr = "(demo_call 0 0 0 0)\<lparr>fr_int_no := 14\<rparr>"
  have ok: "sys_ok k0" by (rule boot_sys_ok[OF demo_platform_ok r(1)])
  have v: "unat (fr_int_no ?fr) \<in> set exception_vectors" by (simp add: exception_vectors_def)
  obtain k' where "interrupt_handler 0 0 ?fr k0 = Inr (True, ?fr, k')"
    using exception_step[OF ok v, of 0 0] by auto
  from sys_step.Exception[OF _ v this, of User] have step: "sys_step 0 0 (Trap ?fr ?fr) User k0 Stopped k'" by simp
  have "sys_run 0 0 [Trap ?fr ?fr] [] [] User k0 Stopped k'"
    using sys_run.Move[OF step sys_run.Rest] exception_no_io[OF v, of k0 ?fr k'] by simp
  moreover from system_stops_on_exception[OF demo_platform_ok r(1) this] have "fr_int_no ?fr = 14" by simp
  ultimately show ?thesis using r(2) by blast
qed

end
