(* ===== verification/Traps.thy ===== *)
theory Traps
  imports Entry System
begin

text \<open>
  The running system down to registers and stack: the assembly stubs of theory Entry around the
  handlers implement the events of theory System. A handler runs on a memory that differs from the
  one of the system's step by what has been pushed on the kernel stack; it does the same there, and
  the way out restores the interrupted registers.
\<close>

section \<open>Lemmas: handlers and the memory they do not look at\<close>

lemma rfold_cong: "(\<And>x s. x \<in> set xs \<Longrightarrow> f s x = g s x) \<Longrightarrow> rfold f s xs = rfold g s xs"
  by (induction xs arbitrary: s) simp_all

lemma with_shell_memory:
  "with_shell f (k\<lparr>k_memory := m\<rparr>) = rbind (with_shell f k) (\<lambda>k. Inr (k\<lparr>k_memory := m\<rparr>))"
  by (auto simp: with_shell_def rbind_def split: option.splits sum.splits)

lemma prints_memory:
  "k_puts str (k\<lparr>k_memory := m\<rparr>) = rbind (k_puts str k) (\<lambda>k. Inr (k\<lparr>k_memory := m\<rparr>))"
  "k_printf fmt args (k\<lparr>k_memory := m\<rparr>) = rbind (k_printf fmt args k) (\<lambda>k. Inr (k\<lparr>k_memory := m\<rparr>))"
  unfolding k_puts_def k_printf_def by (rule with_shell_memory)+

lemma irq_handler_memory:
  "irq_handler dev fr (k\<lparr>k_memory := m\<rparr>) = rbind (irq_handler dev fr k) (\<lambda>k. Inr (k\<lparr>k_memory := m\<rparr>))"
proof -
  have keys: "keyboard_irq dev (k\<lparr>k_memory := m\<rparr>) = rbind (keyboard_irq dev k) (\<lambda>k. Inr (k\<lparr>k_memory := m\<rparr>))"
    by (auto simp: keyboard_irq_def inb_eq Let_def rbind_def with_shell_def split: sum.splits option.splits)
  have eoi: "outb port v (k\<lparr>k_memory := m\<rparr>) = (outb port v k)\<lparr>k_memory := m\<rparr>" for port v k
    by (simp add: outb_def)
  show ?thesis
    by (auto simp: irq_handler_def keys prints_memory eoi Let_def rbind_def split: sum.splits)
qed

lemma sh_write_stream_cong:
  assumes "sh_ok sh" "\<And>i. i < 1024 \<Longrightarrow> buf i = buf' i"
  shows "sh_write_stream sh idx buf len = sh_write_stream sh idx buf' len"
proof (cases "idx < 0 \<or> 3 \<le> idx")
  case False
  let ?s = "sh_streams sh ! nat idx"
  have "stream_ok ?s" using sh_ok_stream[OF assms(1), of "nat idx"] False by (simp add: nat_less_iff)
  then have c: "0 \<le> st_count ?s" by (simp add: stream_ok_def)
  have "stream_write ?s buf len = stream_write ?s buf' len"
  proof -
    have "rfold (\<lambda>s w. stream_put s (buf w)) ?s [0..<nat n] = rfold (\<lambda>s w. stream_put s (buf' w)) ?s [0..<nat n]"
      if "n \<le> 1024" for n
      by (rule rfold_cong) (use assms(2) that in auto)
    with c show ?thesis by (simp add: stream_write_def Let_def)
  qed
  moreover have "nat idx < length (sh_streams sh)" using assms(1) False by (simp add: sh_ok_iff nat_less_iff)
  ultimately show ?thesis by (simp add: sh_write_stream_def)
qed (simp add: sh_write_stream_invalid)

text \<open>Memories that agree on the user area and the 1024 bytes behind it.\<close>

definition user_area :: "u32 \<Rightarrow> bool" where
  "user_area x \<longleftrightarrow> 0x400000 \<le> x \<and> x < 0x900400"

lemma user_area_buffer:
  assumes "user_range a" "in_range a 1024 x"
  shows "user_area x"
  using user_buffer_bounds[OF assms] by (auto simp: user_area_def not_less not_le)

lemma with_shell_keeps: "with_shell f k = Inr k' \<Longrightarrow> k_memory k' = k_memory k"
  by (auto simp: with_shell_def rbind_eq_Inr split: option.splits)

lemmas prints_keep = with_shell_keeps[where f = "\<lambda>sh. sh_puts sh str" for str, folded k_puts_def]
  with_shell_keeps[where f = "\<lambda>sh. sh_printf sh fmt args" for fmt args, folded k_printf_def]

definition with_user_area :: "memory \<Rightarrow> memory \<Rightarrow> memory" where
  "with_user_area m m' = (\<lambda>x. if user_area x then m' x else m x)"

text \<open>On a memory that agrees there, a system call does the same and its buffer gets the same bytes.\<close>

lemma handle_syscall_memory:
  assumes k: "k_shell k = Some sh" "sh_ok sh" and agree: "with_user_area m (k_memory k) = m"
    and r: "handle_syscall ex st fr k = Inr (fr', k')"
  shows "handle_syscall ex st fr (k\<lparr>k_memory := m\<rparr>) = Inr (fr', k'\<lparr>k_memory := with_user_area m (k_memory k')\<rparr>)"
proof -
  have at: "m x = k_memory k x" if "user_area x" for x
    using fun_cong[OF agree, of x] that by (simp add: with_user_area_def)
  consider "\<not> from_user fr" | "from_user fr" "fr_eax fr = 4" "user_range (fr_ecx fr)"
    | "from_user fr" "fr_eax fr = 3" "user_range (fr_ecx fr)"
    | "from_user fr" "\<not> (fr_eax fr \<in> {3, 4} \<and> user_range (fr_ecx fr))" by blast
  then show ?thesis
  proof cases
    case 1
    with r agree show ?thesis
      by (auto simp: handle_syscall_def prints_memory rbind_eq_Inr dest: prints_keep)
  next
    case 2
    let ?buf = "\<lambda>m. user_text m (fr_ecx fr)"
    have "?buf m i = ?buf (k_memory k) i" if "i < 1024" for i
      using at[OF user_area_buffer[OF 2(3)], OF in_range_offset[OF that]] by (simp add: user_text_def)
    then have "sh_write_stream sh (to_int (fr_ebx fr)) (?buf m) (to_int (fr_edx fr))
        = sh_write_stream sh (to_int (fr_ebx fr)) (?buf (k_memory k)) (to_int (fr_edx fr))"
      by (rule sh_write_stream_cong[OF k(2)])
    with r 2 k(1) agree user_range_nonzero[OF 2(3)] show ?thesis
      by (auto simp: handle_syscall_def sys_write_def with_shell_def rbind_eq_Inr Let_def)
  next
    case 3
    let ?s = "sh_streams sh ! 0" and ?a = "fr_ecx fr"
    have s: "stream_ok ?s" using sh_ok_stream[OF k(2), of 0] by simp
    define n where "n = min (nat (to_int (fr_edx fr))) (min (nat (st_count ?s)) (lf_limit ?s))"
    define bytes where "bytes = take n (stream_contents ?s)"
    have len: "length bytes \<le> 1024" using s by (auto simp: bytes_def n_def stream_ok_def)
    have "0 < length (sh_streams sh)" using k(2) by (simp add: sh_ok_iff)
    then have b: "sys_read fr (k\<lparr>k_memory := m0\<rparr>) = Inr (fr\<lparr>fr_eax := of_nat (length bytes)\<rparr>,
        k\<lparr>k_shell := Some (sh\<lparr>sh_streams := (sh_streams sh)[0 := stream_pop ?s n]\<rparr>),
          k_memory := write_bytes m0 ?a (map to_byte bytes)\<rparr>)" for m0
      using k(1) 3(3) user_range_nonzero[OF 3(3)] stream_read_ok(1)[OF s, of "to_int (fr_edx fr)", folded n_def]
      by (simp add: sys_read_def bytes_def)
    have "write_bytes m ?a (map to_byte bytes) = with_user_area m (write_bytes (k_memory k) ?a (map to_byte bytes))"
      using len at user_area_buffer[OF 3(3)]
      by (auto simp: fun_eq_iff with_user_area_def write_bytes_at dest: in_range_mono[of _ _ _ 1024])
    then show ?thesis using r 3 b[of m] b[of "k_memory k"] by (simp add: handle_syscall_def)
  next
    case 4
    with r agree show ?thesis
      by (auto simp: handle_syscall_def sys_write_def sys_read_def sys_exit_def prints_memory rbind_eq_Inr Let_def
          dest: prints_keep split: option.splits if_splits)
  qed
qed


section \<open>Lemmas: the kernel stack\<close>

text \<open>The bytes below the ring 0 stack pointer that a trap may use, the words of the frame, the
  argument and the return address.\<close>

definition trap_stack :: "idt \<Rightarrow> regs \<Rightarrow> u32 \<Rightarrow> bool" where
  "trap_stack s c x \<longleftrightarrow> in_range (trap_base s c - 84) 84 x"

lemma in_range_below:
  assumes "n \<le> k" "k \<le> 4294967296" "in_range (b - of_nat n) n x"
  shows "in_range (b - of_nat k) k x"
proof -
  have "b - of_nat k + of_nat (k - n) = b - of_nat n" using assms(1) by (simp add: of_nat_diff)
  with in_range_split[of "k - n" n "b - of_nat k" x] assms show ?thesis by simp
qed

lemma handler_memory_outside:
  assumes "\<not> trap_stack s c x"
  shows "handler_memory s g c e v ret m x = m x"
proof -
  let ?ws = "entry_words s g c e v @ [ret]"
  have len: "4 * length ?ws \<le> 84" using entry_words_frame(5)[of s g c e v] by simp
  then have "\<not> in_range (trap_base s c - of_nat (4 * length ?ws)) (4 * length ?ws) x"
    using in_range_below[of "4 * length ?ws" 84 "trap_base s c" x] assms by (auto simp: trap_stack_def)
  then show ?thesis using push_words_ok[of ?ws "trap_base s c" m] len by (simp add: handler_memory_def)
qed

lemma frame_store_outside:
  assumes "\<not> trap_stack s c x" "uc_cs c AND 3 \<noteq> 0"
  shows "store_words m (frame_base s c) (frame_words fr) x = m x"
proof -
  have "\<not> in_range (trap_base s c - of_nat 76) 76 x"
    using in_range_below[of 76 84 "trap_base s c" x] assms(1) by (auto simp: trap_stack_def)
  then show ?thesis
    using store_words_ok[of "frame_words fr" m "frame_base s c"] assms(2)
    by (simp add: frame_base_def trap_words_def)
qed

lemma frame_store_same: "store_words m p (frame_words (frame_at m p)) = m"
  by (rule store_words_same[OF frame_words_at])

text \<open>What the handler finds behind its pointer.\<close>

lemma handler_frame:
  "uc_cs c AND 3 \<noteq> 0 \<Longrightarrow>
    frame_at (handler_memory s g c e v ret m) (frame_base s c) = trap_frame s c e v (uc_esp c) (uc_ss c)"
  "\<exists>us ss. frame_at (handler_memory s g c e v ret m) (frame_base s c) = trap_frame s c e v us ss"
  using trap_frame_at[where s = s and g = g and c = c and e = e and v = v and ret = ret and m = m]
  unfolding frame_base_eq handler_memory_def by blast+

lemma trap_frame_sel [simp]:
  "fr_int_no (trap_frame s c e v us ss) = v" "fr_eax (trap_frame s c e v us ss) = uc_eax c"
  "fr_ecx (trap_frame s c e v us ss) = uc_ecx c" "from_user (trap_frame s c e v us ss) \<longleftrightarrow> uc_cs c AND 3 = 3"
  by (simp_all add: trap_frame_def from_user_def)

text \<open>Leaving with the frame as it came in.\<close>

lemma leave_same:
  fixes s :: idt
  assumes "gate_selector g = 8" "fr = frame_at (handler_memory s g c e v ret m) (frame_base s c)"
  shows "leave_regs fr ((entry_regs s g c)\<lparr>uc_eax := a, uc_ecx := b, uc_edx := d, uc_eflags := f\<rparr>) = c"
proof -
  have sel: "ucast (gate_selector g) AND 3 = (0 :: u32)" using assms(1) by simp
  obtain us ss where fr: "fr = trap_frame s c e v us ss" "uc_cs c AND 3 \<noteq> 0 \<longrightarrow> us = uc_esp c \<and> ss = uc_ss c"
    using handler_frame[where s = s and g = g and c = c and e = e and v = v and ret = ret and m = m] assms(2)
    by (cases "uc_cs c AND 3 = 0") auto
  have "fr = (trap_frame s c e v us ss)\<lparr>fr_eax := uc_eax c\<rparr>" by (simp add: fr(1) trap_frame_def)
  with leave_trap_frame[OF sel fr(2), where r = "uc_eax c"] show ?thesis by simp
qed

text \<open>A request, whatever it interrupts; the handler looks at nothing but the vector.\<close>

lemma irq_handler_vector: "fr_int_no fr = fr_int_no fr' \<Longrightarrow> irq_handler dev fr k = irq_handler dev fr' k"
  by (simp add: irq_handler_def)

lemma irq_resumes:
  fixes c :: regs
  assumes "irq_handler dev fr k = Inr k'" "fr_int_no fr = 32 + of_nat n" "k_memory k' = k_memory k"
    "gate_of (idt_entries (k_idt k) ! (32 + n)) = Some g" "gate_selector g = 8"
  shows "\<exists>c1 m1 m'. deliver (k_idt k) (32 + n) None (c, k_memory k) = Some (c1, m1) \<and> uc_eip c1 = gate_handler g
    \<and> run_stub (irq_handler_call dev) (irq_stub n) ret cl (c1, k\<lparr>k_memory := m1\<rparr>) = Inr (Some c, k'\<lparr>k_memory := m'\<rparr>)
    \<and> (\<forall>x. \<not> trap_stack (k_idt k) c x \<longrightarrow> m' x = k_memory k' x)"
proof -
  let ?m = "handler_memory (k_idt k) g c (code_value None) (32 + of_nat n) ret (k_memory k)"
  let ?fr = "frame_at ?m (frame_base (k_idt k) c)"
  obtain us ss where fr: "?fr = trap_frame (k_idt k) c (code_value None) (32 + of_nat n) us ss"
    using handler_frame(2) by blast
  have "fr_int_no ?fr = fr_int_no fr" unfolding fr by (simp add: assms(2))
  then have "irq_handler dev ?fr k = Inr k'" using assms(1) irq_handler_vector by metis
  then have "irq_handler dev ?fr (k\<lparr>k_memory := ?m\<rparr>) = Inr (k'\<lparr>k_memory := ?m\<rparr>)"
    by (simp add: irq_handler_memory)
  then have "irq_handler_call dev ?fr (k\<lparr>k_memory := ?m\<rparr>) = Inr (False, ?fr, k'\<lparr>k_memory := ?m\<rparr>)"
    by (simp add: irq_handler_call_def)
  note tr = run_trap[where h = "irq_handler_call dev" and k = k and c = c and cl = cl, OF assms(4) this, unfolded leave_same[OF assms(5) refl]]
  have "code_words None (32 + of_nat n) = irq_stub n" by (simp add: code_words_def irq_stub_def)
  with tr obtain c1 m1 where "deliver (k_idt k) (32 + n) None (c, k_memory k) = Some (c1, m1)"
    "uc_eip c1 = gate_handler g"
    "run_stub (irq_handler_call dev) (irq_stub n) ret cl (c1, k\<lparr>k_memory := m1\<rparr>) = Inr (Some c, k'\<lparr>k_memory := ?m\<rparr>)"
    by (auto simp: frame_store_same)
  with handler_memory_outside[of "k_idt k" c] assms(3) show ?thesis
    by (intro exI[of _ c1] exI[of _ m1] exI[of _ ?m]) simp
qed


text \<open>A system call, on a stack that is clear of the user area.\<close>

lemma call_returns:
  fixes c :: regs and k :: kernel
  defines "fr \<equiv> trap_frame (k_idt k) c 0 0x80 (uc_esp c) (uc_ss c)"
  assumes k: "k_shell k = Some sh" "sh_ok sh" and user: "uc_cs c AND 3 = 3"
    and clear: "\<And>x. trap_stack (k_idt k) c x \<Longrightarrow> \<not> user_area x"
    and r: "interrupt_handler ex st fr k = Inr (False, fr', k')"
    and gate: "gate_of (idt_entries (k_idt k) ! 128) = Some g" "gate_selector g = 8"
  shows "\<exists>c1 m1 m'. deliver (k_idt k) 128 None (c, k_memory k) = Some (c1, m1) \<and> uc_eip c1 = gate_handler g
    \<and> run_stub (interrupt_handler ex st) (isr_stub 128) ret cl (c1, k\<lparr>k_memory := m1\<rparr>)
      = Inr (Some (leave_regs fr' ((entry_regs (k_idt k) g c)\<lparr>uc_eax := cl_eax cl, uc_ecx := cl_ecx cl,
          uc_edx := cl_edx cl, uc_eflags := cl_eflags cl\<rparr>)), k'\<lparr>k_memory := m'\<rparr>)
    \<and> (\<forall>x. \<not> trap_stack (k_idt k) c x \<longrightarrow> m' x = k_memory k' x)"
proof -
  let ?m = "handler_memory (k_idt k) g c (code_value None) 0x80 ret (k_memory k)" and ?p = "frame_base (k_idt k) c"
  have outer: "uc_cs c AND 3 \<noteq> 0" using user by simp
  have fr: "frame_at ?m ?p = fr" using handler_frame(1)[OF outer] by (simp add: fr_def code_value_def)
  have vec: "fr_int_no fr = 0x80" by (simp add: fr_def)
  have h: "handle_syscall ex st fr k = Inr (fr', k')"
    using r k(1) by (auto simp: interrupt_handler_def vec rbind_eq_Inr)
  let ?m1 = "with_user_area ?m (k_memory k')"
  have "?m x = k_memory k x" if "user_area x" for x
    using clear[of x] that by (intro handler_memory_outside) blast
  then have "with_user_area ?m (k_memory k) = ?m" by (simp add: with_user_area_def fun_eq_iff)
  from handle_syscall_memory[OF k this h]
  have "interrupt_handler ex st fr (k\<lparr>k_memory := ?m\<rparr>) = Inr (False, fr', k'\<lparr>k_memory := ?m1\<rparr>)"
    using r k(1) by (auto simp: interrupt_handler_def vec rbind_eq_Inr)
  note tr = run_trap[where h = "interrupt_handler ex st" and k = k and c = c and cl = cl and err = None
      and v = "0x80" and ret = ret, OF gate(1), unfolded fr, OF this]
  have stub: "code_words None 0x80 = isr_stub 128" by (simp add: code_words_def isr_stub_def error_code_vectors_def)
  have keeps: "k_memory k' x = k_memory k x" if "\<not> user_area x" for x
  proof -
    obtain fr1 k1 where "handle_syscall ex st fr k = Inr (fr1, k1)" "call_effect fr k k1"
      using handle_syscall_outcome[OF k] by blast
    with h have "call_effect fr k k'" by simp
    from call_effect_kept[OF this] that show ?thesis by (auto simp: kernel_kept_def user_area_def not_le not_less)
  qed
  let ?m2 = "store_words ?m1 ?p (frame_words fr')"
  have "?m2 x = k_memory k' x" if "\<not> trap_stack (k_idt k) c x" for x
    using frame_store_outside[OF that outer, of ?m1 fr'] handler_memory_outside[OF that] keeps[of x]
    by (simp add: with_user_area_def)
  with tr show ?thesis unfolding stub by (auto intro!: exI[of _ ?m2])
qed


text \<open>An exception, from user code or from the kernel.\<close>

lemma exception_report_memory:
  "exception_report fr (k\<lparr>k_memory := m\<rparr>) = rbind (exception_report fr k) (\<lambda>k. Inr (k\<lparr>k_memory := m\<rparr>))"
  by (auto simp: exception_report_def prints_memory rbind_def split: sum.splits)

lemma exception_report_keeps: "exception_report fr k = Inr k' \<Longrightarrow> k_memory k' = k_memory k"
  by (auto simp: exception_report_def rbind_eq_Inr dest!: prints_keep split: if_splits)

lemma exception_handler_memory:
  assumes "interrupt_handler ex st fr k = Inr (halts, fr, k')" "unat (fr_int_no fr) \<in> set exception_vectors"
  shows "interrupt_handler ex st fr (k\<lparr>k_memory := m\<rparr>) = Inr (halts, fr, k'\<lparr>k_memory := m\<rparr>)"
    "k_memory k' = k_memory k"
proof -
  have "unat (fr_int_no fr) < 17" using assms(2) by (auto simp: exception_vectors_def)
  then have "fr_int_no fr < 17" by (simp add: word_less_nat_alt)
  with assms(1) show "interrupt_handler ex st fr (k\<lparr>k_memory := m\<rparr>) = Inr (halts, fr, k'\<lparr>k_memory := m\<rparr>)"
    "k_memory k' = k_memory k"
    by (auto simp: interrupt_handler_def exception_report_memory rbind_eq_Inr dest: exception_report_keeps
        split: if_splits)
qed

lemma exception_trap:
  fixes c :: regs and k :: kernel
  assumes ok: "sys_ok k" and v: "v \<in> set exception_vectors" "err = None \<longleftrightarrow> v \<notin> set error_code_vectors"
    and gate: "gate_of (idt_entries (k_idt k) ! v) = Some g" "gate_selector g = 8"
  shows "\<exists>us ss k' c1 m1 m'. let fr = trap_frame (k_idt k) c (code_value err) (of_nat v) us ss in
    (uc_cs c AND 3 \<noteq> 0 \<longrightarrow> us = uc_esp c \<and> ss = uc_ss c)
    \<and> interrupt_handler ex st fr k = Inr (v \<noteq> 3, fr, k')
    \<and> deliver (k_idt k) v err (c, k_memory k) = Some (c1, m1) \<and> uc_eip c1 = gate_handler g
    \<and> run_stub (interrupt_handler ex st) (isr_stub v) ret cl (c1, k\<lparr>k_memory := m1\<rparr>)
      = Inr (if v = 3 then Some c else None, k'\<lparr>k_memory := m'\<rparr>)
    \<and> (\<forall>x. \<not> trap_stack (k_idt k) c x \<longrightarrow> m' x = k_memory k' x)"
proof -
  let ?m = "handler_memory (k_idt k) g c (code_value err) (of_nat v) ret (k_memory k)" and ?p = "frame_base (k_idt k) c"
  let ?fr = "frame_at ?m ?p"
  obtain us ss where fr: "?fr = trap_frame (k_idt k) c (code_value err) (of_nat v) us ss"
    "uc_cs c AND 3 \<noteq> 0 \<longrightarrow> us = uc_esp c \<and> ss = uc_ss c"
    using handler_frame[where s = "k_idt k" and g = g and c = c and e = "code_value err" and v = "of_nat v"
        and ret = ret and m = "k_memory k"] by (cases "uc_cs c AND 3 = 0") auto
  have vn: "unat (of_nat v :: u32) = v" "of_nat v = (3 :: u32) \<longleftrightarrow> v = 3"
    using v(1) by (auto simp: exception_vectors_def)
  then have vec: "unat (fr_int_no ?fr) \<in> set exception_vectors" unfolding fr using v(1) by simp
  from exception_step[OF ok vec, of ex st] obtain k' where
    k': "interrupt_handler ex st ?fr k = Inr (v \<noteq> 3, ?fr, k')" "kernel_kept k k'"
    unfolding fr using vn(2) by auto
  have mem: "k_memory k' = k_memory k" by (rule exception_handler_memory(2)[OF k'(1) vec])
  note h = exception_handler_memory(1)[OF k'(1) vec, of ?m]
  note tr = run_trap[where h = "interrupt_handler ex st" and k = k and c = c and cl = cl and err = err
      and v = "of_nat v" and ret = ret, OF gate(1) h, unfolded leave_same[OF gate(2) refl]]
  have stub: "code_words err (of_nat v) = isr_stub v"
    using v(2) by (auto simp: code_words_def isr_stub_def split: option.split)
  have "?m x = k_memory k' x" if "\<not> trap_stack (k_idt k) c x" for x
    using handler_memory_outside[OF that] mem by simp
  moreover obtain c1 m1 where "deliver (k_idt k) v err (c, k_memory k) = Some (c1, m1)" "uc_eip c1 = gate_handler g"
    "run_stub (interrupt_handler ex st) (isr_stub v) ret cl (c1, k\<lparr>k_memory := m1\<rparr>)
      = Inr (if v \<noteq> 3 then None else Some c, k'\<lparr>k_memory := ?m\<rparr>)"
    using tr unfolding stub by (auto simp: frame_store_same)
  ultimately show ?thesis
    using k'(1) fr unfolding Let_def
    by (intro exI[of _ us] exI[of _ ss] exI[of _ k'] exI[of _ c1] exI[of _ m1] exI[of _ ?m]) simp
qed


text \<open>A system call through the stub, on a kernel with the gates of the boot.\<close>

lemma syscall_through_stub:
  fixes c :: regs and k :: kernel
  defines "fr \<equiv> trap_frame (k_idt k) c 0 0x80 (uc_esp c) (uc_ss c)"
  assumes sh: "k_shell k = Some sh" "sh_ok sh" and ss0: "tss_ss0 (idt_tss (k_idt k)) = 0x10"
    and gate: "gate_of (idt_entries (k_idt k) ! 128) = boot_gate isr irq 128"
    and user: "uc_cs c AND 3 = 3" and clear: "\<And>x. trap_stack (k_idt k) c x \<Longrightarrow> \<not> user_area x"
    and r: "handle_syscall ex st fr k = Inr (fr', k')"
  shows "interrupt_handler ex st fr k = Inr (False, fr', k')
    \<and> (\<exists>c1 m1 m'. deliver (k_idt k) 128 None (c, k_memory k) = Some (c1, m1) \<and> uc_eip c1 = isr 128
    \<and> run_stub (interrupt_handler ex st) (isr_stub 128) ret cl (c1, k\<lparr>k_memory := m1\<rparr>)
      = Inr (Some (if uc_eax c = 1
          then c\<lparr>uc_eax := 0, uc_eip := ex, uc_cs := 0x08, uc_ds := 0x10, uc_es := 0x10, uc_fs := 0x10, uc_gs := 0x10,
            uc_ss := 0x10, uc_esp := tss_esp0 (idt_tss (k_idt k)) - 8\<rparr>
          else c\<lparr>uc_eax := fr_eax fr'\<rparr>), k'\<lparr>k_memory := m'\<rparr>)
    \<and> (\<forall>x. \<not> trap_stack (k_idt k) c x \<longrightarrow> m' x = k_memory k' x))"
proof -
  let ?g = "\<lparr>gate_handler = isr 128, gate_selector = 0x08, gate_kind = Trap_Gate, gate_dpl = Ring3\<rparr>"
  let ?cl = "(entry_regs (k_idt k) ?g c)\<lparr>uc_eax := cl_eax cl, uc_ecx := cl_ecx cl, uc_edx := cl_edx cl,
    uc_eflags := cl_eflags cl\<rparr>"
  have g: "gate_of (idt_entries (k_idt k) ! 128) = Some ?g" "gate_selector ?g = 8"
    using gate by (simp_all add: boot_gate_def exception_vectors_def)
  have "from_user fr" using user by (simp add: fr_def)
  then have fr': "if uc_eax c = 1 then fr' = fr\<lparr>fr_eax := 0, fr_cs := 0x08, fr_ss := 0x10, fr_eip := ex,
       fr_useresp := st, fr_ds := 0x10, fr_es := 0x10, fr_fs := 0x10, fr_gs := 0x10\<rparr>
     else \<exists>v. fr' = fr\<lparr>fr_eax := v\<rparr>"
    using handle_syscall_outcome[OF sh, of ex st fr] r by (auto simp: fr_def split: if_splits)
  have h: "interrupt_handler ex st fr k = Inr (False, fr', k')"
    using r fr' sh(1) by (auto simp: interrupt_handler_def fr_def split: if_splits)
  have "leave_regs fr' ?cl = (if uc_eax c = 1
      then c\<lparr>uc_eax := 0, uc_eip := ex, uc_cs := 0x08, uc_ds := 0x10, uc_es := 0x10, uc_fs := 0x10, uc_gs := 0x10,
        uc_ss := 0x10, uc_esp := tss_esp0 (idt_tss (k_idt k)) - 8\<rparr>
      else c\<lparr>uc_eax := fr_eax fr'\<rparr>)"
  proof (cases "uc_eax c = 1")
    case True
    with fr' ss0 user show ?thesis
      by (simp add: leave_regs_def entry_regs_def kernel_regs_def trap_regs_def trap_frame_def trap_words_def
          trap_base_def Let_def fr_def)
  next
    case False
    with fr' have "fr' = fr\<lparr>fr_eax := fr_eax fr'\<rparr>" by auto
    moreover have "ucast (gate_selector ?g) AND 3 = (0 :: u32)" by simp
    ultimately show ?thesis
      using False leave_trap_frame[where g = ?g and c = c and s = "k_idt k" and e = 0 and v = "0x80" and r = "fr_eax fr'"
          and us = "uc_esp c" and ss = "uc_ss c"] unfolding fr_def by metis
  qed
  with call_returns[where ret = ret and cl = cl, OF sh user clear h[unfolded fr_def] g] h show ?thesis
    by fastforce
qed

section \<open>Lemmas: the booted machine\<close>

lemma booted_run:
  assumes "platform_ok pf" "kernel_entry pf magic addr = Inr (Boot_User c0 k0)" "sys_run ex st evs ins outs User k0 md k"
  shows "sys_ok k" "tss_ss0 (idt_tss (k_idt k)) = 0x10"
    "v < 256 \<Longrightarrow> gate_of (idt_entries (k_idt k) ! v) = boot_gate (pf_isr pf) (pf_irq pf) v"
proof -
  note r = run_effect[OF assms(3) boot_sys_ok[OF assms(1,2)]] and b = boot_reaches_user[OF assms(1,2)]
  show "sys_ok k" using r by blast
  have idt: "k_idt k = k_idt k0" using r by (simp add: kernel_kept_def)
  show "tss_ss0 (idt_tss (k_idt k)) = 0x10" using b(6) idt by simp
  show "gate_of (idt_entries (k_idt k) ! v) = boot_gate (pf_isr pf) (pf_irq pf) v" if "v < 256"
    using b(5) that idt by simp
qed

text \<open>Registers of a user program about to be interrupted.\<close>

definition demo_regs :: "u32 \<Rightarrow> regs" where
  "demo_regs eax = \<lparr>uc_eip = 0x400010, uc_cs = 0x1B, uc_eflags = 0x202, uc_esp = 0x7FFFF0, uc_ss = 0x23,
     uc_ds = 0x23, uc_es = 0x23, uc_fs = 0x23, uc_gs = 0x23, uc_eax = eax, uc_ebx = 1, uc_ecx = 2, uc_edx = 3,
     uc_esi = 4, uc_edi = 5, uc_ebp = 6\<rparr>"

definition demo_clobbered :: clobbered where
  "demo_clobbered = \<lparr>cl_eax = 7, cl_ecx = 8, cl_edx = 9, cl_eflags = 0x46\<rparr>"

lemma demo_regs_stack:
  assumes "tss_esp0 (idt_tss s) = 0x102000"
  shows "trap_stack s (demo_regs eax) x \<Longrightarrow> \<not> user_area x"
proof -
  assume "trap_stack s (demo_regs eax) x"
  then have "in_range (of_nat 0x101FAC) 84 x"
    using assms by (simp add: trap_stack_def trap_base_def demo_regs_def)
  then have "in_range (of_nat 0x101FAC) 84 (of_nat (unat x))" by simp
  then have "0x101FAC \<le> unat x \<and> unat x < 0x101FAC + 84"
    by (subst (asm) in_range_nat) simp_all
  then show "\<not> user_area x" by (simp add: user_area_def word_le_nat_alt)
qed

section \<open>Properties\<close>

text \<open>C12: interrupts are transparent. After any boot and any run, a request of the timer or the
  keyboard that arrives at any registers, of user code or of the kernel, starts the right stub,
  which runs the handler as System's step has it and resumes with exactly the registers it
  interrupted, whatever the compiled handler leaves in those it need not save; outside the 84
  bytes below the ring 0 stack pointer, memory is what the step says.\<close>

theorem irq_implements:
  assumes "platform_ok pf" "kernel_entry pf magic addr = Inr (Boot_User c0 k0)"
    "sys_run ex st evs ins outs User k0 md k"
    "sys_step ex st (Irq dev fr) md k md' k'"
  shows "\<exists>n c1 m1 m'. unat (fr_int_no fr) = 32 + n
    \<and> deliver (k_idt k) (32 + n) None (c, k_memory k) = Some (c1, m1) \<and> uc_eip c1 = pf_irq pf n
    \<and> run_stub (irq_handler_call dev) (irq_stub n) ret cl (c1, k\<lparr>k_memory := m1\<rparr>) = Inr (Some c, k'\<lparr>k_memory := m'\<rparr>)
    \<and> (\<forall>x. \<not> trap_stack (k_idt k) c x \<longrightarrow> m' x = k_memory k' x)"
proof -
  note b = booted_run[OF assms(1-3)]
  have st: "fr_int_no fr = 32 \<or> fr_int_no fr = 33" "irq_handler dev fr k = Inr k'"
    using assms(4) by (auto simp: irq_step)
  define n where "n = (if fr_int_no fr = 32 then 0 else 1 :: nat)"
  have n: "n < 2" "fr_int_no fr = 32 + of_nat n" "unat (fr_int_no fr) = 32 + n" using st(1) by (auto simp: n_def)
  let ?g = "\<lparr>gate_handler = pf_irq pf n, gate_selector = 0x08, gate_kind = Interrupt_Gate, gate_dpl = Ring0\<rparr>"
  have g: "gate_of (idt_entries (k_idt k) ! (32 + n)) = Some ?g"
    using b(3)[of "32 + n"] n(1) by (auto simp: boot_gate_def exception_vectors_def)
  have mem: "k_memory k' = k_memory k"
    using st(2) by (auto simp: irq_handler_def keyboard_irq_def inb_eq outb_def rbind_eq_Inr Let_def
        dest!: with_shell_keeps prints_keep split: if_splits)
  from irq_resumes[OF st(2) n(2) mem g, of c ret cl] n(3) show ?thesis by auto
qed


theorem irq_implements_witness:
  "\<exists>k c1 m1 k' m'. deliver (k_idt k) 33 None (demo_regs 0x14, k_memory k) = Some (c1, m1) \<and> uc_eip c1 = 0x102001
    \<and> run_stub (irq_handler_call (\<lambda>_. 0x1E)) (irq_stub 1) 0x101000 demo_clobbered (c1, k\<lparr>k_memory := m1\<rparr>)
      = Inr (Some (demo_regs 0x14), k'\<lparr>k_memory := m'\<rparr>) \<and> stdin_text k' = ''a''"
proof -
  let ?fr = "(demo_call 0 0 0 0)\<lparr>fr_int_no := 33\<rparr>"
  obtain k0 where k0: "kernel_entry demo_platform 0x36d76289 0x10000
      = Inr (Boot_User (um_switch (pf_context demo_platform)) k0)" using demo_boot by blast
  have ok: "sys_ok k0" by (rule boot_sys_ok[OF demo_platform_ok k0])
  have v: "fr_int_no ?fr = 32 \<or> fr_int_no ?fr = 33" by simp
  obtain k' where k': "sys_step 0 0 (Irq (\<lambda>_. 0x1E) ?fr) User k0 User k'"
    using step_exists(3)[where md = User and dev = "\<lambda>_. 0x1E" and ex = 0 and st = 0, OF ok _ v] by auto
  have empty: "stdin_text k0 = []" by (rule boot_reaches_user(4)[OF demo_platform_ok k0])
  have "keymap ! 30 = CHR ''a''" by code_simp
  then have "stdin_text k' = ''a''"
    using step_effect[OF k' ok] empty by (auto simp: input_step_def)
  moreover from irq_implements[OF demo_platform_ok k0 sys_run.Rest k', of "demo_regs 0x14" "0x101000" demo_clobbered]
  obtain n c1 m1 m' where n: "33 = 32 + n" "deliver (k_idt k0) (32 + n) None (demo_regs 0x14, k_memory k0) = Some (c1, m1)"
    "uc_eip c1 = pf_irq demo_platform n"
    "run_stub (irq_handler_call (\<lambda>_. 0x1E)) (irq_stub n) 0x101000 demo_clobbered (c1, k0\<lparr>k_memory := m1\<rparr>)
      = Inr (Some (demo_regs 0x14), k'\<lparr>k_memory := m'\<rparr>)" by auto
  moreover have "n = 1" using n(1) by simp
  moreover have "pf_irq demo_platform 1 = 0x102001" by (simp add: demo_platform_def)
  ultimately show ?thesis
    by (intro exI[of _ k0] exI[of _ c1] exI[of _ m1] exI[of _ k'] exI[of _ m']) simp
qed

text \<open>C11: system calls return to their caller. After any boot and any run, \<open>int 0x80\<close> with any
  registers of user code starts the stub, which runs the handler as System's step has it on the frame
  of those registers. Unless the call is an exit, user code resumes with every register, segment and
  flag as it was but the result in \<open>eax\<close>. An exit goes to the kernel's idle routine in ring 0, on the
  stack of the TSS just below its top: \<open>iret\<close> to the same ring does not take the stack pointer that
  \<open>sys_exit\<close> has put into the frame. Memory outside the ring 0 stack is as the step says, if that
  stack is clear of the user area.\<close>

theorem syscall_implements:
  assumes "platform_ok pf" "kernel_entry pf magic addr = Inr (Boot_User c0 k0)"
    "sys_run ex st evs ins outs User k0 User k"
    "uc_cs c AND 3 = 3" "\<forall>x. trap_stack (k_idt k) c x \<longrightarrow> \<not> user_area x"
  shows "\<exists>fr' k' c1 m1 m'. let fr = trap_frame (k_idt k) c 0 0x80 (uc_esp c) (uc_ss c) in
    interrupt_handler ex st fr k = Inr (False, fr', k')
    \<and> deliver (k_idt k) 128 None (c, k_memory k) = Some (c1, m1) \<and> uc_eip c1 = pf_isr pf 128
    \<and> run_stub (interrupt_handler ex st) (isr_stub 128) ret cl (c1, k\<lparr>k_memory := m1\<rparr>)
      = Inr (Some (if uc_eax c = 1
          then c\<lparr>uc_eax := 0, uc_eip := ex, uc_cs := 0x08, uc_ds := 0x10, uc_es := 0x10, uc_fs := 0x10, uc_gs := 0x10,
            uc_ss := 0x10, uc_esp := tss_esp0 (idt_tss (k_idt k)) - 8\<rparr>
          else c\<lparr>uc_eax := fr_eax fr'\<rparr>), k'\<lparr>k_memory := m'\<rparr>)
    \<and> (\<forall>x. \<not> trap_stack (k_idt k) c x \<longrightarrow> m' x = k_memory k' x)"
proof -
  note b = booted_run[OF assms(1-3)]
  obtain sh where sh: "k_shell k = Some sh" "sh_ok sh" using b(1) by (rule sys_okE)
  let ?fr = "trap_frame (k_idt k) c 0 0x80 (uc_esp c) (uc_ss c)"
  obtain fr' k' where "handle_syscall ex st ?fr k = Inr (fr', k')"
    using handle_syscall_outcome[OF sh, of ex st ?fr] by blast
  from syscall_through_stub[OF sh b(2) b(3)[of 128] assms(4) _ this, of ret cl] assms(5) show ?thesis
    unfolding Let_def by fastforce
qed


text \<open>A program that asks for its process number gets 1, and an exit leaves the CPU idling in ring 0 at
  0x101FF8, not on the boot stack that was put into the frame.\<close>

theorem syscall_implements_witness:
  "\<exists>k c1 m1 k1 c2 m2 c' k2. deliver (k_idt k) 128 None (demo_regs 0x14, k_memory k) = Some (c1, m1)
    \<and> run_stub (interrupt_handler 0x100200 0x10E000) (isr_stub 128) 0x101000 demo_clobbered (c1, k\<lparr>k_memory := m1\<rparr>)
      = Inr (Some (demo_regs 1), k1)
    \<and> deliver (k_idt k) 128 None (demo_regs 1, k_memory k) = Some (c2, m2)
    \<and> run_stub (interrupt_handler 0x100200 0x10E000) (isr_stub 128) 0x101000 demo_clobbered (c2, k\<lparr>k_memory := m2\<rparr>)
      = Inr (Some c', k2) \<and> uc_eip c' = 0x100200 \<and> uc_esp c' = 0x101FF8"
proof -
  obtain k where k: "kernel_entry demo_platform 0x36d76289 0x10000
      = Inr (Boot_User (um_switch (pf_context demo_platform)) k)" "tss_esp0 (idt_tss (k_idt k)) = 0x102000"
    using demo_boot by blast
  have ring: "uc_cs (demo_regs eax) AND 3 = 3" for eax by (simp add: demo_regs_def)
  have clear: "\<forall>x. trap_stack (k_idt k) (demo_regs eax) x \<longrightarrow> \<not> user_area x" for eax
    using demo_regs_stack[OF k(2)] by blast
  note call = syscall_implements[OF demo_platform_ok k(1) sys_run.Rest[of "0x100200" "0x10E000"] ring clear,
      of _ "0x101000" demo_clobbered, unfolded Let_def]
  have eax: "uc_eax (demo_regs eax) = eax" for eax by (simp add: demo_regs_def)
  from call[of "0x14"] obtain fr' k1 c1 m1 m' where
    pid: "interrupt_handler 0x100200 0x10E000 (trap_frame (k_idt k) (demo_regs 0x14) 0 0x80 (uc_esp (demo_regs 0x14))
        (uc_ss (demo_regs 0x14))) k = Inr (False, fr', k1)"
      "deliver (k_idt k) 128 None (demo_regs 0x14, k_memory k) = Some (c1, m1)"
      "run_stub (interrupt_handler 0x100200 0x10E000) (isr_stub 128) 0x101000 demo_clobbered (c1, k\<lparr>k_memory := m1\<rparr>)
        = Inr (Some ((demo_regs 0x14)\<lparr>uc_eax := fr_eax fr'\<rparr>), k1\<lparr>k_memory := m'\<rparr>)"
    by (auto simp: eax)
  obtain sh where "k_shell k = Some sh" using boot_sys_ok[OF demo_platform_ok k(1)] by (rule sys_okE)
  then have "fr_eax fr' = 1"
    using pid(1) ring by (auto simp: interrupt_handler_def handle_syscall_def rbind_eq_Inr eax)
  then have "(demo_regs 0x14)\<lparr>uc_eax := fr_eax fr'\<rparr> = demo_regs 1" by (simp add: demo_regs_def)
  with pid(2,3) call[of 1] show ?thesis by (fastforce simp: eax k(2))
qed

text \<open>The exceptions for which the processor manual has the CPU push an error code.\<close>

definition cpu_error_codes :: "nat list" where
  "cpu_error_codes = [8, 10, 11, 12, 13, 14, 17]"

text \<open>C35: exceptions reach the kernel with the frame they report. After any boot and any run that has not
  stopped, each of the fifteen exceptions with a gate, raised at any registers, with an error code
  from the CPU exactly where the processor manual says so, starts its stub; the handler is given the
  interrupted registers, the vector and that error code (zero where there is none), as an event of
  System; after a breakpoint exactly the interrupted registers resume, and after any other exception
  nothing does.\<close>

theorem exception_implements:
  assumes "platform_ok pf" "kernel_entry pf magic addr = Inr (Boot_User c0 k0)"
    "sys_run ex st evs ins outs User k0 md k" "md \<noteq> Stopped"
    "v \<in> set exception_vectors" "err = None \<longleftrightarrow> v \<notin> set cpu_error_codes"
  shows "\<exists>us ss k' c1 m1 m'. let fr = trap_frame (k_idt k) c (code_value err) (of_nat v) us ss in
    (uc_cs c AND 3 \<noteq> 0 \<longrightarrow> us = uc_esp c \<and> ss = uc_ss c)
    \<and> sys_step ex st (Trap fr fr) md k (if v = 3 then md else Stopped) k'
    \<and> deliver (k_idt k) v err (c, k_memory k) = Some (c1, m1) \<and> uc_eip c1 = pf_isr pf v
    \<and> run_stub (interrupt_handler ex st) (isr_stub v) ret cl (c1, k\<lparr>k_memory := m1\<rparr>)
      = Inr (if v = 3 then Some c else None, k'\<lparr>k_memory := m'\<rparr>)
    \<and> (\<forall>x. \<not> trap_stack (k_idt k) c x \<longrightarrow> m' x = k_memory k' x)"
proof -
  let ?g = "\<lparr>gate_handler = pf_isr pf v, gate_selector = 0x08, gate_kind = Interrupt_Gate, gate_dpl = Ring0\<rparr>"
  note b = booted_run[OF assms(1-3)]
  have "v < 256" using assms(5) by (auto simp: exception_vectors_def)
  then have g: "gate_of (idt_entries (k_idt k) ! v) = Some ?g" "gate_selector ?g = 8"
    using b(3)[of v] assms(5) by (simp_all add: boot_gate_def)
  have err: "err = None \<longleftrightarrow> v \<notin> set error_code_vectors"
    using assms(5,6) by (auto simp: exception_vectors_def cpu_error_codes_def error_code_vectors_def)
  obtain us ss k' c1 m1 m' where t: "let fr = trap_frame (k_idt k) c (code_value err) (of_nat v) us ss in
    (uc_cs c AND 3 \<noteq> 0 \<longrightarrow> us = uc_esp c \<and> ss = uc_ss c)
    \<and> interrupt_handler ex st fr k = Inr (v \<noteq> 3, fr, k')
    \<and> deliver (k_idt k) v err (c, k_memory k) = Some (c1, m1) \<and> uc_eip c1 = gate_handler ?g
    \<and> run_stub (interrupt_handler ex st) (isr_stub v) ret cl (c1, k\<lparr>k_memory := m1\<rparr>)
      = Inr (if v = 3 then Some c else None, k'\<lparr>k_memory := m'\<rparr>)
    \<and> (\<forall>x. \<not> trap_stack (k_idt k) c x \<longrightarrow> m' x = k_memory k' x)"
    using exception_trap[OF b(1) assms(5) err g, of c ex st ret cl] by blast
  let ?fr = "trap_frame (k_idt k) c (code_value err) (of_nat v) us ss"
  have "unat (fr_int_no ?fr) \<in> set exception_vectors" using assms(5) by (auto simp: exception_vectors_def)
  from sys_step.Exception[OF assms(4) this, of ex st k "v \<noteq> 3" ?fr k'] t
  have "sys_step ex st (Trap ?fr ?fr) md k (if v = 3 then md else Stopped) k'" by (auto simp: Let_def)
  with t show ?thesis unfolding Let_def by (intro exI[of _ us] exI[of _ ss] exI[of _ k'] exI[of _ c1]
      exI[of _ m1] exI[of _ m']) simp
qed


text \<open>A page fault of the user program, with the error code 4 of a user read.\<close>

theorem exception_implements_witness:
  "\<exists>k c1 m1 k'. deliver (k_idt k) 14 (Some 4) (demo_regs 0, k_memory k) = Some (c1, m1) \<and> uc_eip c1 = 0x10100E
    \<and> run_stub (interrupt_handler 0 0) (isr_stub 14) 0x101000 demo_clobbered (c1, k\<lparr>k_memory := m1\<rparr>) = Inr (None, k')"
proof -
  obtain k where k: "kernel_entry demo_platform 0x36d76289 0x10000
      = Inr (Boot_User (um_switch (pf_context demo_platform)) k)" using demo_boot by blast
  have v: "14 \<in> set exception_vectors" "Some (4 :: u32) = None \<longleftrightarrow> 14 \<notin> set cpu_error_codes"
    by (simp_all add: exception_vectors_def cpu_error_codes_def)
  have "pf_isr demo_platform 14 = 0x10100E" by (simp add: demo_platform_def)
  with exception_implements[OF demo_platform_ok k sys_run.Rest[of 0 0] _ v, of "demo_regs 0" "0x101000" demo_clobbered]
  show ?thesis unfolding Let_def by fastforce
qed

text \<open>C34: the first process's kernel stack lies below the sector that was allocated for it. On a platform whose
  disk image can be mounted and whose root directory and program can be read, let the sectors from 1 MiB up that the mount took for
  its copy of the group descriptors be \<open>copies\<close> many. The sector behind them, at \<open>stack\<close>, is the one that the process
  was given for its kernel stack: it is taken, all sectors above it are free, and the process table and the
  TSS hold its lowest address as the top of the stack. Then in every state of any run from boot, every trap out
  of user mode, whatever its vector, its error code and the registers, puts its frame below \<open>stack\<close>:
  all 84 bytes that the trap and its stub may use are in the sectors of the descriptors, and none is in
  the allocated sector.\<close>

theorem user_trap_leaves_its_stack:
  fixes c :: regs
  assumes "platform_ok pf" "mb2_get_memory (pf_memory pf) magic addr = Some bytes"
    "mountable (pf_memory pf) (pf_disk_img_start pf) (boot_sectors bytes) sb"
    "m = mounted_memory (pf_memory pf) (pf_disk_img_start pf) sb" "fs = mounted_fs (pf_disk_img_start pf) sb"
    "root_holds m fs dss" "es = concat (map dir_listing dss)" "ino = lookup ''example.bin'' es"
    "ino \<noteq> 0 \<Longrightarrow> ext2_read_inode m fs ino = Inr (Some inode) \<and> loadable fs inode"
    "kernel_entry pf magic addr = Inr (Boot_User c0 k0)" "sys_run ex st evs ins outs User k0 md k"
    "uc_cs c AND 3 = 3" "deliver (k_idt k) v err (c, k_memory k) = Some (c1, m1)"
  defines "copies \<equiv> sectors_for (32 * sb_groups sb)" and "stack \<equiv> 0x100000 + 8192 * of_nat (sectors_for (32 * sb_groups sb))"
  shows "unat stack = 0x100000 + 8192 * copies \<and> fs_bgdt (k_fs k) = 0x100000
    \<and> current_process (k_procs k) = Some 0 \<and> pr_kernel_stack_top (process_table (k_procs k) ! 0) = stack
    \<and> tss_esp0 (idt_tss (k_idt k)) = stack \<and> mem_phys_start (k_pmm k) = 0x100000
    \<and> pmm_free (k_pmm k) = {copies + 1..<65536}
    \<and> (\<forall>x. trap_stack (k_idt k) c x \<longrightarrow> 0x100000 \<le> x \<and> x < stack \<and> \<not> in_range stack 8192 x)
    \<and> (\<forall>x. m1 x \<noteq> k_memory k x \<longrightarrow> trap_stack (k_idt k) c x)
    \<and> stack_at m1 (stack - 20) [uc_eip c, uc_cs c, uc_eflags c, uc_esp c, uc_ss c]
    \<and> (case err of None \<Rightarrow> uc_esp c1 = stack - 20 | Some w \<Rightarrow> uc_esp c1 = stack - 24 \<and> load32 m1 (stack - 24) = w)"
proof -
  have copies: "copies = sectors_for (32 * sb_groups sb)" by (simp add: copies_def)
  have st: "stack = of_nat (0x100000 + 8192 * copies)" by (simp add: stack_def copies)
  have n: "1 \<le> copies" "copies < 65536" using assms(3) by (simp_all add: mountable_def sectors_for_def copies)
  then have stack: "unat stack = 0x100000 + 8192 * copies" unfolding st by (intro unat_of_nat_exact) simp
  have boot: "tss_esp0 (idt_tss (k_idt k0)) = stack" "k_fs k0 = fs" "first_process copies k0"
    using boot_user_state[OF assms(1-9)] assms(10) by (auto simp: stack_def copies_def mult.commute)
  have kept: "kernel_kept k0 k" using run_effect[OF assms(11) boot_sys_ok[OF assms(1,10)]] by blast
  then have esp0: "tss_esp0 (idt_tss (k_idt k)) = stack" "k_fs k = fs" "first_process copies k"
    using boot first_process_cong[of k k0] by (simp_all add: kernel_kept_def)
  have base: "trap_base (k_idt k) c = stack" "trap_words c = [uc_ss c, uc_esp c, uc_eflags c, uc_cs c, uc_eip c]"
    using esp0(1) assms(12) by (simp_all add: trap_base_def trap_words_def)
  let ?ws = "trap_words c @ (case err of None \<Rightarrow> [] | Some w \<Rightarrow> [w])"
  obtain g where g: "gate_of (idt_entries (k_idt k) ! v) = Some g"
    using assms(13) by (auto simp: deliver_def split: option.splits)
  have d: "uc_esp c1 = stack - 4 * of_nat (length ?ws)" "m1 = push_words ?ws stack (k_memory k)"
    using deliver_ok[OF g, of err c "k_memory k"] assms(13) base by (auto simp: trap_regs_def split: option.splits)
  have len: "4 * length ?ws \<le> 24" by (simp add: base(2) split: option.splits)
  then have pushed: "stack_at m1 (stack - 4 * of_nat (length ?ws)) (rev ?ws)"
    "\<And>x. m1 x \<noteq> k_memory k x \<Longrightarrow> in_range (stack - of_nat (4 * length ?ws)) (4 * length ?ws) x"
    using push_words_ok[of ?ws stack "k_memory k", folded d(2)] by auto
  have changed: "trap_stack (k_idt k) c x" if "m1 x \<noteq> k_memory k x" for x
    using in_range_below[OF _ _ pushed(2)[OF that], of 84] len by (simp add: trap_stack_def base(1))
  have "0x100000 \<le> x \<and> x < stack \<and> \<not> in_range stack 8192 x" if "trap_stack (k_idt k) c x" for x
  proof -
    have low: "stack - 84 = of_nat (0x100000 + 8192 * copies - 84)" using n(1) by (simp add: st of_nat_diff)
    have "in_range (of_nat (0x100000 + 8192 * copies - 84)) 84 (of_nat (unat x))"
      using that unfolding trap_stack_def base(1) low by simp
    then have x: "0x100000 + 8192 * copies - 84 \<le> unat x" "unat x < 0x100000 + 8192 * copies"
      using n by (subst (asm) in_range_nat; simp)+
    have "\<not> in_range (of_nat (0x100000 + 8192 * copies)) 8192 (of_nat (unat x))"
      using n x(2) by (subst in_range_nat) simp_all
    with x n(1) stack show ?thesis by (simp add: word_le_nat_alt word_less_nat_alt st)
  qed
  moreover have "stack_at m1 (stack - 20) [uc_eip c, uc_cs c, uc_eflags c, uc_esp c, uc_ss c]
    \<and> (case err of None \<Rightarrow> uc_esp c1 = stack - 20 | Some w \<Rightarrow> uc_esp c1 = stack - 24 \<and> load32 m1 (stack - 24) = w)"
    using pushed(1) d(1) by (cases err) (simp_all add: base(2))
  ultimately show ?thesis
    using stack esp0 changed assms(5) by (simp add: first_process_def mounted_fs_def st copies mult.commute)
qed

text \<open>The demonstration machine, where the stack is the sector at 0x102000: after the key A, a
  page fault with error code 4 stores it at 0x101FE8.\<close>

theorem user_trap_leaves_its_stack_witness:
  "\<exists>k0 k c1 m1. kernel_entry demo_platform 0x36d76289 0x10000 = Inr (Boot_User (um_switch (pf_context demo_platform)) k0)
    \<and> sys_run 0 0 [demo_key] ''a'' [] User k0 User k \<and> deliver (k_idt k) 14 (Some 4) (demo_regs 1, k_memory k) = Some (c1, m1)
    \<and> uc_esp c1 = 0x101FE8 \<and> load32 m1 0x101FE8 = 4 \<and> pr_kernel_stack_top (process_table (k_procs k) ! 0) = 0x102000"
proof -
  obtain c0 k0 k where k: "kernel_entry demo_platform 0x36d76289 0x10000 = Inr (Boot_User c0 k0)"
    "sys_run 0 0 [demo_key] ''a'' [] User k0 User k" using demo_run by blast
  have c0: "c0 = um_switch (pf_context demo_platform)" by (rule boot_reaches_user(3)[OF demo_platform_ok k(1)])
  obtain g where "gate_of (idt_entries (k_idt k) ! 14) = Some g"
    using booted_run(3)[OF demo_platform_ok k, of 14] by (auto simp: boot_gate_def exception_vectors_def)
  then obtain c1 m1 where d: "deliver (k_idt k) 14 (Some 4) (demo_regs 1, k_memory k) = Some (c1, m1)"
    using deliver_ok by blast
  have ring: "uc_cs (demo_regs 1) AND 3 = 3" by (simp add: demo_regs_def)
  note trap = user_trap_leaves_its_stack[OF demo_platform_ok, unfolded demo_platform_sel, OF demo_bytes
      demo_mountable(2) demo_mounted_def demo_mounted_fs[symmetric] demo_mounted_root refl demo_found[symmetric] _ k ring d]
  from trap[of demo_file] demo_mounted_inode(2) demo_file_loadable
  have "uc_esp c1 = 0x101FE8 \<and> load32 m1 0x101FE8 = 4 \<and> pr_kernel_stack_top (process_table (k_procs k) ! 0) = 0x102000"
    by (simp add: demo_mountable(1))
  with k d c0 show ?thesis by blast
qed

end
