(* ===== verification/Bulk_Output.thy ===== *)
theory Bulk_Output
  imports Kernel_State
begin

text \<open>
  Whole-buffer writes to the three streams of the console, as the system call and the keyboard make
  them. Theory Shell specifies printing one character at a time; a buffer goes into the stream first
  and is rendered afterwards. On a live console the two agree as long as the buffer does not wrap
  around the end of the ring; on the error stream the text is red; on the input stream nothing is
  rendered.
\<close>

section \<open>Specification\<close>

text \<open>Text in a colour, at the cursor.\<close>

definition con_paint :: "u8 \<Rightarrow> char list \<Rightarrow> console \<Rightarrow> console" where
  "con_paint col cs = (\<lambda>(W, scr, md). (W, fold (term_char W col) cs scr, md))"

text \<open>A buffer that fits behind the head of an empty stream without wrapping, and does not put a
  newline into slot 0.\<close>

definition fits :: "stream \<Rightarrow> char list \<Rightarrow> bool" where
  "fits s cs \<longleftrightarrow> st_count s = 0 \<and> nat (st_head s) + length cs \<le> 1024
     \<and> (if st_head s = 0 then cs = [] \<or> hd cs \<noteq> LF else st_data s ! 0 \<noteq> LF)"

section \<open>Lemmas: streams\<close>

lemma stream_write_fits:
  assumes "stream_ok s" "fits s cs"
  shows "\<exists>t. stream_write s (nth cs) (int (length cs)) = Inr (t, int (length cs)) \<and> stream_ok t
    \<and> st_count t = int (length cs) \<and> st_tail t = st_tail s \<and> stream_contents t = cs
    \<and> (cs \<noteq> [] \<longrightarrow> st_data t ! 0 \<noteq> LF)"
proof -
  let ?n = "length cs" and ?h = "nat (st_head s)"
  have c: "st_count s = 0" "?h + ?n \<le> 1024" using assms(2) by (simp_all add: fits_def)
  have h: "0 \<le> st_head s" "st_head s < 1024" "st_head s = st_tail s"
    using stream_ok_head[OF assms(1)] assms(1) c(1) by (simp_all add: stream_ok_def)
  let ?I = "\<lambda>i t. stream_ok t \<and> st_count t = int i \<and> st_tail t = st_tail s
    \<and> st_data t ! 0 = (if ?h = 0 \<and> 0 < i then cs ! 0 else st_data s ! 0)"
  have "\<exists>t. rfold (\<lambda>s w. stream_put s (cs ! w)) s [0..<?n] = Inr t \<and> ?I ?n t"
  proof (rule rfold_nat_induct)
    show "?I 0 s" using assms(1) c(1) by simp
  next
    fix i t assume i: "i < ?n" and t: "?I i t"
    have "st_head t = (st_head s + int i) mod 1024" using t h(3) by (simp add: stream_ok_def)
    also have "\<dots> = st_head s + int i" using h i c(2) by (intro mod_pos_pos_trivial) linarith+
    finally have hd: "nat (st_head t) = ?h + i" using h(1) by simp
    have "st_count t < 1024" using t i c(2) by simp
    moreover have "length (st_data t) = 1024" using t by (simp add: stream_ok_def)
    ultimately show "\<exists>u. stream_put t (cs ! i) = Inr u \<and> ?I (Suc i) u"
      using stream_put_ok[of t "cs ! i"] t hd by (auto simp: nth_list_update)
  qed
  moreover have "?n \<le> 1024" using c(2) by simp
  ultimately obtain t where t: "stream_write s (nth cs) (int ?n) = Inr (t, int ?n)" "?I ?n t"
    by (auto simp: stream_write_def c(1))
  moreover have "stream_contents t = cs"
    using stream_write_ok[OF assms(1), of "nth cs" "int ?n"] t(1) c(1) \<open>?n \<le> 1024\<close>
    by (auto simp: stream_contents_def map_nth)
  moreover have "st_data t ! 0 \<noteq> LF" if "cs \<noteq> []"
    using t(2) that assms(2) h(1) by (auto simp: fits_def hd_conv_nth split: if_splits)
  ultimately show ?thesis by auto
qed

lemma fold_con_step_live:
  assumes "h + length cs \<le> 1024" "h = 0 \<Longrightarrow> cs = [] \<or> hd cs \<noteq> LF" "cs \<noteq> []"
  shows "fold con_step cs (W, scr, Live h) = (W, fold (term_char W 0x07) cs scr, Live ((h + length cs) mod 1024))"
  using assms
proof (induction cs arbitrary: scr h)
  case Nil
  then show ?case by simp
next
  case (Cons c cs)
  have step: "con_step c (W, scr, Live h) = (W, term_char W 0x07 c scr, Live ((h + 1) mod 1024))"
    using Cons.prems(2) by auto
  show ?case
  proof (cases "cs = []")
    case True
    with step show ?thesis by simp
  next
    case False
    then have "(h + 1) mod 1024 = h + 1" using Cons.prems(1) by (cases cs) simp_all
    with False step Cons.IH[of "h + 1" "term_char W 0x07 c scr"] Cons.prems(1) show ?thesis
      by (simp add: add.commute add.left_commute)
  qed
qed

section \<open>Lemmas: the three streams\<close>

text \<open>A live console renders nothing when nothing has been written for it.\<close>

lemma con_ok_drained:
  assumes "con_ok sh"
  shows "drained STREAM_STDOUT sh = sh"
proof (cases "st_count (sh_streams sh ! 1) = 0")
  case True
  with assms drained_empty[of sh 1] show ?thesis by (simp add: con_ok_def)
next
  case False
  with assms wedged_limit[of "sh_streams sh ! 1"] show ?thesis by (auto simp: con_ok_def drained_def)
qed

lemma con_ok_color [simp]: "con_ok (sh\<lparr>sh_color := col\<rparr>) = con_ok sh"
  by (simp add: con_ok_def)

lemma con_of_color [simp]: "con_of (sh\<lparr>sh_color := col\<rparr>) = con_of sh"
  by (simp add: con_of_def sh_screen_def)

lemma con_ok_stdin: "con_ok sh \<Longrightarrow> stream_ok s \<Longrightarrow> con_ok (sh\<lparr>sh_streams := (sh_streams sh)[0 := s]\<rparr>)"
  using sh_ok_set_stream[of sh s 0] by (simp add: con_ok_def)

lemma con_of_stdin [simp]: "con_of (sh\<lparr>sh_streams := (sh_streams sh)[0 := s]\<rparr>) = con_of sh"
  by (simp add: con_of_def sh_screen_def)

lemma write_stdin_exact:
  assumes "con_ok sh" "stream_write (sh_streams sh ! 0) buf len = Inr (s, n)" "stream_ok s"
  shows "sh_write_stream sh 0 buf len = Inr (sh\<lparr>sh_color := 0x07, sh_streams := (sh_streams sh)[0 := s]\<rparr>, n)"
    "con_ok (sh\<lparr>sh_color := 0x07, sh_streams := (sh_streams sh)[0 := s]\<rparr>)"
proof -
  have ok: "st_count (sh_streams sh ! 2) = 0" "0 < length (sh_streams sh)"
    using assms(1) by (simp_all add: con_ok_def sh_ok_iff)
  let ?t = "sh\<lparr>sh_color := 0x07, sh_streams := (sh_streams sh)[0 := s]\<rparr>"
  show t: "con_ok ?t" using con_ok_stdin[OF _ assms(3), of "sh\<lparr>sh_color := 0x07\<rparr>"] assms(1) by simp
  then have "sh_render ?t = Inr ?t"
    using sh_render_stdout[of ?t] con_ok_drained[OF t] by (simp add: con_ok_def)
  then show "sh_write_stream sh 0 buf len = Inr (?t, n)"
    using assms(2) ok(2) by (simp add: sh_write_stream_def)
qed

lemma write_stdin:
  assumes "con_ok sh"
  shows "\<exists>t n. sh_write_stream sh 0 buf len = Inr (t, n) \<and> con_ok t \<and> con_of t = con_of sh
    \<and> sh_streams t ! 2 = sh_streams sh ! 2"
proof -
  have ok: "sh_ok sh" using assms by (simp add: con_ok_def)
  obtain s n where s: "stream_write (sh_streams sh ! 0) buf len = Inr (s, n)" "stream_ok s"
    using stream_write_ok[OF sh_ok_stream[OF ok, of 0], of buf len] by auto
  let ?t = "sh\<lparr>sh_color := 0x07, sh_streams := (sh_streams sh)[0 := s]\<rparr>"
  have "con_of ?t = con_of sh" by (simp add: con_of_def sh_screen_def)
  then show ?thesis using write_stdin_exact[OF assms s] by (intro exI[of _ ?t] exI[of _ n]) simp
qed

text \<open>The screen after a text has been rendered.\<close>

lemma sh_show_screen:
  "sh_term_ok sh \<Longrightarrow> sh_screen (sh_show sh cs) = fold (term_char (unat (sh_width sh)) (sh_color sh)) cs (sh_screen sh)"
proof (induction cs arbitrary: sh)
  case (Cons c cs)
  from sh_render_char_ok(3)[OF Cons.prems, of c]
  have "sh_screen (sh_show sh [c]) = term_char (unat (sh_width sh)) (sh_color sh) c (sh_screen sh)"
    by (simp add: sh_show_eq)
  with Cons.IH[OF sh_show_term_ok[OF Cons.prems, of "[c]"]] show ?case
    by (simp add: sh_show_Cons[OF Cons.prems, of c cs])
qed simp

text \<open>Draining a stream that has just been written to.\<close>

lemma drained_fits:
  assumes "sh_ok sh" "idx < 3" "sh_streams sh ! idx = s" "stream_contents s = cs"
    "cs \<noteq> [] \<Longrightarrow> st_data s ! 0 \<noteq> LF" "st_count s = int (length cs)"
  shows "sh_screen (drained idx sh) = fold (term_char (unat (sh_width sh)) (sh_color sh)) cs (sh_screen sh)"
    "sh_streams (drained idx sh) = (sh_streams sh)[idx := stream_pop s (length cs)]"
    "sh_width (drained idx sh) = sh_width sh" "sh_color (drained idx sh) = sh_color sh"
proof -
  have s: "stream_ok s" using sh_ok_stream[OF assms(1,2)] assms(3) by simp
  have i: "idx < length (sh_streams sh)" using assms(1,2) by (simp add: sh_ok_iff)
  have "drained idx sh = (sh_show sh cs)\<lparr>sh_streams := (sh_streams sh)[idx := stream_pop s (length cs)]\<rparr>"
  proof (cases "cs = []")
    case True
    moreover have "(sh_streams sh)[idx := s] = sh_streams sh" using assms(3) by auto
    ultimately show ?thesis using assms drained_empty[OF assms(1,2)] s by (simp add: stream_pop_0)
  next
    case False
    with assms(5) lf_limit_0_iff[OF s] show ?thesis
      by (simp add: drained_def Let_def assms(3,4,6))
  qed
  with sh_show_screen[of sh cs] assms(1)
  show "sh_screen (drained idx sh) = fold (term_char (unat (sh_width sh)) (sh_color sh)) cs (sh_screen sh)"
    "sh_streams (drained idx sh) = (sh_streams sh)[idx := stream_pop s (length cs)]"
    "sh_width (drained idx sh) = sh_width sh" "sh_color (drained idx sh) = sh_color sh"
    by (simp_all add: sh_ok_iff sh_screen_def)
qed

lemma write_stdout:
  assumes "con_ok sh" "fits (sh_streams sh ! 1) cs"
  shows "\<exists>t. sh_write_stream sh 1 (nth cs) (int (length cs)) = Inr (t, int (length cs)) \<and> con_ok t
    \<and> con_of t = fold con_step cs (con_of sh) \<and> sh_streams t ! 2 = sh_streams sh ! 2"
proof -
  let ?s = "sh_streams sh ! 1"
  have ok: "sh_ok sh" "st_count (sh_streams sh ! 2) = 0" "1 < length (sh_streams sh)"
    using assms(1) by (simp_all add: con_ok_def sh_ok_iff)
  have sok: "stream_ok ?s" using sh_ok_stream[OF ok(1), of 1] by simp
  obtain s where s: "stream_write ?s (nth cs) (int (length cs)) = Inr (s, int (length cs))" "stream_ok s"
    "st_count s = int (length cs)" "st_tail s = st_tail ?s" "stream_contents s = cs" "cs \<noteq> [] \<longrightarrow> st_data s ! 0 \<noteq> LF"
    using stream_write_fits[OF sok assms(2)] by blast
  let ?t = "sh\<lparr>sh_color := 0x07, sh_streams := (sh_streams sh)[1 := s]\<rparr>"
  have t: "sh_ok ?t" using sh_ok_set_stream[of "sh\<lparr>sh_color := 0x07\<rparr>" s 1] ok(1) s(2) by simp
  note d = drained_fits[OF t, of 1 s cs]
  have dr: "sh_screen (drained 1 ?t) = fold (term_char (unat (sh_width sh)) 0x07) cs (sh_screen sh)"
    "sh_streams (drained 1 ?t) = (sh_streams sh)[1 := stream_pop s (length cs)]" "sh_width (drained 1 ?t) = sh_width sh"
    using d s ok(3) by (simp_all add: sh_screen_def)
  have "sh_render ?t = Inr (drained 1 ?t)" using sh_render_stdout[OF t] ok(2) by simp
  then have w: "sh_write_stream sh 1 (nth cs) (int (length cs)) = Inr (drained 1 ?t, int (length cs))"
    using s(1) ok(3) by (simp add: sh_write_stream_def Let_def)
  have h: "0 \<le> st_head ?s" "st_head ?s = st_tail ?s"
    using stream_ok_head[OF sok] sok assms(2) by (simp_all add: stream_ok_def fits_def)
  have hd: "st_head s = (st_head ?s + int (length cs)) mod 1024" using s(2-4) h(2) by (simp add: stream_ok_def)
  have "con_ok (drained 1 ?t)"
  proof (cases "cs = []")
    case True
    then have "stream_pop s 0 = s" "stream_ok s" using s(2) by (simp_all add: stream_pop_0)
    have "s = ?s" using s(1) True by (simp add: stream_write_def Let_def split: if_splits)
    then show ?thesis
      using drained_ok[OF t, of 1] dr(2) True ok assms(1) s(2) by (simp add: con_ok_def stream_pop_0)
  next
    case False
    then show ?thesis
      using drained_ok[OF t, of 1] dr(2) ok s(3,6) by (simp add: con_ok_def)
  qed
  moreover have "con_of (drained 1 ?t) = fold con_step cs (con_of sh)"
  proof (cases "cs = []")
    case True
    have "s = ?s" using s(1) True by (simp add: stream_write_def Let_def split: if_splits)
    then show ?thesis using dr True s(2) by (simp add: con_of_def stream_pop_0)
  next
    case False
    have "nat ((st_head ?s + int (length cs)) mod 1024) = (nat (st_head ?s) + length cs) mod 1024"
      using h(1) by (simp add: nat_mod_distrib nat_add_distrib)
    then have "con_of (drained 1 ?t) = (unat (sh_width sh), fold (term_char (unat (sh_width sh)) 0x07) cs (sh_screen sh),
        Live ((nat (st_head ?s) + length cs) mod 1024))"
      using dr ok(3) s(3) hd by (simp add: con_of_def stream_pop_def)
    moreover have "con_of sh = (unat (sh_width sh), sh_screen sh, Live (nat (st_head ?s)))"
      using assms(2) by (simp add: con_of_def fits_def)
    moreover have "nat (st_head ?s) + length cs \<le> 1024" "nat (st_head ?s) = 0 \<Longrightarrow> cs = [] \<or> hd cs \<noteq> LF"
      using assms(2) h(1) by (auto simp: fits_def)
    ultimately show ?thesis using fold_con_step_live[OF _ _ False] by simp
  qed
  ultimately show ?thesis using w dr(2) by simp
qed

lemma write_stderr:
  assumes "con_ok sh" "fits (sh_streams sh ! 2) cs"
  shows "\<exists>t. sh_write_stream sh 2 (nth cs) (int (length cs)) = Inr (t, int (length cs)) \<and> con_ok t
    \<and> con_of t = con_paint 0x04 cs (con_of sh)"
proof -
  let ?s = "sh_streams sh ! 2"
  have ok: "sh_ok sh" "2 < length (sh_streams sh)" using assms(1) by (simp_all add: con_ok_def sh_ok_iff)
  have sok: "stream_ok ?s" using sh_ok_stream[OF ok(1), of 2] by simp
  obtain s where s: "stream_write ?s (nth cs) (int (length cs)) = Inr (s, int (length cs))" "stream_ok s"
    "st_count s = int (length cs)" "stream_contents s = cs" "cs \<noteq> [] \<longrightarrow> st_data s ! 0 \<noteq> LF"
    using stream_write_fits[OF sok assms(2)] by blast
  let ?t = "sh\<lparr>sh_color := 0x07, sh_streams := (sh_streams sh)[2 := s]\<rparr>"
  let ?u = "sh\<lparr>sh_streams := (sh_streams sh)[2 := s], sh_color := 0x04\<rparr>"
  have t: "sh_ok ?t" "sh_ok ?u"
    using sh_ok_set_stream[of "sh\<lparr>sh_color := 0x07\<rparr>" s 2] sh_ok_set_stream[of sh s 2] ok(1) s(2)
    by simp_all
  have idle: "drained 1 ?t = ?t"
  proof (cases "st_count (sh_streams sh ! 1) = 0")
    case True
    with drained_empty[OF t(1), of 1] show ?thesis by simp
  next
    case False
    with assms(1) wedged_limit[of "sh_streams sh ! 1"] show ?thesis by (auto simp: con_ok_def drained_def)
  qed
  note d = drained_fits[OF t(2), of 2 s cs]
  have dr: "sh_screen (drained 2 ?u) = fold (term_char (unat (sh_width sh)) 0x04) cs (sh_screen sh)"
    "sh_streams (drained 2 ?u) = (sh_streams sh)[2 := stream_pop s (length cs)]" "sh_width (drained 2 ?u) = sh_width sh"
    using d s ok(2) by (simp_all add: sh_screen_def)
  let ?r = "(drained 2 ?u)\<lparr>sh_color := 0x07\<rparr>"
  have "sh_render ?t = Inr ?r" using sh_render_ok(1)[OF t(1)] idle by simp
  then have w: "sh_write_stream sh 2 (nth cs) (int (length cs)) = Inr (?r, int (length cs))"
    using s(1) ok(2) by (simp add: sh_write_stream_def Let_def)
  moreover have "con_ok ?r" using drained_ok[OF t(2), of 2] dr(2) ok s(3) assms(1) by (simp add: con_ok_def)
  moreover have "con_of ?r = con_paint 0x04 cs (con_of sh)"
    using dr by (simp add: con_of_def con_paint_def sh_screen_def)
  ultimately show ?thesis by blast
qed

end
