(* ===== verification/Program.thy ===== *)
theory Program
  imports Traps Bulk_Output
begin

text \<open>
  The example program (rootfs/example.asm) running on the booted kernel. The program is assembled
  to bytes and the bytes are executed: the machine fetches and decodes the instruction at the user's
  instruction pointer from memory, and a system call or an interrupt goes through the CPU's gate, the
  assembly stub and the C handler as in theory Traps. Interrupt requests may arrive between any two
  instructions. Only the two instruction forms the program uses are decoded; anything else stops the
  machine.
\<close>

section \<open>The program\<close>

text \<open>\<open>mov r32, imm32\<close> with the register's number, and \<open>int imm8\<close>.\<close>

datatype uinstr = Mov_imm nat u32 | Int_imm u8

abbreviation (input) EAX :: nat where "EAX \<equiv> 0"
abbreviation (input) ECX :: nat where "ECX \<equiv> 1"
abbreviation (input) EDX :: nat where "EDX \<equiv> 2"
abbreviation (input) EBX :: nat where "EBX \<equiv> 3"

fun encode_uinstr :: "uinstr \<Rightarrow> u8 list" where
  "encode_uinstr (Mov_imm r v) = (0xB8 + of_nat r) # le32 v"
| "encode_uinstr (Int_imm v) = [0xCD, v]"

text \<open>The instructions of example.asm, given the address of its label \<open>message\<close>; the label is at the
  end of the code, which is at \<open>ORG 0x400000\<close>.\<close>

definition example_code :: "u32 \<Rightarrow> uinstr list" where
  "example_code message =
     [Mov_imm EAX 4, Mov_imm EBX 1, Mov_imm ECX message, Mov_imm EDX 15, Int_imm 0x80,
      Mov_imm EAX 4, Mov_imm EBX 2, Mov_imm ECX message, Mov_imm EDX 15, Int_imm 0x80,
      Mov_imm EAX 1, Mov_imm EBX 0, Int_imm 0x80]"

definition example_message :: "char list" where
  "example_message = line ''Hello, World!''"

definition example_binary :: "u8 list" where
  "example_binary =
     (let message = 0x400000 + of_nat (length (concat (map encode_uinstr (example_code 0)))) in
      concat (map encode_uinstr (example_code message)) @ map to_byte example_message)"

text \<open>It assembles to the file rootfs/example.bin of the repository, which is also the program on the
  small disk of theory Ext2.\<close>

lemma example_binary_eq: "example_binary = demo_program"
  by code_simp

section \<open>User instructions\<close>

definition set_gpr :: "nat \<Rightarrow> u32 \<Rightarrow> regs \<Rightarrow> regs" where
  "set_gpr r v c =
     (if r = 0 then c\<lparr>uc_eax := v\<rparr> else if r = 1 then c\<lparr>uc_ecx := v\<rparr> else if r = 2 then c\<lparr>uc_edx := v\<rparr>
      else if r = 3 then c\<lparr>uc_ebx := v\<rparr> else if r = 4 then c\<lparr>uc_esp := v\<rparr> else if r = 5 then c\<lparr>uc_ebp := v\<rparr>
      else if r = 6 then c\<lparr>uc_esi := v\<rparr> else c\<lparr>uc_edi := v\<rparr>)"

text \<open>The instruction at an address, and its length.\<close>

definition decode :: "memory \<Rightarrow> u32 \<Rightarrow> (uinstr \<times> u32) option" where
  "decode m a =
     (if 0xB8 \<le> m a \<and> m a \<le> 0xBF then Some (Mov_imm (unat (m a - 0xB8)) (load32 m (a + 1)), 5)
      else if m a = 0xCD then Some (Int_imm (m (a + 1)), 2)
      else None)"

section \<open>The machine\<close>

text \<open>In user mode, or in the idle loop that an exit ends in.\<close>

datatype machine = In_User regs kernel | In_Idle regs kernel

text \<open>What happens next: the CPU executes an instruction, or a request line is raised with what its
  device answers. Both carry what the compiled handler leaves open, should one run: the return
  address of its call and the registers it need not save.\<close>

datatype tick = Execute u32 clobbered | Raise nat "u16 \<Rightarrow> u8" u32 clobbered

text \<open>\<open>int 0x80\<close> in user mode, through gate, stub and handler; after an exit, the routine
  \<open>exit_to_kernel\<close> prints and idles.\<close>

definition int_0x80 :: "platform \<Rightarrow> u32 \<Rightarrow> u32 \<Rightarrow> u32 \<Rightarrow> clobbered \<Rightarrow> regs \<Rightarrow> kernel \<Rightarrow> machine option" where
  "int_0x80 pf exit_to_kernel kernel_stack_top ret cl c k =
     (if \<not> int_allowed (k_idt k) Ring3 128 then None
      else case deliver (k_idt k) 128 None (c, k_memory k) of
        None \<Rightarrow> None
      | Some (c1, m1) \<Rightarrow>
          if uc_eip c1 \<noteq> pf_isr pf 128 then None
          else case run_stub (interrupt_handler exit_to_kernel kernel_stack_top) (isr_stub 128) ret cl (c1, k\<lparr>k_memory := m1\<rparr>) of
            Inr (Some c2, k2) \<Rightarrow>
              if uc_cs c2 AND 3 = 3 then Some (In_User c2 k2)
              else if uc_eip c2 = exit_to_kernel
                then (case exit_to_kernel_prints k2 of Inr k3 \<Rightarrow> Some (In_Idle c2 k3) | Inl _ \<Rightarrow> None)
              else None
          | _ \<Rightarrow> None)"

text \<open>A request: taken when the interrupt flag (bit 9) is set; the interrupted registers, in user mode
  or in the idle loop, go through the stub.\<close>

definition take_irq :: "platform \<Rightarrow> nat \<Rightarrow> (u16 \<Rightarrow> u8) \<Rightarrow> u32 \<Rightarrow> clobbered \<Rightarrow> regs \<Rightarrow> kernel \<Rightarrow> (regs \<times> kernel) option" where
  "take_irq pf n dev ret cl c k =
     (if \<not> bit (uc_eflags c) 9 then Some (c, k)
      else case deliver (k_idt k) (32 + n) None (c, k_memory k) of
        None \<Rightarrow> None
      | Some (c1, m1) \<Rightarrow>
          if uc_eip c1 \<noteq> pf_irq pf n then None
          else case run_stub (irq_handler_call dev) (irq_stub n) ret cl (c1, k\<lparr>k_memory := m1\<rparr>) of
            Inr (Some c2, k2) \<Rightarrow> Some (c2, k2)
          | _ \<Rightarrow> None)"

fun machine_step :: "platform \<Rightarrow> u32 \<Rightarrow> u32 \<Rightarrow> tick \<Rightarrow> machine \<Rightarrow> machine option" where
  "machine_step pf ex st (Execute ret cl) (In_User c k) =
     (case decode (k_memory k) (uc_eip c) of
        None \<Rightarrow> None
      | Some (Mov_imm r v, n) \<Rightarrow> Some (In_User (set_gpr r v (c\<lparr>uc_eip := uc_eip c + n\<rparr>)) k)
      | Some (Int_imm v, n) \<Rightarrow>
          if v = 0x80 then int_0x80 pf ex st ret cl (c\<lparr>uc_eip := uc_eip c + n\<rparr>) k else None)"
| "machine_step pf ex st (Execute ret cl) (In_Idle c k) = Some (In_Idle c k)"
| "machine_step pf ex st (Raise n dev ret cl) (In_User c k) =
     map_option (\<lambda>(c, k). In_User c k) (take_irq pf n dev ret cl c k)"
| "machine_step pf ex st (Raise n dev ret cl) (In_Idle c k) =
     map_option (\<lambda>(c, k). In_Idle c k) (take_irq pf n dev ret cl c k)"

fun machine_run :: "platform \<Rightarrow> u32 \<Rightarrow> u32 \<Rightarrow> tick list \<Rightarrow> machine \<Rightarrow> machine option" where
  "machine_run pf ex st [] s = Some s"
| "machine_run pf ex st (t # ts) s = (case machine_step pf ex st t s of
     None \<Rightarrow> None | Some s' \<Rightarrow> machine_run pf ex st ts s')"

section \<open>Lemmas: fetching the program\<close>

lemma decode_encoded:
  assumes "holds m a (encode_uinstr i)" "case i of Mov_imm r v \<Rightarrow> r < 8 | Int_imm v \<Rightarrow> True"
  shows "decode m a = Some (i, of_nat (length (encode_uinstr i)))"
proof (cases i)
  case (Mov_imm r v)
  have r: "r < 8" using assms(2) Mov_imm by simp
  then have "unat (of_nat r :: u8) = r" by (simp add: unat_of_nat)
  moreover have "r \<in> {0, 1, 2, 3, 4, 5, 6, 7}" using r by auto
  ultimately show ?thesis using assms(1) Mov_imm holds_le32[of m "a + 1" v] by (auto simp: decode_def)
next
  case (Int_imm v)
  with assms(1) show ?thesis by (simp add: decode_def)
qed

text \<open>The instruction a stage of the program executes, and where it is.\<close>

definition stage_at :: "nat \<Rightarrow> u32" where
  "stage_at n = 0x400000 + of_nat (length (concat (map encode_uinstr (take n (example_code 0x400038)))))"

lemma example_decode:
  assumes "holds m 0x400000 example_binary" "n < 13"
  shows "decode m (stage_at n) = Some (example_code 0x400038 ! n, of_nat (length (encode_uinstr (example_code 0x400038 ! n))))"
proof (rule decode_encoded)
  let ?is = "example_code 0x400038"
  have len: "length ?is = 13" by (simp add: example_code_def)
  have "example_binary = concat (map encode_uinstr ?is) @ map to_byte example_message"
    by (simp add: example_binary_def example_code_def Let_def)
  moreover have "?is = take n ?is @ ?is ! n # drop (Suc n) ?is"
    using assms(2) len by (simp add: id_take_nth_drop)
  from arg_cong[OF this, of "\<lambda>is. concat (map encode_uinstr is)"]
  have "concat (map encode_uinstr ?is) = concat (map encode_uinstr (take n ?is)) @ encode_uinstr (?is ! n)
      @ concat (map encode_uinstr (drop (Suc n) ?is))"
    by (simp only: map_append concat_append list.map concat.simps)
  ultimately have "holds m 0x400000 (concat (map encode_uinstr (take n ?is)) @ encode_uinstr (?is ! n)
      @ concat (map encode_uinstr (drop (Suc n) ?is)) @ map to_byte example_message)"
    using assms(1) by (simp only: append.assoc)
  then show "holds m (stage_at n) (encode_uinstr (?is ! n))"
    by (simp only: holds_append stage_at_def)
  have "\<forall>i \<in> set ?is. case i of Mov_imm r v \<Rightarrow> r < 8 | Int_imm v \<Rightarrow> True"
    by (simp add: example_code_def)
  moreover have "?is ! n \<in> set ?is" using assms(2) len by simp
  ultimately show "case ?is ! n of Mov_imm r v \<Rightarrow> r < 8 | Int_imm v \<Rightarrow> True" by (rule bspec)
qed

lemma example_text:
  assumes "holds m 0x400000 example_binary" "i < 15"
  shows "user_text m 0x400038 i = example_message ! i"
proof -
  have b: "example_binary = concat (map encode_uinstr (example_code 0x400038)) @ map to_byte example_message"
    "length (concat (map encode_uinstr (example_code 0x400038))) = 56" "length example_message = 15"
    by (simp_all add: example_binary_def example_code_def Let_def example_message_def line_def)
  have "holds m (0x400000 + of_nat 56) (map to_byte example_message)"
    using assms(1) unfolding b(1) holds_append b(2) by (rule conjunct2)
  then have "holds m 0x400038 (map to_byte example_message)" by simp
  then have "m (0x400038 + of_nat i) = to_byte (example_message ! i)"
    using assms(2) b(3) by (simp add: holds_nth)
  then show ?thesis by (simp add: user_text_def)
qed

section \<open>Lemmas: one step\<close>

text \<open>A kernel with the tables of the boot and a given console.\<close>

definition console_at :: "platform \<Rightarrow> u32 \<Rightarrow> console \<Rightarrow> kernel \<Rightarrow> bool" where
  "console_at pf e con k \<longleftrightarrow> (\<exists>sh. k_shell k = Some sh \<and> con_ok sh \<and> con_of sh = con)
     \<and> (\<forall>v < 256. gate_of (idt_entries (k_idt k) ! v) = boot_gate (pf_isr pf) (pf_irq pf) v)
     \<and> tss_ss0 (idt_tss (k_idt k)) = 0x10 \<and> tss_esp0 (idt_tss (k_idt k)) = e"

lemma console_at_shell:
  "console_at pf e con k \<Longrightarrow> con_ok sh \<Longrightarrow> console_at pf e (con_of sh) (k\<lparr>k_shell := Some sh, k_memory := m\<rparr>)"
  "console_at pf e con (k\<lparr>k_memory := m\<rparr>) = console_at pf e con k"
  "console_at pf e con (k\<lparr>k_io := tr\<rparr>) = console_at pf e con k"
  by (auto simp: console_at_def)

lemma sh_write_stream_upto:
  assumes "sh_ok sh" "\<And>i. int i < len \<Longrightarrow> buf i = buf' i"
  shows "sh_write_stream sh idx buf len = sh_write_stream sh idx buf' len"
proof (cases "idx < 0 \<or> 3 \<le> idx")
  case False
  let ?s = "sh_streams sh ! nat idx"
  have "rfold (\<lambda>s w. stream_put s (buf w)) s [0..<nat n] = rfold (\<lambda>s w. stream_put s (buf' w)) s [0..<nat n]"
    if "n \<le> len" for n s
    by (rule rfold_cong) (use assms(2) that in auto)
  then have "stream_write ?s buf len = stream_write ?s buf' len" by (simp add: stream_write_def Let_def)
  moreover have "nat idx < length (sh_streams sh)" using assms(1) False by (simp add: sh_ok_iff nat_less_iff)
  ultimately show ?thesis by (simp add: sh_write_stream_def)
qed (simp add: sh_write_stream_invalid)

text \<open>An interrupt request leaves registers, console and user memory as they were.\<close>

lemma irq_console:
  assumes "k_shell k = Some sh" "con_ok sh" "fr_int_no fr = 32 + of_nat n" "n < 2"
  shows "\<exists>t tr. irq_handler dev fr k = Inr (k\<lparr>k_shell := Some t, k_io := tr\<rparr>) \<and> con_ok t \<and> con_of t = con_of sh
    \<and> sh_streams t ! 2 = sh_streams sh ! 2"
proof -
  have keep: "k\<lparr>k_io := tr\<rparr> = k\<lparr>k_shell := Some sh, k_io := tr\<rparr>" for tr using assms(1) by simp
  obtain c where c: "scancode_to_ascii (dev 0x60) = Inr c" using scancode_total by blast
  obtain t w where t: "sh_write_stream sh 0 (nth [c]) 1 = Inr (t, w)" "con_ok t" "con_of t = con_of sh"
    "sh_streams t ! 2 = sh_streams sh ! 2"
    using write_stdin[OF assms(2)] by blast
  consider "fr_int_no fr = 32" | "fr_int_no fr = 33" "dev 0x60 < 128 \<and> c \<noteq> NUL"
    | "fr_int_no fr = 33" "\<not> (dev 0x60 < 128 \<and> c \<noteq> NUL)"
    using assms(3,4) by (cases "dev 0x60 < 128 \<and> c \<noteq> NUL") (auto simp: less_2_cases_iff)
  then show ?thesis
  proof cases
    case 1
    then have "irq_handler dev fr k = Inr (k\<lparr>k_io := k_io k @ [Out 0x20 0x20]\<rparr>)"
      using assms(1) by (simp add: irq_handler_def outb_def)
    then show ?thesis using assms(2) unfolding keep by blast
  next
    case 2
    then show ?thesis using assms(1) c t
      by (auto simp: irq_handler_def keyboard_irq_def inb_eq with_shell_def outb_def)
  next
    case 3
    then have "irq_handler dev fr k = Inr (k\<lparr>k_io := (k_io k @ [In 0x60 (dev 0x60)]) @ [Out 0x20 0x20]\<rparr>)"
      using assms(1) c by (auto simp: irq_handler_def keyboard_irq_def inb_eq outb_def)
    then show ?thesis using assms(2) unfolding keep by blast
  qed
qed

lemma take_irq_ok:
  assumes "console_at pf e con k" "n < 2"
  shows "\<exists>k'. take_irq pf n dev ret cl c k = Some (c, k') \<and> console_at pf e con k' \<and> stderr_of k' = stderr_of k
    \<and> (\<forall>x. \<not> trap_stack (k_idt k) c x \<longrightarrow> k_memory k' x = k_memory k x)"
proof (cases "bit (uc_eflags c) 9")
  case False
  with assms(1) show ?thesis by (auto simp: take_irq_def)
next
  case True
  obtain sh where sh: "k_shell k = Some sh" "con_ok sh" "con_of sh = con" using assms(1) by (auto simp: console_at_def)
  let ?fr = "(demo_call 0 0 0 0)\<lparr>fr_int_no := 32 + of_nat n\<rparr>"
  let ?g = "\<lparr>gate_handler = pf_irq pf n, gate_selector = 0x08, gate_kind = Interrupt_Gate, gate_dpl = Ring0\<rparr>"
  obtain t tr where t: "irq_handler dev ?fr k = Inr (k\<lparr>k_shell := Some t, k_io := tr\<rparr>)" "con_ok t" "con_of t = con_of sh"
    "sh_streams t ! 2 = sh_streams sh ! 2"
    using irq_console[OF sh(1,2), of ?fr n dev] assms(2) by auto
  have g: "gate_of (idt_entries (k_idt k) ! (32 + n)) = Some ?g"
    using assms by (auto simp: console_at_def boot_gate_def exception_vectors_def)
  obtain c1 m1 m' where d: "deliver (k_idt k) (32 + n) None (c, k_memory k) = Some (c1, m1)" "uc_eip c1 = pf_irq pf n"
    "run_stub (irq_handler_call dev) (irq_stub n) ret cl (c1, k\<lparr>k_memory := m1\<rparr>)
      = Inr (Some c, k\<lparr>k_shell := Some t, k_io := tr, k_memory := m'\<rparr>)"
    "\<forall>x. \<not> trap_stack (k_idt k) c x \<longrightarrow> m' x = k_memory k x"
    using irq_resumes[OF t(1) _ _ g, of c ret cl] by auto
  let ?k' = "k\<lparr>k_shell := Some t, k_io := tr, k_memory := m'\<rparr>"
  have "console_at pf e con ?k'" using assms(1) t(2,3) sh by (auto simp: console_at_def)
  moreover have "stderr_of ?k' = stderr_of k" using t(4) sh(1) by (simp add: stderr_of_def)
  ultimately show ?thesis using d True by (intro exI[of _ ?k']) (simp add: take_irq_def)
qed

text \<open>A system call from user mode.\<close>

lemma console_at_says:
  assumes "console_at pf e con k" "says k cs k'"
  shows "console_at pf e (fold con_step cs con) k'"
  using assms by (auto simp: console_at_def says_def)

lemma console_at_live: "console_at pf e con k \<Longrightarrow> console_live k"
  by (auto simp: console_at_def console_live_def)

lemma int_0x80_ok:
  assumes at: "console_at pf e con k" and user: "uc_cs c AND 3 = 3"
    and clear: "\<And>x. in_range (e - 84) 84 x \<Longrightarrow> \<not> user_area x"
    and r: "handle_syscall ex st (trap_frame (k_idt k) c 0 0x80 (uc_esp c) (uc_ss c)) k = Inr (fr', k')"
  shows "uc_eax c \<noteq> 1 \<Longrightarrow> \<exists>m'. int_0x80 pf ex st ret cl c k = Some (In_User (c\<lparr>uc_eax := fr_eax fr'\<rparr>) (k'\<lparr>k_memory := m'\<rparr>))
      \<and> (\<forall>x. user_area x \<longrightarrow> m' x = k_memory k' x)"
    "uc_eax c = 1 \<Longrightarrow> console_at pf e con' k' \<Longrightarrow> \<exists>c' k''. int_0x80 pf ex st ret cl c k = Some (In_Idle c' k'')
      \<and> console_at pf e (fold con_step (line ''Idling...'') con') k'' \<and> uc_cs c' = 0x08 \<and> uc_eip c' = ex \<and> uc_esp c' = e - 8"
proof -
  obtain sh where sh: "k_shell k = Some sh" "sh_ok sh" using at by (auto simp: console_at_def con_ok_def)
  have tss: "tss_ss0 (idt_tss (k_idt k)) = 0x10" "tss_esp0 (idt_tss (k_idt k)) = e"
    and gate: "gate_of (idt_entries (k_idt k) ! 128) = boot_gate (pf_isr pf) (pf_irq pf) 128"
    using at by (simp_all add: console_at_def)
  have allowed: "int_allowed (k_idt k) Ring3 128"
    using gate by (simp add: int_allowed_def boot_gate_def exception_vectors_def)
  have stack: "trap_stack (k_idt k) c x \<Longrightarrow> \<not> user_area x" for x
    using clear[of x] user tss(2) by (simp add: trap_stack_def trap_base_def)
  obtain c1 m1 m' where tr: "deliver (k_idt k) 128 None (c, k_memory k) = Some (c1, m1)" "uc_eip c1 = pf_isr pf 128"
    "run_stub (interrupt_handler ex st) (isr_stub 128) ret cl (c1, k\<lparr>k_memory := m1\<rparr>)
      = Inr (Some (if uc_eax c = 1
          then c\<lparr>uc_eax := 0, uc_eip := ex, uc_cs := 0x08, uc_ds := 0x10, uc_es := 0x10, uc_fs := 0x10, uc_gs := 0x10,
            uc_ss := 0x10, uc_esp := tss_esp0 (idt_tss (k_idt k)) - 8\<rparr>
          else c\<lparr>uc_eax := fr_eax fr'\<rparr>), k'\<lparr>k_memory := m'\<rparr>)"
    "\<forall>x. \<not> trap_stack (k_idt k) c x \<longrightarrow> m' x = k_memory k' x"
    using syscall_through_stub[OF sh tss(1) gate user stack r, of ret cl] by auto
  show "\<exists>m'. int_0x80 pf ex st ret cl c k = Some (In_User (c\<lparr>uc_eax := fr_eax fr'\<rparr>) (k'\<lparr>k_memory := m'\<rparr>))
      \<and> (\<forall>x. user_area x \<longrightarrow> m' x = k_memory k' x)" if "uc_eax c \<noteq> 1"
    using tr allowed user that stack by (intro exI[of _ m']) (auto simp: int_0x80_def)
  show "\<exists>c' k''. int_0x80 pf ex st ret cl c k = Some (In_Idle c' k'')
      \<and> console_at pf e (fold con_step (line ''Idling...'') con') k'' \<and> uc_cs c' = 0x08 \<and> uc_eip c' = ex \<and> uc_esp c' = e - 8"
    if "uc_eax c = 1" "console_at pf e con' k'"
  proof -
    have at': "console_at pf e con' (k'\<lparr>k_memory := m'\<rparr>)" using that(2) by (simp add: console_at_shell)
    have "NUL \<notin> set ''Idling...''" by simp
    with k_puts_says[OF console_at_live[OF at'], of "line ''Idling...''"] obtain k'' where
      k'': "k_puts (line ''Idling...'') (k'\<lparr>k_memory := m'\<rparr>) = Inr k''" "says (k'\<lparr>k_memory := m'\<rparr>) (line ''Idling...'') k''"
      by (auto simp: cstr_line)
    have "k_shell k' \<noteq> None" using that(2) by (auto simp: console_at_def)
    then have "exit_to_kernel_prints (k'\<lparr>k_memory := m'\<rparr>) = Inr k''" using k''(1) by (simp add: exit_to_kernel_prints_def)
    with tr allowed that(1) tss(2) console_at_says[OF at' k''(2)] show ?thesis by (simp add: int_0x80_def)
  qed
qed

text \<open>A write call whose text the console accepts.\<close>

lemma write_call:
  assumes "k_shell k = Some sh" "con_ok sh" "from_user fr" "fr_eax fr = 4" "user_range (fr_ecx fr)"
    "to_int (fr_edx fr) = int (length cs)" "\<And>i. i < length cs \<Longrightarrow> user_text (k_memory k) (fr_ecx fr) i = cs ! i"
    "sh_write_stream sh (to_int (fr_ebx fr)) (nth cs) (int (length cs)) = Inr (t, w)"
  shows "handle_syscall ex st fr k = Inr (fr\<lparr>fr_eax := fr_edx fr\<rparr>, k\<lparr>k_shell := Some t\<rparr>)"
proof -
  have "sh_ok sh" using assms(2) by (simp add: con_ok_def)
  then have "sh_write_stream sh (to_int (fr_ebx fr)) (user_text (k_memory k) (fr_ecx fr)) (int (length cs)) = Inr (t, w)"
    using sh_write_stream_upto[of sh "int (length cs)" "user_text (k_memory k) (fr_ecx fr)" "nth cs"] assms(7,8) by simp
  with assms(1,3-6) user_range_nonzero[OF assms(5)] show ?thesis
    by (simp add: handle_syscall_def sys_write_def with_shell_def Let_def)
qed

section \<open>Lemmas: the stages of the program\<close>

text \<open>Registers and console after the first instructions; a write returns its length in \<open>eax\<close>.\<close>

definition after_uinstr :: "uinstr \<Rightarrow> regs \<Rightarrow> regs" where
  "after_uinstr i c = (case i of Mov_imm r v \<Rightarrow> set_gpr r v (c\<lparr>uc_eip := uc_eip c + 5\<rparr>)
     | Int_imm v \<Rightarrow> c\<lparr>uc_eip := uc_eip c + 2, uc_eax := uc_edx c\<rparr>)"

definition stage_regs :: "regs \<Rightarrow> nat \<Rightarrow> regs" where
  "stage_regs c n = fold after_uinstr (take n (example_code 0x400038)) c"

definition stage_console :: "console \<Rightarrow> nat \<Rightarrow> console" where
  "stage_console con n = (if n \<le> 4 then con else if n \<le> 9 then fold con_step example_message con
     else con_paint 0x04 example_message (fold con_step example_message con))"

definition final_console :: "console \<Rightarrow> console" where
  "final_console con = fold con_step (line ''Exited with code 0'' @ line ''Idling...'')
     (con_paint 0x04 example_message (fold con_step example_message con))"

lemma stage_regs_at:
  "uc_eip (fold after_uinstr is c) = uc_eip c + of_nat (length (concat (map encode_uinstr is)))
   \<and> uc_cs (fold after_uinstr is c) = uc_cs c"
  by (induction "is" arbitrary: c) (auto simp: after_uinstr_def set_gpr_def le32_def split: uinstr.split)

lemma stage_eip: "uc_eip c = 0x400000 \<Longrightarrow> uc_eip (stage_regs c n) = stage_at n"
  using stage_regs_at by (simp add: stage_regs_def stage_at_def)

lemma length_example_code [simp]: "length (example_code message) = 13"
  by (simp add: example_code_def)

lemma stage_regs_step: "n < 13 \<Longrightarrow> stage_regs c (Suc n) = after_uinstr (example_code 0x400038 ! n) (stage_regs c n)"
  by (simp add: stage_regs_def take_Suc_conv_app_nth)

lemma stage_calls:
  "uc_eax (stage_regs c 4) = 4" "uc_ebx (stage_regs c 4) = 1" "uc_ecx (stage_regs c 4) = 0x400038" "uc_edx (stage_regs c 4) = 15"
  "uc_eax (stage_regs c 9) = 4" "uc_ebx (stage_regs c 9) = 2" "uc_ecx (stage_regs c 9) = 0x400038" "uc_edx (stage_regs c 9) = 15"
  "uc_eax (stage_regs c 12) = 1" "uc_ebx (stage_regs c 12) = 0"
  by (simp_all add: stage_regs_def example_code_def after_uinstr_def set_gpr_def)


text \<open>Where the machine is after \<open>n\<close> instructions.\<close>

definition at_stage :: "platform \<Rightarrow> u32 \<Rightarrow> u32 \<Rightarrow> regs \<Rightarrow> console \<Rightarrow> nat \<Rightarrow> machine \<Rightarrow> bool" where
  "at_stage pf ex e c con n s \<longleftrightarrow>
     (if n < 13 then \<exists>k. s = In_User (stage_regs c n) k \<and> console_at pf e (stage_console con n) k
        \<and> holds (k_memory k) 0x400000 example_binary \<and> (n < 10 \<longrightarrow> st_head (stderr_of k) = 0)
      else \<exists>c' k. s = In_Idle c' k \<and> console_at pf e (final_console con) k
        \<and> uc_cs c' = 0x08 \<and> uc_eip c' = ex \<and> uc_esp c' = e - 8)"

lemma program_kept:
  assumes "holds m 0x400000 example_binary" "\<And>x. user_area x \<Longrightarrow> m' x = m x"
  shows "holds m' 0x400000 example_binary"
proof -
  have len: "length example_binary = 71" by (simp add: example_binary_eq demo_program_def)
  have "user_area (0x400000 + of_nat i)" if "i < 71" for i
  proof -
    have "(0x400000 :: u32) + of_nat i = of_nat (0x400000 + i)" by simp
    moreover have "unat (of_nat (0x400000 + i) :: u32) = 0x400000 + i"
      by (rule unat_of_nat_exact) (use that in simp)
    ultimately show ?thesis using that by (simp add: user_area_def word_le_nat_alt word_less_nat_alt)
  qed
  with assms show ?thesis unfolding holds_nth len by metis
qed

lemma raise_stage:
  assumes "at_stage pf ex e c con n s" "l < 2" "uc_cs c AND 3 = 3"
    "\<And>x. in_range (e - 84) 84 x \<Longrightarrow> \<not> user_area x"
  shows "\<exists>s'. machine_step pf ex st (Raise l dev ret cl) s = Some s' \<and> at_stage pf ex e c con n s'"
proof (cases "n < 13")
  case True
  then obtain k where k: "s = In_User (stage_regs c n) k" "console_at pf e (stage_console con n) k"
    "holds (k_memory k) 0x400000 example_binary" "n < 10 \<longrightarrow> st_head (stderr_of k) = 0"
    using assms(1) by (auto simp: at_stage_def)
  obtain k' where k': "take_irq pf l dev ret cl (stage_regs c n) k = Some (stage_regs c n, k')"
    "console_at pf e (stage_console con n) k'" "stderr_of k' = stderr_of k"
    "\<forall>x. \<not> trap_stack (k_idt k) (stage_regs c n) x \<longrightarrow> k_memory k' x = k_memory k x"
    using take_irq_ok[OF k(2) assms(2)] by blast
  have "trap_stack (k_idt k) (stage_regs c n) x \<Longrightarrow> \<not> user_area x" for x
    using assms(4)[of x] assms(3) k(2) stage_regs_at
    by (auto simp: trap_stack_def trap_base_def stage_regs_def console_at_def)
  with k'(4) have "holds (k_memory k') 0x400000 example_binary"
    using program_kept[OF k(3)] by blast
  with k k' True show ?thesis by (auto simp: at_stage_def)
next
  case False
  then obtain c' k where k: "s = In_Idle c' k" "console_at pf e (final_console con) k" "uc_cs c' = 0x08"
    "uc_eip c' = ex" "uc_esp c' = e - 8"
    using assms(1) by (auto simp: at_stage_def)
  from take_irq_ok[OF k(2) assms(2), of dev ret cl c'] False k show ?thesis by (auto simp: at_stage_def)
qed

text \<open>The moves, and the three system calls.\<close>

lemma execute_move:
  assumes "at_stage pf ex e c con n s" "n \<in> {0, 1, 2, 3, 5, 6, 7, 8, 10, 11}" "uc_eip c = 0x400000"
  shows "\<exists>s'. machine_step pf ex st (Execute ret cl) s = Some s' \<and> at_stage pf ex e c con (Suc n) s'"
proof -
  have n: "n < 12" using assms(2) by auto
  then obtain k where k: "s = In_User (stage_regs c n) k" "console_at pf e (stage_console con n) k"
    "holds (k_memory k) 0x400000 example_binary" "n < 10 \<longrightarrow> st_head (stderr_of k) = 0"
    using assms(1) by (auto simp: at_stage_def)
  note eip = stage_eip[OF assms(3), of n]
  obtain r v where rv: "example_code 0x400038 ! n = Mov_imm r v"
    using assms(2) by (auto simp: example_code_def)
  have "decode (k_memory k) (stage_at n) = Some (Mov_imm r v, 5)"
    using example_decode[OF k(3), of n] n rv by (simp add: le32_def)
  then have "machine_step pf ex st (Execute ret cl) s = Some (In_User (stage_regs c (Suc n)) k)"
    using n rv k(1) eip by (simp add: stage_regs_step after_uinstr_def)
  moreover have "stage_console con (Suc n) = stage_console con n" using assms(2) by (auto simp: stage_console_def)
  moreover have "Suc n < 10 \<longrightarrow> st_head (stderr_of k) = 0" using k(4) by simp
  ultimately show ?thesis using k n by (simp add: at_stage_def)
qed

lemma example_message_facts:
  "length example_message = 15" "hd example_message = CHR ''H''" "example_message \<noteq> []"
  by (simp_all add: example_message_def line_def)

text \<open>A write of the message, to the output or the error stream, from a stage that has loaded its
  arguments.\<close>

lemma execute_write:
  assumes at: "at_stage pf ex e c con n s" and n: "n = 4 \<or> n = 9" and eip: "uc_eip c = 0x400000"
    and user: "uc_cs c AND 3 = 3" and clear: "\<And>x. in_range (e - 84) 84 x \<Longrightarrow> \<not> user_area x"
    and writes: "\<And>k sh. console_at pf e (stage_console con n) k \<Longrightarrow> st_head (stderr_of k) = 0 \<Longrightarrow> k_shell k = Some sh \<Longrightarrow>
      \<exists>t. sh_write_stream sh (if n = 4 then 1 else 2) (nth example_message) 15 = Inr (t, 15) \<and> con_ok t
        \<and> con_of t = stage_console con (Suc n) \<and> (n = 4 \<longrightarrow> sh_streams t ! 2 = sh_streams sh ! 2)"
  shows "\<exists>s'. machine_step pf ex st (Execute ret cl) s = Some s' \<and> at_stage pf ex e c con (Suc n) s'"
proof -
  obtain k where k: "s = In_User (stage_regs c n) k" "console_at pf e (stage_console con n) k"
    "holds (k_memory k) 0x400000 example_binary" "st_head (stderr_of k) = 0"
    using at n by (auto simp: at_stage_def)
  obtain sh where sh: "k_shell k = Some sh" "con_ok sh" using k(2) by (auto simp: console_at_def)
  let ?c = "(stage_regs c n)\<lparr>uc_eip := uc_eip (stage_regs c n) + 2\<rparr>"
  let ?fr = "trap_frame (k_idt k) ?c 0 0x80 (uc_esp ?c) (uc_ss ?c)"
  have regs: "uc_eax ?c = 4" "uc_ebx ?c = (if n = 4 then 1 else 2)" "uc_ecx ?c = 0x400038" "uc_edx ?c = 15"
    "uc_cs ?c AND 3 = 3"
    using n stage_calls[of c] stage_regs_at user by (auto simp: stage_regs_def)
  obtain t where t: "sh_write_stream sh (if n = 4 then 1 else 2) (nth example_message) 15 = Inr (t, 15)" "con_ok t"
    "con_of t = stage_console con (Suc n)" "n = 4 \<longrightarrow> sh_streams t ! 2 = sh_streams sh ! 2"
    using writes[OF k(2,4) sh(1)] by blast
  have ints: "to_int 15 = 15" "to_int (if n = 4 then 1 else 2) = (if n = 4 then 1 else 2)"
    by (simp_all add: to_int_small)
  have "handle_syscall ex st ?fr k = Inr (?fr\<lparr>fr_eax := fr_edx ?fr\<rparr>, k\<lparr>k_shell := Some t\<rparr>)"
  proof (rule write_call[OF sh, where cs = example_message])
    show "from_user ?fr" "fr_eax ?fr = 4" "user_range (fr_ecx ?fr)"
      using regs by (simp_all add: user_range_def)
    show "to_int (fr_edx ?fr) = int (length example_message)"
      using regs ints by (simp add: trap_frame_def example_message_facts)
    show "user_text (k_memory k) (fr_ecx ?fr) i = example_message ! i" if "i < length example_message" for i
      using example_text[OF k(3)] that regs by (simp add: example_message_facts)
    show "sh_write_stream sh (to_int (fr_ebx ?fr)) (nth example_message) (int (length example_message)) = Inr (t, 15)"
      using t(1) regs ints by (simp add: trap_frame_def example_message_facts)
  qed
  from int_0x80_ok(1)[OF k(2) regs(5) clear this, of ret cl] regs(1) obtain m' where
    m': "int_0x80 pf ex st ret cl ?c k = Some (In_User (?c\<lparr>uc_eax := 15\<rparr>) (k\<lparr>k_shell := Some t, k_memory := m'\<rparr>))"
      "\<forall>x. user_area x \<longrightarrow> m' x = k_memory k x"
    using regs(4) by (auto simp: trap_frame_def)
  have dec: "decode (k_memory k) (uc_eip (stage_regs c n)) = Some (Int_imm 0x80, 2)"
    using example_decode[OF k(3), of n] n unfolding stage_eip[OF eip]
    by (auto simp: example_code_def)
  have next_regs: "?c\<lparr>uc_eax := 15\<rparr> = stage_regs c (Suc n)"
    using n regs(4) stage_regs_step[of n c] by (auto simp: after_uinstr_def example_code_def)
  have "console_at pf e (stage_console con (Suc n)) (k\<lparr>k_shell := Some t, k_memory := m'\<rparr>)"
    using console_at_shell(1)[OF k(2) t(2)] t(3) by simp
  moreover have "holds m' 0x400000 example_binary" using program_kept[OF k(3)] m'(2) by blast
  moreover have "Suc n < 10 \<longrightarrow> st_head (sh_streams t ! 2) = 0" using t(4) k(4) sh(1) n by (auto simp: stderr_of_def)
  ultimately show ?thesis using k(1) dec m'(1) n unfolding next_regs by (auto simp: at_stage_def)
qed

lemma write_output:
  assumes "con = (W, scr, Live h)" "h + 15 \<le> 1024" "console_at pf e (stage_console con 4) k" "k_shell k = Some sh"
  shows "\<exists>t. sh_write_stream sh 1 (nth example_message) 15 = Inr (t, 15) \<and> con_ok t
    \<and> con_of t = stage_console con 5 \<and> sh_streams t ! 2 = sh_streams sh ! 2"
proof -
  have sh: "con_ok sh" "con_of sh = con" using assms(3,4) by (auto simp: console_at_def stage_console_def)
  have "stream_ok (sh_streams sh ! 1)" using sh_ok_stream[of sh 1] sh(1) by (simp add: con_ok_def)
  then have "fits (sh_streams sh ! 1) example_message"
    using sh assms(1,2) example_message_facts
    by (auto simp: con_of_def con_ok_def fits_def stream_wedged_def Let_def split: if_splits)
  from write_stdout[OF sh(1) this] sh(2) show ?thesis by (simp add: example_message_facts stage_console_def)
qed

lemma write_error:
  assumes "console_at pf e (stage_console con 9) k" "st_head (stderr_of k) = 0" "k_shell k = Some sh"
  shows "\<exists>t. sh_write_stream sh 2 (nth example_message) 15 = Inr (t, 15) \<and> con_ok t
    \<and> con_of t = stage_console con 10"
proof -
  have sh: "con_ok sh" "con_of sh = stage_console con 9" using assms(1,3) by (auto simp: console_at_def)
  have "st_head (sh_streams sh ! 2) = 0" "st_count (sh_streams sh ! 2) = 0"
    using assms(2,3) sh(1) by (simp_all add: stderr_of_def con_ok_def)
  then have "fits (sh_streams sh ! 2) example_message"
    using example_message_facts by (simp add: fits_def)
  from write_stderr[OF sh(1) this] sh(2) show ?thesis by (simp add: example_message_facts stage_console_def)
qed

lemma execute_exit:
  assumes at: "at_stage pf ex e c con 12 s" and eip: "uc_eip c = 0x400000"
    and user: "uc_cs c AND 3 = 3" and clear: "\<And>x. in_range (e - 84) 84 x \<Longrightarrow> \<not> user_area x"
  shows "\<exists>s'. machine_step pf ex st (Execute ret cl) s = Some s' \<and> at_stage pf ex e c con 13 s'"
proof -
  obtain k where k: "s = In_User (stage_regs c 12) k" "console_at pf e (stage_console con 12) k"
    "holds (k_memory k) 0x400000 example_binary"
    using at by (auto simp: at_stage_def)
  let ?c = "(stage_regs c 12)\<lparr>uc_eip := uc_eip (stage_regs c 12) + 2\<rparr>"
  let ?fr = "trap_frame (k_idt k) ?c 0 0x80 (uc_esp ?c) (uc_ss ?c)"
  have regs: "uc_eax ?c = 1" "uc_ebx ?c = 0" "uc_cs ?c AND 3 = 3"
    using stage_calls[of c] stage_regs_at user by (auto simp: stage_regs_def)
  have "int_text 0 10 = ''0''" by (simp add: int_text_def nat_text_def nat_digits.simps to_int_small)
  then have "fmt_text (line ''Exited with code %d'') [VInt (fr_ebx ?fr)] = Inr (line ''Exited with code 0'')"
    using regs fmt_texts(3)[of 0] by (simp add: trap_frame_def line_def)
  from k_printf_says[OF console_at_live[OF k(2)] this] obtain k' where
    k': "k_printf (line ''Exited with code %d'') [VInt (fr_ebx ?fr)] k = Inr k'" "says k (line ''Exited with code 0'') k'"
    by blast
  have "k_shell k \<noteq> None" using k(2) by (auto simp: console_at_def)
  then have "\<exists>fr'. handle_syscall ex st ?fr k = Inr (fr', k')"
    using regs k'(1) by (simp add: handle_syscall_def sys_exit_def)
  then obtain fr' where call: "handle_syscall ex st ?fr k = Inr (fr', k')" ..
  from int_0x80_ok(2)[OF k(2) regs(3) clear call regs(1) console_at_says[OF k(2) k'(2)], of ret cl] obtain c' k'' where
    i: "int_0x80 pf ex st ret cl ?c k = Some (In_Idle c' k'')" "uc_cs c' = 0x08" "uc_eip c' = ex" "uc_esp c' = e - 8"
      "console_at pf e (fold con_step (line ''Idling...'') (fold con_step (line ''Exited with code 0'') (stage_console con 12))) k''"
    by blast
  have dec: "decode (k_memory k) (uc_eip (stage_regs c 12)) = Some (Int_imm 0x80, 2)"
    using example_decode[OF k(3), of 12] unfolding stage_eip[OF eip] by (simp add: example_code_def)
  have "console_at pf e (final_console con) k''"
    using i(5) by (simp add: final_console_def stage_console_def)
  with i(1-4) dec k(1) show ?thesis by (auto simp: at_stage_def)
qed

lemma execute_stage:
  assumes "at_stage pf ex e c con n s" "uc_eip c = 0x400000" "uc_cs c AND 3 = 3"
    "\<And>x. in_range (e - 84) 84 x \<Longrightarrow> \<not> user_area x" "con = (W, scr, Live h)" "h + 15 \<le> 1024"
  shows "\<exists>s'. machine_step pf ex st (Execute ret cl) s = Some s' \<and> at_stage pf ex e c con (Suc n) s'"
proof -
  consider "n \<in> {0, 1, 2, 3, 5, 6, 7, 8, 10, 11}" | "n = 4" | "n = 9" | "n = 12" | "13 \<le> n"
    by (cases "n < 13") (auto simp: numeral_eq_Suc less_Suc_eq)
  then show ?thesis
  proof cases
    case 1
    with execute_move[OF assms(1) _ assms(2)] show ?thesis by blast
  next
    case 2
    show ?thesis
      by (rule execute_write[OF assms(1) _ assms(2-4)]) (use 2 write_output[OF assms(5,6)] in auto)
  next
    case 3
    show ?thesis
      by (rule execute_write[OF assms(1) _ assms(2-4)]) (use 3 write_error in auto)
  next
    case 4
    with execute_exit[OF _ assms(2-4)] assms(1) show ?thesis by simp
  next
    case 5
    with assms(1) show ?thesis by (auto simp: at_stage_def)
  qed
qed

text \<open>Any interleaving of instructions and requests.\<close>

fun executed :: "tick list \<Rightarrow> nat" where
  "executed [] = 0"
| "executed (Execute ret cl # ts) = Suc (executed ts)"
| "executed (Raise l dev ret cl # ts) = executed ts"

fun lines_ok :: "tick list \<Rightarrow> bool" where
  "lines_ok [] = True"
| "lines_ok (Execute ret cl # ts) = lines_ok ts"
| "lines_ok (Raise l dev ret cl # ts) = (l < 2 \<and> lines_ok ts)"

lemma run_stages:
  assumes "at_stage pf ex e c con n s" "lines_ok ts" "uc_eip c = 0x400000" "uc_cs c AND 3 = 3"
    "\<And>x. in_range (e - 84) 84 x \<Longrightarrow> \<not> user_area x" "con = (W, scr, Live h)" "h + 15 \<le> 1024"
  shows "\<exists>s'. machine_run pf ex st ts s = Some s' \<and> at_stage pf ex e c con (n + executed ts) s'"
  using assms(1,2)
proof (induction ts arbitrary: n s)
  case Nil
  then show ?case by simp
next
  case (Cons t ts)
  show ?case
  proof (cases t)
    case (Execute ret cl)
    from execute_stage[OF Cons.prems(1) assms(3-7), of st ret cl] obtain s1 where
      s1: "machine_step pf ex st t s = Some s1" "at_stage pf ex e c con (Suc n) s1" using Execute by blast
    from Cons.IH[OF s1(2)] Cons.prems(2) s1(1) Execute show ?thesis by simp
  next
    case (Raise l dev ret cl)
    then have "l < 2" "lines_ok ts" using Cons.prems(2) by simp_all
    with raise_stage[OF Cons.prems(1) _ assms(4,5), of l st dev ret cl] obtain s1 where
      s1: "machine_step pf ex st t s = Some s1" "at_stage pf ex e c con n s1" using Raise by blast
    from Cons.IH[OF s1(2) \<open>lines_ok ts\<close>] s1(1) Raise show ?thesis by simp
  qed
qed

section \<open>Properties\<close>

text \<open>What boot has printed when the program starts.\<close>

definition boot_text :: "u64 \<Rightarrow> ext2_superblock \<Rightarrow> (char list \<times> u32) list \<Rightarrow> char list" where
  "boot_text bytes sb es = memory_line bytes @ mounted_line (sb_block_size sb) @ lookup_text ''example.bin'' es"

lemma boot_text_console:
  assumes "length (boot_text bytes sb es) + 15 \<le> 1024"
  obtains scr where "fold con_step (boot_text bytes sb es) blank_console = (80, scr, Live (length (boot_text bytes sb es)))"
proof -
  have "hd (boot_text bytes sb es) = CHR ''B''" "boot_text bytes sb es \<noteq> []"
    by (simp_all add: boot_text_def memory_line_def line_def)
  then show ?thesis
    using fold_con_step_live[of 0 "boot_text bytes sb es" 80] assms that by (simp add: blank_console_def)
qed

lemma low_stack_clear:
  assumes "1 \<le> n" "n \<le> 384" "in_range (0x100000 + of_nat n * 8192 - 84) 84 x"
  shows "\<not> user_area x"
proof -
  have "(0x100000 :: u32) + of_nat n * 8192 - 84 = of_nat (0x100000 + n * 8192 - 84)"
    using assms(1) by (simp add: of_nat_diff)
  with assms(3) have "in_range (of_nat (0x100000 + n * 8192 - 84)) 84 (of_nat (unat x))" by simp
  then have "unat x < 0x100000 + n * 8192" using assms(1,2) by (subst (asm) in_range_nat) simp_all
  with assms(2) show ?thesis by (simp add: user_area_def word_le_nat_alt)
qed

text \<open>C4: the example program runs on the kernel. On a good platform whose disk has the assembled
  example.asm as \<open>example.bin\<close>, whatever requests of the timer and the keyboard arrive between
  its instructions, the machine never gets stuck, and once thirteen instructions have been executed
  it is in the kernel's idle loop in ring 0, on the kernel stack; the console then shows the boot messages,
  the program's line in grey, the same line in red, the exit message and the idle message, in this
  order and nothing else.\<close>

theorem example_program_runs:
  assumes "platform_ok pf" "mb2_get_memory (pf_memory pf) magic addr = Some bytes"
    "mountable (pf_memory pf) (pf_disk_img_start pf) (boot_sectors bytes) sb"
    "m = mounted_memory (pf_memory pf) (pf_disk_img_start pf) sb" "fs = mounted_fs (pf_disk_img_start pf) sb"
    "root_holds m fs dss" "es = concat (map dir_listing dss)" "ino = lookup ''example.bin'' es" "ino \<noteq> 0"
    "ext2_read_inode m fs ino = Inr (Some inode)" "loadable fs inode"
    "map (file_byte m fs inode) [0..<loaded_bytes fs inode] = example_binary" "i_size_lo inode = 71"
    "sectors_for (32 * sb_groups sb) \<le> 384" "length (boot_text bytes sb es) + 15 \<le> 1024"
    "user_context.truncate c = um_switch (pf_context pf)"
  shows "\<exists>k. kernel_entry pf magic addr = Inr (Boot_User (user_context.truncate c) k)
    \<and> (\<forall>ts. lines_ok ts \<longrightarrow> (\<exists>s. machine_run pf ex st ts (In_User c k) = Some s
        \<and> (13 \<le> executed ts \<longrightarrow> (\<exists>c' k' sh. s = In_Idle c' k' \<and> uc_cs c' = 0x08 \<and> uc_eip c' = ex
          \<and> uc_esp c' = 0x100000 + of_nat (sectors_for (32 * sb_groups sb)) * 8192 - 8
          \<and> k_shell k' = Some sh \<and> con_of sh = final_console (fold con_step (boot_text bytes sb es) blank_console)))))"
proof -
  let ?n = "sectors_for (32 * sb_groups sb)" and ?con = "fold con_step (boot_text bytes sb es) blank_console"
  let ?e = "0x100000 + of_nat ?n * 8192 :: u32"
  have size: "loaded_bytes fs inode = 71"
    using arg_cong[OF assms(12), of length] by (simp add: example_binary_eq demo_program_def)
  then have whole: "short_read_text fs inode = []" by (simp add: short_read_text_def assms(13))
  obtain k where k: "kernel_entry pf magic addr = Inr (Boot_User (um_switch (pf_context pf)) k)"
    "\<forall>i < 71. k_memory k (0x400000 + of_nat i) = file_byte m fs inode i"
    "tss_esp0 (idt_tss (k_idt k)) = ?e" "console_shows k (boot_text bytes sb es)"
    using boot_user_mode[OF assms(1-8)] assms(9-11) size whole by (auto simp: boot_text_def)
  note b = boot_reaches_user[OF assms(1) k(1)]
  have regs: "uc_eip c = 0x400000" "uc_cs c AND 3 = 3"
    using arg_cong[OF assms(16), of uc_eip] arg_cong[OF assms(16), of uc_cs]
    by (simp_all add: user_context.truncate_def um_switch_eq)
  obtain scr where con: "?con = (80, scr, Live (length (boot_text bytes sb es)))"
    using boot_text_console[OF assms(15)] .
  have "holds (k_memory k) 0x400000 example_binary"
    unfolding holds_nth using k(2) size by (simp add: assms(12)[symmetric])
  moreover have "console_at pf ?e ?con k"
    using k(3,4) b(5,6) by (auto simp: console_at_def console_shows_def)
  ultimately have start: "at_stage pf ex ?e c ?con 0 (In_User c k)"
    using b(7) by (simp add: at_stage_def stage_regs_def stage_console_def)
  have clear: "in_range (?e - 84) 84 x \<Longrightarrow> \<not> user_area x" for x
    using low_stack_clear[of ?n x] assms(14) by (simp add: sectors_for_def)
  have "\<exists>s. machine_run pf ex st ts (In_User c k) = Some s \<and> at_stage pf ex ?e c ?con (executed ts) s" if "lines_ok ts" for ts
    using run_stages[OF start that regs clear con assms(15)] by simp
  then show ?thesis unfolding assms(16) using k(1) by (fastforce simp: at_stage_def console_at_def)
qed

text \<open>On the demonstration machine, with a key pressed before the first instruction: the program ends in
  the idle loop, at the end of the sector that holds the copied group descriptors.\<close>

definition demo_user :: regs where
  "demo_user = \<lparr>uc_eip = 0x400000, uc_cs = 0x1B, uc_eflags = 0x202, uc_esp = 0x800000, uc_ss = 0x23,
     uc_ds = 0x23, uc_es = 0x23, uc_fs = 0x23, uc_gs = 0x23, uc_eax = 0, uc_ebx = 0, uc_ecx = 0, uc_edx = 0,
     uc_esi = 0, uc_edi = 0, uc_ebp = 0\<rparr>"

definition demo_ticks :: "tick list" where
  "demo_ticks = Raise 1 (\<lambda>_. 0x1E) 0x101000 demo_clobbered # replicate 13 (Execute 0x101000 demo_clobbered)"

lemma demo_program_bytes: "map (file_byte demo_mounted demo_fs demo_file) [0..<loaded_bytes demo_fs demo_file] = example_binary"
proof -
  have n: "loaded_bytes demo_fs demo_file = 71" by (simp add: loaded_bytes_def demo_fs_def demo_file_def demo_inode_def)
  have len: "length demo_program = 71" by (simp add: demo_program_def)
  have "demo_mounted (0x201800 + of_nat i) = demo_program ! i" if "i < 71" for i
    using demo_mounted_parts(4) that len by (simp add: holds_nth)
  then show ?thesis
    unfolding n example_binary_eq
    by (intro nth_equalityI) (simp_all add: len file_byte_def demo_fs_def demo_file_def demo_inode_def)
qed

lemma demo_boot_text: "length (boot_text 0x7F7FC00 demo_sb (concat (map dir_listing [demo_entries]))) + 15 \<le> 1024"
proof -
  have "(0x7F7FC00 :: u64) div 1048576 = 127" by code_simp
  then have "int_text (ucast ((0x7F7FC00 :: u64) div 1048576)) 10 = ''127''"
    by (simp add: int_text_def nat_text_def nat_digits.simps to_int_small)
  moreover have "int_text 1024 10 = ''1024''"
    by (simp add: int_text_def nat_text_def nat_digits.simps to_int_small)
  ultimately show ?thesis
    by (simp add: boot_text_def memory_line_def mounted_line_def lookup_text_def line_def entry_line_def dir_listing_def
        demo_entries_def demo_sb_valid)
qed

theorem example_program_runs_witness:
  "\<exists>k c' k'. kernel_entry demo_platform 0x36d76289 0x10000 = Inr (Boot_User (user_context.truncate demo_user) k)
    \<and> machine_run demo_platform 0x100200 0x10E000 demo_ticks (In_User demo_user k) = Some (In_Idle c' k')
    \<and> uc_esp c' = 0x101FF8"
proof -
  have c: "user_context.truncate demo_user = um_switch (pf_context demo_platform)"
    by (simp add: user_context.truncate_def um_switch_eq demo_user_def demo_platform_def)
  have ticks: "lines_ok demo_ticks" "executed demo_ticks = 13"
    by (simp_all add: demo_ticks_def numeral_eq_Suc)
  have small: "sectors_for (32 * sb_groups demo_sb) \<le> 384" using demo_mountable(1) by simp
  have ino: "(12 :: u32) \<noteq> 0" "i_size_lo demo_file = 71" by (simp_all add: demo_file_def demo_inode_def)
  note run = example_program_runs[OF demo_platform_ok, unfolded demo_platform_sel, OF demo_bytes
      demo_mountable(2) demo_mounted_def demo_mounted_fs[symmetric] demo_mounted_root refl demo_found[symmetric]
      ino(1) demo_mounted_inode(2) demo_file_loadable demo_program_bytes ino(2) small demo_boot_text c]
  obtain k where k: "kernel_entry demo_platform 0x36d76289 0x10000 = Inr (Boot_User (user_context.truncate demo_user) k)"
    and runs: "\<forall>ts. lines_ok ts \<longrightarrow> (\<exists>s. machine_run demo_platform 0x100200 0x10E000 ts (In_User demo_user k) = Some s
      \<and> (13 \<le> executed ts \<longrightarrow> (\<exists>c' k' sh. s = In_Idle c' k' \<and> uc_cs c' = 0x08 \<and> uc_eip c' = 0x100200
        \<and> uc_esp c' = 0x100000 + of_nat (sectors_for (32 * sb_groups demo_sb)) * 8192 - 8
        \<and> k_shell k' = Some sh \<and> con_of sh = final_console (fold con_step
            (boot_text 0x7F7FC00 demo_sb (concat (map dir_listing [demo_entries]))) blank_console))))"
    using run by blast
  from runs[rule_format, OF ticks(1)] ticks(2) obtain c' k' where
    "machine_run demo_platform 0x100200 0x10E000 demo_ticks (In_User demo_user k) = Some (In_Idle c' k')"
    "uc_esp c' = 0x100000 + of_nat (sectors_for (32 * sb_groups demo_sb)) * 8192 - 8" by auto
  with k show ?thesis by (auto simp: demo_mountable(1))
qed

end
