(* ===== verification/Terminal.thy ===== *)
theory Terminal
  imports System Bulk_Output
begin

text \<open>
  What the screen shows, whatever is printed: an abstract terminal with the screen and, of each of the
  two output streams, its place in the ring or that it is blocked. A buffer of any length and
  contents that is written to a stream, by the kernel's own messages one character at a time or by
  a system call as a whole, is one step of the terminal; so is everything an event of theory System
  prints.
\<close>

section \<open>The terminal\<close>

type_synonym terminal = "nat \<times> (shell_char list \<times> nat) \<times> con_mode \<times> con_mode"

text \<open>Where in a buffer slot 0 of the ring is filled, when it starts at slot \<open>h\<close>.\<close>

definition slot0_at :: "nat \<Rightarrow> nat" where
  "slot0_at h = (if h = 0 then 0 else 1024 - h)"

text \<open>At most 1024 bytes go into the ring. When a newline goes into slot 0, none of them are shown, nor
  is anything after them.\<close>

fun put_text :: "nat \<Rightarrow> u8 \<Rightarrow> char list \<Rightarrow> (shell_char list \<times> nat) \<times> con_mode \<Rightarrow> (shell_char list \<times> nat) \<times> con_mode" where
  "put_text W col cs (scr, Blocked) = (scr, Blocked)"
| "put_text W col cs (scr, Live h) =
     (let bs = take 1024 cs in
      if slot0_at h < length bs \<and> bs ! slot0_at h = LF then (scr, Blocked)
      else (fold (term_char W col) bs scr, Live ((h + length bs) mod 1024)))"

text \<open>A chunk is a stream with what is written to it: 1 in grey, 2 in red; nothing else is shown.\<close>

type_synonym chunk = "nat \<times> char list"

definition show_chunk :: "chunk \<Rightarrow> terminal \<Rightarrow> terminal" where
  "show_chunk = (\<lambda>(i, cs) (W, scr, out, err).
     if i = 1 then (let (scr, out) = put_text W 0x07 cs (scr, out) in (W, scr, out, err))
     else if i = 2 then (let (scr, err) = put_text W 0x04 cs (scr, err) in (W, scr, out, err))
     else (W, scr, out, err))"

text \<open>The kernel prints one character at a time.\<close>

definition say :: "char list \<Rightarrow> chunk list" where
  "say cs = map (\<lambda>c. (1, [c])) cs"

section \<open>Lemmas: streams of output\<close>

definition out_mode :: "stream \<Rightarrow> con_mode" where
  "out_mode s = (if st_count s = 0 then Live (nat (st_head s)) else Blocked)"

definition out_ok :: "stream \<Rightarrow> bool" where
  "out_ok s \<longleftrightarrow> stream_wedged s \<or> stream_ok s \<and> st_count s = 0 \<and> (st_head s = 0 \<or> st_data s ! 0 \<noteq> LF)"

lemma out_ok_stream: "out_ok s \<Longrightarrow> stream_ok s"
  by (auto simp: out_ok_def stream_wedged_def)

lemma slot0_reached: "h < 1024 \<Longrightarrow> i < 1024 \<Longrightarrow> (h + i) mod 1024 = 0 \<longleftrightarrow> i = slot0_at h"
  by (cases "h + i < 1024") (auto simp: slot0_at_def le_mod_geq)

text \<open>A buffer goes into an empty stream.\<close>

lemma write_out:
  fixes len :: int
  assumes "out_ok s" "st_count s = 0"
  defines "n \<equiv> nat (min len 1024)"
  shows "\<exists>t. stream_write s buf len = Inr (t, int n) \<and> stream_ok t \<and> st_count t = int n \<and> st_tail t = st_head s
    \<and> stream_contents t = map buf [0..<n]
    \<and> st_data t ! 0 = (if slot0_at (nat (st_head s)) < n then buf (slot0_at (nat (st_head s))) else st_data s ! 0)"
proof -
  let ?h = "nat (st_head s)"
  have s: "stream_ok s" using assms(1) by (rule out_ok_stream)
  have h: "0 \<le> st_head s" "st_head s < 1024" "st_tail s = st_head s"
    using stream_ok_head[OF s] s assms(2) by (simp_all add: stream_ok_def)
  obtain t where t: "stream_write s buf len = Inr (t, int n)" "stream_ok t" "st_count t = int n" "st_tail t = st_tail s"
    "stream_contents t = map buf [0..<n]"
    using stream_write_ok[OF s, of buf len] assms(2) stream_ok_def[of s] by (auto simp: n_def stream_contents_def)
  let ?I = "\<lambda>i t. stream_ok t \<and> st_count t = int i \<and> st_tail t = st_tail s
    \<and> st_data t ! 0 = (if slot0_at ?h < i then buf (slot0_at ?h) else st_data s ! 0)"
  have "\<exists>t. rfold (\<lambda>s w. stream_put s (buf w)) s [0..<n] = Inr t \<and> ?I n t"
  proof (rule rfold_nat_induct)
    show "?I 0 s" using s assms(2) by simp
  next
    fix i t assume i: "i < n" and t: "?I i t"
    have n: "n \<le> 1024" by (simp add: n_def)
    have hd: "nat (st_head t) = (?h + i) mod 1024"
      using t h by (simp add: stream_ok_def nat_mod_distrib nat_add_distrib)
    have "(?h + i) mod 1024 = 0 \<longleftrightarrow> i = slot0_at ?h"
      using i n h by (intro slot0_reached) simp_all
    moreover have "st_count t < 1024" using t i n by simp
    moreover have "length (st_data t) = 1024" using t by (simp add: stream_ok_def)
    ultimately show "\<exists>u. stream_put t (buf i) = Inr u \<and> ?I (Suc i) u"
      using stream_put_ok[of t "buf i"] t hd by (auto simp: nth_list_update)
  qed
  then obtain u where "rfold (\<lambda>s w. stream_put s (buf w)) s [0..<n] = Inr u" "?I n u" by blast
  moreover have "stream_write s buf len = rbind (rfold (\<lambda>s w. stream_put s (buf w)) s [0..<n]) (\<lambda>t. Inr (t, int n))"
    using assms(2) by (simp add: stream_write_def n_def Let_def min_def)
  ultimately show ?thesis using t h(3) by auto
qed

text \<open>A stream that needs no rendering.\<close>

lemma out_ok_drained:
  assumes "sh_ok sh" "idx < 3" "out_ok (sh_streams sh ! idx)"
  shows "drained idx sh = sh"
  using assms(3) drained_empty[OF assms(1,2)] wedged_limit[of "sh_streams sh ! idx"]
  by (auto simp: out_ok_def drained_def)

text \<open>What becomes of a buffer and of its stream.\<close>

lemma write_drained:
  fixes len :: int
  assumes s: "out_ok s" and w: "stream_write s buf len = Inr (t, n)" and sh: "sh_ok sh" "idx < 3" "sh_streams sh ! idx = t"
  shows "stream_ok t" "out_ok (sh_streams (drained idx sh) ! idx)"
    "(sh_screen (drained idx sh), out_mode (sh_streams (drained idx sh) ! idx))
      = put_text (unat (sh_width sh)) (sh_color sh) (map buf [0..<nat (min len 1024)]) (sh_screen sh, out_mode s)"
    "i \<noteq> idx \<Longrightarrow> sh_streams (drained idx sh) ! i = sh_streams sh ! i" "sh_width (drained idx sh) = sh_width sh"
    "sh_color (drained idx sh) = sh_color sh"
proof -
  have len: "idx < length (sh_streams sh)" using sh(1,2) by (simp add: sh_ok_iff)
  have all: "stream_ok t \<and> out_ok (sh_streams (drained idx sh) ! idx)
    \<and> (sh_screen (drained idx sh), out_mode (sh_streams (drained idx sh) ! idx))
      = put_text (unat (sh_width sh)) (sh_color sh) (map buf [0..<nat (min len 1024)]) (sh_screen sh, out_mode s)
    \<and> (\<forall>i. i \<noteq> idx \<longrightarrow> sh_streams (drained idx sh) ! i = sh_streams sh ! i) \<and> sh_width (drained idx sh) = sh_width sh
    \<and> sh_color (drained idx sh) = sh_color sh"
  proof (cases "st_count s = 0")
    case False
    then have "stream_wedged s" using s by (auto simp: out_ok_def)
    then have t: "stream_wedged t" using wedged_write[of s buf len] w by auto
    then have "out_ok t" "st_count t \<noteq> 0" by (auto simp: out_ok_def stream_wedged_def)
    with out_ok_drained[OF sh(1,2)] sh(3) False t show ?thesis by (simp add: out_mode_def stream_wedged_def)
  next
    case True
    define h where "h = nat (st_head s)"
    define cs where "cs = map buf [0..<nat (min len 1024)]"
    have t: "stream_ok t" "st_count t = int (length cs)" "st_tail t = st_head s" "stream_contents t = cs"
      "st_data t ! 0 = (if slot0_at h < length cs then cs ! slot0_at h else st_data s ! 0)"
      using write_out[OF s True, of buf len] w by (auto simp: cs_def h_def)
    have h: "0 \<le> st_head s" "st_head s < 1024" "int h = st_head s" "length cs \<le> 1024"
      using stream_ok_head[OF out_ok_stream[OF s]] by (simp_all add: h_def cs_def)
    have hd: "nat (st_head t) = (h + length cs) mod 1024"
      using t(1-3) h(1,2) by (simp add: stream_ok_def nat_mod_distrib nat_add_distrib h_def)
    have whole: "take 1024 cs = cs" using h(4) by simp
    show ?thesis
    proof (cases "slot0_at h < length cs \<and> cs ! slot0_at h = LF")
      case blocked: True
      then have "(nat (st_tail t) + slot0_at h) mod 1024 = 0"
        using slot0_reached[of h "slot0_at h"] h t(3) by (simp add: h_def)
      with blocked have "stream_wedged t"
        using t(1,2,5) unfolding stream_wedged_def by (intro conjI exI[of _ "slot0_at h"]) simp_all
      then have "out_ok t" by (simp add: out_ok_def)
      moreover from this out_ok_drained[OF sh(1,2)] sh(3) have "drained idx sh = sh" by simp
      moreover have "cs \<noteq> []" using blocked by auto
      ultimately show ?thesis using blocked t(1,2) sh(3) True whole unfolding cs_def[symmetric]
        by (simp add: out_mode_def h_def[symmetric])
    next
      case live: False
      show ?thesis
      proof (cases "cs = []")
        case empty: True
        have "t = s"
        proof -
          have "nat (min len 1024) = 0" using empty by (simp add: cs_def)
          then show ?thesis using w True by (simp add: stream_write_def Let_def min_def split: if_splits)
        qed
        with out_ok_drained[OF sh(1,2)] sh(3) s have "drained idx sh = sh" by simp
        then show ?thesis using empty t(1) sh(3) \<open>t = s\<close> s True h unfolding cs_def[symmetric]
          by (simp add: out_mode_def h_def[symmetric])
      next
        case False
        have ne: "st_data t ! 0 \<noteq> LF"
        proof (cases "slot0_at h < length cs")
          case True
          with live t(5) show ?thesis by simp
        next
          case far: False
          then have "h \<noteq> 0" using False by (cases "h = 0") (simp_all add: slot0_at_def)
          then have "st_data s ! 0 \<noteq> LF" using s True h_def by (auto simp: out_ok_def stream_wedged_def)
          with far t(5) show ?thesis by simp
        qed
        note d = drained_fits[OF sh(1,2,3) t(4) ne t(2)]
        have strs: "sh_streams (drained idx sh) ! idx = stream_pop t (length cs)" using d(2) len by simp
        have pop: "st_count (stream_pop t (length cs)) = 0" "st_head (stream_pop t (length cs)) = st_head t"
          "st_data (stream_pop t (length cs)) = st_data t" "stream_ok (stream_pop t (length cs))"
          using t(1,2) stream_pop_ok(1)[of t "length cs"] by (simp_all add: stream_pop_def)
        then have "out_ok (stream_pop t (length cs))" using ne by (simp add: out_ok_def)
        moreover have "out_mode (stream_pop t (length cs)) = Live ((h + length cs) mod 1024)"
          using pop(1,2) hd by (simp add: out_mode_def)
        moreover have "out_mode s = Live h" using True by (simp add: out_mode_def h_def)
        ultimately show ?thesis using d t(1) strs live whole unfolding cs_def[symmetric] by (auto simp: Let_def)
      qed
    qed
  qed
  show "stream_ok t" "out_ok (sh_streams (drained idx sh) ! idx)"
    "(sh_screen (drained idx sh), out_mode (sh_streams (drained idx sh) ! idx))
      = put_text (unat (sh_width sh)) (sh_color sh) (map buf [0..<nat (min len 1024)]) (sh_screen sh, out_mode s)"
    "i \<noteq> idx \<Longrightarrow> sh_streams (drained idx sh) ! i = sh_streams sh ! i" "sh_width (drained idx sh) = sh_width sh"
    "sh_color (drained idx sh) = sh_color sh"
    using all by simp_all
qed

section \<open>Lemmas: the shell as a terminal\<close>

definition term_of :: "shell \<Rightarrow> terminal" where
  "term_of sh = (unat (sh_width sh), sh_screen sh, out_mode (sh_streams sh ! STREAM_STDOUT), out_mode (sh_streams sh ! STREAM_STDERR))"

definition term_ok :: "shell \<Rightarrow> bool" where
  "term_ok sh \<longleftrightarrow> sh_ok sh \<and> out_ok (sh_streams sh ! STREAM_STDOUT) \<and> out_ok (sh_streams sh ! STREAM_STDERR)"

lemma put_text_cong: "take 1024 cs = take 1024 ds \<Longrightarrow> put_text W col cs p = put_text W col ds p"
  by (cases "(W, col, cs, p)" rule: put_text.cases) (simp_all add: Let_def)

lemma put_text_upto:
  "put_text W col (map buf [0..<nat (min len 1024)]) = put_text W col (map buf [0..<nat len])"
proof -
  have "take 1024 (map buf [0..<nat (min len 1024)]) = take 1024 (map buf [0..<nat len])"
    by (cases "len \<le> 1024") (simp_all add: take_map min_def)
  then show ?thesis by (intro ext put_text_cong)
qed

lemma sh_write_stream_shows:
  assumes "term_ok sh"
  shows "\<exists>t n. sh_write_stream sh idx buf len = Inr (t, n) \<and> term_ok t
    \<and> term_of t = show_chunk (nat idx, map buf [0..<nat len]) (term_of sh)"
proof (cases "idx < 0 \<or> 3 \<le> idx")
  case True
  with sh_write_stream_invalid[OF True, of sh buf len] assms show ?thesis
    by (auto simp: show_chunk_def term_of_def)
next
  case False
  define i where "i = nat idx"
  have i: "i < 3" "i = 0 \<or> i = 1 \<or> i = 2" using False by (auto simp: i_def)
  have ok: "sh_ok sh" "out_ok (sh_streams sh ! 1)" "out_ok (sh_streams sh ! 2)" "length (sh_streams sh) = 3"
    using assms by (simp_all add: term_ok_def sh_ok_iff)
  let ?s = "sh_streams sh ! i"
  obtain s n where s: "stream_write ?s buf len = Inr (s, n)" "stream_ok s"
    using stream_write_ok[OF sh_ok_stream[OF ok(1) i(1)], of buf len] by blast
  let ?t = "sh\<lparr>sh_color := 0x07, sh_streams := (sh_streams sh)[i := s]\<rparr>"
  have t: "sh_ok ?t" using sh_ok_set_stream[of "sh\<lparr>sh_color := 0x07\<rparr>" s i] ok(1) s(2) by simp
  let ?d = "drained 1 ?t"
  let ?u = "?d\<lparr>sh_color := 0x04\<rparr>"
  let ?r = "(drained 2 ?u)\<lparr>sh_color := sh_color ?d\<rparr>"
  have u: "sh_ok ?u" using drained_ok[OF t, of 1] by simp
  have w: "sh_write_stream sh idx buf len = Inr (?r, n)"
    using s(1) sh_render_ok(1)[OF t] False ok(4) i(1) by (simp add: sh_write_stream_def Let_def i_def[symmetric])
  have "term_ok ?r \<and> term_of ?r = show_chunk (i, map buf [0..<nat len]) (term_of sh)"
  proof -
    consider "i = 0" | "i = 1" | "i = 2" using i(2) by blast
    then show ?thesis
    proof cases
      case 1
      then have "?d = ?t" using out_ok_drained[OF t, of 1] ok by simp
      moreover from this 1 have "drained 2 ?u = ?u" using out_ok_drained[OF u, of 2] ok by simp
      ultimately show ?thesis using 1 ok sh_ok_set_stream[OF ok(1) s(2), of 0] by (simp add: term_ok_def term_of_def show_chunk_def sh_screen_def)
    next
      case 2
      have o: "out_ok ?s" "sh_streams ?t ! 1 = s" using 2 ok by simp_all
      note d = write_drained[OF o(1) s(1) t _ o(2)]
      have "sh_streams ?d ! 2 = sh_streams sh ! 2" using d(4)[of 2] 2 by simp
      then have "drained 2 ?u = ?u" using out_ok_drained[OF u, of 2] ok by simp
      with d(2,3,5,6) 2 ok u \<open>sh_streams ?d ! 2 = sh_streams sh ! 2\<close> show ?thesis
        by (auto simp: term_ok_def term_of_def show_chunk_def sh_screen_def put_text_upto split: prod.splits)
    next
      case 3
      then have q: "?d = ?t" using out_ok_drained[OF t, of 1] ok by simp
      have o: "out_ok ?s" "sh_streams ?u ! 2 = s" using 3 ok q by simp_all
      note d = write_drained[OF o(1) s(1) u _ o(2)]
      have "sh_streams (drained 2 ?u) ! 1 = sh_streams sh ! 1" using d(4)[of 1] 3 q by simp
      moreover have "sh_ok (drained 2 ?u)" using drained_ok[OF u, of 2] by simp
      ultimately show ?thesis using d(2,3,5,6) 3 ok q
        by (auto simp: term_ok_def term_of_def show_chunk_def sh_screen_def put_text_upto split: prod.splits)
    qed
  qed
  with w show ?thesis by (auto simp: i_def)
qed


section \<open>What an event prints\<close>

text \<open>A system call from user mode, by its registers and the memory it finds.\<close>

definition call_prints :: "memory \<Rightarrow> u32 \<Rightarrow> u32 \<Rightarrow> u32 \<Rightarrow> u32 \<Rightarrow> chunk list" where
  "call_prints m eax ebx ecx edx =
     (if eax = SYS_WRITE then
        if user_range ecx then [(nat (to_int ebx), map (user_text m ecx) [0..<nat (to_int edx)])]
        else if ecx = 0 then [] else say (line (''Invalid string pointer: 0x'' @ int_text ecx 16))
      else if eax = SYS_EXIT then say (line (''Exited with code '' @ int_text ebx 10) @ line ''Idling...'')
      else if eax = SYS_GETPID then []
      else if eax = SYS_READ then
        if user_range ecx \<or> ecx = 0 then [] else say (line (''Invalid buffer pointer: 0x'' @ int_text ecx 16))
      else say (line (''Unknown system call: '' @ int_text eax 10)))"

text \<open>An exception, by its vector, error code, instruction pointer and code segment.\<close>

definition fault_prints :: "u32 \<Rightarrow> u32 \<Rightarrow> u32 \<Rightarrow> u32 \<Rightarrow> chunk list" where
  "fault_prints v e eip cs =
     say (line (''EXCEPTION: '' @ exception_messages ! unat v @ '' (0x'' @ int_text v 16 @ '')'')
       @ line (''Error Code: 0x'' @ int_text e 16)
       @ line (''EIP: 0x'' @ int_text eip 16 @ '', CS: 0x'' @ int_text cs 16)
       @ (if cs AND 3 = 3 then line ''Exception occurred in user mode!'' else []))"

fun event_prints :: "kernel \<Rightarrow> event \<Rightarrow> chunk list" where
  "event_prints k (Trap fr fr') =
     (if fr_int_no fr = 0x80 then call_prints (k_memory k) (fr_eax fr) (fr_ebx fr) (fr_ecx fr) (fr_edx fr)
      else fault_prints (fr_int_no fr) (fr_err_code fr) (fr_eip fr) (fr_cs fr))"
| "event_prints k (Irq dev fr) = []"
| "event_prints k Store = []"

section \<open>Lemmas: printing\<close>

definition term_live :: "kernel \<Rightarrow> bool" where
  "term_live k \<longleftrightarrow> (\<exists>sh. k_shell k = Some sh \<and> term_ok sh)"

definition shown :: "kernel \<Rightarrow> terminal" where
  "shown k = term_of (the (k_shell k))"

definition shows_on :: "kernel \<Rightarrow> chunk list \<Rightarrow> kernel \<Rightarrow> bool" where
  "shows_on k ps k' \<longleftrightarrow> term_live k' \<and> shown k' = fold show_chunk ps (shown k)"

lemma shows_on_nil: "term_live k \<Longrightarrow> k_shell k' = k_shell k \<Longrightarrow> shows_on k [] k'"
  by (simp add: shows_on_def term_live_def shown_def)

lemma shows_on_trans: "shows_on k ps k1 \<Longrightarrow> shows_on k1 qs k2 \<Longrightarrow> shows_on k (ps @ qs) k2"
  by (simp add: shows_on_def)

lemma shows_on_live: "shows_on k ps k' \<Longrightarrow> term_live k'"
  by (simp add: shows_on_def)

lemma say_append: "say (cs @ ds) = say cs @ say ds"
  by (simp add: say_def)

lemma fold_say: "fold (\<lambda>c. show_chunk (1, [c])) cs = fold show_chunk (say cs)"
  by (simp add: say_def fold_map comp_def)

interpretation terminal: viewed_sink term_ok sh_putc term_of "\<lambda>c. show_chunk (1, [c])"
proof unfold_locales
  have *: "\<exists>t. sh_putc s c = Inr t \<and> term_ok t \<and> term_of t = show_chunk (1, [c]) (term_of s)" if "term_ok s" for s c
    using sh_write_stream_shows[OF that, of 1 "nth [c]" 1]
    by (auto simp: sh_putc_def sh_write_stdout_def rbind_def)
  show "\<exists>t. sh_putc s c = Inr t \<and> term_ok t" if "term_ok s" for s c using *[OF that] by blast
  show "term_of t = show_chunk (1, [c]) (term_of s)" if "term_ok s" "sh_putc s c = Inr t" for s c t
    using *[OF that(1), of c] that(2) by simp
qed

lemma puts_list_shows:
  assumes "term_live k" "with_shell (\<lambda>sh. rfold sh_putc sh cs) k = Inr k'"
  shows "shows_on k (say cs) k'"
proof -
  obtain sh where sh: "k_shell k = Some sh" "term_ok sh" using assms(1) by (auto simp: term_live_def)
  obtain t where "rfold sh_putc sh cs = Inr t" "term_ok t" "term_of t = fold show_chunk (say cs) (term_of sh)"
    using terminal.puts_view[OF sh(2), of cs] unfolding fold_say by blast
  with assms(2) sh(1) show ?thesis by (auto simp: with_shell_def shows_on_def term_live_def shown_def)
qed

lemma k_puts_shows: "term_live k \<Longrightarrow> k_puts str k = Inr k' \<Longrightarrow> shows_on k (say (cstr str)) k'"
  using puts_list_shows[of k "cstr str" k'] by (simp add: k_puts_def sh_puts_def)

lemma k_printf_shows:
  assumes "term_live k" "fmt_text fmt args = Inr cs" "k_printf fmt args k = Inr k'"
  shows "shows_on k (say cs) k'"
  using puts_list_shows[OF assms(1)] assms(3) by (simp add: k_printf_def sh_printf_text[OF assms(2)])

text \<open>The system calls.\<close>

lemma call_shows:
  assumes live: "term_live k" and user: "from_user fr" and r: "handle_syscall ex st fr k = Inr (fr', k')"
    and idle: "if fr_eax fr = 1 then exit_to_kernel_prints k' = Inr k'' else k'' = k'"
  shows "shows_on k (call_prints (k_memory k) (fr_eax fr) (fr_ebx fr) (fr_ecx fr) (fr_edx fr)) k''"
proof -
  obtain sh where sh: "k_shell k = Some sh" "term_ok sh" using live by (auto simp: term_live_def)
  consider "fr_eax fr = 4" "user_range (fr_ecx fr)" | "fr_eax fr = 3" "user_range (fr_ecx fr)"
    | "fr_eax fr = 1" | "\<not> (fr_eax fr \<in> {3, 4} \<and> user_range (fr_ecx fr))" "fr_eax fr \<noteq> 1" by blast
  then show ?thesis
  proof cases
    case 1
    let ?buf = "user_text (k_memory k) (fr_ecx fr)"
    obtain t n where t: "sh_write_stream sh (to_int (fr_ebx fr)) ?buf (to_int (fr_edx fr)) = Inr (t, n)" "term_ok t"
      "term_of t = show_chunk (nat (to_int (fr_ebx fr)), map ?buf [0..<nat (to_int (fr_edx fr))]) (term_of sh)"
      using sh_write_stream_shows[OF sh(2)] by blast
    then have "k'' = k\<lparr>k_shell := Some t\<rparr>"
      using r 1 user idle sh(1) user_range_nonzero[OF 1(2)]
      by (auto simp: handle_syscall_def sys_write_def with_shell_def Let_def)
    with t(2,3) 1 sh(1) show ?thesis by (simp add: shows_on_def term_live_def shown_def call_prints_def)
  next
    case 2
    then obtain s bytes where "k'' = k\<lparr>k_shell := Some (sh\<lparr>sh_streams := (sh_streams sh)[0 := s]\<rparr>),
        k_memory := write_bytes (k_memory k) (fr_ecx fr) (map to_byte bytes)\<rparr>" "stream_ok s"
      using r user idle sh user_range_nonzero[OF 2(2)] sh_ok_stream[of sh 0]
        stream_read_ok[of "sh_streams sh ! 0" "to_int (fr_edx fr)"]
      by (auto simp: handle_syscall_def sys_read_def Let_def term_ok_def sh_ok_iff split: if_splits)
    moreover have "term_ok (sh\<lparr>sh_streams := (sh_streams sh)[0 := s]\<rparr>)" if "stream_ok s" for s
      using sh(2) sh_ok_set_stream[OF _ that, of sh 0] by (simp add: term_ok_def)
    ultimately show ?thesis using 2 sh(1)
      by (simp add: shows_on_def term_live_def shown_def call_prints_def term_of_def sh_screen_def)
  next
    case 3
    then have p: "k_printf (line ''Exited with code %d'') [VInt (fr_ebx fr)] k = Inr k'"
      using r user sh(1) by (auto simp: handle_syscall_def sys_exit_def rbind_eq_Inr)
    have "fmt_text (line ''Exited with code %d'') [VInt (fr_ebx fr)] = Inr (line (''Exited with code '' @ int_text (fr_ebx fr) 10))"
      using fmt_texts(3) by (simp add: line_def)
    note s = k_printf_shows[OF live this p]
    have "NUL \<notin> set ''Idling...''" by simp
    note idling = cstr_line[OF this]
    have "k_puts (line ''Idling...'') k' = Inr k''"
      using idle 3 shows_on_live[OF s] by (simp add: exit_to_kernel_prints_def term_live_def split: if_splits)
    from shows_on_trans[OF s k_puts_shows[OF shows_on_live[OF s] this]] 3 show ?thesis
      unfolding idling by (simp add: call_prints_def say_append)
  next
    case 4
    then have k'': "k'' = k'" using idle by simp
    consider "fr_eax fr = 4" "fr_ecx fr \<noteq> 0" | "fr_eax fr = 3" "fr_ecx fr \<noteq> 0"
      | "fr_eax fr \<in> {3, 4}" "fr_ecx fr = 0" | "fr_eax fr = 0x14" | "fr_eax fr \<notin> {1, 3, 4, 0x14}" using 4(2) by blast
    then show ?thesis
    proof cases
      case 1
      with 4 r user sh(1) have "k_printf (line ''Invalid string pointer: 0x%x'') [VInt (fr_ecx fr)] k = Inr k'"
        by (auto simp: handle_syscall_def sys_write_def rbind_eq_Inr Let_def)
      from k_printf_shows[OF live fmt_texts(1) this] 1 4 show ?thesis by (simp add: k'' call_prints_def line_def)
    next
      case 2
      with 4 r user sh(1) have "k_printf (line ''Invalid buffer pointer: 0x%x'') [VInt (fr_ecx fr)] k = Inr k'"
        by (auto simp: handle_syscall_def sys_read_def rbind_eq_Inr Let_def)
      from k_printf_shows[OF live fmt_texts(2) this] 2 4 show ?thesis by (simp add: k'' call_prints_def line_def)
    next
      case 3
      with r user sh(1) have "k' = k" by (auto simp: handle_syscall_def sys_write_def sys_read_def Let_def)
      moreover have "\<not> user_range 0" by (simp add: user_range_def)
      ultimately show ?thesis using 3 shows_on_nil[OF live] by (auto simp: k'' call_prints_def)
    next
      case 4
      with r user have "k' = k" by (simp add: handle_syscall_def)
      with 4 show ?thesis using shows_on_nil[OF live] by (simp add: k'' call_prints_def)
    next
      case 5
      with r user sh(1) have "k_printf (line ''Unknown system call: %d'') [VInt (fr_eax fr)] k = Inr k'"
        by (auto simp: handle_syscall_def rbind_eq_Inr)
      from k_printf_shows[OF live fmt_texts(4) this] 5 show ?thesis by (simp add: k'' call_prints_def line_def)
    qed
  qed
qed

text \<open>Exceptions and requests.\<close>

lemma fault_shows:
  assumes live: "term_live k" and v: "fr_int_no fr < 17" and r: "exception_report fr k = Inr k'"
  shows "shows_on k (fault_prints (fr_int_no fr) (fr_err_code fr) (fr_eip fr) (fr_cs fr)) k'"
proof -
  let ?msg = "exception_messages ! unat (fr_int_no fr)"
  have n: "unat (fr_int_no fr) < length exception_messages"
    using v by (simp add: word_less_nat_alt exception_messages_def)
  have "\<forall>msg \<in> set exception_messages. NUL \<notin> set msg" by (simp add: exception_messages_def)
  then have "NUL \<notin> set ?msg" using nth_mem[OF n] by blast
  then have msg: "cstr ?msg = ?msg" unfolding cstr_def takeWhile_eq_all_conv by blast
  have "arr_get exception_messages (unat (fr_int_no fr)) = Inr ?msg" using n by simp
  then obtain k1 k2 k3 where k: "k_printf (line ''EXCEPTION: %s (0x%x)'') [VStr (Some ?msg), VInt (fr_int_no fr)] k = Inr k1"
    "k_printf (line ''Error Code: 0x%x'') [VInt (fr_err_code fr)] k1 = Inr k2"
    "k_printf (line ''EIP: 0x%x, CS: 0x%x'') [VInt (fr_eip fr), VInt (fr_cs fr)] k2 = Inr k3"
    "(if from_user fr then k_puts (line ''Exception occurred in user mode!'') k3 else Inr k3) = Inr k'"
    using r unfolding exception_report_def by (auto simp: rbind_eq_Inr)
  have texts: "fmt_text (line ''EXCEPTION: %s (0x%x)'') [VStr (Some ?msg), VInt (fr_int_no fr)]
      = Inr (line (''EXCEPTION: '' @ ?msg @ '' (0x'' @ int_text (fr_int_no fr) 16 @ '')''))"
    "fmt_text (line ''Error Code: 0x%x'') [VInt (fr_err_code fr)] = Inr (line (''Error Code: 0x'' @ int_text (fr_err_code fr) 16))"
    "fmt_text (line ''EIP: 0x%x, CS: 0x%x'') [VInt (fr_eip fr), VInt (fr_cs fr)]
      = Inr (line (''EIP: 0x'' @ int_text (fr_eip fr) 16 @ '', CS: 0x'' @ int_text (fr_cs fr) 16))"
    using msg by (simp_all add: line_def)
  note s1 = k_printf_shows[OF live texts(1) k(1)]
  note s2 = k_printf_shows[OF shows_on_live[OF s1] texts(2) k(2)]
  note s3 = k_printf_shows[OF shows_on_live[OF s2] texts(3) k(3)]
  have s4: "shows_on k3 (say (if fr_cs fr AND 3 = 3 then line ''Exception occurred in user mode!'' else [])) k'"
  proof (cases "from_user fr")
    case True
    then show ?thesis using k_puts_shows[OF shows_on_live[OF s3], of "line ''Exception occurred in user mode!''" k'] k(4)
      by (simp add: from_user_def cstr_line)
  next
    case False
    then show ?thesis using shows_on_nil[OF shows_on_live[OF s3]] k(4) by (simp add: from_user_def say_def)
  qed
  from shows_on_trans[OF s1 shows_on_trans[OF s2 shows_on_trans[OF s3 s4]]] show ?thesis
    by (simp add: fault_prints_def say_append)
qed

lemma irq_shows:
  assumes live: "term_live k" and v: "fr_int_no fr = 32 \<or> fr_int_no fr = 33" and r: "irq_handler dev fr k = Inr k'"
  shows "shows_on k [] k'"
proof -
  obtain sh where sh: "k_shell k = Some sh" "term_ok sh" using live by (auto simp: term_live_def)
  obtain c where c: "scancode_to_ascii (dev 0x60) = Inr c" using scancode_total by blast
  obtain t n where t: "sh_write_stream sh 0 (nth [c]) 1 = Inr (t, n)" "term_ok t" "term_of t = term_of sh"
    using sh_write_stream_shows[OF sh(2), of 0 "nth [c]" 1] by (auto simp: show_chunk_def split: prod.splits)
  have "k_shell k' = Some sh \<or> k_shell k' = Some t"
    using r v sh(1) c t(1)
    by (auto simp: irq_handler_def keyboard_irq_def inb_eq outb_def with_shell_def Let_def rbind_eq_Inr split: if_splits)
  with sh t(2,3) show ?thesis by (auto simp: shows_on_def term_live_def shown_def)
qed

lemma step_shows:
  assumes step: "sys_step ex st ev md k md' k'" and ok: "sys_ok k" and live: "term_live k"
  shows "shows_on k (event_prints k ev) k'"
  using step
proof cases
  case (Call fr fr')
  have "k_shell k \<noteq> None" using live by (auto simp: term_live_def)
  then have h: "handle_syscall ex st fr k = Inr (fr', k')" using Call(4,7) by (auto simp: interrupt_handler_def rbind_eq_Inr)
  have "fr_eax fr \<noteq> 1" using call_step[OF ok Call(5,4), of ex st] Call(7,8) by auto
  then show ?thesis using call_shows[OF live Call(5) h, of k'] Call(1,4) by simp
next
  case (Exit fr fr' k1)
  have "k_shell k \<noteq> None" using live by (auto simp: term_live_def)
  then have h: "handle_syscall ex st fr k = Inr (fr', k1)" using Exit(4,7) by (auto simp: interrupt_handler_def rbind_eq_Inr)
  have "fr_eax fr = 1" using call_step[OF ok Exit(5,4), of ex st] Exit(7,8) by auto
  then show ?thesis using call_shows[OF live Exit(5) h, of k'] Exit(1,4,9) by simp
next
  case (Exception fr halts fr')
  have "unat (fr_int_no fr) < 17" using Exception(4) by (auto simp: exception_vectors_def)
  then have lt: "fr_int_no fr < 17" "fr_int_no fr \<noteq> 0x80" by (auto simp: word_less_nat_alt)
  have "k_shell k \<noteq> None" using live by (auto simp: term_live_def)
  then have "exception_report fr k = Inr k'" using Exception(5) lt by (auto simp: interrupt_handler_def rbind_eq_Inr)
  from fault_shows[OF live lt(1) this] lt(2) Exception(1) show ?thesis by simp
next
  case (Request fr dev)
  with irq_shows[OF live Request(4,5)] show ?thesis by simp
next
  case (Program m)
  then show ?thesis using shows_on_nil[OF live] by simp
qed

section \<open>Properties\<close>

text \<open>The calls that print: the functions of shell.c for a character, a string and a format, and a buffer for one
  of the streams, as system calls and the keyboard write it.\<close>

datatype output_call =
    Putc char
  | Puts "char list"
  | Printf "char list" "va_arg list"
  | Write_Stream int "char list"

fun call_output :: "shell \<Rightarrow> output_call \<Rightarrow> shell res" where
  "call_output sh (Putc c) = sh_putc sh c"
| "call_output sh (Puts str) = sh_puts sh str"
| "call_output sh (Printf fmt args) = sh_printf sh fmt args"
| "call_output sh (Write_Stream idx cs) = rbind (sh_write_stream sh idx (nth cs) (int (length cs))) (\<lambda>(t, _). Inr t)"

text \<open>A format whose arguments fit it.\<close>

fun printable :: "output_call \<Rightarrow> bool" where
  "printable (Printf fmt args) \<longleftrightarrow> (case fmt_text fmt args of Inr cs \<Rightarrow> True | Inl e \<Rightarrow> False)"
| "printable p \<longleftrightarrow> True"

text \<open>What a call writes to the error stream.\<close>

fun error_chunks :: "output_call \<Rightarrow> chunk list" where
  "error_chunks (Write_Stream idx cs) = (if idx = 2 then [(2, cs)] else [])"
| "error_chunks p = []"

lemma show_blocked:
  "fst (snd (snd T)) = Blocked \<Longrightarrow> show_chunk (1, cs) T = T"
  "fst (snd (snd T)) = Blocked \<Longrightarrow> fst (snd (snd (show_chunk p T))) = Blocked"
  by (cases T; auto simp: show_chunk_def split: prod.splits)+

lemma say_blocked: "fst (snd (snd T)) = Blocked \<Longrightarrow> fold (\<lambda>c. show_chunk (1, [c])) cs T = T"
  by (induction cs) (simp_all add: show_blocked(1)[where T = T, unfolded One_nat_def])

lemma call_output_blocked:
  assumes "term_ok sh" "fst (snd (snd (term_of sh))) = Blocked" "printable p"
  shows "\<exists>t. call_output sh p = Inr t \<and> term_ok t \<and> term_of t = fold show_chunk (error_chunks p) (term_of sh)"
proof -
  have say: "\<exists>t. rfold sh_putc sh cs = Inr t \<and> term_ok t \<and> term_of t = term_of sh" for cs
    using terminal.puts_view[OF assms(1), of cs] say_blocked[OF assms(2)] by simp
  show ?thesis
  proof (cases p)
    case (Putc c)
    then show ?thesis using say[of "[c]"] by (auto simp: rbind_eq_Inr)
  next
    case (Puts str)
    then show ?thesis using say[of "cstr str"] by (simp add: sh_puts_def)
  next
    case (Printf fmt args)
    then obtain cs where "fmt_text fmt args = Inr cs" using assms(3) by (auto split: sum.splits)
    with Printf show ?thesis using say[of cs] by (simp add: sh_printf_text)
  next
    case (Write_Stream idx cs)
    have "map (nth cs) [0..<nat (int (length cs))] = cs" by (simp add: map_nth)
    moreover have "show_chunk (nat idx, cs) (term_of sh) = fold show_chunk (error_chunks p) (term_of sh)"
      using Write_Stream show_blocked(1)[OF assms(2)]
      by (cases "nat idx = 1") (auto simp: show_chunk_def nat_eq_iff2 split: prod.splits)
    ultimately show ?thesis
      using sh_write_stream_shows[OF assms(1), of idx "nth cs" "int (length cs)"] Write_Stream by auto
  qed
qed

lemma calls_output_blocked:
  "term_ok sh \<Longrightarrow> fst (snd (snd (term_of sh))) = Blocked \<Longrightarrow> list_all printable ps \<Longrightarrow>
    \<exists>t. rfold call_output sh ps = Inr t \<and> term_ok t \<and> fst (snd (snd (term_of t))) = Blocked
      \<and> term_of t = fold show_chunk (concat (map error_chunks ps)) (term_of sh)"
proof (induction ps arbitrary: sh)
  case (Cons p ps)
  from call_output_blocked[OF Cons.prems(1,2), of p] Cons.prems(3) obtain t where
    t: "call_output sh p = Inr t" "term_ok t" "term_of t = fold show_chunk (error_chunks p) (term_of sh)" by auto
  have "fst (snd (snd (fold show_chunk qs T))) = Blocked" if "fst (snd (snd T)) = Blocked" for qs T
    using that by (induction qs arbitrary: T) (simp_all add: show_blocked(2))
  then have "fst (snd (snd (term_of t))) = Blocked" using t(3) Cons.prems(2) by simp
  with Cons.IH[OF t(2)] Cons.prems(3) t(1,3) show ?case by simp
qed simp

text \<open>A console without pending output.\<close>

lemma con_term_ok:
  assumes "con_ok sh" "st_head (sh_streams sh ! STREAM_STDERR) = 0" "con_of sh = (W, scr, m)"
  shows "term_ok sh" "term_of sh = (W, scr, m, Live 0)"
proof -
  have ok: "sh_ok sh" "stream_ok (sh_streams sh ! 2)" using assms(1) sh_ok_stream[of sh 2] by (simp_all add: con_ok_def)
  with assms(1,2) have "term_ok sh \<and> out_mode (sh_streams sh ! 2) = Live 0"
    using sh_ok_stream[of sh 1] by (auto simp: con_ok_def term_ok_def out_ok_def out_mode_def Let_def)
  with assms(3) show "term_ok sh" "term_of sh = (W, scr, m, Live 0)"
    by (auto simp: term_of_def con_of_def out_mode_def Let_def)
qed

text \<open>C20: a newline in slot 0 of the output stream blocks the standard output for good. When a newline is
  the first character of a write to stream 1 after boot, or any character that goes into slot 0 of the ring later, after each 1024
  characters, then nothing of that write is shown, and nothing that is written to stream 1 is shown ever again: after any
  further characters, strings and formats that the kernel prints and any buffers written to any stream, all of which return,
  stream 1 is still blocked and screen and cursor are where the writes to the error stream alone take them. The error stream
  goes on working, until a newline blocks it in the same way.\<close>

theorem newline_blocks_output:
  assumes "term_ok sh" "term_of sh = (W, scr, Live h, err)"
    "slot0_at h < min (length cs) 1024" "cs ! slot0_at h = LF" "list_all printable ps"
  shows "\<exists>t u. call_output sh (Write_Stream 1 cs) = Inr t \<and> term_of t = (W, scr, Blocked, err)
    \<and> rfold call_output t ps = Inr u \<and> fst (snd (snd (term_of u))) = Blocked
    \<and> term_of u = fold show_chunk (concat (map error_chunks ps)) (W, scr, Blocked, err)"
proof -
  have "map (nth cs) [0..<nat (int (length cs))] = cs" by (simp add: map_nth)
  then obtain t n where t: "sh_write_stream sh 1 (nth cs) (int (length cs)) = Inr (t, n)" "term_ok t"
    "term_of t = show_chunk (1, cs) (term_of sh)"
    using sh_write_stream_shows[OF assms(1), of 1 "nth cs" "int (length cs)"] by auto
  have "term_of t = (W, scr, Blocked, err)" using t(3) assms(2-4) by (simp add: show_chunk_def)
  with calls_output_blocked[OF t(2) _ assms(5)] t(1) show ?thesis by auto
qed

text \<open>On a console of 2 lines of 4 columns: after the newline a string and a number are lost, and an error message is
  shown in red.\<close>

theorem newline_blocks_output_witness:
  "\<exists>sh t u. sh_init sh_raw (blank_cells 8) 4 8 = Inr sh \<and> call_output sh (Write_Stream 1 [LF]) = Inr t
    \<and> rfold call_output t [Puts ''lost'', Printf ''%d'' [VInt 7], Write_Stream 2 ''e''] = Inr u
    \<and> sh_screen u = ((blank_cells 8)[0 := mk_char CHR ''e'' 0x04], 1)"
proof -
  have raw: "length (sh_streams sh_raw) = 3" "\<forall>s \<in> set (sh_streams sh_raw). length (st_data s) = 1024"
    by (simp_all add: sh_raw_def)
  obtain sh where sh: "sh_init sh_raw (blank_cells 8) 4 8 = Inr sh" "con_ok sh"
    "con_of sh = (4, (blank_cells 8, 0), Live 0)" "st_head (sh_streams sh ! 2) = 0"
    using sh_init_ok[of 4 8 "blank_cells 8" sh_raw] raw by (auto simp: blank_cells_def)
  note ok = con_term_ok[OF sh(2,4,3)]
  let ?ps = "[Puts ''lost'', Printf ''%d'' [VInt 7], Write_Stream 2 ''e'']"
  have "list_all printable ?ps" by simp
  from newline_blocks_output[OF ok, of "[LF]" ?ps] this obtain t u where
    t: "call_output sh (Write_Stream 1 [LF]) = Inr t" "rfold call_output t ?ps = Inr u"
      "term_of u = fold show_chunk [(2, ''e'')] (4, (blank_cells 8, 0), Blocked, Live 0)"
    by (auto simp: slot0_at_def)
  have "fold show_chunk [(2, ''e'')] (4, (blank_cells 8, 0), Blocked, Live 0)
      = (4, ((blank_cells 8)[0 := mk_char CHR ''e'' 0x04], 1), Blocked, Live 1)" by code_simp
  with t(3) have "sh_screen u = ((blank_cells 8)[0 := mk_char CHR ''e'' 0x04], 1)" by (simp add: term_of_def)
  with sh(1) t(1,2) show ?thesis by blast
qed

end
