(* ===== verification/Machine.thy ===== *)
theory Machine
  imports Program Terminal
begin

text \<open>
  The whole machine: the CPU in user mode with any program at all, in the kernel's idle loop, or halted by an
  exception. Between two entries into the kernel the program may set its registers and write
  its memory as it likes; every entry goes through a gate of the installed table, the assembly stub on the
  ring 0 stack and the C handler, as in theory Traps. The machine implements the step relation of theory
  System, which knows neither registers nor stack, with the same input taken, the same input
  delivered, and the screen of theory Terminal; a locale has the argument from one step to runs. Theory
  Power_On starts the machine.
\<close>

section \<open>The machine\<close>

datatype cpu = Running machine | Halted kernel

text \<open>What happens next. The program computes: the registers and the bytes it leaves. It executes
  \<open>int 0x80\<close>. A request line is raised, with what its device answers. The CPU raises an exception,
  with its error code. The rest is what the compiled handler leaves open, as in theory Program.\<close>

datatype action =
    Compute regs "(u32 \<times> u8) list"
  | Syscall u32 clobbered
  | Interrupt nat "u16 \<Rightarrow> u8" u32 clobbered
  | Fault nat "u32 option" u32 clobbered

text \<open>What the hardware can do in a state. The program stays in ring 3 and in the user area; it cannot
  change the interrupt flag (bit 9), since the start code has set the I/O privilege level to 0. Only
  the lines of the timer and the keyboard are unmasked. An exception has an error code where the processor
  manual says so. This is more than the CPU does in one case: a breakpoint instruction of the program is
  refused by its gate and becomes a general protection fault, and here it may also be taken.\<close>

fun possible :: "action \<Rightarrow> cpu \<Rightarrow> bool" where
  "possible (Compute d ws) (Running (In_User c k)) \<longleftrightarrow>
     uc_cs d AND 3 = 3 \<and> (bit (uc_eflags d) 9 \<longleftrightarrow> bit (uc_eflags c) 9) \<and> list_all (\<lambda>(a, b). user_range a) ws"
| "possible (Syscall ret cl) (Running (In_User c k)) \<longleftrightarrow> True"
| "possible (Interrupt n dev ret cl) (Running s) \<longleftrightarrow> n < 2"
| "possible (Fault v err ret cl) (Running s) \<longleftrightarrow> v \<in> set exception_vectors \<and> (err = None \<longleftrightarrow> v \<notin> set cpu_error_codes)"
| "possible a s \<longleftrightarrow> False"

text \<open>An exception through gate, stub and handler; \<open>None\<close> in the result when the handler halts.\<close>

definition take_fault ::
    "platform \<Rightarrow> u32 \<Rightarrow> u32 \<Rightarrow> nat \<Rightarrow> u32 option \<Rightarrow> u32 \<Rightarrow> clobbered \<Rightarrow> regs \<Rightarrow> kernel \<Rightarrow> (regs option \<times> kernel) option"
where
  "take_fault pf exit_to_kernel kernel_stack_top v err ret cl c k =
     (case deliver (k_idt k) v err (c, k_memory k) of
        None \<Rightarrow> None
      | Some (c1, m1) \<Rightarrow>
          if uc_eip c1 \<noteq> pf_isr pf v then None
          else case run_stub (interrupt_handler exit_to_kernel kernel_stack_top) (isr_stub v) ret cl
              (c1, k\<lparr>k_memory := m1\<rparr>) of
            Inr r \<Rightarrow> Some r
          | Inl _ \<Rightarrow> None)"

text \<open>Back to where an interrupt came from.\<close>

fun machine_kernel :: "machine \<Rightarrow> kernel" where
  "machine_kernel (In_User c k) = k"
| "machine_kernel (In_Idle c k) = k"

fun machine_regs :: "machine \<Rightarrow> regs" where
  "machine_regs (In_User c k) = c"
| "machine_regs (In_Idle c k) = c"

fun resume :: "machine \<Rightarrow> regs \<times> kernel \<Rightarrow> machine" where
  "resume (In_User c k) (c', k') = In_User c' k'"
| "resume (In_Idle c k) (c', k') = In_Idle c' k'"

fun cpu_kernel :: "cpu \<Rightarrow> kernel" where
  "cpu_kernel (Running s) = machine_kernel s"
| "cpu_kernel (Halted k) = k"

fun write_all :: "memory \<Rightarrow> (u32 \<times> u8) list \<Rightarrow> memory" where
  "write_all m [] = m"
| "write_all m ((a, b) # ws) = write_all (m(a := b)) ws"

text \<open>One step: \<open>None\<close> when the action is not possible, or when the machine is stuck with it.\<close>

definition cpu_step :: "platform \<Rightarrow> u32 \<Rightarrow> u32 \<Rightarrow> action \<Rightarrow> cpu \<Rightarrow> cpu option" where
  "cpu_step pf ex st a s =
     (if \<not> possible a s then None
      else case (a, s) of
        (Compute d ws, Running (In_User c k)) \<Rightarrow> Some (Running (In_User d (k\<lparr>k_memory := write_all (k_memory k) ws\<rparr>)))
      | (Syscall ret cl, Running (In_User c k)) \<Rightarrow> map_option Running (int_0x80 pf ex st ret cl c k)
      | (Interrupt n dev ret cl, Running i) \<Rightarrow>
          map_option (\<lambda>r. Running (resume i r)) (take_irq pf n dev ret cl (machine_regs i) (machine_kernel i))
      | (Fault v err ret cl, Running i) \<Rightarrow>
          (case take_fault pf ex st v err ret cl (machine_regs i) (machine_kernel i) of
             None \<Rightarrow> None
           | Some (Some c, k) \<Rightarrow> Some (Running (resume i (c, k)))
           | Some (None, k) \<Rightarrow> Some (Halted k))
      | _ \<Rightarrow> None)"

section \<open>Input and output of the machine\<close>

text \<open>What an action gives to the standard input: a key with a character, or what a system call writes to
  stream 0.\<close>

fun cpu_offers :: "cpu \<Rightarrow> action \<Rightarrow> char list" where
  "cpu_offers s (Interrupt n dev ret cl) = (if n = 1 \<and> dev 0x60 < 128 \<and> keymap ! unat (dev 0x60) \<noteq> NUL
     then [keymap ! unat (dev 0x60)] else [])"
| "cpu_offers (Running (In_User c k)) (Syscall ret cl) =
     (if uc_eax c = SYS_WRITE \<and> user_range (uc_ecx c) \<and> uc_ebx c = 0
      then map (user_text (k_memory k) (uc_ecx c)) [0..<nat (to_int (uc_edx c))] else [])"
| "cpu_offers s a = []"

text \<open>What a read leaves in the program's buffer: as many characters as it returned in \<open>eax\<close>.\<close>

fun cpu_reads :: "cpu \<Rightarrow> action \<Rightarrow> cpu \<Rightarrow> char list" where
  "cpu_reads (Running (In_User c k)) (Syscall ret cl) (Running (In_User c' k')) =
     (if uc_eax c = SYS_READ \<and> user_range (uc_ecx c)
      then map (user_text (k_memory k') (uc_ecx c)) [0..<unat (uc_eax c')] else [])"
| "cpu_reads s a s' = []"

text \<open>What an action prints.\<close>

fun cpu_prints :: "cpu \<Rightarrow> action \<Rightarrow> chunk list" where
  "cpu_prints (Running (In_User c k)) (Syscall ret cl) = call_prints (k_memory k) (uc_eax c) (uc_ebx c) (uc_ecx c) (uc_edx c)"
| "cpu_prints (Running i) (Fault v err ret cl) =
     fault_prints (of_nat v) (code_value err) (uc_eip (machine_regs i)) (uc_cs (machine_regs i))"
| "cpu_prints s a = []"

text \<open>A run, with all that was offered and all that was read.\<close>

fun run_of :: "('a \<Rightarrow> 's \<Rightarrow> 's option) \<Rightarrow> ('s \<Rightarrow> 'a \<Rightarrow> 'o list) \<Rightarrow> ('s \<Rightarrow> 'a \<Rightarrow> 's \<Rightarrow> 'o list) \<Rightarrow> 'a list \<Rightarrow> 's
    \<Rightarrow> ('s \<times> 'o list \<times> 'o list) option" where
  "run_of f gives takes [] s = Some (s, [], [])"
| "run_of f gives takes (a # as) s =
     (case f a s of
        None \<Rightarrow> None
      | Some s1 \<Rightarrow> map_option (\<lambda>(s2, ins, outs). (s2, gives s a @ ins, takes s a s1 @ outs)) (run_of f gives takes as s1))"

definition cpu_run :: "platform \<Rightarrow> u32 \<Rightarrow> u32 \<Rightarrow> action list \<Rightarrow> cpu \<Rightarrow> (cpu \<times> char list \<times> char list) option" where
  "cpu_run pf ex st = run_of (cpu_step pf ex st) cpu_offers cpu_reads"

text \<open>And one with all that was printed.\<close>

definition cpu_printed :: "platform \<Rightarrow> u32 \<Rightarrow> u32 \<Rightarrow> action list \<Rightarrow> cpu \<Rightarrow> (cpu \<times> chunk list \<times> chunk list) option" where
  "cpu_printed pf ex st = run_of (cpu_step pf ex st) cpu_prints (\<lambda>_ _ _. [])"

section \<open>From steps to runs\<close>

text \<open>A machine with inputs and outputs that follows another step by step.\<close>

locale lockstep =
  fixes f :: "'a \<Rightarrow> 's \<Rightarrow> 's option"
    and gives :: "'s \<Rightarrow> 'a \<Rightarrow> 'o list" and takes :: "'s \<Rightarrow> 'a \<Rightarrow> 's \<Rightarrow> 'o list"
    and enabled_in :: "'a \<Rightarrow> 's \<Rightarrow> bool"
    and abstract :: "'e list \<Rightarrow> 'o list \<Rightarrow> 'o list \<Rightarrow> 't \<Rightarrow> 't \<Rightarrow> bool"
    and rel :: "'s \<Rightarrow> 't \<Rightarrow> bool" and labels :: "'a \<Rightarrow> 'e \<Rightarrow> bool"
  assumes rest: "abstract [] [] [] t t"
    and append: "abstract es ins outs t t1 \<Longrightarrow> abstract es' ins' outs' t1 t2 \<Longrightarrow>
      abstract (es @ es') (ins @ ins') (outs @ outs') t t2"
    and follows: "rel s t \<Longrightarrow> f a s = Some s1 \<Longrightarrow>
      \<exists>e t1. abstract [e] (gives s a) (takes s a s1) t t1 \<and> labels a e \<and> rel s1 t1"
    and moves: "rel s t \<Longrightarrow> enabled_in a s \<Longrightarrow> f a s \<noteq> None"
begin

lemma runs:
  "rel s t \<Longrightarrow> run_of f gives takes as s = Some (s1, ins, outs) \<Longrightarrow>
    \<exists>es t1. abstract es ins outs t t1 \<and> list_all2 labels as es \<and> rel s1 t1"
proof (induction "as" arbitrary: s t ins outs)
  case Nil
  then show ?case using rest by auto
next
  case (Cons a as)
  obtain s2 ins2 outs2 where r: "f a s = Some s2" "run_of f gives takes as s2 = Some (s1, ins2, outs2)"
    "ins = gives s a @ ins2" "outs = takes s a s2 @ outs2"
    using Cons.prems(2) by (auto split: option.splits)
  obtain e t2 where e: "abstract [e] (gives s a) (takes s a s2) t t2" "labels a e" "rel s2 t2"
    using follows[OF Cons.prems(1) r(1)] by blast
  obtain es t1 where es: "abstract es ins2 outs2 t2 t1" "list_all2 labels as es" "rel s1 t1"
    using Cons.IH[OF e(3) r(2)] by blast
  have "abstract (e # es) ins outs t t1" using append[OF e(1) es(1)] r(3,4) by simp
  with e(2) es(2,3) show ?case by (intro exI[of _ "e # es"] exI[of _ t1]) simp
qed

lemma never_stuck:
  "rel s t \<Longrightarrow> run_of f gives takes as s = Some (s1, ins, outs) \<Longrightarrow> enabled_in a s1 \<Longrightarrow> f a s1 \<noteq> None"
  using runs moves by blast

end

section \<open>The machine and the system\<close>

text \<open>The bytes below the top of the ring 0 stack that the handlers of this model use: 84 for a trap from the
  program, and for one from the idle loop 84 below the 8 bytes that an exit leaves there.\<close>

definition kernel_stack :: "u32 \<Rightarrow> u32 \<Rightarrow> bool" where
  "kernel_stack e x \<longleftrightarrow> in_range (e - 92) 92 x"

definition same_kernel :: "u32 \<Rightarrow> kernel \<Rightarrow> kernel \<Rightarrow> bool" where
  "same_kernel e k ks \<longleftrightarrow> (\<exists>m. k = ks\<lparr>k_memory := m\<rparr> \<and> (\<forall>x. \<not> kernel_stack e x \<longrightarrow> m x = k_memory ks x))"

text \<open>The tables as boot leaves them, with a ring 0 stack below the user area.\<close>

definition tables_at :: "platform \<Rightarrow> u32 \<Rightarrow> kernel \<Rightarrow> bool" where
  "tables_at pf e k \<longleftrightarrow> (\<forall>v < 256. gate_of (idt_entries (k_idt k) ! v) = boot_gate (pf_isr pf) (pf_irq pf) v)
     \<and> tss_ss0 (idt_tss (k_idt k)) = 0x10 \<and> tss_esp0 (idt_tss (k_idt k)) = e \<and> 92 \<le> e \<and> e \<le> 0x400000"

fun mode_of :: "u32 \<Rightarrow> cpu \<Rightarrow> mode \<Rightarrow> bool" where
  "mode_of e (Running (In_User c k)) md \<longleftrightarrow> md = User \<and> uc_cs c AND 3 = 3 \<and> bit (uc_eflags c) 9"
| "mode_of e (Running (In_Idle c k)) md \<longleftrightarrow> md = Idle \<and> uc_cs c = 0x08 \<and> uc_esp c = e - 8 \<and> bit (uc_eflags c) 9"
| "mode_of e (Halted k) md \<longleftrightarrow> md = Stopped"

definition represents :: "platform \<Rightarrow> u32 \<Rightarrow> cpu \<Rightarrow> mode \<times> kernel \<Rightarrow> bool" where
  "represents pf e s = (\<lambda>(md, ks). mode_of e s md \<and> same_kernel e (cpu_kernel s) ks \<and> sys_ok ks \<and> tables_at pf e ks)"

fun event_of :: "action \<Rightarrow> event \<Rightarrow> bool" where
  "event_of (Compute d ws) Store \<longleftrightarrow> True"
| "event_of (Syscall ret cl) (Trap fr fr') \<longleftrightarrow> fr_int_no fr = 0x80"
| "event_of (Interrupt n dev ret cl) (Irq dev' fr) \<longleftrightarrow> dev' = dev \<and> fr_int_no fr = 32 + of_nat n"
| "event_of (Fault v err ret cl) (Trap fr fr') \<longleftrightarrow> v \<in> set exception_vectors \<and> fr_int_no fr = of_nat v
     \<and> fr_err_code fr = code_value err \<and> fr' = fr"
| "event_of a ev \<longleftrightarrow> False"

section \<open>Lemmas: the stack and the rest of memory\<close>

lemma kernel_stack_low:
  assumes "kernel_stack e x" "92 \<le> e" "e \<le> 0x400000"
  shows "x < 0x400000" "\<not> user_area x"
proof -
  have e: "92 \<le> unat e" "unat e \<le> 0x400000" using assms(2,3) by (simp_all add: word_le_nat_alt)
  have d: "unat (x - (e - 92)) < 92" using assms(1) by (simp add: kernel_stack_def in_range_def)
  have u: "unat (e - 92) = unat e - 92" using e by (simp add: unat_sub word_le_nat_alt)
  have "unat ((e - 92) + (x - (e - 92))) = unat (e - 92) + unat (x - (e - 92))"
    by (subst unat_add_exact) (use e d u in simp_all)
  then have "unat x < 0x400000" using e d u by simp
  then show "x < 0x400000" "\<not> user_area x" by (simp_all add: user_area_def word_less_nat_alt word_le_nat_alt)
qed

lemma trap_in_kernel_stack:
  assumes "trap_stack s c x" "tss_esp0 (idt_tss s) = e" "uc_cs c AND 3 \<noteq> 0 \<or> uc_esp c = e - 8"
  shows "kernel_stack e x"
proof -
  have "in_range (e - of_nat 84) 84 x \<or> in_range (e - 8 - 84) 84 x"
    using assms by (auto simp: trap_stack_def trap_base_def split: if_splits)
  then show ?thesis
    using in_range_below[of 84 92 e x] in_range_mono[of "e - 92" 84 x 92] by (auto simp: kernel_stack_def)
qed

lemma same_kernelE:
  assumes "same_kernel e k ks"
  obtains m where "k = ks\<lparr>k_memory := m\<rparr>" "\<And>x. \<not> kernel_stack e x \<Longrightarrow> m x = k_memory ks x"
  using assms by (auto simp: same_kernel_def)

lemma same_kernelI:
  "(\<And>x. \<not> kernel_stack e x \<Longrightarrow> m x = k_memory ks x) \<Longrightarrow> same_kernel e (ks\<lparr>k_memory := m\<rparr>) ks"
  by (auto simp: same_kernel_def)

lemma tables_kept: "tables_at pf e k \<Longrightarrow> kernel_kept k k' \<Longrightarrow> tables_at pf e k'"
  by (simp add: tables_at_def kernel_kept_def)

text \<open>A program's buffer is clear of the kernel's stack, however long.\<close>

lemma above_kernel_stack:
  assumes "user_range a" "i < 2147483648" "92 \<le> e" "e \<le> 0x400000"
  shows "\<not> kernel_stack e (a + of_nat i)"
proof
  assume "kernel_stack e (a + of_nat i)"
  then have low: "unat (a + of_nat i) < 0x400000"
    using kernel_stack_low(1)[OF _ assms(3,4)] by (simp add: word_less_nat_alt)
  have a: "0x400000 \<le> unat a" "unat a < 0x900000"
    using assms(1) by (simp_all add: user_range_def word_le_nat_alt word_less_nat_alt)
  have "unat (of_nat i :: u32) = i" using assms(2) by (intro unat_of_nat_exact) simp
  then have "unat (a + of_nat i) = unat a + i" using a assms(2) by (subst unat_add_exact) simp_all
  with a low show False by simp
qed

lemma user_text_same:
  assumes "same_kernel e k ks" "user_range a" "n \<le> 2147483648" "92 \<le> e" "e \<le> 0x400000"
  shows "map (user_text (k_memory k) a) [0..<n] = map (user_text (k_memory ks) a) [0..<n]"
  using assms(1) above_kernel_stack[OF assms(2) _ assms(4,5)] assms(3) by (auto simp: user_text_def elim!: same_kernelE)

lemma nat_to_int_bound: "nat (to_int w) \<le> 2147483648"
proof (cases "unat w < 2147483648")
  case True
  then show ?thesis by (simp add: to_int_small)
next
  case False
  with to_int_large[of w] have "to_int w < 0" by (simp add: not_less)
  then show ?thesis by simp
qed

section \<open>Lemmas: each action is an event\<close>

lemma handler_keeps_memory: "irq_handler dev fr k = Inr k' \<Longrightarrow> k_memory k' = k_memory k"
  by (auto simp: irq_handler_def keyboard_irq_def inb_eq outb_def rbind_eq_Inr Let_def
      dest!: with_shell_keeps prints_keep split: if_splits)

lemma interrupt_follows:
  fixes c :: regs
  assumes same: "same_kernel e k ks" and ok: "sys_ok ks" "tables_at pf e ks" and n: "n < 2"
    and stack: "uc_cs c AND 3 \<noteq> 0 \<or> uc_esp c = e - 8" and fl: "bit (uc_eflags c) 9" and md: "md \<noteq> Stopped"
  shows "\<exists>fr k' ks'. take_irq pf n dev ret cl c k = Some (c, k') \<and> sys_step ex st (Irq dev fr) md ks md ks'
    \<and> fr_int_no fr = 32 + of_nat n \<and> same_kernel e k' ks' \<and> sys_ok ks' \<and> tables_at pf e ks'"
proof -
  let ?fr = "(demo_call 0 0 0 0)\<lparr>fr_int_no := 32 + of_nat n\<rparr>"
  let ?g = "\<lparr>gate_handler = pf_irq pf n, gate_selector = 0x08, gate_kind = Interrupt_Gate, gate_dpl = Ring0\<rparr>"
  have v: "fr_int_no ?fr = 32 \<or> fr_int_no ?fr = 33" using n by (auto simp: less_2_cases_iff)
  obtain ks' where h: "irq_handler dev ?fr ks = Inr ks'" "sys_ok ks'" "kernel_kept ks ks'"
    using request_step[OF ok(1) v, of dev] by blast
  obtain m where m: "k = ks\<lparr>k_memory := m\<rparr>" "\<And>x. \<not> kernel_stack e x \<Longrightarrow> m x = k_memory ks x"
    using same by (rule same_kernelE) blast
  have hm: "irq_handler dev ?fr k = Inr (ks'\<lparr>k_memory := m\<rparr>)" using h(1) by (simp add: m(1) irq_handler_memory)
  have g: "gate_of (idt_entries (k_idt k) ! (32 + n)) = Some ?g"
    using ok(2) n by (auto simp: m(1) tables_at_def boot_gate_def exception_vectors_def)
  have "k_memory (ks'\<lparr>k_memory := m\<rparr>) = k_memory k" by (simp add: m(1))
  from irq_resumes[OF hm _ this g, of c ret cl] obtain c1 m1 m' where
    d: "deliver (k_idt k) (32 + n) None (c, k_memory k) = Some (c1, m1)" "uc_eip c1 = pf_irq pf n"
    "run_stub (irq_handler_call dev) (irq_stub n) ret cl (c1, k\<lparr>k_memory := m1\<rparr>) = Inr (Some c, ks'\<lparr>k_memory := m'\<rparr>)"
    "\<forall>x. \<not> trap_stack (k_idt k) c x \<longrightarrow> m' x = m x" by auto
  have e: "tss_esp0 (idt_tss (k_idt k)) = e" using ok(2) by (simp add: m(1) tables_at_def)
  have "m' x = k_memory ks' x" if "\<not> kernel_stack e x" for x
  proof -
    have "\<not> trap_stack (k_idt k) c x" using trap_in_kernel_stack[OF _ e stack] that by blast
    with d(4) m(2)[OF that] handler_keeps_memory[OF h(1)] show ?thesis by simp
  qed
  then have "same_kernel e (ks'\<lparr>k_memory := m'\<rparr>) ks'" by (rule same_kernelI)
  moreover have "take_irq pf n dev ret cl c k = Some (c, ks'\<lparr>k_memory := m'\<rparr>)"
    using d(1-3) fl by (simp add: take_irq_def)
  moreover have "sys_step ex st (Irq dev ?fr) md ks md ks'" using md v h(1) by (rule sys_step.Request)
  ultimately show ?thesis using h(2,3) tables_kept[OF ok(2)]
    by (intro exI[of _ ?fr] exI[of _ "ks'\<lparr>k_memory := m'\<rparr>"] exI[of _ ks']) simp
qed

lemma fault_follows:
  fixes c :: regs
  assumes same: "same_kernel e k ks" and ok: "sys_ok ks" "tables_at pf e ks"
    and v: "v \<in> set exception_vectors" "err = None \<longleftrightarrow> v \<notin> set cpu_error_codes"
    and stack: "uc_cs c AND 3 \<noteq> 0 \<or> uc_esp c = e - 8" and md: "md \<noteq> Stopped"
  shows "\<exists>fr k' ks'. take_fault pf ex st v err ret cl c k = Some (if v = 3 then Some c else None, k')
    \<and> sys_step ex st (Trap fr fr) md ks (if v = 3 then md else Stopped) ks'
    \<and> fr_int_no fr = of_nat v \<and> fr_err_code fr = code_value err \<and> fr_eip fr = uc_eip c \<and> fr_cs fr = uc_cs c
    \<and> same_kernel e k' ks' \<and> sys_ok ks' \<and> tables_at pf e ks'"
proof -
  let ?g = "\<lparr>gate_handler = pf_isr pf v, gate_selector = 0x08, gate_kind = Interrupt_Gate, gate_dpl = Ring0\<rparr>"
  obtain m where m: "k = ks\<lparr>k_memory := m\<rparr>" "\<And>x. \<not> kernel_stack e x \<Longrightarrow> m x = k_memory ks x"
    using same by (rule same_kernelE) blast
  have okm: "sys_ok k" using ok(1) by (simp add: m(1) sys_ok_def)
  have "v < 256" using v(1) by (auto simp: exception_vectors_def)
  then have g: "gate_of (idt_entries (k_idt k) ! v) = Some ?g" "gate_selector ?g = 8"
    using ok(2) v(1) by (auto simp: m(1) tables_at_def boot_gate_def)
  have err: "err = None \<longleftrightarrow> v \<notin> set error_code_vectors"
    using v by (auto simp: exception_vectors_def cpu_error_codes_def error_code_vectors_def)
  obtain us ss k1 c1 m1 m' where t: "let fr = trap_frame (k_idt k) c (code_value err) (of_nat v) us ss in
    (uc_cs c AND 3 \<noteq> 0 \<longrightarrow> us = uc_esp c \<and> ss = uc_ss c)
    \<and> interrupt_handler ex st fr k = Inr (v \<noteq> 3, fr, k1)
    \<and> deliver (k_idt k) v err (c, k_memory k) = Some (c1, m1) \<and> uc_eip c1 = gate_handler ?g
    \<and> run_stub (interrupt_handler ex st) (isr_stub v) ret cl (c1, k\<lparr>k_memory := m1\<rparr>)
      = Inr (if v = 3 then Some c else None, k1\<lparr>k_memory := m'\<rparr>)
    \<and> (\<forall>x. \<not> trap_stack (k_idt k) c x \<longrightarrow> m' x = k_memory k1 x)"
    using exception_trap[OF okm v(1) err g, of c ex st ret cl] by blast
  define fr where "fr = trap_frame (k_idt k) c (code_value err) (of_nat v) us ss"
  note t = t[folded fr_def, unfolded Let_def]
  have vec: "unat (fr_int_no fr) \<in> set exception_vectors" using v(1) by (auto simp: fr_def exception_vectors_def)
  from t have h: "interrupt_handler ex st fr k = Inr (v \<noteq> 3, fr, k1)" by (simp add: fr_def)
  let ?ks' = "k1\<lparr>k_memory := k_memory ks\<rparr>"
  have ks: "interrupt_handler ex st fr ks = Inr (v \<noteq> 3, fr, ?ks')" and mem: "k_memory k1 = m"
    using exception_handler_memory(1)[OF h vec, of "k_memory ks"] exception_handler_memory(2)[OF h vec] by (simp_all add: m(1))
  have vn: "fr_int_no fr = 3 \<longleftrightarrow> v = 3" using v(1) by (auto simp: fr_def exception_vectors_def)
  from exception_step[OF ok(1) vec, of ex st] ks have kept: "sys_ok ?ks'" "kernel_kept ks ?ks'" by auto
  have e: "tss_esp0 (idt_tss (k_idt k)) = e" using ok(2) by (simp add: m(1) tables_at_def)
  have "m' x = k_memory ?ks' x" if "\<not> kernel_stack e x" for x
  proof -
    have "\<not> trap_stack (k_idt k) c x" using trap_in_kernel_stack[OF _ e stack] that by blast
    with t mem m(2)[OF that] show ?thesis by simp
  qed
  then have "same_kernel e (?ks'\<lparr>k_memory := m'\<rparr>) ?ks'" by (rule same_kernelI)
  moreover have "take_fault pf ex st v err ret cl c k = Some (if v = 3 then Some c else None, ?ks'\<lparr>k_memory := m'\<rparr>)"
    using t by (simp add: take_fault_def fr_def)
  moreover have "sys_step ex st (Trap fr fr) md ks (if v = 3 then md else Stopped) ?ks'"
    using sys_step.Exception[OF md vec ks] by (cases "v = 3") simp_all
  moreover have "fr_int_no fr = of_nat v" "fr_err_code fr = code_value err" "fr_eip fr = uc_eip c" "fr_cs fr = uc_cs c"
    by (simp_all add: fr_def trap_frame_def)
  ultimately show ?thesis using kept tables_kept[OF ok(2)] by blast
qed

text \<open>A read delivers at most what the stream holds.\<close>

lemma read_bound:
  assumes "sys_ok ks" "input_step ks (offered ks (Trap fr fr')) (delivered (Trap fr fr') ks') ks'"
    "fr_int_no fr = 0x80" "from_user fr" "fr_eax fr = 3" "user_range (fr_ecx fr)"
  shows "unat (fr_eax fr') \<le> 1024"
proof -
  obtain sh where sh: "k_shell ks = Some sh" "sh_ok sh" using assms(1) by (rule sys_okE)
  have "stream_ok (sh_streams sh ! 0)" using sh_ok_stream[OF sh(2), of 0] by simp
  then have "length (stdin_text ks) \<le> 1024" using sh(1) by (simp add: stdin_text_eq stream_ok_def nat_le_iff)
  moreover obtain acc where "prefix acc []" "delivered (Trap fr fr') ks' @ stdin_text ks' = stdin_text ks @ acc"
    using assms(2-5) by (auto simp: input_step_def)
  then have "length (delivered (Trap fr fr') ks') \<le> length (stdin_text ks)"
    by (metis append_Nil2 le_add1 length_append prefix_bot.extremum_uniqueI)
  ultimately show ?thesis using assms(3-6) by simp
qed

lemma exit_prints_memory:
  assumes "exit_to_kernel_prints k = Inr k'"
  shows "exit_to_kernel_prints (k\<lparr>k_memory := m\<rparr>) = Inr (k'\<lparr>k_memory := m\<rparr>)" "k_memory k' = k_memory k"
  using assms by (auto simp: exit_to_kernel_prints_def prints_memory rbind_eq_Inr dest: prints_keep split: option.splits if_splits)

lemma syscall_follows:
  fixes c :: regs
  assumes same: "same_kernel e k ks" and ok: "sys_ok ks" "tables_at pf e ks"
    and user: "uc_cs c AND 3 = 3" and fl: "bit (uc_eflags c) 9"
  shows "\<exists>s fr fr' md ks'. int_0x80 pf ex st ret cl c k = Some s \<and> sys_step ex st (Trap fr fr') User ks md ks'
    \<and> fr_int_no fr = 0x80 \<and> from_user fr \<and> fr_eax fr = uc_eax c \<and> fr_ecx fr = uc_ecx c \<and> fr_edx fr = uc_edx c
    \<and> offered ks (Trap fr fr') = cpu_offers (Running (In_User c k)) (Syscall ret cl)
    \<and> delivered (Trap fr fr') ks' = cpu_reads (Running (In_User c k)) (Syscall ret cl) (Running s)
    \<and> event_prints ks (Trap fr fr') = cpu_prints (Running (In_User c k)) (Syscall ret cl)
    \<and> represents pf e (Running s) (md, ks')"
proof -
  define fr where "fr = trap_frame (k_idt ks) c 0 0x80 (uc_esp c) (uc_ss c)"
  have frs: "fr_int_no fr = 0x80" "from_user fr" "fr_eax fr = uc_eax c" "fr_ebx fr = uc_ebx c" "fr_ecx fr = uc_ecx c"
    "fr_edx fr = uc_edx c"
    using user by (simp_all add: fr_def trap_frame_def from_user_def)
  obtain m where m: "k = ks\<lparr>k_memory := m\<rparr>" "\<And>x. \<not> kernel_stack e x \<Longrightarrow> m x = k_memory ks x"
    using same by (rule same_kernelE) blast
  obtain sh where sh: "k_shell ks = Some sh" "sh_ok sh" using ok(1) by (rule sys_okE)
  have low: "92 \<le> e" "e \<le> 0x400000" and tss: "tss_ss0 (idt_tss (k_idt k)) = 0x10" "tss_esp0 (idt_tss (k_idt k)) = e"
    and gate: "gate_of (idt_entries (k_idt k) ! 128) = boot_gate (pf_isr pf) (pf_irq pf) 128"
    using ok(2) by (simp_all add: m(1) tables_at_def)
  obtain fr' ks' where h: "interrupt_handler ex st fr ks = Inr (False, fr', ks')" "sys_ok ks'" "kernel_kept ks ks'"
    "input_step ks (offered ks (Trap fr fr')) (delivered (Trap fr fr') ks') ks'" "from_user fr' \<longleftrightarrow> fr_eax fr \<noteq> 1"
    using call_step[OF ok(1) frs(2,1), of ex st] by blast
  have hs: "handle_syscall ex st fr ks = Inr (fr', ks')"
    using h(1) sh(1) by (auto simp: interrupt_handler_def frs(1) rbind_eq_Inr)
  have "m x = k_memory ks x" if "user_area x" for x
    using m(2)[of x] kernel_stack_low(2)[OF _ low, of x] that by blast
  then have "with_user_area m (k_memory ks) = m" by (auto simp: with_user_area_def fun_eq_iff)
  from handle_syscall_memory[OF sh this hs]
  have hm: "handle_syscall ex st (trap_frame (k_idt k) c 0 0x80 (uc_esp c) (uc_ss c)) k
      = Inr (fr', ks'\<lparr>k_memory := with_user_area m (k_memory ks')\<rparr>)" by (simp add: m(1) fr_def)
  have stack: "kernel_stack e x" if "trap_stack (k_idt k) c x" for x
    using trap_in_kernel_stack[OF that tss(2)] user by simp
  then have clear: "trap_stack (k_idt k) c x \<Longrightarrow> \<not> user_area x" for x using kernel_stack_low(2)[OF _ low] by blast
  have shk: "k_shell k = Some sh" using sh(1) by (simp add: m(1))
  obtain c1 m1 m' where tr: "deliver (k_idt k) 128 None (c, k_memory k) = Some (c1, m1)" "uc_eip c1 = pf_isr pf 128"
    "run_stub (interrupt_handler ex st) (isr_stub 128) ret cl (c1, k\<lparr>k_memory := m1\<rparr>)
      = Inr (Some (if uc_eax c = 1
          then c\<lparr>uc_eax := 0, uc_eip := ex, uc_cs := 0x08, uc_ds := 0x10, uc_es := 0x10, uc_fs := 0x10, uc_gs := 0x10,
            uc_ss := 0x10, uc_esp := e - 8\<rparr>
          else c\<lparr>uc_eax := fr_eax fr'\<rparr>), ks'\<lparr>k_memory := m'\<rparr>)"
    "\<forall>x. \<not> trap_stack (k_idt k) c x \<longrightarrow> m' x = with_user_area m (k_memory ks') x"
    using syscall_through_stub[OF shk sh(2) tss(1) gate user clear hm, of ret cl] tss(2) by auto
  have same': "m' x = k_memory ks' x" if "\<not> kernel_stack e x" for x
  proof -
    have "m' x = with_user_area m (k_memory ks') x" using tr(4) that stack by blast
    moreover have "k_memory ks' x = k_memory ks x" if "\<not> user_area x"
      using h(3) that by (auto simp: kernel_kept_def user_area_def not_le not_less)
    ultimately show ?thesis using m(2)[OF that] by (simp add: with_user_area_def)
  qed
  have allowed: "int_allowed (k_idt k) Ring3 128" "int_allowed (k_idt ks) Ring3 128" 
    using ok(1) by (simp_all add: m(1) sys_ok_def)
  have offers: "offered ks (Trap fr fr') = cpu_offers (Running (In_User c k)) (Syscall ret cl)"
    using user_text_same[OF same _ nat_to_int_bound low] frs by simp
  have prints: "event_prints ks (Trap fr fr') = cpu_prints (Running (In_User c k)) (Syscall ret cl)"
    using user_text_same[OF same _ nat_to_int_bound low] frs by (simp add: call_prints_def)
  show ?thesis
  proof (cases "uc_eax c = 1")
    case False
    let ?s = "In_User (c\<lparr>uc_eax := fr_eax fr'\<rparr>) (ks'\<lparr>k_memory := m'\<rparr>)"
    have "int_0x80 pf ex st ret cl c k = Some ?s" using tr(1-3) allowed False user by (simp add: int_0x80_def)
    moreover have "sys_step ex st (Trap fr fr') User ks User ks'"
      using sys_step.Call[OF frs(1,2) allowed(2) h(1)] h(5) False frs(3) by simp
    moreover have "same_kernel e (ks'\<lparr>k_memory := m'\<rparr>) ks'" using same' by (rule same_kernelI)
    moreover from this have "delivered (Trap fr fr') ks' = cpu_reads (Running (In_User c k)) (Syscall ret cl) (Running ?s)"
      using read_bound[OF ok(1) h(4) frs(1,2)] user_text_same[OF _ _ _ low, of "ks'\<lparr>k_memory := m'\<rparr>" ks' "uc_ecx c" "unat (fr_eax fr')"]
        frs by auto
    ultimately show ?thesis using frs offers prints user fl h(2) tables_kept[OF ok(2) h(3)]
      by (intro exI[of _ ?s] exI[of _ fr] exI[of _ fr'] exI[of _ User] exI[of _ ks']) (simp add: represents_def)
  next
    case True
    obtain ks'' where x: "exit_to_kernel_prints ks' = Inr ks''" "sys_ok ks''" "kernel_kept ks' ks''"
      using exit_step[OF h(2)] by blast
    note xm = exit_prints_memory[OF x(1)]
    let ?c = "c\<lparr>uc_eax := 0, uc_eip := ex, uc_cs := 0x08, uc_ds := 0x10, uc_es := 0x10, uc_fs := 0x10, uc_gs := 0x10,
            uc_ss := 0x10, uc_esp := e - 8\<rparr>"
    let ?s = "In_Idle ?c (ks''\<lparr>k_memory := m'\<rparr>)"
    have "int_0x80 pf ex st ret cl c k = Some ?s" using tr(1-3) allowed True xm(1)[of m'] by (simp add: int_0x80_def)
    moreover have "sys_step ex st (Trap fr fr') User ks Idle ks''"
      using sys_step.Exit[OF frs(1,2) allowed(2) h(1) _ x(1)] h(5) True frs(3) by simp
    moreover have "same_kernel e (ks''\<lparr>k_memory := m'\<rparr>) ks''" using same' xm(2) by (intro same_kernelI) simp
    moreover have "delivered (Trap fr fr') ks'' = cpu_reads (Running (In_User c k)) (Syscall ret cl) (Running ?s)"
      using True frs(3) by simp
    ultimately show ?thesis using frs offers prints fl x(2) tables_kept[OF tables_kept[OF ok(2) h(3)] x(3)]
      by (intro exI[of _ ?s] exI[of _ fr] exI[of _ fr'] exI[of _ Idle] exI[of _ ks'']) (simp add: represents_def)
  qed
qed

section \<open>The simulation\<close>

lemma sys_run_append:
  "sys_run ex st es ins outs md k md1 k1 \<Longrightarrow> sys_run ex st es' ins' outs' md1 k1 md2 k2 \<Longrightarrow>
    sys_run ex st (es @ es') (ins @ ins') (outs @ outs') md k md2 k2"
  by (induction rule: sys_run.induct) (auto intro: sys_run.Move)

lemma write_all_outside: "list_all (\<lambda>(a, b). user_range a) ws \<Longrightarrow> \<not> user_range x \<Longrightarrow> write_all m ws x = m x"
  by (induction m ws rule: write_all.induct) auto

lemma write_all_same: "m x = m' x \<Longrightarrow> write_all m ws x = write_all m' ws x"
proof (induction m ws arbitrary: m' rule: write_all.induct)
  case (2 m a b ws)
  show ?case unfolding write_all.simps by (rule "2.IH") (simp add: "2.prems")
qed simp

lemma invariants_memory [simp]: "sys_ok (k\<lparr>k_memory := m\<rparr>) = sys_ok k" "tables_at pf e (k\<lparr>k_memory := m\<rparr>) = tables_at pf e k"
  by (simp_all add: sys_ok_def tables_at_def)

lemma compute_follows:
  assumes rep: "represents pf e (Running (In_User c k)) (md, ks)" and p: "possible (Compute d ws) (Running (In_User c k))"
  shows "\<exists>t1. sys_step ex st Store md ks (fst t1) (snd t1)
    \<and> represents pf e (Running (In_User d (k\<lparr>k_memory := write_all (k_memory k) ws\<rparr>))) t1"
proof -
  let ?ks = "ks\<lparr>k_memory := write_all (k_memory ks) ws\<rparr>"
  obtain m where m: "k = ks\<lparr>k_memory := m\<rparr>" "\<And>x. \<not> kernel_stack e x \<Longrightarrow> m x = k_memory ks x"
    using rep by (auto simp: represents_def elim!: same_kernelE)
  have md: "md = User" using rep by (simp add: represents_def)
  have "\<forall>x. \<not> user_range x \<longrightarrow> write_all (k_memory ks) ws x = k_memory ks x"
    using p by (simp add: write_all_outside)
  then have step: "sys_step ex st Store md ks User ?ks" unfolding md by (rule sys_step.Program)
  have "same_kernel e (?ks\<lparr>k_memory := write_all m ws\<rparr>) ?ks"
    by (rule same_kernelI, simp, rule write_all_same) (rule m(2))
  moreover have "k\<lparr>k_memory := write_all (k_memory k) ws\<rparr> = ?ks\<lparr>k_memory := write_all m ws\<rparr>" by (simp add: m(1))
  moreover have "sys_ok ?ks" "tables_at pf e ?ks" using rep by (simp_all add: represents_def)
  moreover have "mode_of e (Running (In_User d k')) User" for k' using rep p by (simp add: represents_def)
  ultimately have "represents pf e (Running (In_User d (k\<lparr>k_memory := write_all (k_memory k) ws\<rparr>))) (User, ?ks)"
    by (simp add: represents_def)
  with step show ?thesis by (intro exI[of _ "(User, ?ks)"]) simp
qed

lemma action_follows:
  assumes rep: "represents pf e s (md, ks)" and p: "possible a s"
  shows "\<exists>s1 ev t1. cpu_step pf ex st a s = Some s1
    \<and> sys_step ex st ev md ks (fst t1) (snd t1) \<and> offered ks ev = cpu_offers s a \<and> delivered ev (snd t1) = cpu_reads s a s1
    \<and> event_prints ks ev = cpu_prints s a \<and> event_of a ev \<and> represents pf e s1 t1"
proof -
  have ok: "same_kernel e (cpu_kernel s) ks" "sys_ok ks" "tables_at pf e ks" using rep by (simp_all add: represents_def)
  obtain i where s: "s = Running i" using p by (cases s) auto
  have i: "md \<noteq> Stopped" "bit (uc_eflags (machine_regs i)) 9"
    "uc_cs (machine_regs i) AND 3 \<noteq> 0 \<or> uc_esp (machine_regs i) = e - 8"
    using rep s by (cases i; simp add: represents_def)+
  have live: "represents pf e (Running (resume i (machine_regs i, k'))) (md, ks')"
    if "same_kernel e k' ks'" "sys_ok ks'" "tables_at pf e ks'" for k' ks'
    using rep s that by (cases i) (simp_all add: represents_def)
  show ?thesis
  proof (cases a)
    case (Compute d ws)
    then obtain c k where c: "i = In_User c k" using p s by (cases i) auto
    with compute_follows[OF rep[unfolded s c]] p s Compute obtain t1 where
      t: "sys_step ex st Store md ks (fst t1) (snd t1)"
        "represents pf e (Running (In_User d (k\<lparr>k_memory := write_all (k_memory k) ws\<rparr>))) t1" by blast
    with p s c Compute show ?thesis by (intro exI) (auto simp: cpu_step_def)
  next
    case (Syscall ret cl)
    then obtain c k where c: "i = In_User c k" using p s by (cases i) auto
    have u: "md = User" "uc_cs c AND 3 = 3" "bit (uc_eflags c) 9" using rep s c by (simp_all add: represents_def)
    obtain s1 fr fr' md' ks' where r: "int_0x80 pf ex st ret cl c k = Some s1" "sys_step ex st (Trap fr fr') User ks md' ks'"
      "fr_int_no fr = 0x80" "offered ks (Trap fr fr') = cpu_offers s a"
      "delivered (Trap fr fr') ks' = cpu_reads s a (Running s1)" "event_prints ks (Trap fr fr') = cpu_prints s a" "represents pf e (Running s1) (md', ks')"
      using syscall_follows[where k = k and ex = ex and st = st and ret = ret and cl = cl, OF _ ok(2,3) u(2,3)] ok(1) s c Syscall by auto
have "cpu_step pf ex st a s = Some (Running s1)" using r(1) p s c Syscall by (simp add: cpu_step_def)
    with r(2-) u(1) Syscall show ?thesis
      by (intro exI[of _ "Running s1"] exI[of _ "Trap fr fr'"] exI[of _ "(md', ks')"]) (simp del: offered.simps delivered.simps event_prints.simps)
  next
    case (Interrupt n dev ret cl)
    then have n: "n < 2" using p s by simp
    obtain fr k' ks' where r: "take_irq pf n dev ret cl (machine_regs i) (machine_kernel i) = Some (machine_regs i, k')"
      "sys_step ex st (Irq dev fr) md ks md ks'" "fr_int_no fr = 32 + of_nat n" "same_kernel e k' ks'" "sys_ok ks'" "tables_at pf e ks'"
      using interrupt_follows[where k = "machine_kernel i" and dev = dev and ret = ret and cl = cl and ex = ex and st = st, OF _ ok(2,3) n i(3,2,1)] ok(1) s by auto
    have "offered ks (Irq dev fr) = cpu_offers s a" using r(3) n Interrupt by (auto simp: less_2_cases_iff)
    moreover have "delivered (Irq dev fr) ks' = cpu_reads s a s1" for s1 using Interrupt by simp
    moreover have "event_prints ks (Irq dev fr) = cpu_prints s a" using Interrupt by (cases "(s, a)" rule: cpu_prints.cases) simp_all
    ultimately show ?thesis using p s n Interrupt r live[OF r(4-6)]
      by (intro exI[of _ "Running (resume i (machine_regs i, k'))"] exI[of _ "Irq dev fr"] exI[of _ "(md, ks')"])
        (simp add: cpu_step_def)
  next
    case (Fault v err ret cl)
    then have v: "v \<in> set exception_vectors" "err = None \<longleftrightarrow> v \<notin> set cpu_error_codes" using p s by simp_all
    obtain fr k' ks' where r: "take_fault pf ex st v err ret cl (machine_regs i) (machine_kernel i)
        = Some (if v = 3 then Some (machine_regs i) else None, k')"
      "sys_step ex st (Trap fr fr) md ks (if v = 3 then md else Stopped) ks'" "fr_int_no fr = of_nat v"
      "fr_err_code fr = code_value err" "fr_eip fr = uc_eip (machine_regs i)" "fr_cs fr = uc_cs (machine_regs i)" "same_kernel e k' ks'" "sys_ok ks'" "tables_at pf e ks'"
      using fault_follows[where k = "machine_kernel i" and ret = ret and cl = cl and ex = ex and st = st, OF _ ok(2,3) v i(3,1)] ok(1) s by auto
    have vec: "unat (fr_int_no fr) \<in> set exception_vectors" using v(1) r(3) by (auto simp: exception_vectors_def)
    then have "fr_int_no fr \<noteq> 0x80" by (auto simp: exception_vectors_def)
    then have prints: "event_prints ks (Trap fr fr) = cpu_prints s a" using s Fault r(3-6) by simp
    from vec have io: "offered ks (Trap fr fr) = cpu_offers s a" "delivered (Trap fr fr) ks' = cpu_reads s a s1" for s1
      using exception_no_io Fault by simp_all
    let ?s1 = "if v = 3 then Running (resume i (machine_regs i, k')) else Halted k'"
    have "cpu_step pf ex st a s = Some ?s1" using r(1) p s Fault by (simp add: cpu_step_def)
    moreover have "represents pf e ?s1 (if v = 3 then md else Stopped, ks')"
      using live[OF r(7-9)] r(7-9) by (simp add: represents_def)
    ultimately show ?thesis using Fault v(1) r(2-4) prints io(1) io(2)[of ?s1]
      by (intro exI[of _ ?s1] exI[of _ "Trap fr fr"] exI[of _ "(if v = 3 then md else Stopped, ks')"]) simp
  qed
qed

lemma step_follows:
  assumes "represents pf e s t" "cpu_step pf ex st a s = Some s1"
  shows "\<exists>ev t1. sys_step ex st ev (fst t) (snd t) (fst t1) (snd t1) \<and> offered (snd t) ev = cpu_offers s a
    \<and> delivered ev (snd t1) = cpu_reads s a s1 \<and> event_prints (snd t) ev = cpu_prints s a \<and> event_of a ev
    \<and> represents pf e s1 t1"
proof -
  have "possible a s" using assms(2) by (simp add: cpu_step_def split: if_splits)
  from action_follows[where md = "fst t" and ks = "snd t", OF _ this, of pf e ex st] assms show ?thesis by auto
qed

text \<open>The machine is in lockstep with the system.\<close>

interpretation cpu: lockstep "cpu_step pf ex st" cpu_offers cpu_reads possible
    "\<lambda>es ins outs t t1. sys_run ex st es ins outs (fst t) (snd t) (fst t1) (snd t1)" "represents pf e" event_of
  for pf ex st e
proof unfold_locales
  show "sys_run ex st [] [] [] (fst t) (snd t) (fst t) (snd t)" for t by (rule sys_run.Rest)
  show "sys_run ex st (es @ es') (ins @ ins') (outs @ outs') (fst t) (snd t) (fst t2) (snd t2)"
    if "sys_run ex st es ins outs (fst t) (snd t) (fst t1) (snd t1)"
      "sys_run ex st es' ins' outs' (fst t1) (snd t1) (fst t2) (snd t2)" for es ins outs t t1 es' ins' outs' t2
    using that by (rule sys_run_append)
  fix s a and t :: "mode \<times> kernel"
  assume rep: "represents pf e s t"
  then have rep': "represents pf e s (fst t, snd t)" by simp
  show "cpu_step pf ex st a s \<noteq> None" if "possible a s"
    using action_follows[OF rep' that, of ex st] by auto
  show "\<exists>ev t1. sys_run ex st [ev] (cpu_offers s a) (cpu_reads s a s1) (fst t) (snd t) (fst t1) (snd t1) \<and> event_of a ev \<and> represents pf e s1 t1"
    if step: "cpu_step pf ex st a s = Some s1" for s1
  proof -
    obtain ev t1 where e: "sys_step ex st ev (fst t) (snd t) (fst t1) (snd t1)" "offered (snd t) ev = cpu_offers s a"
      "delivered ev (snd t1) = cpu_reads s a s1" "event_of a ev" "represents pf e s1 t1"
      using step_follows[OF rep step] by blast
    from sys_run.Move[OF e(1) sys_run.Rest] e show ?thesis by (intro exI[of _ ev] exI[of _ t1]) simp
  qed
qed

text \<open>And what it prints goes to the screen: the same locale, with a terminal for the system.\<close>

interpretation cpu_screen: lockstep "cpu_step pf ex st" cpu_prints "\<lambda>_ _ _. []" possible
    "\<lambda>es ps outs t t1. term_live (snd t) \<longrightarrow> shows_on (snd t) ps (snd t1)"
    "\<lambda>s t. represents pf e s t \<and> term_live (snd t)" event_of
  for pf ex st e
proof unfold_locales
  show "term_live (snd t) \<longrightarrow> shows_on (snd t) [] (snd t)" for t :: "mode \<times> kernel" using shows_on_nil by blast
  show "term_live (snd t) \<longrightarrow> shows_on (snd t) (ps @ ps') (snd t2)"
    if "term_live (snd t) \<longrightarrow> shows_on (snd t) ps (snd t1)" "term_live (snd t1) \<longrightarrow> shows_on (snd t1) ps' (snd t2)"
    for ps ps' and t t1 t2 :: "mode \<times> kernel"
    using that shows_on_trans shows_on_live by blast
  fix s a and t :: "mode \<times> kernel"
  assume rep: "represents pf e s t \<and> term_live (snd t)"
  show "cpu_step pf ex st a s \<noteq> None" if "possible a s" using cpu.moves rep that by blast
  show "\<exists>ev t1. (term_live (snd t) \<longrightarrow> shows_on (snd t) (cpu_prints s a) (snd t1)) \<and> event_of a ev
      \<and> represents pf e s1 t1 \<and> term_live (snd t1)"
    if step: "cpu_step pf ex st a s = Some s1" for s1
  proof -
    obtain ev t1 where e: "sys_step ex st ev (fst t) (snd t) (fst t1) (snd t1)" "event_prints (snd t) ev = cpu_prints s a"
      "event_of a ev" "represents pf e s1 t1"
      using step_follows[OF conjunct1[OF rep] step] by blast
    have "sys_ok (snd t)" using rep by (simp add: represents_def split_beta)
    from step_shows[OF e(1) this] rep e show ?thesis using shows_on_live by (intro exI[of _ ev] exI[of _ t1]) auto
  qed
qed

end
