(* ===== verification/Start.thy ===== *)
theory Start
  imports Boot Entry
begin

text \<open>
  What the boot loader sees of the kernel and where it enters it (arch/x86/multiboot.asm): the
  Multiboot2 header in the image, and the start code, which sets up the boot stack and passes the
  loader's registers to \<open>kernel_entry\<close>.

  The header is specified by a reader that follows the Multiboot2 specification: the header's magic
  fields and checksum, then tags at multiples of 8 bytes up to an end tag.
\<close>

section \<open>The header\<close>

text \<open>\<open>dd header_end - header_start\<close> is the length of the whole header.\<close>

definition header_tags :: "u8 list" where
  "header_tags = le16 6 @ le16 0 @ le32 8 @ le16 0 @ le16 0 @ le32 8"

definition boot_header :: "u8 list" where
  "boot_header = (let header_length = of_nat (16 + length header_tags) in
     le32 0xE85250D6 @ le32 0 @ le32 header_length @ le32 (- (0xE85250D6 + 0 + header_length)) @ header_tags)"

section \<open>The start code\<close>

definition start_code :: "u32 \<Rightarrow> instr list" where
  "start_code stack_top = [Cli, Mov_esp stack_top, Push_imm 0, Popf, Push_ebx, Push_eax]"

text \<open>\<open>call kernel_entry\<close>: the return address goes on the stack and \<open>kernel_entry\<close> finds its two
  arguments above it. It does not return; the loop behind the call is \<open>Boot_Halt\<close>'s. The rest of the
  platform is as \<open>kernel_entry\<close> has it.\<close>

definition start_regs :: "u32 \<Rightarrow> u32 \<Rightarrow> regs \<times> memory \<Rightarrow> regs \<times> memory" where
  "start_regs stack_top ret s = push ret (fold exec (start_code stack_top) s)"

definition start :: "platform \<Rightarrow> u32 \<Rightarrow> u32 \<Rightarrow> regs \<Rightarrow> boot_end res" where
  "start pf stack_top ret c =
     (let (c, m) = start_regs stack_top ret (c, pf_memory pf) in
      kernel_entry (pf\<lparr>pf_memory := m\<rparr>) (load32 m (uc_esp c + 4)) (load32 m (uc_esp c + 8)))"

section \<open>Specification: reading a Multiboot2 header\<close>

text \<open>Words of a byte list, little endian; \<open>None\<close> beyond its end.\<close>

definition word_at :: "u8 list \<Rightarrow> nat \<Rightarrow> u32 option" where
  "word_at bs i = (if i + 4 \<le> length bs then Some (ucast (bs ! i) OR push_bit 8 (ucast (bs ! (i + 1)))
       OR push_bit 16 (ucast (bs ! (i + 2))) OR push_bit 24 (ucast (bs ! (i + 3)))) else None)"

text \<open>The tags from an offset on, as type, flags and size; the end tag must be there and be the last.
  A step advances by at least 8 bytes.\<close>

function read_tags :: "u8 list \<Rightarrow> nat \<Rightarrow> (nat \<times> nat \<times> nat) list option" where
  "read_tags bs i =
     (case (word_at bs i, word_at bs (i + 4)) of
        (Some w, Some sz) \<Rightarrow>
          let typ = unat (w AND 0xFFFF); flags = unat (drop_bit 16 w); n = unat sz in
          if n < 8 then None
          else if typ = 0 then (if n = 8 \<and> i + 8 = length bs then Some [] else None)
          else map_option ((#) (typ, flags, n)) (read_tags bs (i + 8 * ((n + 7) div 8)))
      | _ \<Rightarrow> None)"
  by pat_completeness auto
termination
  by (relation "measure (\<lambda>(bs, i). length bs - i)")
    (auto simp: word_at_def split: if_splits)

definition read_header :: "u8 list \<Rightarrow> (nat \<times> nat \<times> nat) list option" where
  "read_header bs =
     (case (word_at bs 0, word_at bs 4, word_at bs 8, word_at bs 12) of
        (Some magic, Some arch, Some len, Some checksum) \<Rightarrow>
          if magic = 0xE85250D6 \<and> arch = 0 \<and> unat len = length bs \<and> magic + arch + len + checksum = 0
          then read_tags bs 16 else None
      | _ \<Rightarrow> None)"

section \<open>Lemmas\<close>

declare read_tags.simps [simp del]

lemma start_regs_eq:
  "start_regs stp ret (c, m) = (c\<lparr>uc_esp := stp - 12, uc_eflags := 2\<rparr>,
     push_words [uc_ebx c, uc_eax c, ret] stp (store32 m (stp - 4) 0))"
  by (simp add: start_regs_def start_code_def push_def)

lemma start_arguments:
  fixes c :: regs and stp ret :: u32 and m :: memory
  defines "m1 \<equiv> snd (start_regs stp ret (c, m))"
  shows "load32 m1 (stp - 12 + 4) = uc_eax c" "load32 m1 (stp - 12 + 8) = uc_ebx c"
    "\<not> in_range (stp - 12) 12 x \<Longrightarrow> m1 x = m x"
proof -
  have m1: "m1 = push_words [uc_ebx c, uc_eax c, ret] stp (store32 m (stp - 4) 0)"
    by (simp add: m1_def start_regs_eq)
  from push_words_ok[of "[uc_ebx c, uc_eax c, ret]" stp "store32 m (stp - 4) 0", folded m1]
  have st: "stack_at m1 (stp - 12) [ret, uc_eax c, uc_ebx c]"
    and out: "\<And>x. \<not> in_range (stp - 12) 12 x \<Longrightarrow> m1 x = store32 m (stp - 4) 0 x" by (simp_all del: push_words.simps)
  from st show "load32 m1 (stp - 12 + 4) = uc_eax c" "load32 m1 (stp - 12 + 8) = uc_ebx c" by simp_all
  show "m1 x = m x" if "\<not> in_range (stp - 12) 12 x"
  proof -
    have "stp - 12 + of_nat 8 = stp - 4" by simp
    then have "\<not> in_range (stp - 4) 4 x" using in_range_split[of 8 4 "stp - 12" x] that by simp
    then show ?thesis using out[OF that] by (simp add: store32_outside)
  qed
qed

section \<open>Properties\<close>

text \<open>The boot loader accepts the image. The header of multiboot.asm is well-formed by the
  Multiboot2 specification: magic number, i386 architecture, its own length, four words that add up
  to 0, and tags that end where it ends. Its one tag has type 6, the request to align modules, and no
  information request (type 1) is among them.\<close>

theorem boot_header_accepted:
  "read_header boot_header = Some [(6, 0, 8)] \<and> length boot_header = 32 \<and> length boot_header \<le> 32768"
  by (simp add: read_header_def boot_header_def header_tags_def word_at_def read_tags.simps le32_def le16_def Let_def)

text \<open>C16: the start code hands the loader's registers to the kernel. From any registers and memory,
  interrupts end up disabled with the I/O privilege level 0, the stack pointer 12 bytes below the top of the boot
  stack, only those 12 bytes are written, and \<open>kernel_entry\<close> is called with \<open>eax\<close> as the magic number and
  \<open>ebx\<close> as the address of the boot information. If the boot information encodes a well-formed tag list
  that lies apart from these bytes, the kernel reads the memory size it states.\<close>

theorem start_calls_kernel_entry:
  assumes "holds (pf_memory pf) (uc_ebx c + 8) (mb2_encode tags)" "list_all tag_wf tags"
    "unat (uc_ebx c) + 8 + length (mb2_encode tags) < 4294967296"
    "disjoint_ranges (uc_ebx c + 8) (length (mb2_encode tags)) (stack_top - 12) 12"
  shows "\<exists>c1 m1. start_regs stack_top ret (c, pf_memory pf) = (c1, m1)
    \<and> c1 = c\<lparr>uc_esp := stack_top - 12, uc_eflags := 2\<rparr>
    \<and> (\<forall>x. \<not> in_range (stack_top - 12) 12 x \<longrightarrow> m1 x = pf_memory pf x)
    \<and> start pf stack_top ret c = kernel_entry (pf\<lparr>pf_memory := m1\<rparr>) (uc_eax c) (uc_ebx c)
    \<and> mb2_get_memory m1 (uc_eax c) (uc_ebx c) = Some (if uc_eax c = 0x36d76289 then mb2_available tags else 0)"
proof -
  obtain c1 m1 where s: "start_regs stack_top ret (c, pf_memory pf) = (c1, m1)" by fastforce
  then have c1: "c1 = c\<lparr>uc_esp := stack_top - 12, uc_eflags := 2\<rparr>" by (simp add: start_regs_eq)
  note args = start_arguments[where stp = stack_top and ret = ret and c = c and m = "pf_memory pf", unfolded s snd_conv]
  have "start pf stack_top ret c = kernel_entry (pf\<lparr>pf_memory := m1\<rparr>) (uc_eax c) (uc_ebx c)"
    using s c1 args(1,2) by (simp add: start_def)
  moreover have "holds m1 (uc_ebx c + 8) (mb2_encode tags)"
    using assms(1,4) args(3) by (auto simp: holds_nth disjoint_ranges_def)
  ultimately show ?thesis
    using s c1 args(3) mb2_get_memory_encoded[OF _ assms(2,3), of m1] by auto
qed

text \<open>The demonstration machine started by its loader, on the boot stack below 0x150000: it boots.\<close>

definition demo_handoff :: regs where
  "demo_handoff = \<lparr>uc_eip = 0x100040, uc_cs = 0x10, uc_eflags = 0x246, uc_esp = 0x7FF00, uc_ss = 0x18,
     uc_ds = 0x18, uc_es = 0x18, uc_fs = 0x18, uc_gs = 0x18, uc_eax = 0x36d76289, uc_ebx = 0x10000, uc_ecx = 0, uc_edx = 0,
     uc_esi = 0, uc_edi = 0, uc_ebp = 0\<rparr>"

theorem start_calls_kernel_entry_witness:
  "\<exists>m1. start demo_platform 0x150000 0x100060 demo_handoff = kernel_entry (demo_platform\<lparr>pf_memory := m1\<rparr>) 0x36d76289 0x10000
    \<and> mb2_get_memory m1 0x36d76289 0x10000 = Some 0x7F7FC00"
proof -
  have h: "holds (pf_memory demo_platform) (uc_ebx demo_handoff + 8) (mb2_encode demo_tags)"
    using demo_memory_holds[of "0x10008" "mb2_encode demo_tags"] by (simp add: demo_handoff_def)
  have "disjoint_ranges (of_nat 0x10008) 112 (of_nat 0x14FFF4) 12" by (rule disjoint_ranges_nat) simp_all
  then have d: "disjoint_ranges (uc_ebx demo_handoff + 8) (length (mb2_encode demo_tags)) (0x150000 - 12) 12"
    by (simp add: demo_handoff_def length_demo_tags)
  have l: "unat (uc_ebx demo_handoff) + 8 + length (mb2_encode demo_tags) < 4294967296"
    by (simp add: demo_handoff_def length_demo_tags)
  from start_calls_kernel_entry[OF h demo_tags_facts(1) l d, of "0x100060"] demo_tags_facts(2) show ?thesis
    by (auto simp: demo_handoff_def)
qed

end
