(* ===== verification/Small_Steps.thy ===== *)
theory Small_Steps
  imports Prelude
begin

text \<open>
  Running a step function a number of times. A function of the source that is taken apart into its memory
  accesses is such a step function, on the state and the place in the code.
\<close>

primrec rsteps :: "('a \<Rightarrow> 'a res) \<Rightarrow> nat \<Rightarrow> 'a \<Rightarrow> 'a res" where
  "rsteps f 0 x = Inr x"
| "rsteps f (Suc n) x = rbind (f x) (rsteps f n)"

lemma rsteps_add: "rsteps f (m + n) x = rbind (rsteps f m x) (rsteps f n)"
proof (induction m arbitrary: x)
  case (Suc m)
  then have "rsteps f (m + n) = (\<lambda>x. rbind (rsteps f m x) (rsteps f n))" by (intro ext)
  then show ?case by (simp add: rbind_assoc)
qed simp

lemma rsteps_halted: "f x = Inr x \<Longrightarrow> rsteps f n x = Inr x"
  by (induction n) simp_all

lemma rsteps_end:
  assumes "rsteps f m x = Inr y" "f y = Inr y" "m \<le> n"
  shows "rsteps f n x = Inr y"
  using rsteps_add[of f m "n - m" x] assms by (simp add: rsteps_halted)

lemma rsteps_keeps:
  assumes "\<And>x y. P x \<Longrightarrow> f x = Inr y \<Longrightarrow> P y" "rsteps f n x = Inr y" "P x"
  shows "P y"
  using assms(2,3) by (induction n arbitrary: x) (auto simp: rbind_eq_Inr dest: assms(1))

text \<open>A step function that keeps an invariant, faults nowhere under it, and gets closer to its end.\<close>

locale advancing =
  fixes step :: "'a \<Rightarrow> 'a res" and inv :: "'a \<Rightarrow> bool" and halted :: "'a \<Rightarrow> bool" and left :: "'a \<Rightarrow> nat"
  assumes advance: "inv x \<Longrightarrow> \<not> halted x \<Longrightarrow> \<exists>y. step x = Inr y \<and> inv y \<and> left y < left x"
    and stay: "halted x \<Longrightarrow> step x = Inr x"
begin

lemma runs: "inv x \<Longrightarrow> \<exists>y. rsteps step n x = Inr y \<and> inv y \<and> (left x \<le> n \<longrightarrow> halted y)"
proof (induction n arbitrary: x)
  case 0
  then show ?case using advance[of x] by fastforce
next
  case (Suc n)
  show ?case
  proof (cases "halted x")
    case True
    with rsteps_halted[of step x "Suc n"] stay[OF True] Suc.prems show ?thesis by auto
  next
    case False
    with advance[OF Suc.prems] obtain y where y: "step x = Inr y" "inv y" "left y < left x" by blast
    with Suc.IH[OF y(2)] show ?thesis by fastforce
  qed
qed

end

end
