(* ===== verification/Interference.thy ===== *)
theory Interference
  imports Traps Bulk_Output Small_Steps
begin

text \<open>
  Interrupts inside the kernel's own code. System calls run behind a trap gate, which leaves interrupts
  enabled, and so does \<open>kernel_entry\<close> after \<open>sti\<close>; the keyboard handler writes to the standard input and
  then renders the console, on the shell that the interrupted code may be working on, without a lock.

  \<open>stream_read\<close> is taken apart into its memory accesses: one step per test, load or store of stream.c,
  with the read-modify-write of \<open>tail\<close> and of \<open>count\<close> as a load and a store (the Makefile compiles
  without optimisation). The handler runs between two steps, as a whole: its gate disables interrupts.
  The steps without an interrupt are the function \<open>stream_read\<close>; the theorems say what a key does at
  each point, to a read of the standard input and to the output of a character.
\<close>

section \<open>The steps of a read\<close>

text \<open>Where the function is: the two tests of the loop, \<open>buf[read] = s->data[s->tail]\<close>, the two halves of
  \<open>s->tail = (s->tail + 1) % STREAM_BUF_SIZE\<close> and of \<open>s->count--\<close>, \<open>read++\<close>.\<close>

datatype point = Test_Count | Test_Newline | Load_Byte | Load_Tail | Store_Tail | Load_Count | Store_Count
  | Next | Returned

text \<open>The locals: \<open>read\<close>, the bytes stored to \<open>buf\<close>, and the register of a read-modify-write.\<close>

record reader =
  rd_at :: point
  rd_read :: nat
  rd_buf :: "char list"
  rd_reg :: int

definition reader_start :: reader where
  "reader_start = \<lparr>rd_at = Test_Count, rd_read = 0, rd_buf = [], rd_reg = 0\<rparr>"

definition reader_step :: "nat \<Rightarrow> stream \<times> reader \<Rightarrow> (stream \<times> reader) res" where
  "reader_step len = (\<lambda>(s, r). case rd_at r of
     Test_Count \<Rightarrow> Inr (s, r\<lparr>rd_at := if rd_read r < len \<and> st_count s > 0 then Test_Newline else Returned\<rparr>)
   | Test_Newline \<Rightarrow> rbind (arr_get (st_data s) (rd_read r)) (\<lambda>c.
       Inr (s, r\<lparr>rd_at := if c = LF then Returned else Load_Byte\<rparr>))
   | Load_Byte \<Rightarrow> rbind (arr_get_int (st_data s) (st_tail s)) (\<lambda>b.
       Inr (s, r\<lparr>rd_buf := rd_buf r @ [b], rd_at := Load_Tail\<rparr>))
   | Load_Tail \<Rightarrow> Inr (s, r\<lparr>rd_reg := (st_tail s + 1) mod int STREAM_BUF_SIZE, rd_at := Store_Tail\<rparr>)
   | Store_Tail \<Rightarrow> Inr (s\<lparr>st_tail := rd_reg r\<rparr>, r\<lparr>rd_at := Load_Count\<rparr>)
   | Load_Count \<Rightarrow> Inr (s, r\<lparr>rd_reg := st_count s - 1, rd_at := Store_Count\<rparr>)
   | Store_Count \<Rightarrow> Inr (s\<lparr>st_count := rd_reg r\<rparr>, r\<lparr>rd_at := Next\<rparr>)
   | Next \<Rightarrow> Inr (s, r\<lparr>rd_read := rd_read r + 1, rd_at := Test_Count\<rparr>)
   | Returned \<Rightarrow> Inr (s, r))"

definition reader_steps :: "nat \<Rightarrow> nat \<Rightarrow> stream \<times> reader \<Rightarrow> (stream \<times> reader) res" where
  "reader_steps len = rsteps (reader_step len)"

lemma reader_steps_simps [simp]:
  "reader_steps len 0 x = Inr x" "reader_steps len (Suc n) x = rbind (reader_step len x) (reader_steps len n)"
  by (simp_all add: reader_steps_def)

text \<open>An operation on a stream of the shell, with its locals.\<close>

definition on_stream :: "nat \<Rightarrow> (stream \<times> 'a \<Rightarrow> (stream \<times> 'a) res) \<Rightarrow> shell \<times> 'a \<Rightarrow> (shell \<times> 'a) res" where
  "on_stream idx f = (\<lambda>(sh, r). rbind (arr_get (sh_streams sh) idx) (\<lambda>s.
     rbind (f (s, r)) (\<lambda>(s', r'). Inr (sh\<lparr>sh_streams := (sh_streams sh)[idx := s']\<rparr>, r'))))"

text \<open>What the keyboard handler does to the shell when a key with a character arrives.\<close>

definition key_interrupt :: "char \<Rightarrow> shell \<Rightarrow> shell res" where
  "key_interrupt ascii sh = rbind (sh_write_stream sh (int STREAM_STDIN) (nth [ascii]) 1) (\<lambda>(t, _). Inr t)"

text \<open>A read of which \<open>n\<close> steps are done when the key arrives, and that then runs to its end. Eight steps
  per byte and eight more are enough. The result has the point where it was interrupted.\<close>

definition interrupted_read :: "nat \<Rightarrow> nat \<Rightarrow> nat \<Rightarrow> char \<Rightarrow> shell \<Rightarrow> (point \<times> shell \<times> reader) res" where
  "interrupted_read idx len n c sh =
     rbind (on_stream idx (reader_steps len n) (sh, reader_start)) (\<lambda>(sh, r).
     rbind (key_interrupt c sh) (\<lambda>sh.
     rbind (on_stream idx (reader_steps len (8 * len + 8)) (sh, r)) (\<lambda>(sh, r').
       Inr (rd_at r, sh, r'))))"

text \<open>\<open>sh_render\<close> from where its first read has returned, and the output of a character whose first read is
  interrupted.\<close>

definition render_from :: "char list \<Rightarrow> shell \<Rightarrow> shell res" where
  "render_from bytes sh =
     rbind (if bytes = [] then Inr sh else rbind (rfold sh_render_char sh bytes) (sh_drain STREAM_STDOUT)) (\<lambda>sh.
     let saved_color = sh_color sh in
     rbind (sh_drain STREAM_STDERR (sh\<lparr>sh_color := 0x04\<rparr>)) (\<lambda>sh.
       Inr (sh\<lparr>sh_color := saved_color\<rparr>)))"

definition interrupted_putc :: "nat \<Rightarrow> char \<Rightarrow> shell \<Rightarrow> char \<Rightarrow> shell res" where
  "interrupted_putc n key sh c =
     (let sh = sh\<lparr>sh_color := 0x07\<rparr> in
      rbind (arr_get (sh_streams sh) STREAM_STDOUT) (\<lambda>s.
      rbind (stream_write s (nth [c]) 1) (\<lambda>(s', _).
      rbind (interrupted_read STREAM_STDOUT 64 n key (sh\<lparr>sh_streams := (sh_streams sh)[STREAM_STDOUT := s']\<rparr>)) (\<lambda>(_, sh, r).
        render_from (rd_buf r) sh))))"

text \<open>The key is what \<open>irq_handler\<close> does with the shell.\<close>

lemma irq_handler_key:
  assumes "k_shell k = Some sh" "fr_int_no fr = 33" "dev 0x60 < 128" "scancode_to_ascii (dev 0x60) = Inr c" "c \<noteq> NUL"
  shows "irq_handler dev fr k = rbind (key_interrupt c sh) (\<lambda>t.
    Inr (k\<lparr>k_shell := Some t, k_io := k_io k @ [In 0x60 (dev 0x60), Out 0x20 0x20]\<rparr>))"
  using assms
  by (simp add: irq_handler_def keyboard_irq_def inb_eq with_shell_def key_interrupt_def outb_def Let_def rbind_assoc split_def)

section \<open>Lemmas: the steps of a read\<close>

text \<open>As much of a stream as reading relies on: it may be one that is only half updated.\<close>

definition readable :: "stream \<Rightarrow> bool" where
  "readable s \<longleftrightarrow> length (st_data s) = 1024 \<and> 0 \<le> st_tail s \<and> st_tail s < 1024 \<and> 0 \<le> st_count s \<and> st_count s \<le> 1024"

lemma stream_ok_readable: "stream_ok s \<Longrightarrow> readable s"
  by (simp add: stream_ok_def readable_def)

lemma pop_Suc:
  "stream_pop s (Suc i) = (stream_pop s i)\<lparr>st_tail := (st_tail (stream_pop s i) + 1) mod 1024,
     st_count := st_count (stream_pop s i) - 1\<rparr>"
  by (simp add: stream_pop_def mod_add_left_eq) (simp add: ac_simps)

lemma pop_none: "readable s \<Longrightarrow> stream_pop s 0 = s"
  by (simp add: stream_pop_def readable_def)

lemma contents_nth:
  assumes "readable s" "int i < st_count s"
  shows "stream_contents s ! i = st_data s ! nat (st_tail (stream_pop s i))"
proof -
  have "[0..<nat (st_count s)] ! i = i" using assms(2) by simp
  with assms show ?thesis
    by (simp add: stream_contents_def stream_pop_def readable_def nat_mod_distrib nat_add_distrib)
qed

text \<open>A read of the stream \<open>s0\<close> at each of its points. Before the store to \<open>count\<close>, what is there does not
  matter any more.\<close>

definition reads :: "stream \<Rightarrow> stream \<times> reader \<Rightarrow> bool" where
  "reads s0 = (\<lambda>(s, r). let i = rd_read r; xs = stream_contents s0 in
     (case rd_at r of
        Test_Count \<Rightarrow> i \<le> length xs \<and> s = stream_pop s0 i \<and> rd_buf r = take i xs
      | Test_Newline \<Rightarrow> i < length xs \<and> s = stream_pop s0 i \<and> rd_buf r = take i xs
      | Load_Byte \<Rightarrow> i < length xs \<and> s = stream_pop s0 i \<and> rd_buf r = take i xs
      | Load_Tail \<Rightarrow> i < length xs \<and> s = stream_pop s0 i \<and> rd_buf r = take (Suc i) xs
      | Store_Tail \<Rightarrow> i < length xs \<and> s = stream_pop s0 i \<and> rd_buf r = take (Suc i) xs
          \<and> rd_reg r = st_tail (stream_pop s0 (Suc i))
      | Load_Count \<Rightarrow> i < length xs \<and> s = (stream_pop s0 i)\<lparr>st_tail := st_tail (stream_pop s0 (Suc i))\<rparr>
          \<and> rd_buf r = take (Suc i) xs
      | Store_Count \<Rightarrow> i < length xs
          \<and> (\<exists>v. s = (stream_pop s0 i)\<lparr>st_tail := st_tail (stream_pop s0 (Suc i)), st_count := v\<rparr>)
          \<and> rd_buf r = take (Suc i) xs \<and> rd_reg r = st_count s0 - int (Suc i)
      | Next \<Rightarrow> i < length xs \<and> s = stream_pop s0 (Suc i) \<and> rd_buf r = take (Suc i) xs
      | Returned \<Rightarrow> i \<le> length xs \<and> s = stream_pop s0 i \<and> rd_buf r = take i xs))"

lemma reads_start: "readable s \<Longrightarrow> reads s (s, reader_start)"
  by (simp add: reads_def reader_start_def pop_none)

text \<open>Steps that are left, at most.\<close>

definition steps_left :: "nat \<Rightarrow> reader \<Rightarrow> nat" where
  "steps_left len r = (case rd_at r of
     Test_Count \<Rightarrow> 8 * (len - rd_read r) + 1
   | Test_Newline \<Rightarrow> 8 * (len - Suc (rd_read r)) + 8
   | Load_Byte \<Rightarrow> 8 * (len - Suc (rd_read r)) + 7
   | Load_Tail \<Rightarrow> 8 * (len - Suc (rd_read r)) + 6
   | Store_Tail \<Rightarrow> 8 * (len - Suc (rd_read r)) + 5
   | Load_Count \<Rightarrow> 8 * (len - Suc (rd_read r)) + 4
   | Store_Count \<Rightarrow> 8 * (len - Suc (rd_read r)) + 3
   | Next \<Rightarrow> 8 * (len - Suc (rd_read r)) + 2
   | Returned \<Rightarrow> 0)"

lemma steps_left_bound: "steps_left len r \<le> 8 * len + 8"
  by (cases "rd_at r") (auto simp: steps_left_def)

lemma same_count: "\<exists>v. s\<lparr>st_tail := x\<rparr> = s\<lparr>st_tail := x, st_count := v\<rparr>"
  by (rule exI[of _ "st_count s"]) (cases s, simp)

lemma reader_step_reads:
  assumes "readable s0" "reads s0 (s, r)"
  shows "\<exists>s' r'. reader_step len (s, r) = Inr (s', r') \<and> reads s0 (s', r') \<and> prefix (rd_buf r) (rd_buf r')
    \<and> (rd_at r \<noteq> Returned \<longrightarrow> steps_left len r' < steps_left len r)"
proof -
  let ?i = "rd_read r" and ?xs = "stream_contents s0"
  have d: "st_data (stream_pop s0 j) = st_data s0" "length (st_data s0) = 1024" for j
    using assms(1) by (simp_all add: readable_def)
  have n: "length ?xs \<le> 1024" using assms(1) by (simp add: readable_def nat_le_iff)
  show ?thesis
  proof (cases "rd_at r")
    case Load_Byte
    then have at: "?i < length ?xs" "s = stream_pop s0 ?i" "rd_buf r = take ?i ?xs"
      using assms(2) by (simp_all add: reads_def Let_def)
    have tl: "0 \<le> st_tail (stream_pop s0 ?i)" "nat (st_tail (stream_pop s0 ?i)) < 1024"
      by (simp_all add: stream_pop_def nat_less_iff)
    have "arr_get_int (st_data s) (st_tail s) = Inr (?xs ! ?i)"
      using contents_nth[OF assms(1), of ?i] at tl d by (simp add: arr_get_int_def)
    with Load_Byte at show ?thesis
      by (simp add: reader_step_def reads_def Let_def take_Suc_conv_app_nth steps_left_def)
  next
    case Test_Newline
    then have at: "?i < length ?xs" "s = stream_pop s0 ?i" using assms(2) by (simp_all add: reads_def Let_def)
    with n d have "arr_get (st_data s) ?i = Inr (st_data s0 ! ?i)" by simp
    with Test_Newline assms(2) show ?thesis
      by (simp add: reader_step_def reads_def Let_def steps_left_def)
  next
    case Test_Count
    then have at: "?i \<le> length ?xs" "s = stream_pop s0 ?i" using assms(2) by (simp_all add: reads_def Let_def)
    with Test_Count assms(2) at show ?thesis
      by (auto simp: reader_step_def reads_def Let_def steps_left_def)
  qed (use assms(2) in \<open>auto simp: reader_step_def reads_def Let_def steps_left_def pop_Suc same_count\<close>)
qed

interpretation reading: advancing "reader_step len" "\<lambda>(s, r). readable s0 \<and> reads s0 (s, r) \<and> prefix b (rd_buf r)"
    "\<lambda>(s, r). rd_at r = Returned" "\<lambda>(s, r). steps_left len r" for len s0 b
proof unfold_locales
  fix x :: "stream \<times> reader"
  assume "case x of (s, r) \<Rightarrow> readable s0 \<and> reads s0 (s, r) \<and> prefix b (rd_buf r)" "\<not> (case x of (s, r) \<Rightarrow> rd_at r = Returned)"
  then show "\<exists>y. reader_step len x = Inr y \<and> (case y of (s, r) \<Rightarrow> readable s0 \<and> reads s0 (s, r) \<and> prefix b (rd_buf r))
      \<and> (case y of (s, r) \<Rightarrow> steps_left len r) < (case x of (s, r) \<Rightarrow> steps_left len r)"
    using reader_step_reads[of s0 "fst x" "snd x" len] by (cases x) (fastforce intro: prefix_order.trans)
qed (auto simp: reader_step_def)

lemma reader_steps_reads:
  assumes "readable s0" "reads s0 (s, r)"
  shows "\<exists>s' r'. reader_steps len n (s, r) = Inr (s', r') \<and> reads s0 (s', r') \<and> prefix (rd_buf r) (rd_buf r')
    \<and> (steps_left len r \<le> n \<longrightarrow> rd_at r' = Returned)"
  using reading.runs[of s0 "rd_buf r" "(s, r)" len n] assms by (auto simp: reader_steps_def)

text \<open>Between the load and the store of \<open>count\<close> the register holds what the store needs.\<close>

lemma reader_steps_register:
  assumes "reader_steps len n (s, r) = Inr (s', r')" "rd_at r = Store_Count \<longrightarrow> rd_reg r = st_count s - 1"
  shows "rd_at r' = Store_Count \<longrightarrow> rd_reg r' = st_count s' - 1"
proof -
  let ?P = "\<lambda>(s, r). rd_at r = Store_Count \<longrightarrow> rd_reg r = st_count s - 1"
  have "?P y" if "?P x" "reader_step len x = Inr y" for x y
    using that by (cases "rd_at (snd x)") (auto simp: reader_step_def rbind_eq_Inr split: if_splits)
  from rsteps_keeps[of ?P, OF this assms(1)[unfolded reader_steps_def]] assms(2) show ?thesis by simp
qed

text \<open>Without an interrupt the steps are the function: they return what \<open>stream_read\<close> returns, on any
  stream, and fault where it faults.\<close>

lemma reader_returned: "rd_at r = Returned \<Longrightarrow> reader_steps len n (s, r) = Inr (s, r)"
  by (simp add: reader_steps_def rsteps_halted reader_step_def)

lemma reader_loop:
  assumes "rd_at r = Test_Count" "rd_read r + k = len" "8 * k + 1 \<le> n"
  shows "case stream_read_loop s (rd_read r) k of
      Inl e \<Rightarrow> reader_steps len n (s, r) = Inl e
    | Inr (t, bs) \<Rightarrow> \<exists>r'. reader_steps len n (s, r) = Inr (t, r') \<and> rd_at r' = Returned \<and> rd_buf r' = rd_buf r @ bs"
  using assms
proof (induction k arbitrary: s r n)
  case 0
  then obtain m where "n = Suc m" by (cases n) simp_all
  with 0 show ?case by (simp add: reader_step_def reader_returned)
next
  case (Suc k)
  let ?i = "rd_read r"
  obtain m where n: "n = Suc (Suc (Suc (Suc (Suc (Suc (Suc (Suc m)))))))" "8 * k + 1 \<le> m"
  proof
    show "n = Suc (Suc (Suc (Suc (Suc (Suc (Suc (Suc (n - 8))))))))" "8 * k + 1 \<le> n - 8" using Suc.prems(3) by simp_all
  qed
  have lt: "?i < len" using Suc.prems(2) by simp
  consider "st_count s \<le> 0" | e where "0 < st_count s" "arr_get (st_data s) ?i = Inl e"
    | "0 < st_count s" "arr_get (st_data s) ?i = Inr LF"
    | c e where "0 < st_count s" "arr_get (st_data s) ?i = Inr c" "c \<noteq> LF" "arr_get_int (st_data s) (st_tail s) = Inl e"
    | c b where "0 < st_count s" "arr_get (st_data s) ?i = Inr c" "c \<noteq> LF" "arr_get_int (st_data s) (st_tail s) = Inr b"
    by (metis sum.exhaust linorder_not_less)
  then show ?case
  proof cases
    case 5
    let ?s = "s\<lparr>st_tail := (st_tail s + 1) mod 1024, st_count := st_count s - 1\<rparr>"
    let ?r = "r\<lparr>rd_buf := rd_buf r @ [b], rd_reg := st_count s - 1, rd_read := ?i + 1, rd_at := Test_Count\<rparr>"
    have "reader_steps len n (s, r) = reader_steps len m (?s, ?r)"
      unfolding n(1) using 5 Suc.prems(1) lt by (simp add: reader_step_def del: arr_get_def)
    moreover have "rd_read ?r + k = len" using Suc.prems(2) by simp
    ultimately show ?thesis
      using Suc.IH[of ?r m ?s] n(2) 5 by (auto simp del: arr_get_def split: sum.splits)
  qed (use n(1) Suc.prems(1) lt in \<open>simp_all add: reader_step_def reader_returned del: arr_get_def\<close>)
qed

section \<open>Lemmas: a key\<close>

text \<open>The stream after a character has been written to it.\<close>

definition pushed :: "stream \<Rightarrow> char \<Rightarrow> stream" where
  "pushed s c = s\<lparr>st_data := (st_data s)[nat (st_head s) := c], st_head := (st_head s + 1) mod 1024,
     st_count := st_count s + 1\<rparr>"

lemma stream_put_pushed:
  "0 \<le> st_head s \<Longrightarrow> st_head s < 1024 \<Longrightarrow> length (st_data s) = 1024 \<Longrightarrow> stream_put s c = Inr (pushed s c)"
  by (simp add: stream_put_def arr_set_int_def pushed_def nat_less_iff)

lemma pushed_ok:
  assumes "stream_ok s" "st_count s < 1024"
  shows "stream_ok (pushed s c)" "stream_contents (pushed s c) = stream_contents s @ [c]"
  using stream_put_ok[OF assms, of c] stream_put_pushed[of s c] stream_ok_head[OF assms(1)] stream_ok_length[OF assms(1)]
  by auto

lemma pushed_updates [simp]:
  "pushed (s\<lparr>st_tail := t\<rparr>) c = (pushed s c)\<lparr>st_tail := t\<rparr>"
  "pushed (s\<lparr>st_count := n\<rparr>) c = (pushed s c)\<lparr>st_count := n + 1\<rparr>"
  "st_tail (pushed s c) = st_tail s" "st_count (pushed s c) = st_count s + 1"
  "pushed (stream_pop s i) c = stream_pop (pushed s c) i"
  by (simp_all add: pushed_def stream_pop_def)

lemma contents_shorter: "n \<le> st_count s \<Longrightarrow> stream_contents (s\<lparr>st_count := n\<rparr>) = take (nat n) (stream_contents s)"
  by (simp add: stream_contents_def take_map take_upt nat_mono min_absorb1)

text \<open>A stream whose count is one short gives up what it hides when the next character comes.\<close>

lemma hidden_char:
  assumes "stream_ok s" "0 < st_count s" "st_count s < 1024"
  defines "t \<equiv> s\<lparr>st_count := st_count s - 1\<rparr>"
  shows "\<not> stream_ok t" "stream_contents (pushed t d) = stream_contents s"
proof -
  have h: "st_head s = (st_tail s + st_count s) mod 1024" using assms(1) by (simp add: stream_ok_def)
  show "\<not> stream_ok t"
  proof
    assume "stream_ok t"
    then have "(st_tail s + st_count s) mod 1024 = (st_tail s + (st_count s - 1)) mod 1024"
      using h by (simp add: stream_ok_def t_def)
    then show False by (simp add: mod_eq_dvd_iff)
  qed
  have "pushed t d = (pushed s d)\<lparr>st_count := st_count s\<rparr>" by (simp add: t_def)
  then show "stream_contents (pushed t d) = stream_contents s"
    using contents_shorter[of "st_count s" "pushed s d"] pushed_ok(2)[OF assms(1,3), of d] by simp
qed

text \<open>Rendering a console with nothing to show.\<close>

lemma sh_drain_idle:
  assumes "idx < length (sh_streams sh)" "st_count (sh_streams sh ! idx) \<le> 0"
  shows "sh_drain idx sh = Inr sh"
proof -
  have "stream_read_loop (sh_streams sh ! idx) 0 64 = Inr (sh_streams sh ! idx, [])"
    using assms(2) by (simp add: eval_nat_numeral)
  with assms(1) show ?thesis by (simp add: sh_drain.simps[of idx sh] stream_read_def)
qed

lemma sh_render_idle:
  assumes "2 < length (sh_streams sh)" "st_count (sh_streams sh ! 1) \<le> 0" "st_count (sh_streams sh ! 2) \<le> 0"
  shows "sh_render sh = Inr sh"
  using assms sh_drain_idle[of 1 sh] sh_drain_idle[of 2 "sh\<lparr>sh_color := 0x04\<rparr>"] by (simp add: sh_render_def)

lemma key_interrupt_idle:
  assumes "length (sh_streams sh) = 3" "st_count (sh_streams sh ! 1) \<le> 0" "st_count (sh_streams sh ! 2) \<le> 0"
    "sh_streams sh ! 0 = s" "0 \<le> st_head s" "st_head s < 1024" "length (st_data s) = 1024" "st_count s < 1024"
  shows "key_interrupt c sh = Inr (sh\<lparr>sh_color := 0x07, sh_streams := (sh_streams sh)[0 := pushed s c]\<rparr>)"
proof -
  have w: "stream_write s (nth [c]) 1 = Inr (pushed s c, 1)"
    using stream_put_pushed[OF assms(5-7), of c] assms(8) by (simp add: stream_write_def)
  have "sh_render (sh\<lparr>sh_color := 0x07, sh_streams := (sh_streams sh)[0 := pushed s c]\<rparr>)
      = Inr (sh\<lparr>sh_color := 0x07, sh_streams := (sh_streams sh)[0 := pushed s c]\<rparr>)"
    by (rule sh_render_idle) (use assms in simp_all)
  with w assms(1,4) show ?thesis by (simp add: key_interrupt_def sh_write_stream_def)
qed

text \<open>A key during a read. Anywhere but before the store to \<open>count\<close>, it is a read of the longer stream;
  there, it is a read of a stream whose count does not tell of the new character.\<close>

lemma reads_pushed:
  fixes c :: char
  assumes "stream_ok s0" "st_count s0 < 1024" "reads s0 (s, r)"
  defines "s1 \<equiv> pushed s0 c"
  shows "reads (if rd_at r = Store_Count then s1\<lparr>st_count := st_count s0\<rparr> else s1) (pushed s c, r)"
proof -
  have c: "stream_contents s1 = stream_contents s0 @ [c]" unfolding s1_def by (rule pushed_ok(2)[OF assms(1,2)])
  have n: "length (stream_contents s0) = nat (st_count s0)" "0 \<le> st_count s0" using assms(1) by (simp_all add: stream_ok_def)
  have short: "stream_contents (s1\<lparr>st_count := st_count s0\<rparr>) = stream_contents s0"
    using contents_shorter[of "st_count s0" s1] c n by (simp add: s1_def)
  have pop: "stream_pop (s1\<lparr>st_count := st_count s0\<rparr>) i = (stream_pop s1 i)\<lparr>st_count := st_count s0 - int i\<rparr>"
    "st_tail (stream_pop s1 i) = st_tail (stream_pop s0 i)" "st_count s1 = st_count s0 + 1" for i
    by (simp_all add: s1_def stream_pop_def)
  show ?thesis
    using assms(3) c short n
    by (cases "rd_at r") (auto simp: reads_def Let_def pop s1_def[symmetric])
qed

lemma interrupted_read_stdin:
  assumes "length (sh_streams sh) = 3" "st_count (sh_streams sh ! 1) \<le> 0" "st_count (sh_streams sh ! 2) \<le> 0"
    "sh_streams sh ! 0 = s" "stream_ok s" "st_count s < 1024"
  obtains p t r where "interrupted_read 0 len n c sh
      = Inr (p, sh\<lparr>sh_color := 0x07, sh_streams := (sh_streams sh)[0 := t]\<rparr>, r)"
    "rd_at r = Returned" "reads (if p = Store_Count then (pushed s c)\<lparr>st_count := st_count s\<rparr> else pushed s c) (t, r)"
    "p = Store_Count \<Longrightarrow> rd_buf r \<noteq> []"
proof -
  have rg: "readable s" by (rule stream_ok_readable[OF assms(5)])
  obtain s1 r1 where s1: "reader_steps len n (s, reader_start) = Inr (s1, r1)" "reads s (s1, r1)"
    using reader_steps_reads[OF rg reads_start[OF rg], of len n] by blast
  have "rd_at r1 = Store_Count \<longrightarrow> rd_reg r1 = st_count s1 - 1"
    using reader_steps_register[OF s1(1)] by (simp add: reader_start_def)
  with s1(2) have hd: "st_head s1 = st_head s \<and> st_data s1 = st_data s \<and> st_count s1 \<le> st_count s"
    by (cases s1; cases s; cases "rd_at r1") (auto simp: reads_def Let_def stream_pop_def)
  let ?s = "if rd_at r1 = Store_Count then (pushed s c)\<lparr>st_count := st_count s\<rparr> else pushed s c"
  have rg': "readable ?s" using assms(5,6) stream_ok_readable[OF pushed_ok(1)[OF assms(5,6), of c]] by (auto simp: readable_def stream_ok_def)
  obtain t r where t: "reader_steps len (8 * len + 8) (pushed s1 c, r1) = Inr (t, r)" "reads ?s (t, r)"
      "prefix (rd_buf r1) (rd_buf r)" "rd_at r = Returned"
    using reader_steps_reads[OF rg' reads_pushed[OF assms(5,6) s1(2)], of len "8 * len + 8"] steps_left_bound[of len r1] by blast
  show ?thesis
  proof (rule that[of "rd_at r1" t r])
    have k: "key_interrupt c (sh\<lparr>sh_streams := (sh_streams sh)[0 := s1]\<rparr>)
        = Inr (sh\<lparr>sh_color := 0x07, sh_streams := (sh_streams sh)[0 := pushed s1 c]\<rparr>)"
      using key_interrupt_idle[of "sh\<lparr>sh_streams := (sh_streams sh)[0 := s1]\<rparr>" s1 c] assms hd
        stream_ok_head[OF assms(5)] stream_ok_length[OF assms(5)] by simp
    show "interrupted_read 0 len n c sh
      = Inr (rd_at r1, sh\<lparr>sh_color := 0x07, sh_streams := (sh_streams sh)[0 := t]\<rparr>, r)"
      using s1(1) k t(1) assms(1,4) by (simp add: interrupted_read_def on_stream_def)
    show "rd_at r = Returned" "reads ?s (t, r)" by (rule t)+
    show "rd_buf r \<noteq> []" if "rd_at r1 = Store_Count"
    proof -
      have "rd_read r1 < length (stream_contents s)" "rd_buf r1 = take (Suc (rd_read r1)) (stream_contents s)"
        using that s1(2) by (simp_all add: reads_def Let_def)
      then have "rd_buf r1 \<noteq> []" by (cases "stream_contents s") simp_all
      then show ?thesis using t(3) by auto
    qed
  qed
qed

section \<open>Lemmas: a key during output\<close>

text \<open>The parts of \<open>sh_putc\<close> that \<open>interrupted_putc\<close> puts together again.\<close>

lemma sh_putc_parts:
  "sh_putc sh c = (let sh = sh\<lparr>sh_color := 0x07\<rparr> in
     rbind (arr_get (sh_streams sh) STREAM_STDOUT) (\<lambda>s.
     rbind (stream_write s (nth [c]) 1) (\<lambda>(s', _).
     rbind (stream_read s' 64) (\<lambda>(s'', bytes).
       render_from bytes (sh\<lparr>sh_streams := (sh_streams sh)[STREAM_STDOUT := s'']\<rparr>)))))"
  by (cases "Suc 0 < length (sh_streams sh)")
    (simp_all add: sh_putc_def sh_write_stdout_def sh_write_stream_def sh_render_def sh_drain.simps[of "Suc 0"]
      render_from_def Let_def rbind_assoc split_def cong: if_cong)

text \<open>Draining a stream with one character in it.\<close>

lemma sh_drain_one:
  assumes "sh_term_ok sh" "idx < length (sh_streams sh)" "sh_streams sh ! idx = v" "st_count v = 1"
    "length (st_data v) = 1024" "0 \<le> st_tail v" "st_tail v < 1024" "st_data v ! 0 \<noteq> LF"
  shows "sh_drain idx sh = Inr ((sh_show sh [st_data v ! nat (st_tail v)])\<lparr>sh_streams := (sh_streams sh)[idx := stream_pop v 1]\<rparr>)"
proof -
  let ?c = "st_data v ! nat (st_tail v)" and ?sh = "sh\<lparr>sh_streams := (sh_streams sh)[idx := stream_pop v 1]\<rparr>"
  have "stream_read v 64 = Inr (stream_pop v 1, [?c])"
    using assms(4-8) by (simp add: stream_read_def eval_nat_numeral arr_get_int_def stream_pop_def)
  moreover have "sh_render_char ?sh ?c = Inr (sh_show ?sh [?c])"
    using sh_render_char_ok(1)[of ?sh ?c] assms(1) by (simp add: sh_show_eq)
  moreover have "sh_drain idx (sh_show ?sh [?c]) = Inr (sh_show ?sh [?c])"
    using sh_drain_idle[of idx "sh_show ?sh [?c]"] assms(2,4) by simp
  moreover have "sh_show ?sh [?c] = (sh_show sh [?c])\<lparr>sh_streams := (sh_streams sh)[idx := stream_pop v 1]\<rparr>"
    by (rule sh_show_streams_update)
  ultimately show ?thesis using assms(2,3) by (simp add: sh_drain.simps[of idx sh])
qed

text \<open>A key when the output stream holds one character: the handler shows it.\<close>

lemma key_interrupt_one:
  assumes "sh_term_ok sh" "sh_color sh = 0x07" "length (sh_streams sh) = 3" "st_count (sh_streams sh ! 2) = 0"
    "stream_ok (sh_streams sh ! 0)" "st_count (sh_streams sh ! 0) < 1024"
    "sh_streams sh ! 1 = v" "st_count v = 1" "length (st_data v) = 1024" "0 \<le> st_tail v" "st_tail v < 1024" "st_data v ! 0 \<noteq> LF"
  shows "key_interrupt key sh = Inr ((sh_show sh [st_data v ! nat (st_tail v)])
    \<lparr>sh_streams := (sh_streams sh)[0 := pushed (sh_streams sh ! 0) key, 1 := stream_pop v 1]\<rparr>)"
proof -
  let ?s = "sh_streams sh ! 0" and ?c = "st_data v ! nat (st_tail v)"
  let ?sh = "sh\<lparr>sh_streams := (sh_streams sh)[0 := pushed ?s key]\<rparr>"
  have col: "sh\<lparr>sh_color := 0x07\<rparr> = sh" using assms(2) by (cases sh) simp
  have w: "stream_write ?s (nth [key]) 1 = Inr (pushed ?s key, 1)"
    using stream_put_pushed[of ?s key] assms(6) stream_ok_head[OF assms(5)] stream_ok_length[OF assms(5)]
    by (simp add: stream_write_def)
  have d: "sh_drain 1 ?sh = Inr ((sh_show sh [?c])\<lparr>sh_streams := (sh_streams sh)[0 := pushed ?s key, 1 := stream_pop v 1]\<rparr>)"
    using sh_drain_one[of ?sh 1 v] assms sh_show_streams_update[where sh = sh and cs = "[?c]"] by simp
  let ?t = "(sh_show sh [?c])\<lparr>sh_streams := (sh_streams sh)[0 := pushed ?s key, 1 := stream_pop v 1]\<rparr>"
  have "sh_drain 2 (?t\<lparr>sh_color := 0x04\<rparr>) = Inr (?t\<lparr>sh_color := 0x04\<rparr>)"
    using sh_drain_idle[of 2 "?t\<lparr>sh_color := 0x04\<rparr>"] assms(3,4) by simp
  moreover have "?t\<lparr>sh_color := sh_color ?t\<rparr> = ?t" by (cases "sh_show sh [?c]") simp
  ultimately have "sh_render ?sh = Inr ?t" using d by (simp add: sh_render_def Let_def)
  then show ?thesis using w assms(3) col by (simp add: key_interrupt_def sh_write_stream_def Let_def)
qed

text \<open>The rest of the rendering, when nothing is left in the stream.\<close>

lemma render_from_ok:
  assumes "sh_term_ok sh" "length (sh_streams sh) = 3" "st_count (sh_streams sh ! 1) \<le> 0" "st_count (sh_streams sh ! 2) = 0"
    "bytes = [] \<or> bytes = [b]"
  shows "render_from bytes sh = Inr (sh_show sh bytes)"
proof -
  let ?t = "sh_show sh bytes"
  have "rfold sh_render_char sh bytes = Inr ?t"
    using sh_render_char_ok(1)[OF assms(1)] assms(5) by (auto simp: sh_show_eq[of sh "[b]"])
  moreover have "sh_drain 1 ?t = Inr ?t" using sh_drain_idle[of 1 ?t] assms(2,3) by simp
  moreover have "sh_drain 2 (?t\<lparr>sh_color := 0x04\<rparr>) = Inr (?t\<lparr>sh_color := 0x04\<rparr>)"
    using sh_drain_idle[of 2 "?t\<lparr>sh_color := 0x04\<rparr>"] assms(2,4) by simp
  moreover have "?t\<lparr>sh_color := sh_color ?t\<rparr> = ?t" by (cases ?t) simp
  ultimately show ?thesis by (auto simp: render_from_def Let_def)
qed

lemma reader_steps_end:
  "reader_steps len m x = Inr (s, r) \<Longrightarrow> rd_at r = Returned \<Longrightarrow> m \<le> n \<Longrightarrow> reader_steps len n x = Inr (s, r)"
  unfolding reader_steps_def by (rule rsteps_end) (simp_all add: reader_step_def)

text \<open>The shell once the handler and the interrupted output are through: what they showed, the key, and
  what is left of the output stream.\<close>

definition showing :: "shell \<Rightarrow> char \<Rightarrow> char list \<Rightarrow> stream \<Rightarrow> shell" where
  "showing sh key cs v = (sh_show (sh\<lparr>sh_color := 0x07\<rparr>) cs)
     \<lparr>sh_streams := (sh_streams sh)[0 := pushed (sh_streams sh ! 0) key, 1 := v]\<rparr>"

lemma interrupted_putc_at:
  assumes sh: "con_ok sh" "st_count (sh_streams sh ! 1) = 0" "st_count (sh_streams sh ! 0) < 1024"
    and w: "stream_write (sh_streams sh ! 1) (nth [c]) 1 = Inr (v, n')"
    and run: "reader_steps 64 n (v, reader_start) = Inr (v1, r1)"
      "\<exists>r2. reader_steps 64 9 (v3, r1) = Inr (v2, r2) \<and> rd_at r2 = Returned \<and> rd_buf r2 = bytes"
    and at: "st_count v1 = 0 \<or> st_count v1 = 1" "length (st_data v1) = 1024" "0 \<le> st_tail v1" "st_tail v1 < 1024"
      "st_data v1 ! 0 \<noteq> LF"
    and v3: "v3 = (if st_count v1 = 0 then v1 else stream_pop v1 1)" and fin: "st_count v2 \<le> 0" "length bytes \<le> 1"
  shows "interrupted_putc n key sh c
    = Inr (showing sh key ((if st_count v1 = 0 then [] else [st_data v1 ! nat (st_tail v1)]) @ bytes) v2)"
proof -
  obtain r2 where r2: "reader_steps 64 520 (v3, r1) = Inr (v2, r2)" "rd_buf r2 = bytes"
    using run(2) reader_steps_end[of 64 9 "(v3, r1)"] by fastforce
  let ?s = "sh_streams sh ! 0" and ?z = "st_data v1 ! nat (st_tail v1)"
  let ?c = "sh\<lparr>sh_color := 0x07\<rparr>"
  have ok: "sh_term_ok ?c" "length (sh_streams sh) = 3" "st_count (sh_streams sh ! 2) = 0" "stream_ok ?s"
    using sh(1) by (simp_all add: con_ok_def sh_ok_iff)
  define z where "z = (if st_count v1 = 0 then [] else [?z])"
  have key: "key_interrupt key (?c\<lparr>sh_streams := (sh_streams sh)[1 := v1]\<rparr>) = Inr (showing sh key z v3)"
  proof (cases "st_count v1 = 0")
    case True
    have swap: "(sh_streams sh)[1 := v1, 0 := pushed ?s key] = (sh_streams sh)[0 := pushed ?s key, 1 := v1]"
      by (simp add: list_update_swap)
    show ?thesis
      using key_interrupt_idle[of "?c\<lparr>sh_streams := (sh_streams sh)[1 := v1]\<rparr>" ?s key] True ok sh(3)
        stream_ok_head[OF ok(4)] stream_ok_length[OF ok(4)] swap
      by (simp add: showing_def z_def v3)
  next
    case False
    then have "st_count v1 = 1" using at(1) by simp
    have swap: "(sh_streams sh)[1 := v1, 0 := pushed ?s key, 1 := stream_pop v1 1]
        = (sh_streams sh)[0 := pushed ?s key, 1 := stream_pop v1 1]"
      by (simp add: list_update_swap)
    show ?thesis
      using key_interrupt_one[of "?c\<lparr>sh_streams := (sh_streams sh)[1 := v1]\<rparr>" v1 key] \<open>st_count v1 = 1\<close> ok at(2-5) sh(3) swap
      by (simp add: showing_def z_def v3 sh_show_streams_update)
  qed
  let ?u = "showing sh key z v2"
  have u: "sh_term_ok ?u" "length (sh_streams ?u) = 3" "st_count (sh_streams ?u ! 1) \<le> 0" "st_count (sh_streams ?u ! 2) = 0"
    using ok sh_show_term_ok[OF ok(1), of z] fin(1) by (simp_all add: showing_def)
  have "sh_show ?u bytes = showing sh key (z @ bytes) v2"
    using sh_show_append[OF ok(1), of z bytes] by (simp add: showing_def sh_show_streams_update)
  moreover have "bytes = [] \<or> bytes = [hd bytes]" using fin(2) by (cases bytes) simp_all
  ultimately have "render_from bytes ?u = Inr (showing sh key (z @ bytes) v2)"
    using render_from_ok[OF u] by simp
  moreover have "(showing sh key z v3)\<lparr>sh_streams := (sh_streams (showing sh key z v3))[1 := v2]\<rparr> = ?u"
    by (simp add: showing_def)
  ultimately show ?thesis
    using w run(1) key r2 ok(2)
    by (simp add: interrupted_putc_def interrupted_read_def on_stream_def Let_def z_def showing_def)
qed

text \<open>The read of one character, at each of its points.\<close>

lemma one_char_steps:
  assumes "st_count v = 1" "length (st_data v) = 1024" "0 \<le> st_tail v" "nat (st_tail v) < 1024" "st_data v ! 0 \<noteq> LF"
  defines "c \<equiv> st_data v ! nat (st_tail v)" and "slot \<equiv> (st_tail v + 1) mod 1024"
  shows "reader_steps 64 0 (v, reader_start) = Inr (v, reader_start)"
    "reader_steps 64 1 (v, reader_start) = Inr (v, \<lparr>rd_at = Test_Newline, rd_read = 0, rd_buf = [], rd_reg = 0\<rparr>)"
    "reader_steps 64 2 (v, reader_start) = Inr (v, \<lparr>rd_at = Load_Byte, rd_read = 0, rd_buf = [], rd_reg = 0\<rparr>)"
    "reader_steps 64 3 (v, reader_start) = Inr (v, \<lparr>rd_at = Load_Tail, rd_read = 0, rd_buf = [c], rd_reg = 0\<rparr>)"
    "reader_steps 64 4 (v, reader_start) = Inr (v, \<lparr>rd_at = Store_Tail, rd_read = 0, rd_buf = [c], rd_reg = slot\<rparr>)"
    "reader_steps 64 5 (v, reader_start) = Inr (v\<lparr>st_tail := slot\<rparr>, \<lparr>rd_at = Load_Count, rd_read = 0, rd_buf = [c], rd_reg = slot\<rparr>)"
    "reader_steps 64 6 (v, reader_start) = Inr (v\<lparr>st_tail := slot\<rparr>, \<lparr>rd_at = Store_Count, rd_read = 0, rd_buf = [c], rd_reg = 0\<rparr>)"
    "reader_steps 64 7 (v, reader_start) = Inr (stream_pop v 1, \<lparr>rd_at = Next, rd_read = 0, rd_buf = [c], rd_reg = 0\<rparr>)"
    "reader_steps 64 8 (v, reader_start) = Inr (stream_pop v 1, \<lparr>rd_at = Test_Count, rd_read = 1, rd_buf = [c], rd_reg = 0\<rparr>)"
    "reader_steps 64 9 (v, reader_start) = Inr (stream_pop v 1, \<lparr>rd_at = Returned, rd_read = 1, rd_buf = [c], rd_reg = 0\<rparr>)"
  using assms(1-5)
  by (simp_all add: eval_nat_numeral reader_step_def reader_start_def arr_get_int_def c_def slot_def stream_pop_def)

text \<open>And from there to the end, when the handler has run in between.\<close>

lemma one_char_pop:
  fixes v :: stream
  defines "slot \<equiv> (st_tail v + 1) mod 1024"
  assumes "st_count v = 1"
  shows "stream_pop v 1 = v\<lparr>st_tail := slot, st_count := 0\<rparr>"
    "stream_pop v 2 = v\<lparr>st_tail := (slot + 1) mod 1024, st_count := - 1\<rparr>" "0 \<le> slot" "nat slot < 1024"
  using assms(2) by (simp_all add: stream_pop_def slot_def mod_simps nat_less_iff add.commute)

lemma one_char_resumed:
  assumes "st_count v = 1" "length (st_data v) = 1024" "st_data v ! 0 \<noteq> LF"
  defines "slot \<equiv> (st_tail v + 1) mod 1024"
  shows "rd_at r = Test_Count \<Longrightarrow> \<exists>r'. reader_steps 64 9 (stream_pop v 1, r) = Inr (stream_pop v 1, r') \<and> rd_at r' = Returned \<and> rd_buf r' = rd_buf r"
    "rd_at r = Test_Newline \<Longrightarrow> rd_read r = 0 \<Longrightarrow>
      \<exists>r'. reader_steps 64 9 (stream_pop v 1, r) = Inr (stream_pop v 2, r') \<and> rd_at r' = Returned \<and> rd_buf r' = rd_buf r @ [st_data v ! nat slot]"
    "rd_at r = Load_Byte \<Longrightarrow> rd_read r = 0 \<Longrightarrow>
      \<exists>r'. reader_steps 64 9 (stream_pop v 1, r) = Inr (stream_pop v 2, r') \<and> rd_at r' = Returned \<and> rd_buf r' = rd_buf r @ [st_data v ! nat slot]"
    "rd_at r = Load_Tail \<Longrightarrow> rd_read r = 0 \<Longrightarrow>
      \<exists>r'. reader_steps 64 9 (stream_pop v 1, r) = Inr (stream_pop v 2, r') \<and> rd_at r' = Returned \<and> rd_buf r' = rd_buf r"
    "rd_at r = Store_Tail \<Longrightarrow> rd_read r = 0 \<Longrightarrow> rd_reg r = slot \<Longrightarrow>
      \<exists>r'. reader_steps 64 9 (stream_pop v 1, r) = Inr (v\<lparr>st_tail := slot, st_count := - 1\<rparr>, r') \<and> rd_at r' = Returned \<and> rd_buf r' = rd_buf r"
    "rd_at r = Load_Count \<Longrightarrow> rd_read r = 0 \<Longrightarrow>
      \<exists>r'. reader_steps 64 9 (stream_pop v 2\<lparr>st_count := 0\<rparr>, r) = Inr (stream_pop v 2, r') \<and> rd_at r' = Returned \<and> rd_buf r' = rd_buf r"
    "rd_at r = Store_Count \<Longrightarrow> rd_read r = 0 \<Longrightarrow> rd_reg r = 0 \<Longrightarrow>
      \<exists>r'. reader_steps 64 9 (stream_pop v 2\<lparr>st_count := 0\<rparr>, r) = Inr (stream_pop v 2\<lparr>st_count := 0\<rparr>, r') \<and> rd_at r' = Returned \<and> rd_buf r' = rd_buf r"
    "rd_at r = Next \<Longrightarrow> \<exists>r'. reader_steps 64 9 (stream_pop v 1, r) = Inr (stream_pop v 1, r') \<and> rd_at r' = Returned \<and> rd_buf r' = rd_buf r"
    "rd_at r = Returned \<Longrightarrow> \<exists>r'. reader_steps 64 9 (stream_pop v 1, r) = Inr (stream_pop v 1, r') \<and> rd_at r' = Returned \<and> rd_buf r' = rd_buf r"
  using assms(1-3) one_char_pop[OF assms(1), folded slot_def]
  by (simp_all add: reader_step_def eval_nat_numeral arr_get_int_def)

text \<open>What an interrupted output of \<open>c\<close> shows, with \<open>stale\<close> the character that an earlier lap has left in
  the next slot of the ring, and where the stream ends up.\<close>

definition garbled :: "nat \<Rightarrow> char \<Rightarrow> char \<Rightarrow> char list" where
  "garbled n c stale = (if n = 0 \<or> 7 \<le> n then [c] else if n \<le> 2 then [c, stale] else if n \<le> 4 then [c, c] else [stale, c])"

definition left_over :: "nat \<Rightarrow> stream \<Rightarrow> stream" where
  "left_over n v = (if n = 0 \<or> 7 \<le> n then stream_pop v 1
     else if n = 4 then v\<lparr>st_tail := (st_tail v + 1) mod 1024, st_count := - 1\<rparr>
     else if n = 6 then stream_pop v 2\<lparr>st_count := 0\<rparr> else stream_pop v 2)"

lemma interrupted_putc_result:
  assumes sh: "con_ok sh" "st_count (sh_streams sh ! 1) = 0" "st_count (sh_streams sh ! 0) < 1024"
    and w: "stream_write (sh_streams sh ! 1) (nth [c]) 1 = Inr (v, n')"
    and v: "st_count v = 1" "length (st_data v) = 1024" "0 \<le> st_tail v" "st_tail v < 1024" "st_data v ! 0 \<noteq> LF"
      "st_data v ! nat (st_tail v) = c"
  shows "interrupted_putc n key sh c
    = Inr (showing sh key (garbled n c (st_data v ! nat ((st_tail v + 1) mod 1024))) (left_over n v))"
proof -
  let ?slot = "(st_tail v + 1) mod 1024"
  have nat: "nat (st_tail v) < 1024" using v(3,4) by (simp add: nat_less_iff)
  note at = one_char_steps[OF v(1-3) nat v(5)]
  note fin = one_char_resumed[OF v(1,2,5)]
  have pop: "st_count (stream_pop v 1) = 0" "st_count (stream_pop v 2) = - 1" "st_data (stream_pop v i) = st_data v"
    "0 \<le> st_tail (stream_pop v i)" "st_tail (stream_pop v i) < 1024" for i
    using v(1) by (simp_all add: stream_pop_def)
  have half: "stream_pop v 2\<lparr>st_count := 0\<rparr> = stream_pop (v\<lparr>st_tail := ?slot\<rparr>) (Suc 0)"
    using v(1) by (simp add: stream_pop_def mod_simps add.commute)
  note go = interrupted_putc_at[OF sh w]
  consider "n = 0" | "n = 1" | "n = 2" | "n = 3" | "n = 4" | "n = 5" | "n = 6" | "n = 7" | "n = 8" | "9 \<le> n" by linarith
  then show ?thesis
  proof cases
    case 1
    with go[OF at(1) fin(1)] v pop show ?thesis by (simp add: garbled_def left_over_def reader_start_def)
  next
    case 2
    with go[OF at(2) fin(2)] v pop show ?thesis by (simp add: garbled_def left_over_def)
  next
    case 3
    with go[OF at(3) fin(3)] v pop show ?thesis by (simp add: garbled_def left_over_def)
  next
    case 4
    with go[OF at(4) fin(4)] v pop show ?thesis by (simp add: garbled_def left_over_def)
  next
    case 5
    with go[OF at(5) fin(5)] v pop show ?thesis by (simp add: garbled_def left_over_def)
  next
    case 6
    with go[OF at(6) fin(6)] v pop half show ?thesis by (simp add: garbled_def left_over_def)
  next
    case 7
    with go[OF at(7) fin(7)] v pop half show ?thesis by (simp add: garbled_def left_over_def)
  next
    case 8
    with go[OF at(8) fin(8)] v pop show ?thesis by (simp add: garbled_def left_over_def)
  next
    case 9
    with go[OF at(9) fin(1)] v pop show ?thesis by (simp add: garbled_def left_over_def)
  next
    case 10
    have "reader_steps 64 n (v, reader_start) = Inr (stream_pop v 1, \<lparr>rd_at = Returned, rd_read = 1, rd_buf = [c], rd_reg = 0\<rparr>)"
      using reader_steps_end[OF at(10) _ 10] v(6) by simp
    from go[OF this fin(9)] 10 v pop show ?thesis by (simp add: garbled_def left_over_def)
  qed
qed

text \<open>The output without an interrupt.\<close>

lemma sh_putc_one:
  assumes sh: "con_ok sh" and w: "stream_write (sh_streams sh ! 1) (nth [c]) 1 = Inr (v, n')"
    and v: "st_count v = 1" "length (st_data v) = 1024" "0 \<le> st_tail v" "st_tail v < 1024" "st_data v ! 0 \<noteq> LF"
      "st_data v ! nat (st_tail v) = c"
  shows "sh_putc sh c = Inr ((sh_show (sh\<lparr>sh_color := 0x07\<rparr>) [c])\<lparr>sh_streams := (sh_streams sh)[1 := stream_pop v 1]\<rparr>)"
proof -
  let ?c = "sh\<lparr>sh_color := 0x07, sh_streams := (sh_streams sh)[1 := stream_pop v 1]\<rparr>"
  have ok: "sh_term_ok ?c" "length (sh_streams sh) = 3" "st_count (sh_streams sh ! 2) = 0"
    using sh by (simp_all add: con_ok_def sh_ok_iff)
  have "stream_read v 64 = Inr (stream_pop v 1, [c])"
    using v by (simp add: stream_read_def eval_nat_numeral arr_get_int_def stream_pop_def nat_less_iff)
  moreover have "render_from [c] ?c = Inr (sh_show ?c [c])"
    using render_from_ok[OF ok(1), of "[c]" c] ok(2,3) v(1) by simp
  ultimately show ?thesis
    using w ok(2) sh_show_streams_update[where sh = "sh\<lparr>sh_color := 0x07\<rparr>" and cs = "[c]"]
    by (simp add: sh_putc_parts Let_def)
qed

text \<open>A stream with a negative count swallows the next character.\<close>

lemma sh_putc_swallowed:
  assumes "length (sh_streams sh) = 3" "sh_streams sh ! 1 = v" "st_count v = - 1" "length (st_data v) = 1024"
    "0 \<le> st_head v" "st_head v < 1024" "st_count (sh_streams sh ! 2) = 0"
  shows "sh_putc sh d = Inr (sh\<lparr>sh_color := 0x07, sh_streams := (sh_streams sh)[1 := pushed v d]\<rparr>)"
proof -
  let ?t = "sh\<lparr>sh_color := 0x07, sh_streams := (sh_streams sh)[1 := pushed v d]\<rparr>"
  have "stream_write v (nth [d]) 1 = Inr (pushed v d, 1)"
    using stream_put_pushed[of v d] assms by (simp add: stream_write_def)
  moreover have "stream_read (pushed v d) 64 = Inr (pushed v d, [])"
    using assms(3) by (simp add: stream_read_def eval_nat_numeral)
  moreover have "sh_drain 2 (?t\<lparr>sh_color := 0x04\<rparr>) = Inr (?t\<lparr>sh_color := 0x04\<rparr>)"
    using sh_drain_idle[of 2 "?t\<lparr>sh_color := 0x04\<rparr>"] assms(1,7) by simp
  then have "render_from [] ?t = Inr ?t" by (simp add: render_from_def Let_def)
  ultimately show ?thesis using assms(1,2) by (simp add: sh_putc_parts Let_def)
qed

section \<open>Properties\<close>

text \<open>The steps are the function. For every stream and length, well-formed or not, running the
  steps of \<open>stream_read\<close> one after the other without an interrupt ends, and gives the stream and the bytes
  that the function gives, or its fault.\<close>

theorem reader_steps_refine:
  "case stream_read s (int len) of
     Inl e \<Rightarrow> reader_steps len (8 * len + 8) (s, reader_start) = Inl e
   | Inr (t, bs) \<Rightarrow> \<exists>r. reader_steps len (8 * len + 8) (s, reader_start) = Inr (t, r) \<and> rd_at r = Returned \<and> rd_buf r = bs"
  using reader_loop[of reader_start len len "8 * len + 8" s]
  by (auto simp: stream_read_def reader_start_def split: sum.splits)

text \<open>C22: a key during a read of the standard input. The console is idle and the input has room. Whatever
  step of the read the keyboard interrupt follows, the read returns. Unless the interrupt falls
  between the load and the store of \<open>s->count--\<close>, the bytes read and the bytes left are the bytes that
  were waiting and then the key. In that window the key is lost for now: the count is one short of the
  characters in the ring, for good, and from then on each further key makes only its predecessor readable.\<close>

theorem key_during_read:
  assumes "sh_ok sh" "st_count (sh_streams sh ! STREAM_STDOUT) = 0" "st_count (sh_streams sh ! STREAM_STDERR) = 0"
    "st_count (sh_streams sh ! STREAM_STDIN) < 1024"
  shows "\<exists>p t r. interrupted_read STREAM_STDIN len n c sh = Inr (p, t, r) \<and> rd_at r = Returned
    \<and> (let waiting = stream_contents (sh_streams sh ! STREAM_STDIN); seen = rd_buf r @ stream_contents (sh_streams t ! STREAM_STDIN) in
        if p \<noteq> Store_Count then sh_ok t \<and> seen = waiting @ [c]
        else \<not> sh_ok t \<and> seen = waiting
          \<and> (\<forall>d. \<exists>u. key_interrupt d t = Inr u \<and> rd_buf r @ stream_contents (sh_streams u ! STREAM_STDIN) = waiting @ [c]))"
proof -
  let ?s = "sh_streams sh ! 0" and ?xs = "stream_contents (sh_streams sh ! 0)"
  have l: "length (sh_streams sh) = 3" using assms(1) by (simp add: sh_ok_iff)
  have s: "stream_ok ?s" using sh_ok_stream[OF assms(1), of 0] by simp
  note ps = pushed_ok[OF s assms(4), of c]
  let ?t = "\<lambda>t. sh\<lparr>sh_color := 0x07, sh_streams := (sh_streams sh)[0 := t]\<rparr>"
  obtain p t r where r: "interrupted_read 0 len n c sh = Inr (p, ?t t, r)" "rd_at r = Returned"
    "reads (if p = Store_Count then (pushed ?s c)\<lparr>st_count := st_count ?s\<rparr> else pushed ?s c) (t, r)"
    "p = Store_Count \<Longrightarrow> rd_buf r \<noteq> []"
    using interrupted_read_stdin[OF l _ _ refl s assms(4), of len n c] assms(2,3) by auto
  let ?i = "rd_read r"
  show ?thesis
  proof (cases "p = Store_Count")
    case False
    with r(2,3) have t: "?i \<le> length (?xs @ [c])" "t = stream_pop (pushed ?s c) ?i" "rd_buf r = take ?i (?xs @ [c])"
      by (simp_all add: reads_def Let_def ps(2))
    have "0 \<le> st_count ?s" using s by (simp add: stream_ok_def)
    then have i: "int ?i \<le> st_count (pushed ?s c)" using t(1) by simp
    have "stream_ok t" unfolding t(2) by (rule stream_pop_ok(1)[OF ps(1) i])
    then have "sh_ok (?t t)" using sh_ok_set_stream[of "sh\<lparr>sh_color := 0x07\<rparr>" t 0] assms(1) by simp
    moreover have "stream_contents t = drop ?i (?xs @ [c])"
      unfolding t(2) using stream_pop_ok(2)[OF ps(1) i] ps by simp
    then have "rd_buf r @ stream_contents t = ?xs @ [c]" by (simp only: t(3) append_take_drop_id)
    ultimately show ?thesis using False r(1,2) l by (simp add: Let_def)
  next
    case True
    let ?s0 = "(pushed ?s c)\<lparr>st_count := st_count ?s\<rparr>" and ?v = "stream_pop (pushed ?s c) ?i"
    have n: "0 \<le> st_count ?s" "length ?xs = nat (st_count ?s)" using s by (simp_all add: stream_ok_def)
    have xs: "stream_contents ?s0 = ?xs" using n by (simp add: contents_shorter ps(2))
    with True r(2,3) have t: "?i \<le> length ?xs" "t = stream_pop ?s0 ?i" "rd_buf r = take ?i ?xs"
      by (simp_all add: reads_def Let_def)
    with r(4) True have "0 < ?i" by (cases ?i) simp_all
    then have v: "stream_ok ?v" "0 < st_count ?v" "st_count ?v < 1024" "stream_contents ?v = drop ?i (?xs @ [c])"
      using stream_pop_ok[OF ps(1), of ?i] t(1) n ps(2) assms(4) by simp_all
    have tv: "t = ?v\<lparr>st_count := st_count ?v - 1\<rparr>" using t(2) by (simp add: stream_pop_def)
    note hidden = hidden_char[OF v(1-3), folded tv]
    have "stream_contents t = drop ?i ?xs"
      unfolding tv using contents_shorter[of "st_count ?v - 1" ?v] v(4) t(1) n by simp
    moreover have "key_interrupt d (?t t) = Inr ((?t t)\<lparr>sh_streams := (sh_streams (?t t))[0 := pushed t d]\<rparr>)" for d
      using key_interrupt_idle[of "?t t" t d] l assms(2,3) v tv by (simp add: stream_ok_def)
    moreover have "\<not> sh_ok (?t t)" using sh_ok_stream[of "?t t" 0] hidden(1) l by auto
    ultimately show ?thesis
      using True r(1,2) t(1,3) hidden(2) v(4) l by (simp add: Let_def)
  qed
qed

text \<open>The demonstration console with one character waiting: the key arrives between the load and the store,
  and the read returns without it.\<close>

definition one_waiting :: stream where
  "one_waiting = pushed (stream_empty (replicate 1024 CHR ''-'')) CHR ''a''"

lemma one_waiting_facts:
  "stream_ok one_waiting" "st_count one_waiting = 1" "stream_contents one_waiting = ''a''"
  "st_data one_waiting ! 0 = CHR ''a''" "st_tail one_waiting = 0"
proof -
  have e: "stream_ok (stream_empty (replicate 1024 CHR ''-''))" by simp
  show "stream_ok one_waiting" "stream_contents one_waiting = ''a''"
    using pushed_ok[OF e] by (simp_all add: one_waiting_def)
  show "st_count one_waiting = 1" "st_data one_waiting ! 0 = CHR ''a''" "st_tail one_waiting = 0"
    by (simp_all add: one_waiting_def pushed_def) (simp add: stream_empty_def)
qed

theorem key_during_read_witness:
  "\<exists>sh t r. sh_ok sh \<and> stream_contents (sh_streams sh ! 0) = ''a''
    \<and> interrupted_read STREAM_STDIN 64 6 CHR ''b'' sh = Inr (Store_Count, t, r)
    \<and> rd_buf r @ stream_contents (sh_streams t ! 0) = ''a'' \<and> \<not> sh_ok t"
proof -
  from sh_raw_init[of 80 2000] obtain s0 where s0: "con_ok s0" "con_of s0 = (80, (blank_cells 2000, 0), Live 0)" by auto
  let ?sh = "s0\<lparr>sh_streams := (sh_streams s0)[0 := one_waiting]\<rparr>"
  have l: "length (sh_streams s0) = 3" using s0(1) by (simp add: con_ok_def sh_ok_iff)
  have ok: "sh_ok ?sh" using s0(1) one_waiting_facts(1) by (simp add: con_ok_def sh_ok_set_stream)
  have out: "st_count (sh_streams ?sh ! 1) = 0" "st_count (sh_streams ?sh ! 2) = 0" "st_count (sh_streams ?sh ! 0) < 1024"
    using s0 l one_waiting_facts(2) by (simp_all add: con_of_def con_ok_def Let_def split: if_splits)
  have d: "length (st_data one_waiting) = 1024" by (rule stream_ok_length[OF one_waiting_facts(1)])
  have six: "reader_steps 64 6 (one_waiting, reader_start) = Inr (one_waiting\<lparr>st_tail := 1\<rparr>,
      \<lparr>rd_at = Store_Count, rd_read = 0, rd_buf = ''a'', rd_reg = 0\<rparr>)"
    using one_char_steps(7)[OF one_waiting_facts(2) d] one_waiting_facts(4,5) by simp
  obtain p t r where r: "interrupted_read STREAM_STDIN 64 6 CHR ''b'' ?sh = Inr (p, t, r)"
    "if p \<noteq> Store_Count then sh_ok t \<and> rd_buf r @ stream_contents (sh_streams t ! 0) = stream_contents (sh_streams ?sh ! 0) @ ''b''
     else \<not> sh_ok t \<and> rd_buf r @ stream_contents (sh_streams t ! 0) = stream_contents (sh_streams ?sh ! 0)"
    using key_during_read[OF ok out, of 64 6 "CHR ''b''"] by (auto simp: Let_def split: if_splits)
  have "p = Store_Count" using r(1) six l by (auto simp: interrupted_read_def on_stream_def rbind_eq_Inr)
  with r ok l one_waiting_facts(3) show ?thesis by auto
qed

text \<open>C10: a key during the output of a character. The console is live, the input has room, and the
  keyboard interrupt follows the \<open>n\<close>th step of the read that \<open>sh_putc\<close> makes to render \<open>c\<close>. Before the first
  test or after the store to \<open>count\<close> it does no harm: the console shows \<open>c\<close> and nothing else. At any of
  the six points in between the handler renders the same character: the console shows two characters
  for one, \<open>c\<close> twice or \<open>c\<close> and what an earlier lap left in the ring, and the output stream is broken:
  no shell is well-formed with it, and at all but the last of these points the next character is
  swallowed, whatever it is. The key itself arrives.\<close>

theorem key_during_output:
  assumes "con_ok sh" "st_count (sh_streams sh ! STREAM_STDOUT) = 0" "st_count (sh_streams sh ! STREAM_STDIN) < 1024"
    "c = LF \<Longrightarrow> st_head (sh_streams sh ! STREAM_STDOUT) \<noteq> 0"
  shows "\<exists>t. interrupted_putc n key sh c = Inr t
    \<and> stream_contents (sh_streams t ! STREAM_STDIN) = stream_contents (sh_streams sh ! STREAM_STDIN) @ [key]
    \<and> (let out = sh_streams sh ! STREAM_STDOUT; stale = st_data out ! nat ((st_head out + 1) mod 1024) in
        sh_screen t = fold (term_char (unat (sh_width sh)) 0x07) (garbled n c stale) (sh_screen sh))
    \<and> (if n = 0 \<or> 7 \<le> n then con_ok t \<and> con_of t = con_step c (con_of sh)
       else \<not> sh_ok t \<and> (n \<noteq> 6 \<longrightarrow> (\<forall>d. \<exists>u. sh_putc t d = Inr u \<and> sh_screen u = sh_screen t)))"
proof -
  let ?out = "sh_streams sh ! 1" and ?in = "sh_streams sh ! 0"
  let ?v = "pushed ?out c" and ?h = "st_head ?out"
  have ok: "sh_ok sh" "length (sh_streams sh) = 3" "st_count (sh_streams sh ! 2) = 0" "stream_ok ?out" "stream_ok ?in"
    using assms(1) by (simp_all add: con_ok_def sh_ok_iff)
  have h: "0 \<le> ?h" "?h < 1024" "st_tail ?out = ?h" using ok(4) assms(2) by (simp_all add: stream_ok_def)
  have len: "length (st_data ?out) = 1024" by (rule stream_ok_length[OF ok(4)])
  have w: "stream_write ?out (nth [c]) 1 = Inr (?v, 1)"
    using stream_put_pushed[OF h(1,2) len, of c] assms(2) by (simp add: stream_write_def)
  have d: "st_data ?v = (st_data ?out)[nat ?h := c]" "st_head ?v = (?h + 1) mod 1024" by (simp_all add: pushed_def)
  have nat: "nat ?h < 1024" using h by (simp add: nat_less_iff)
  have "st_data ?v ! 0 \<noteq> LF"
    using assms(1,2,4) len h by (cases "?h = 0") (auto simp: pushed_def con_ok_def stream_wedged_def nth_list_update)
  then have v: "st_count ?v = 1" "length (st_data ?v) = 1024" "0 \<le> st_tail ?v" "st_tail ?v < 1024" "st_data ?v ! 0 \<noteq> LF"
    "st_data ?v ! nat (st_tail ?v) = c"
    using assms(2) len h nat by (simp_all add: pushed_def)
  have "(?h + 1) mod 1024 \<noteq> ?h mod 1024" by (simp add: mod_eq_dvd_iff)
  then have "nat ((?h + 1) mod 1024) \<noteq> nat ?h" using h(1,2) by (simp add: nat_eq_iff)
  then have stale: "st_data ?v ! nat ((st_tail ?v + 1) mod 1024) = st_data ?out ! nat ((?h + 1) mod 1024)"
    using h(3) by (simp add: pushed_def)
  let ?cs = "garbled n c (st_data ?out ! nat ((?h + 1) mod 1024))"
  let ?t = "showing sh key ?cs (left_over n ?v)"
  have t: "interrupted_putc n key sh c = Inr ?t"
    using interrupted_putc_result[OF assms(1-3) w v] stale by simp
  have "sh_term_ok (sh\<lparr>sh_color := 0x07\<rparr>)" using ok(1) by (simp add: sh_ok_iff)
  from sh_show_screen[OF this, of ?cs]
  have screen: "sh_screen ?t = fold (term_char (unat (sh_width sh)) 0x07) ?cs (sh_screen sh)"
    by (simp add: showing_def sh_screen_def)
  have strs: "sh_streams ?t ! 0 = pushed ?in key" "sh_streams ?t ! 1 = left_over n ?v" "length (sh_streams ?t) = 3"
    "sh_streams ?t ! 2 = sh_streams sh ! 2"
    using ok(2) by (simp_all add: showing_def)
  have key: "stream_contents (sh_streams ?t ! 0) = stream_contents ?in @ [key]" "stream_ok (pushed ?in key)"
    unfolding strs using pushed_ok[OF ok(5) assms(3), of key] by simp_all
  have harm: "if n = 0 \<or> 7 \<le> n then con_ok ?t \<and> con_of ?t = con_step c (con_of sh)
    else \<not> sh_ok ?t \<and> (n \<noteq> 6 \<longrightarrow> (\<forall>d. \<exists>u. sh_putc ?t d = Inr u \<and> sh_screen u = sh_screen ?t))"
  proof (cases "n = 0 \<or> 7 \<le> n")
    case True
    let ?p = "(sh_show (sh\<lparr>sh_color := 0x07\<rparr>) [c])\<lparr>sh_streams := (sh_streams sh)[1 := stream_pop ?v 1]\<rparr>"
    have "con_ok ?p" "con_of ?p = con_step c (con_of sh)"
      using con_putc_live[OF assms(1,2), of c] sh_putc_one[OF assms(1) w v] by simp_all
    moreover have "?t = ?p\<lparr>sh_streams := (sh_streams ?p)[0 := pushed ?in key]\<rparr>"
      using True by (auto simp: showing_def garbled_def left_over_def list_update_swap)
    ultimately show ?thesis using True con_ok_stdin[OF _ key(2), of ?p] con_of_stdin[of ?p] by metis
  next
    case False
    have lo: "st_count (left_over n ?v) = (if n = 6 then 0 else - 1)" "st_data (left_over n ?v) = st_data ?v"
      "st_head (left_over n ?v) = (?h + 1) mod 1024" "n = 6 \<Longrightarrow> st_tail (left_over n ?v) = (?h + 2) mod 1024"
      using False v(1) h(3) d(2) by (auto simp: left_over_def stream_pop_def)
    have "(?h + 1) mod 1024 \<noteq> (?h + 2) mod 1024" by (simp add: mod_eq_dvd_iff)
    then have "\<not> stream_ok (left_over n ?v)" using lo by (cases "n = 6") (simp_all add: stream_ok_def)
    then have bad: "\<not> sh_ok ?t" using sh_ok_stream[of ?t 1] strs(2) by auto
    have "\<exists>u. sh_putc ?t e = Inr u \<and> sh_screen u = sh_screen ?t" if "n \<noteq> 6" for e
      using sh_putc_swallowed[OF strs(3,2), of e] lo that v(2) strs(4) ok(3) by (simp add: sh_screen_def)
    with bad False show ?thesis by auto
  qed
  show ?thesis unfolding Let_def by (intro exI[of _ ?t] conjI t key(1) screen harm)
qed

theorem key_during_output_witness:
  "\<exists>sh t u. sh_init sh_raw (blank_cells 2000) 80 2000 = Inr sh
    \<and> interrupted_putc 3 CHR ''k'' sh CHR ''X'' = Inr t
    \<and> sh_screen t = fold (term_char 80 0x07) ''XX'' (blank_cells 2000, 0)
    \<and> sh_putc t CHR ''Y'' = Inr u \<and> sh_screen u = sh_screen t"
proof -
  from sh_init_ok[of 80 2000 "blank_cells 2000" sh_raw] obtain sh where
    sh: "sh_init sh_raw (blank_cells 2000) 80 2000 = Inr sh" "con_ok sh" "con_of sh = (80, (blank_cells 2000, 0), Live 0)"
    and empty: "stream_contents (sh_streams sh ! 0) = []"
    by (auto simp: sh_raw_def blank_cells_def)
  have "nat (st_count (sh_streams sh ! 0)) = 0" using empty length_contents[of "sh_streams sh ! 0"] by simp
  then have c: "st_count (sh_streams sh ! 1) = 0" "st_count (sh_streams sh ! 0) < 1024" "unat (sh_width sh) = 80"
    "sh_screen sh = (blank_cells 2000, 0)"
    using sh(3) by (simp_all add: con_of_def Let_def split: if_splits)
  have "garbled 3 CHR ''X'' x = ''XX''" for x by (simp add: garbled_def)
  with key_during_output[OF sh(2) c(1,2), of "CHR ''X''" 3 "CHR ''k''"] sh(1) c(3,4) show ?thesis
    by (auto simp: Let_def)
qed

text \<open>C23: which code can be interrupted. Once boot has reached user mode, the handlers of the timer, the
  keyboard and the exceptions start with interrupts disabled, whatever they interrupt; the handler of
  system calls starts with the interrupt flag of its caller. System calls are the one handler that the
  keyboard can interrupt.\<close>

theorem only_calls_interruptible:
  assumes "platform_ok pf" "kernel_entry pf magic addr = Inr (Boot_User c0 k)" "v < 256"
    "deliver (k_idt k) v err (c, m) = Some (c', m')"
  shows "bit (uc_eflags c') 9 \<longleftrightarrow> v = 128 \<and> bit (uc_eflags c) 9"
proof -
  have gate: "gate_of (idt_entries (k_idt k) ! v) = boot_gate (pf_isr pf) (pf_irq pf) v"
    using boot_reaches_user(5)[OF assms(1,2)] assms(3) by blast
  obtain g where g: "boot_gate (pf_isr pf) (pf_irq pf) v = Some g"
    using assms(4) gate by (auto simp: deliver_def split: option.splits)
  then have kind: "gate_kind g = (if v = 128 then Trap_Gate else Interrupt_Gate)"
    by (auto simp: boot_gate_def exception_vectors_def split: if_splits)
  have "uc_eflags c' = gate_flags (gate_kind g) (uc_eflags c)"
    using assms(4) deliver_ok[OF gate[unfolded g], of err c m] by (auto simp: trap_regs_def Let_def)
  then show ?thesis by (auto simp: kind gate_flags_def bit_simps)
qed

theorem only_calls_interruptible_witness:
  "\<exists>(k :: kernel) c1 m1 c2 m2. deliver (k_idt k) 128 None (demo_regs 4, k_memory k) = Some (c1, m1) \<and> bit (uc_eflags c1) 9
    \<and> deliver (k_idt k) 33 None (c1, m1) = Some (c2, m2) \<and> \<not> bit (uc_eflags c2) 9"
proof -
  obtain k where k: "kernel_entry demo_platform 0x36d76289 0x10000
      = Inr (Boot_User (um_switch (pf_context demo_platform)) k)" using demo_boot by blast
  have gate: "gate_of (idt_entries (k_idt k) ! v) = boot_gate (pf_isr demo_platform) (pf_irq demo_platform) v" if "v < 256" for v
    using boot_reaches_user(5)[OF demo_platform_ok k] that by blast
  obtain c1 m1 where d1: "deliver (k_idt k) 128 None (demo_regs 4, k_memory k) = Some (c1, m1)"
    using deliver_ok gate[of 128] by (fastforce simp: boot_gate_def exception_vectors_def)
  obtain c2 m2 where d2: "deliver (k_idt k) 33 None (c1, m1) = Some (c2, m2)"
    using deliver_ok gate[of 33] by (fastforce simp: boot_gate_def exception_vectors_def)
  have "bit (uc_eflags (demo_regs 4)) 9" by (simp add: demo_regs_def)
  then have "bit (uc_eflags c1) 9" "\<not> bit (uc_eflags c2) 9"
    using only_calls_interruptible[OF demo_platform_ok k _ d1] only_calls_interruptible[OF demo_platform_ok k _ d2] by simp_all
  with d1 d2 show ?thesis by blast
qed

end
