(* ===== verification/Boot_Irqs.thy ===== *)
theory Boot_Irqs
  imports Interference
begin

text \<open>
  Booting with interrupts. \<open>kernel_entry\<close> enables interrupts long before it is done; here the timer and
  the keyboard may interrupt it after \<open>sti\<close> and after every statement that follows, down to the entries of the
  directory listing, each time any number of times. What arrives when is a schedule: the requests at
  the first such point, at the second, and so on.

  Interrupts are taken between statements; what one inside a statement can do is the subject of theory
  Interference.
\<close>

section \<open>Requests\<close>

text \<open>A request: the frame with its vector, and what the devices answer.\<close>

type_synonym request = "frame \<times> (u16 \<Rightarrow> u8)"

type_synonym schedule = "request list list"

primrec serve :: "request list \<Rightarrow> kernel \<Rightarrow> kernel res" where
  "serve [] k = Inr k"
| "serve (r # rs) k = rbind (irq_handler (snd r) (fst r) k) (serve rs)"

fun poll :: "kernel \<times> schedule \<Rightarrow> (kernel \<times> schedule) res" where
  "poll (k, []) = Inr (k, [])"
| "poll (k, rs # q) = rbind (serve rs k) (\<lambda>k. Inr (k, q))"

text \<open>A statement and what interrupts the code behind it.\<close>

definition stmt :: "(kernel \<Rightarrow> kernel res) \<Rightarrow> kernel \<times> schedule \<Rightarrow> (kernel \<times> schedule) res" where
  "stmt f = (\<lambda>(k, q). rbind (f k) (\<lambda>k. poll (k, q)))"

section \<open>The entry point with interrupts\<close>

text \<open>The functions of Rootdir, Usermode and Boot, statement by statement.\<close>

definition print_dir_cb_irqs :: "(kernel \<times> schedule) dirent_cb" where
  "print_dir_cb_irqs name inode x =
     rbind (stmt (k_printf (line '' - %s'') [VStr (Some name), VInt inode]) x) (\<lambda>x. Inr (True, x))"

definition find_file_irqs :: "char list \<Rightarrow> kernel \<times> schedule \<Rightarrow> (u32 \<times> kernel \<times> schedule) res" where
  "find_file_irqs filename = (\<lambda>(k, q).
     rbind (ext2_read_inode (k_memory k) (k_fs k) EXT2_ROOT_INO) (\<lambda>root.
     case root of
       None \<Rightarrow> rbind (stmt (k_puts (line (''EXT2: Can'' @ [CHR 0x27] @ ''t read root inode''))) (k, q)) (\<lambda>x. Inr (0, x))
     | Some root_inode \<Rightarrow>
         rbind (stmt (k_puts (line ''Disk Contents:'')) (k, q)) (\<lambda>(k, q).
         rbind (ext2_read_dir (k_memory k) (k_fs k) root_inode print_dir_cb_irqs (k, q)) (\<lambda>(k, q).
         rbind (ext2_read_dir (k_memory k) (k_fs k) root_inode find_file_callback
             \<lparr>target_name = filename, found_inode = 0, found = False\<rparr>) (\<lambda>ctx.
         rbind (if found ctx then Inr (k, q)
                else stmt (k_printf (line (''DEBUG: '' @ [CHR 0x27] @ ''%s'' @ [CHR 0x27]
                  @ '' not found in root (tried exact match)'')) [VStr (Some filename)]) (k, q)) (\<lambda>x.
           Inr (found_inode ctx, x)))))))"

definition um_load_irqs :: "char list \<Rightarrow> u32 \<Rightarrow> kernel \<times> schedule \<Rightarrow> (kernel \<times> schedule) res" where
  "um_load_irqs program_name inode_num = (\<lambda>(k, q).
     rbind (if inode_num = 0 then Inr None else ext2_read_inode (k_memory k) (k_fs k) inode_num) (\<lambda>found_inode.
     case found_inode of
       None \<Rightarrow> stmt (k_printf (line ''Failed to find program: %s'') [VStr (Some program_name)]) (k, q)
     | Some inode \<Rightarrow>
         rbind (ext2_read_file (k_memory k) (k_fs k) inode USER_CODE_BASE (i_size_lo inode) 0) (\<lambda>(bytes_read, m).
         rbind (poll (k\<lparr>k_memory := m\<rparr>, q)) (\<lambda>x.
         if bytes_read \<noteq> i_size_lo inode then
           stmt (k_printf (line ''Failed to read complete program (read %d of %d bytes)'')
             [VInt bytes_read, VInt (i_size_lo inode)]) x
         else Inr x))))"

definition um_setup_env_irqs :: "char list \<Rightarrow> kernel \<times> schedule \<Rightarrow> (kernel \<times> schedule) res" where
  "um_setup_env_irqs program_name = (\<lambda>(k, q).
     rbind (proc_create (k_procs k) (k_pmm k)) (\<lambda>(proc, pm, p).
     rbind (poll (k\<lparr>k_procs := pm, k_pmm := p\<rparr>, q)) (\<lambda>x.
     case proc of
       None \<Rightarrow> stmt (k_puts (line ''Failed to create process'')) x
     | Some pid \<Rightarrow>
         rbind (arr_get (process_table pm) pid) (\<lambda>pr.
         rbind (stmt (\<lambda>k. Inr (k\<lparr>k_idt := tss_set_kernel_stack (pr_kernel_stack_top pr) (k_idt k)\<rparr>)) x) (\<lambda>x.
         rbind (find_file_irqs program_name x) (\<lambda>(inode_num, x).
           um_load_irqs program_name inode_num x))))))"

definition boot_memory_irqs :: "u32 \<Rightarrow> u32 \<Rightarrow> kernel \<times> schedule \<Rightarrow> (kernel \<times> schedule) res" where
  "boot_memory_irqs mb2_magic mb2_address = (\<lambda>(k, q).
     case mb2_get_memory (k_memory k) mb2_magic mb2_address of
        None \<Rightarrow> Inl Hang
      | Some total_memory_bytes \<Rightarrow>
          rbind (poll (k, q)) (\<lambda>x.
          rbind (stmt (k_printf (line ''Booted with %d MB of Memory.'')
            [VInt (ucast (total_memory_bytes div (1024 * 1024)))]) x) (\<lambda>x.
          let pmm_start_addr = 0x100000;
              pmm_total_size = ucast (total_memory_bytes - ucast pmm_start_addr) in
          stmt (\<lambda>k. rbind (mem_phys_init pmm_start_addr pmm_total_size (k_pmm k)) (\<lambda>p. Inr (k\<lparr>k_pmm := p\<rparr>))) x)))"

definition boot_program_irqs :: "platform \<Rightarrow> kernel \<times> schedule \<Rightarrow> (boot_end \<times> schedule) res" where
  "boot_program_irqs pf = (\<lambda>(k, q).
     rbind (ext2_mount (k_fs k) (pf_disk_img_start pf) (k_pmm k) (k_memory k)) (\<lambda>(mounted, fs, p, m).
     rbind (poll (k\<lparr>k_fs := fs, k_pmm := p, k_memory := m\<rparr>, q)) (\<lambda>x.
     if mounted then
       rbind (stmt (\<lambda>k. k_printf (line ''EXT2 filesystem mounted successfully! Block size: %d bytes'')
         [VInt (fs_block_size (k_fs k))] k) x) (\<lambda>x.
       rbind (um_setup_env_irqs ''example.bin'' x) (\<lambda>(k, q).
         Inr (Boot_User (um_switch (pf_context pf)) k, q)))
     else rbind (stmt (k_puts (line ''Failed to mount EXT2 filesystem from embedded image.'')) x) (\<lambda>(k, q).
       Inr (Boot_Halt k, q)))))"

definition kernel_entry_irqs :: "platform \<Rightarrow> schedule \<Rightarrow> u32 \<Rightarrow> u32 \<Rightarrow> (boot_end \<times> schedule) res" where
  "kernel_entry_irqs pf q mb2_magic mb2_address =
     rbind (boot_console pf (kernel_static pf)) (\<lambda>k.
     let (gdt_good, k) = boot_gdt pf k in
     if \<not> gdt_good then rbind (k_puts (line ''FATAL: Failed to initialize GDT!'') k) (\<lambda>k. Inr (Boot_Halt k, q))
     else let (idt_good, k) = boot_idt pf k in
     if \<not> idt_good then rbind (k_puts (line ''FATAL: Failed to initialize IDT!'') k) (\<lambda>k. Inr (Boot_Halt k, q))
     else
       let k = pic_init (pf_dev pf) k;
           k = k\<lparr>k_idt := tss_set_kernel_stack (pf_kernel_stack_top pf) (k_idt k)\<rparr> in
       rbind (poll (k, q)) (\<lambda>x. rbind (boot_memory_irqs mb2_magic mb2_address x) (boot_program_irqs pf)))"

section \<open>Specification\<close>

text \<open>The requests the boot enables, and the characters they type.\<close>

definition enabled :: "schedule \<Rightarrow> bool" where
  "enabled q \<longleftrightarrow> (\<forall>rs \<in> set q. \<forall>r \<in> set rs. fr_int_no (fst r) = 32 \<or> fr_int_no (fst r) = 33)"

definition key_of :: "request \<Rightarrow> char list" where
  "key_of = (\<lambda>(fr, dev). if fr_int_no fr = 33 \<and> dev 0x60 < 128 \<and> keymap ! unat (dev 0x60) \<noteq> NUL
     then [keymap ! unat (dev 0x60)] else [])"

definition typed :: "schedule \<Rightarrow> char list" where
  "typed q = concat (map key_of (concat q))"

text \<open>The same kernel, but for the bytes in the standard input and the trace of port accesses.\<close>

definition with_input :: "stream \<Rightarrow> io list \<Rightarrow> kernel \<Rightarrow> kernel" where
  "with_input s tr k = k\<lparr>k_shell := map_option (\<lambda>sh. sh\<lparr>sh_streams := (sh_streams sh)[STREAM_STDIN := s]\<rparr>) (k_shell k),
     k_io := tr\<rparr>"

section \<open>Lemmas: what interrupts leave alone\<close>

lemma typed_append: "typed (q @ q') = typed q @ typed q'"
  by (simp add: typed_def)

lemma with_input_sel [simp]:
  "k_memory (with_input s tr k) = k_memory k" "k_pmm (with_input s tr k) = k_pmm k" "k_gdt (with_input s tr k) = k_gdt k"
  "k_idt (with_input s tr k) = k_idt k" "k_procs (with_input s tr k) = k_procs k" "k_fs (with_input s tr k) = k_fs k"
  "k_io (with_input s tr k) = tr"
  by (simp_all add: with_input_def)

lemma with_input_updates [simp]:
  "(with_input s tr k)\<lparr>k_memory := m\<rparr> = with_input s tr (k\<lparr>k_memory := m\<rparr>)"
  "(with_input s tr k)\<lparr>k_pmm := p\<rparr> = with_input s tr (k\<lparr>k_pmm := p\<rparr>)"
  "(with_input s tr k)\<lparr>k_idt := i\<rparr> = with_input s tr (k\<lparr>k_idt := i\<rparr>)"
  "(with_input s tr k)\<lparr>k_procs := pm\<rparr> = with_input s tr (k\<lparr>k_procs := pm\<rparr>)"
  "(with_input s tr k)\<lparr>k_fs := fs\<rparr> = with_input s tr (k\<lparr>k_fs := fs\<rparr>)"
  "(with_input s tr k)\<lparr>k_io := tr'\<rparr> = with_input s tr' k"
  by (simp_all add: with_input_def)

text \<open>A live console in the default colour.\<close>

definition plain :: "kernel \<Rightarrow> bool" where
  "plain k \<longleftrightarrow> (\<exists>sh. k_shell k = Some sh \<and> con_ok sh \<and> sh_color sh = 0x07)"

lemma plain_updates [simp]:
  "plain (k\<lparr>k_memory := m\<rparr>) = plain k" "plain (k\<lparr>k_pmm := p\<rparr>) = plain k" "plain (k\<lparr>k_idt := i\<rparr>) = plain k"
  "plain (k\<lparr>k_procs := pm\<rparr>) = plain k" "plain (k\<lparr>k_fs := fs\<rparr>) = plain k" "plain (k\<lparr>k_io := tr\<rparr>) = plain k"
  by (simp_all add: plain_def)

lemma drained_with_input:
  "drained 1 (sh\<lparr>sh_streams := (sh_streams sh)[0 := s]\<rparr>)
    = (drained 1 sh)\<lparr>sh_streams := (sh_streams (drained 1 sh))[0 := s]\<rparr>"
proof -
  have "(sh_streams sh)[0 := s, 1 := v] = (sh_streams sh)[1 := v, 0 := s]" for v by (rule list_update_swap) simp
  then show ?thesis by (simp add: drained_def Let_def sh_show_streams_update)
qed

text \<open>Printing does not look at the standard input.\<close>

lemma putc_with_input:
  assumes "con_ok sh" "stream_ok s"
  shows "\<exists>t. sh_putc sh c = Inr t \<and> con_ok t \<and> sh_color t = 0x07
    \<and> sh_putc (sh\<lparr>sh_streams := (sh_streams sh)[0 := s]\<rparr>) c = Inr (t\<lparr>sh_streams := (sh_streams t)[0 := s]\<rparr>)"
proof -
  let ?f = "\<lambda>sh. sh\<lparr>sh_streams := (sh_streams sh)[0 := s]\<rparr>"
  have ok: "sh_ok sh" "st_count (sh_streams sh ! 2) = 0" "1 < length (sh_streams sh)" "stream_ok (sh_streams sh ! 1)"
    using assms(1) by (simp_all add: con_ok_def sh_ok_iff)
  have ok': "sh_ok (?f sh)" "st_count (sh_streams (?f sh) ! 2) = 0"
    using sh_ok_set_stream[OF ok(1) assms(2), of 0] ok(2) by simp_all
  obtain v n where v: "stream_write (sh_streams sh ! 1) (nth [c]) 1 = Inr (v, n)" "stream_ok v"
    using stream_write_ok[OF ok(4), of "nth [c]" 1] by auto
  then have v': "stream_write (sh_streams (?f sh) ! 1) (nth [c]) 1 = Inr (v, n)" by simp
  let ?t = "sh\<lparr>sh_color := 0x07, sh_streams := (sh_streams sh)[1 := v]\<rparr>"
  have "sh_putc sh c = Inr (drained 1 ?t)" by (rule sh_putc_eq[OF ok(1,2) v])
  moreover from this con_putc_ok[OF assms(1), of c] have "con_ok (drained 1 ?t)" by simp
  moreover have "sh_color (drained 1 ?t) = 0x07" by (simp add: drained_def Let_def)
  moreover have "drained 1 (?f ?t) = ?f (drained 1 ?t)"
    by (rule drained_with_input)
  moreover have "(sh_streams sh)[0 := s, 1 := v] = (sh_streams sh)[1 := v, 0 := s]" by (rule list_update_swap) simp
  then have "(?f sh)\<lparr>sh_color := 0x07, sh_streams := (sh_streams (?f sh))[1 := v]\<rparr> = ?f ?t" by simp
  with sh_putc_eq[OF ok' v' v(2)] have "sh_putc (?f sh) c = Inr (drained 1 (?f ?t))" by simp
  ultimately show ?thesis by simp
qed

lemma puts_with_input:
  assumes "con_ok sh" "sh_color sh = 0x07" "stream_ok s"
  shows "\<exists>t. rfold sh_putc sh cs = Inr t \<and> con_ok t \<and> sh_color t = 0x07
    \<and> rfold sh_putc (sh\<lparr>sh_streams := (sh_streams sh)[0 := s]\<rparr>) cs = Inr (t\<lparr>sh_streams := (sh_streams t)[0 := s]\<rparr>)"
  using assms(1,2)
proof (induction cs arbitrary: sh)
  case (Cons c cs)
  from putc_with_input[OF Cons.prems(1) assms(3), of c] Cons.IH show ?case by fastforce
qed simp

text \<open>The kernel of a boot that has been interrupted, next to the one of a boot that has not.\<close>

definition typing :: "char list \<Rightarrow> kernel \<Rightarrow> kernel \<Rightarrow> bool" where
  "typing ks k k' \<longleftrightarrow> plain k \<and> (\<exists>s tr. stream_ok s \<and> stream_contents s = take 1024 (stdin_text k @ ks)
     \<and> st_tail s = st_tail (stdin_of k) \<and> k' = with_input s tr k)"

lemma typing_refl:
  assumes "plain k"
  shows "typing [] k k"
proof -
  obtain sh where sh: "k_shell k = Some sh" "con_ok sh" using assms by (auto simp: plain_def)
  let ?s = "sh_streams sh ! 0"
  have s: "stream_ok ?s" using sh(2) sh_ok_stream[of sh 0] by (simp add: con_ok_def)
  then have "length (stream_contents ?s) \<le> 1024" by (simp add: stream_ok_def nat_le_iff)
  moreover have "k = with_input ?s (k_io k) k" using sh(1) by (cases k) (simp add: with_input_def)
  ultimately show ?thesis using s sh(1) assms by (auto simp: typing_def stdin_text_eq stdin_of_eq)
qed

text \<open>Printing, and changes of the rest of the state.\<close>

definition oblivious :: "(kernel \<Rightarrow> kernel res) \<Rightarrow> bool" where
  "oblivious f \<longleftrightarrow> (\<forall>ks k k' k1. typing ks k k' \<longrightarrow> f k = Inr k1 \<longrightarrow> (\<exists>k1'. f k' = Inr k1' \<and> typing ks k1 k1'))"

lemma oblivious_puts_list:
  "oblivious (with_shell (\<lambda>sh. rfold sh_putc sh cs))"
  unfolding oblivious_def
proof (intro allI impI)
  fix ks k k' k1
  assume t: "typing ks k k'" and f: "with_shell (\<lambda>sh. rfold sh_putc sh cs) k = Inr k1"
  obtain sh s tr where sh: "k_shell k = Some sh" "con_ok sh" "sh_color sh = 0x07"
    and s: "stream_ok s" "stream_contents s = take 1024 (stdin_text k @ ks)" "k' = with_input s tr k"
      "st_tail s = st_tail (stdin_of k)"
    using t by (auto simp: typing_def plain_def)
  obtain u where u: "rfold sh_putc sh cs = Inr u" "con_ok u" "sh_color u = 0x07"
    "rfold sh_putc (sh\<lparr>sh_streams := (sh_streams sh)[0 := s]\<rparr>) cs = Inr (u\<lparr>sh_streams := (sh_streams u)[0 := s]\<rparr>)"
    using puts_with_input[OF sh(2,3) s(1), of cs] by blast
  have k1: "k1 = k\<lparr>k_shell := Some u\<rparr>" using f sh(1) u(1) by (simp add: with_shell_def)
  have ok: "sh_ok sh" using sh(2) by (simp add: con_ok_def)
  then have "sh_streams u ! 0 = sh_streams sh ! 0" using input_kept.puts_ok[of sh "sh_streams sh ! 0" cs] u(1) by auto
  then have "stdin_text k1 = stdin_text k" "stdin_of k1 = stdin_of k" using k1 sh(1) by (simp_all add: stdin_text_eq stdin_of_eq)
  moreover have "plain k1" using u k1 by (simp add: plain_def)
  moreover have "with_shell (\<lambda>sh. rfold sh_putc sh cs) k' = Inr (with_input s tr k1)"
    using u(4) sh(1) s(3) k1 by (simp add: with_shell_def with_input_def)
  ultimately show "\<exists>k1'. with_shell (\<lambda>sh. rfold sh_putc sh cs) k' = Inr k1' \<and> typing ks k1 k1'"
    using s(1,2,4) by (auto simp: typing_def)
qed

lemma oblivious_puts: "oblivious (k_puts str)"
  using oblivious_puts_list[of "cstr str"] by (simp add: k_puts_def sh_puts_def[abs_def])

lemma oblivious_printf: "oblivious (k_printf fmt args)"
proof (cases "fmt_text fmt args")
  case (Inl e)
  have "k_printf fmt args k \<noteq> Inr k1" if "plain k" for k k1
    using that sh_printf_Inl[OF _ Inl] by (auto simp: plain_def k_printf_def with_shell_def)
  then show ?thesis by (auto simp: oblivious_def typing_def)
next
  case (Inr cs)
  then have "k_printf fmt args = with_shell (\<lambda>sh. rfold sh_putc sh cs)"
    by (simp add: k_printf_def sh_printf_text)
  then show ?thesis by (simp add: oblivious_puts_list)
qed

lemma typing_sel:
  assumes "typing ks k k'"
  shows "k_memory k' = k_memory k" "k_pmm k' = k_pmm k" "k_idt k' = k_idt k" "k_procs k' = k_procs k" "k_fs k' = k_fs k"
  using assms by (auto simp: typing_def)

lemma typing_updates:
  assumes "typing ks k k'"
  shows "typing ks (k\<lparr>k_memory := m\<rparr>) (k'\<lparr>k_memory := m\<rparr>)" "typing ks (k\<lparr>k_pmm := p\<rparr>) (k'\<lparr>k_pmm := p\<rparr>)"
    "typing ks (k\<lparr>k_idt := i\<rparr>) (k'\<lparr>k_idt := i\<rparr>)" "typing ks (k\<lparr>k_procs := pm\<rparr>) (k'\<lparr>k_procs := pm\<rparr>)"
    "typing ks (k\<lparr>k_fs := fs\<rparr>) (k'\<lparr>k_fs := fs\<rparr>)"
  using assms by (fastforce simp: typing_def)+

section \<open>Lemmas: requests\<close>

text \<open>One request types what it types.\<close>

lemma irq_typing:
  assumes t: "typing ks k k'" and v: "fr_int_no fr = 32 \<or> fr_int_no fr = 33"
  shows "\<exists>k1. irq_handler dev fr k' = Inr k1 \<and> typing (ks @ key_of (fr, dev)) k k1"
proof -
  obtain sh s tr where sh: "k_shell k = Some sh" "con_ok sh" "sh_color sh = 0x07" "plain k"
    and s: "stream_ok s" "stream_contents s = take 1024 (stdin_text k @ ks)" "k' = with_input s tr k"
      "st_tail s = st_tail (stdin_of k)"
    using t by (auto simp: typing_def plain_def)
  let ?sh = "sh\<lparr>sh_streams := (sh_streams sh)[0 := s]\<rparr>"
  have k': "k_shell k' = Some ?sh" "k_io k' = tr" using sh(1) s(3) by (simp_all add: with_input_def)
  have quiet: "typing (ks @ key_of (fr, dev)) k (k'\<lparr>k_io := tr'\<rparr>)" if "key_of (fr, dev) = []" for tr'
    using that s sh(4) by (auto simp: typing_def)
  obtain c where c: "scancode_to_ascii (dev 0x60) = Inr c" using scancode_total by blast
  consider "fr_int_no fr = 32" | "fr_int_no fr = 33" "\<not> (dev 0x60 < 128 \<and> c \<noteq> NUL)"
    | "fr_int_no fr = 33" "dev 0x60 < 128" "c \<noteq> NUL" using v by blast
  then show ?thesis
  proof cases
    case 1
    then have "irq_handler dev fr k' = Inr (k'\<lparr>k_io := tr @ [Out 0x20 0x20]\<rparr>)"
      using k' by (simp add: irq_handler_def outb_def Let_def)
    with quiet 1 show ?thesis by (simp add: key_of_def)
  next
    case 2
    then have "irq_handler dev fr k' = Inr (k'\<lparr>k_io := tr @ [In 0x60 (dev 0x60), Out 0x20 0x20]\<rparr>)"
      using k' c by (auto simp: irq_handler_def keyboard_irq_def inb_eq outb_def Let_def)
    moreover have "key_of (fr, dev) = []"
      using 2 c by (auto simp: key_of_def scancode_to_ascii_def word_less_nat_alt word_le_nat_alt split: if_splits)
    ultimately show ?thesis using quiet by auto
  next
    case 3
    then have key: "key_of (fr, dev) = [c]"
      using c by (auto simp: key_of_def scancode_to_ascii_def word_less_nat_alt word_le_nat_alt split: if_splits)
    have "con_ok ?sh" by (rule con_ok_stdin[OF sh(2) s(1)])
    moreover have at: "sh_streams ?sh ! 0 = s" using sh(2) by (simp add: con_ok_def sh_ok_iff)
    obtain u n where u: "stream_write s (nth [c]) 1 = Inr (u, n)" "stream_ok u"
      "stream_contents u = stream_contents s @ map (nth [c]) [0..<nat (min 1 (1024 - st_count s))]" "st_tail u = st_tail s"
      using stream_write_ok[OF s(1), of "nth [c]" 1] by auto
    ultimately have w: "sh_write_stream ?sh 0 (nth [c]) 1 = Inr (?sh\<lparr>sh_color := 0x07, sh_streams := (sh_streams ?sh)[0 := u]\<rparr>, n)"
      using write_stdin_exact(1)[of ?sh "nth [c]" 1 u n] at by simp
    have "?sh\<lparr>sh_color := 0x07, sh_streams := (sh_streams ?sh)[0 := u]\<rparr> = sh\<lparr>sh_streams := (sh_streams sh)[0 := u]\<rparr>"
      using sh(3) by (cases sh) simp
    with w have "irq_handler dev fr k' = Inr (with_input u (tr @ [In 0x60 (dev 0x60), Out 0x20 0x20]) k)"
      using irq_handler_key[where dev = dev and fr = fr, OF k'(1) 3(1,2) c 3(3)] k'(2) s(3) sh(1) by (simp add: key_interrupt_def with_input_def)
    moreover have "stream_contents u = take 1024 (stdin_text k @ ks @ [c])"
    proof (cases "st_count s < 1024")
      case True
      then have "stream_contents u = take 1024 (stdin_text k @ ks) @ [c]" "length (take 1024 (stdin_text k @ ks)) < 1024"
        using u(3) s(1,2) length_contents[of s] by (simp_all add: stream_ok_def nat_less_iff)
      then show ?thesis by simp
    next
      case False
      then have "stream_contents u = take 1024 (stdin_text k @ ks)" "length (take 1024 (stdin_text k @ ks)) = 1024"
        using u(3) s(1,2) length_contents[of s] by (simp_all add: stream_ok_def)
      then show ?thesis by simp
    qed
    ultimately show ?thesis using u(2,4) s(4) sh(4) key by (auto simp: typing_def)
  qed
qed

lemma serve_typing:
  assumes "typing ks k k'" "\<forall>r \<in> set rs. fr_int_no (fst r) = 32 \<or> fr_int_no (fst r) = 33"
  shows "\<exists>k1. serve rs k' = Inr k1 \<and> typing (ks @ concat (map key_of rs)) k k1"
  using assms
proof (induction rs arbitrary: ks k')
  case (Cons r rs)
  from irq_typing[OF Cons.prems(1), of "fst r" "snd r"] Cons.prems(2) obtain k1 where
    k1: "irq_handler (snd r) (fst r) k' = Inr k1" "typing (ks @ key_of r) k k1" by auto
  with Cons.IH[OF k1(2)] Cons.prems(2) show ?case by simp
qed simp

text \<open>The same with a schedule, of which a part is used up after the characters \<open>ks\<close> have been typed.\<close>

definition interrupted :: "char list \<times> schedule \<Rightarrow> kernel \<Rightarrow> kernel \<times> schedule \<Rightarrow> bool" where
  "interrupted = (\<lambda>(ks, q0) k (k', q). \<exists>used. q0 = used @ q \<and> typing (ks @ typed used) k k')"

lemma interrupted_poll:
  assumes "enabled (snd q0)" "interrupted q0 k (k', q)"
  shows "\<exists>x. poll (k', q) = Inr x \<and> interrupted q0 k x"
proof (cases q)
  case Nil
  with assms(2) show ?thesis by auto
next
  case (Cons rs q')
  obtain used where u: "snd q0 = used @ rs # q'" "typing (fst q0 @ typed used) k k'"
    using assms(2) Cons by (auto simp: interrupted_def split_def)
  with assms(1) have "\<forall>r \<in> set rs. fr_int_no (fst r) = 32 \<or> fr_int_no (fst r) = 33" by (simp add: enabled_def)
  from serve_typing[OF u(2) this] obtain k1 where
    "serve rs k' = Inr k1" "typing ((fst q0 @ typed used) @ concat (map key_of rs)) k k1" by blast
  moreover have "(fst q0 @ typed used) @ concat (map key_of rs) = fst q0 @ typed (used @ [rs])" by (simp add: typed_def)
  ultimately show ?thesis using Cons u(1) by (auto simp: interrupted_def split_def intro!: exI[of _ "used @ [rs]"])
qed

lemma interrupted_stmt:
  assumes "enabled (snd q0)" "oblivious f" "interrupted q0 k x" "f k = Inr k1"
  shows "\<exists>y. stmt f x = Inr y \<and> interrupted q0 k1 y"
proof -
  obtain used k' q where x: "x = (k', q)" "snd q0 = used @ q" "typing (fst q0 @ typed used) k k'"
    using assms(3) by (cases x) (auto simp: interrupted_def split_def)
  with assms(2,4) obtain k1' where k1': "f k' = Inr k1'" "typing (fst q0 @ typed used) k1 k1'" unfolding oblivious_def by blast
  then have "interrupted q0 k1 (k1', q)" using x(2) by (auto simp: interrupted_def split_def)
  from interrupted_poll[OF assms(1) this] k1'(1) x(1) show ?thesis by (simp add: stmt_def)
qed

lemma interrupted_sel:
  assumes "interrupted q0 k (k', q)"
  shows "k_memory k' = k_memory k" "k_pmm k' = k_pmm k" "k_idt k' = k_idt k" "k_procs k' = k_procs k" "k_fs k' = k_fs k"
  using assms typing_sel by (auto simp: interrupted_def split_def)

lemma interrupted_updates:
  assumes "interrupted q0 k (k', q)"
  shows "interrupted q0 (k\<lparr>k_memory := m\<rparr>) (k'\<lparr>k_memory := m\<rparr>, q)" "interrupted q0 (k\<lparr>k_pmm := p\<rparr>) (k'\<lparr>k_pmm := p\<rparr>, q)"
    "interrupted q0 (k\<lparr>k_procs := pm\<rparr>) (k'\<lparr>k_procs := pm\<rparr>, q)" "interrupted q0 (k\<lparr>k_fs := fs\<rparr>) (k'\<lparr>k_fs := fs\<rparr>, q)"
proof -
  obtain used where u: "snd q0 = used @ q" "typing (fst q0 @ typed used) k k'"
    using assms by (auto simp: interrupted_def split_def)
  note u' = typing_updates[OF u(2)]
  show "interrupted q0 (k\<lparr>k_memory := m\<rparr>) (k'\<lparr>k_memory := m\<rparr>, q)" "interrupted q0 (k\<lparr>k_pmm := p\<rparr>) (k'\<lparr>k_pmm := p\<rparr>, q)"
    "interrupted q0 (k\<lparr>k_procs := pm\<rparr>) (k'\<lparr>k_procs := pm\<rparr>, q)" "interrupted q0 (k\<lparr>k_fs := fs\<rparr>) (k'\<lparr>k_fs := fs\<rparr>, q)"
    using u(1) u'(1)[of m] u'(2)[of p] u'(4)[of pm] u'(5)[of fs] by (auto simp: interrupted_def split_def)
qed

section \<open>Lemmas: the functions of the boot\<close>

lemma oblivious_idt: "oblivious (\<lambda>k. Inr (k\<lparr>k_idt := f (k_idt k)\<rparr>))"
  using typing_updates(3) typing_sel(3) by (fastforce simp: oblivious_def)

lemma oblivious_pmm: "oblivious (\<lambda>k. rbind (f (k_pmm k)) (\<lambda>p. Inr (k\<lparr>k_pmm := p\<rparr>)))"
  using typing_updates(2) typing_sel(2) by (fastforce simp: oblivious_def rbind_eq_Inr)

lemma oblivious_printf_fs: "oblivious (\<lambda>k. k_printf fmt (args (k_fs k)) k)"
proof -
  have "k_printf fmt (args (k_fs k)) k = Inr k1 \<Longrightarrow> typing ks k k' \<Longrightarrow>
      \<exists>k1'. k_printf fmt (args (k_fs k')) k' = Inr k1' \<and> typing ks k1 k1'" for ks k k' k1
    using oblivious_printf[of fmt "args (k_fs k)"] typing_sel(5)[of ks k k'] by (auto simp: oblivious_def)
  then show ?thesis by (auto simp: oblivious_def)
qed

lemma interrupted_listing:
  assumes "enabled (snd q0)"
  shows "simulates (interrupted q0) print_dir_cb print_dir_cb_irqs"
  unfolding simulates_def
proof (intro allI impI)
  fix name inode k x g k1
  assume "interrupted q0 k x" "print_dir_cb name inode k = Inr (g, k1)"
  with interrupted_stmt[OF assms oblivious_printf, of k x "line '' - %s''" "[VStr (Some name), VInt inode]" k1]
  show "\<exists>y. print_dir_cb_irqs name inode x = Inr (g, y) \<and> interrupted q0 k1 y"
    by (auto simp: print_dir_cb_def print_dir_cb_irqs_def rbind_eq_Inr)
qed

lemma interrupted_find_file:
  assumes en: "enabled (snd q0)" and i: "interrupted q0 k x" and f: "ext2_find_file_inode_by_name name k = Inr (ino, k1)"
  shows "\<exists>y. find_file_irqs name x = Inr (ino, y) \<and> interrupted q0 k1 y"
proof -
  obtain k' q where x: "x = (k', q)" by (cases x)
  note same = interrupted_sel[OF i[unfolded x]]
  obtain root where root: "ext2_read_inode (k_memory k) (k_fs k) 2 = Inr root" using f
    by (auto simp: ext2_find_file_inode_by_name_def rbind_eq_Inr)
  show ?thesis
  proof (cases root)
    case None
    with f root have p: "k_puts (line (''EXT2: Can'' @ [CHR 0x27] @ ''t read root inode'')) k = Inr k1" "ino = 0"
      by (auto simp: ext2_find_file_inode_by_name_def rbind_eq_Inr)
    from interrupted_stmt[OF en oblivious_puts i p(1)] root None same x p(2) show ?thesis
      by (auto simp: find_file_irqs_def)
  next
    case (Some dir)
    let ?ctx0 = "\<lparr>target_name = name, found_inode = 0, found = False\<rparr>"
    let ?fmt = "line (''DEBUG: '' @ [CHR 0x27] @ ''%s'' @ [CHR 0x27] @ '' not found in root (tried exact match)'')"
    obtain k2 k3 ctx where
      f2: "k_puts (line ''Disk Contents:'') k = Inr k2" "ext2_read_dir (k_memory k2) (k_fs k2) dir print_dir_cb k2 = Inr k3"
      "ext2_read_dir (k_memory k3) (k_fs k3) dir find_file_callback ?ctx0 = Inr ctx"
      "(if found ctx then Inr k3 else k_printf ?fmt [VStr (Some name)] k3) = Inr k1" "ino = found_inode ctx"
      using f root Some by (auto simp: ext2_find_file_inode_by_name_def rbind_eq_Inr)
    obtain k2' q2 where s2: "stmt (k_puts (line ''Disk Contents:'')) x = Inr (k2', q2)" "interrupted q0 k2 (k2', q2)"
      using interrupted_stmt[OF en oblivious_puts i f2(1)] by auto
    obtain k3' q3 where s3: "ext2_read_dir (k_memory k2) (k_fs k2) dir print_dir_cb_irqs (k2', q2) = Inr (k3', q3)"
      "interrupted q0 k3 (k3', q3)"
      using ext2_read_dir_sim[OF interrupted_listing[OF en] s2(2) f2(2)] by auto
    have "\<exists>y. (if found ctx then Inr (k3', q3) else stmt (k_printf ?fmt [VStr (Some name)]) (k3', q3)) = Inr y \<and> interrupted q0 k1 y"
    proof (cases "found ctx")
      case True
      with f2(4) s3(2) show ?thesis by simp
    next
      case False
      with f2(4) have "k_printf ?fmt [VStr (Some name)] k3 = Inr k1" by simp
      from interrupted_stmt[OF en oblivious_printf s3(2) this] False show ?thesis by simp
    qed
    then show ?thesis
      using root Some x s2 s3(1) f2(3,5) same interrupted_sel[OF s2(2)] interrupted_sel[OF s3(2)]
      by (auto simp: find_file_irqs_def)
  qed
qed

lemma interrupted_load:
  assumes en: "enabled (snd q0)" and i: "interrupted q0 k x" and f: "um_load name ino k = Inr k1"
  shows "\<exists>y. um_load_irqs name ino x = Inr y \<and> interrupted q0 k1 y"
proof -
  obtain k' q where x: "x = (k', q)" by (cases x)
  note same = interrupted_sel[OF i[unfolded x]]
  obtain node where node: "(if ino = 0 then Inr None else ext2_read_inode (k_memory k) (k_fs k) ino) = Inr node"
    using f by (auto simp: um_load_def rbind_eq_Inr)
  show ?thesis
  proof (cases node)
    case None
    with f node have "k_printf (line ''Failed to find program: %s'') [VStr (Some name)] k = Inr k1"
      by (auto simp: um_load_def rbind_eq_Inr)
    from interrupted_stmt[OF en oblivious_printf i this] node None same x show ?thesis by (auto simp: um_load_irqs_def)
  next
    case (Some inode)
    let ?fmt = "line ''Failed to read complete program (read %d of %d bytes)''"
    obtain n m where rd: "ext2_read_file (k_memory k) (k_fs k) inode 0x400000 (i_size_lo inode) 0 = Inr (n, m)"
      "(if n \<noteq> i_size_lo inode then k_printf ?fmt [VInt n, VInt (i_size_lo inode)] (k\<lparr>k_memory := m\<rparr>)
        else Inr (k\<lparr>k_memory := m\<rparr>)) = Inr k1"
      using f node Some by (auto simp: um_load_def rbind_eq_Inr Let_def)
    obtain y where y: "poll (k'\<lparr>k_memory := m\<rparr>, q) = Inr y" "interrupted q0 (k\<lparr>k_memory := m\<rparr>) y"
      using interrupted_poll[OF en interrupted_updates(1)[OF i[unfolded x]]] by blast
    have "\<exists>z. (if n \<noteq> i_size_lo inode then stmt (k_printf ?fmt [VInt n, VInt (i_size_lo inode)]) y else Inr y) = Inr z
        \<and> interrupted q0 k1 z"
    proof (cases "n = i_size_lo inode")
      case True
      with rd(2) y(2) show ?thesis by simp
    next
      case False
      with rd(2) have "k_printf ?fmt [VInt n, VInt (i_size_lo inode)] (k\<lparr>k_memory := m\<rparr>) = Inr k1" by simp
      from interrupted_stmt[OF en oblivious_printf y(2) this] False show ?thesis by simp
    qed
    then show ?thesis using node Some x same rd(1) y(1) by (auto simp: um_load_irqs_def)
  qed
qed

lemma interrupted_setup_env:
  assumes en: "enabled (snd q0)" and i: "interrupted q0 k x" and f: "um_setup_env name k = Inr k1"
  shows "\<exists>y. um_setup_env_irqs name x = Inr y \<and> interrupted q0 k1 y"
proof -
  obtain k' q where x: "x = (k', q)" by (cases x)
  note i' = i[unfolded x]
  obtain proc pm p where c: "proc_create (k_procs k) (k_pmm k) = Inr (proc, pm, p)"
    using f by (auto simp: um_setup_env_def rbind_eq_Inr)
  let ?k = "k\<lparr>k_procs := pm, k_pmm := p\<rparr>"
  obtain y where y: "poll (k'\<lparr>k_procs := pm, k_pmm := p\<rparr>, q) = Inr y" "interrupted q0 ?k y"
    using interrupted_poll[OF en interrupted_updates(2)[OF interrupted_updates(3)[OF i']]] by blast
  show ?thesis
  proof (cases proc)
    case None
    with f c have "k_puts (line ''Failed to create process'') ?k = Inr k1" by (simp add: um_setup_env_def)
    from interrupted_stmt[OF en oblivious_puts y(2) this] None c x y(1) interrupted_sel[OF i'] show ?thesis
      by (auto simp: um_setup_env_irqs_def)
  next
    case (Some pid)
    let ?set = "\<lambda>e k. k\<lparr>k_idt := tss_set_kernel_stack e (k_idt k)\<rparr> :: kernel"
    obtain pr ino k2 where s: "arr_get (process_table pm) pid = Inr pr"
      "ext2_find_file_inode_by_name name (?set (pr_kernel_stack_top pr) ?k) = Inr (ino, k2)" "um_load name ino k2 = Inr k1"
      using f c Some by (auto simp: um_setup_env_def rbind_eq_Inr Let_def simp del: arr_get_def)
    obtain z where z: "stmt (\<lambda>k. Inr (?set (pr_kernel_stack_top pr) k)) y = Inr z"
      "interrupted q0 (?set (pr_kernel_stack_top pr) ?k) z"
      using interrupted_stmt[OF en oblivious_idt y(2) refl] by blast
    obtain w where w: "find_file_irqs name z = Inr (ino, w)" "interrupted q0 k2 w"
      using interrupted_find_file[OF en z(2) s(2)] by blast
    from interrupted_load[OF en w(2) s(3)] w(1) z(1) y(1) s(1) c Some x interrupted_sel[OF i'] show ?thesis
      by (auto simp: um_setup_env_irqs_def simp del: arr_get_def)
  qed
qed

lemma interrupted_memory:
  assumes en: "enabled (snd q0)" and i: "interrupted q0 k x" and f: "boot_memory magic addr k = Inr k1"
  shows "\<exists>y. boot_memory_irqs magic addr x = Inr y \<and> interrupted q0 k1 y"
proof -
  obtain k' q where x: "x = (k', q)" by (cases x)
  let ?init = "\<lambda>bytes k. rbind (mem_phys_init 0x100000 (ucast (bytes - ucast (0x100000 :: u32) :: u64)) (k_pmm k)) (\<lambda>p. Inr (k\<lparr>k_pmm := p\<rparr>)) :: kernel res"
  obtain bytes k2 where f2: "mb2_get_memory (k_memory k) magic addr = Some bytes"
    "k_printf (line ''Booted with %d MB of Memory.'') [VInt (ucast (bytes div (1024 * 1024)))] k = Inr k2"
    "?init bytes k2 = Inr k1"
    using f by (auto simp: boot_memory_def rbind_eq_Inr Let_def split: option.splits)
  obtain y where y: "poll (k', q) = Inr y" "interrupted q0 k y" using interrupted_poll[OF en] i x by blast
  obtain z where z: "stmt (k_printf (line ''Booted with %d MB of Memory.'') [VInt (ucast (bytes div (1024 * 1024)))]) y = Inr z"
    "interrupted q0 k2 z"
    using interrupted_stmt[OF en oblivious_printf y(2) f2(2)] by blast
  obtain w where "stmt (?init bytes) z = Inr w" "interrupted q0 k1 w"
    using interrupted_stmt[OF en oblivious_pmm[of "mem_phys_init 0x100000 (ucast (bytes - ucast (0x100000 :: u32) :: u64))"] z(2) f2(3)]
    by blast
  then show ?thesis
    using f2(1) y(1) z(1) x interrupted_sel[OF i[unfolded x]] by (auto simp: boot_memory_irqs_def Let_def)
qed

lemma interrupted_program:
  assumes en: "enabled (snd q0)" and i: "interrupted q0 k x" and f: "boot_program pf k = Inr (Boot_User c k1)"
  shows "\<exists>k1' q. boot_program_irqs pf x = Inr (Boot_User c k1', q) \<and> interrupted q0 k1 (k1', q)"
proof -
  obtain k' q where x: "x = (k', q)" by (cases x)
  note i' = i[unfolded x]
  let ?fmt = "line ''EXT2 filesystem mounted successfully! Block size: %d bytes''"
  obtain fs p m k2 where f2: "ext2_mount (k_fs k) (pf_disk_img_start pf) (k_pmm k) (k_memory k) = Inr (True, fs, p, m)"
    "k_printf ?fmt [VInt (fs_block_size (k_fs (k\<lparr>k_fs := fs, k_pmm := p, k_memory := m\<rparr>)))] (k\<lparr>k_fs := fs, k_pmm := p, k_memory := m\<rparr>) = Inr k2"
    "um_setup_env ''example.bin'' k2 = Inr k1" "c = um_switch (pf_context pf)"
    using f by (auto simp: boot_program_def rbind_eq_Inr Let_def split: if_splits)
  obtain y where y: "poll (k'\<lparr>k_fs := fs, k_pmm := p, k_memory := m\<rparr>, q) = Inr y"
    "interrupted q0 (k\<lparr>k_fs := fs, k_pmm := p, k_memory := m\<rparr>) y"
    using interrupted_poll[OF en interrupted_updates(1)[OF interrupted_updates(2)[OF interrupted_updates(4)[OF i']]]] by blast
  obtain z where z: "stmt (\<lambda>k. k_printf ?fmt [VInt (fs_block_size (k_fs k))] k) y = Inr z" "interrupted q0 k2 z"
    using interrupted_stmt[OF en oblivious_printf_fs y(2), of ?fmt "\<lambda>fs. [VInt (fs_block_size fs)]"] f2(2) by blast
  from interrupted_setup_env[OF en z(2) f2(3)] f2(1,4) y(1) z(1) x interrupted_sel[OF i'] show ?thesis
    by (auto simp: boot_program_irqs_def)
qed

lemma sh_init_color: "sh_init sh mem w n = Inr t \<Longrightarrow> sh_color t = 0x07"
  by (auto simp: sh_init_def sh_clear_def rbind_eq_Inr)

lemma boot_interrupted:
  assumes "platform_ok pf" "enabled q0" "kernel_entry pf magic addr = Inr (Boot_User c k)"
  shows "\<exists>k' used q. kernel_entry_irqs pf q0 magic addr = Inr (Boot_User c k', q) \<and> q0 = used @ q
    \<and> (q0 \<noteq> [] \<longrightarrow> used \<noteq> []) \<and> typing (typed used) k k'"
proof -
  obtain sh where sh: "boot_console pf (kernel_static pf) = Inr ((kernel_static pf)\<lparr>k_shell := Some sh\<rparr>)" "con_ok sh"
    using boot_console_ok[OF assms(1), of "kernel_static pf"] by (auto simp: console_shows_def)
  obtain t where t: "sh_init (pf_ksh pf) (pf_vga pf) VGA_WIDTH (VGA_WIDTH * VGA_HEIGHT) = Inr t"
    "(kernel_static pf)\<lparr>k_shell := Some t\<rparr> = (kernel_static pf)\<lparr>k_shell := Some sh\<rparr>"
    using sh(1) by (auto simp: boot_console_def rbind_eq_Inr)
  from arg_cong[OF t(2), of k_shell] have "t = sh" by simp
  with sh_init_color[OF t(1)] have col: "sh_color sh = 0x07" by simp
  let ?k0 = "(kernel_static pf)\<lparr>k_shell := Some sh\<rparr>"
  let ?k1 = "snd (boot_gdt pf ?k0)"
  let ?k2 = "snd (boot_idt pf ?k1)"
  let ?k3 = "(pic_init (pf_dev pf) ?k2)\<lparr>k_idt := tss_set_kernel_stack (pf_kernel_stack_top pf) (k_idt (pic_init (pf_dev pf) ?k2))\<rparr>"
  have "k_shell ?k3 = Some sh"
    by (simp add: boot_gdt_def boot_idt_def pic_init_def inb_eq outb_def split_def Let_def)
  then have plain: "plain ?k3" using sh(2) col by (simp add: plain_def)
  have good: "fst (boot_gdt pf ?k0)" "fst (boot_idt pf ?k1)"
    and run: "rbind (boot_memory magic addr ?k3) (boot_program pf) = Inr (Boot_User c k)"
    using assms(3) sh(1) by (auto simp: kernel_entry_def rbind_eq_Inr split_def Let_def split: if_splits)
  have entry: "kernel_entry_irqs pf q0 magic addr
      = rbind (poll (?k3, q0)) (\<lambda>x. rbind (boot_memory_irqs magic addr x) (boot_program_irqs pf))"
    using sh(1) good by (simp add: kernel_entry_irqs_def split_def Let_def)
  obtain k4 where k4: "boot_memory magic addr ?k3 = Inr k4" "boot_program pf k4 = Inr (Boot_User c k)"
    using run by (auto simp: rbind_eq_Inr)
  define first where "first = take 1 q0"
  have "\<forall>r \<in> set (concat first). fr_int_no (fst r) = 32 \<or> fr_int_no (fst r) = 33"
    using assms(2) by (auto simp: enabled_def first_def dest: in_set_takeD)
  from serve_typing[OF typing_refl[OF plain] this] obtain k' where
    k': "serve (concat first) ?k3 = Inr k'" "typing (typed first) ?k3 k'" by (auto simp: typed_def)
  have x: "poll (?k3, q0) = Inr (k', drop 1 q0)"
    using k'(1) by (cases q0) (simp_all add: first_def rbind_eq_Inr)
  let ?q = "(typed first, drop 1 q0)"
  have i: "interrupted ?q ?k3 (k', drop 1 q0)" using k'(2) by (auto simp: interrupted_def typed_def)
  have en: "enabled (snd ?q)" using assms(2) by (auto simp: enabled_def dest: in_set_dropD)
  obtain y where y: "boot_memory_irqs magic addr (k', drop 1 q0) = Inr y" "interrupted ?q k4 y"
    using interrupted_memory[OF en i k4(1)] by blast
  obtain k'' q where b: "boot_program_irqs pf y = Inr (Boot_User c k'', q)" "interrupted ?q k (k'', q)"
    using interrupted_program[OF en y(2) k4(2)] by blast
  then obtain used where u: "drop 1 q0 = used @ q" "typing (typed first @ typed used) k k''"
    by (auto simp: interrupted_def)
  have "q0 = first @ drop 1 q0" unfolding first_def by (rule append_take_drop_id[symmetric])
  with u(1) have "q0 = (first @ used) @ q" by (metis append_assoc)
  moreover have "q0 \<noteq> [] \<longrightarrow> first @ used \<noteq> []" by (simp add: first_def)
  moreover have "typing (typed (first @ used)) k k''" using u(2) by (simp add: typed_append)
  moreover have "kernel_entry_irqs pf q0 magic addr = Inr (Boot_User c k'', q)" using entry x y(1) b(1) by simp
  ultimately show ?thesis by blast
qed

text \<open>The machine that was interrupted is as ready to run as the one that was not.\<close>

lemma typing_sys_ok:
  assumes "typing ks k k'" "sys_ok k"
  shows "sys_ok k'"
proof -
  obtain sh s tr where sh: "k_shell k = Some sh" "con_ok sh" "stream_ok s" "k' = with_input s tr k"
    using assms(1) by (auto simp: typing_def plain_def)
  then have "con_ok (sh\<lparr>sh_streams := (sh_streams sh)[0 := s]\<rparr>)" by (intro con_ok_stdin)
  moreover have "k_shell k' = Some (sh\<lparr>sh_streams := (sh_streams sh)[0 := s]\<rparr>)" "k_idt k' = k_idt k"
    using sh(1,4) by (simp_all add: with_input_def)
  ultimately show ?thesis using assms(2) by (simp add: sys_ok_def con_ok_def)
qed

section \<open>Properties\<close>

text \<open>C7: interrupts during boot change nothing but the input. If the kernel boots into the first program
  without interrupts, then it does so with any requests of the timer and the keyboard between the
  statements behind \<open>sti\<close>: with the same registers, memory, tables, allocator, processes and file system and
  the same screen. Only the trace of port accesses differs, and the standard input, which holds the first
  1024 characters that were typed.\<close>

theorem boot_interrupts_transparent:
  assumes "platform_ok pf" "kernel_entry pf magic addr = Inr (Boot_User c k)" "enabled q0"
  shows "\<exists>used q s tr. q0 = used @ q \<and> (q0 \<noteq> [] \<longrightarrow> used \<noteq> [])
    \<and> kernel_entry_irqs pf q0 magic addr = Inr (Boot_User c (with_input s tr k), q)
    \<and> stream_ok s \<and> stream_contents s = take 1024 (typed used)"
proof -
  have "stdin_text k = []" by (rule boot_reaches_user(4)[OF assms(1,2)])
  with boot_interrupted[OF assms(1,3,2)] show ?thesis by (fastforce simp: typing_def)
qed

text \<open>The demonstration machine, with the key A right after \<open>sti\<close>.\<close>

definition demo_schedule :: schedule where
  "demo_schedule = [[((demo_call 0 0 0 0)\<lparr>fr_int_no := 33\<rparr>, \<lambda>_. 0x1E)]]"

lemma demo_schedule_facts: "enabled demo_schedule" "typed demo_schedule = ''a''"
proof -
  have "keymap ! 30 = CHR ''a''" by code_simp
  then show "enabled demo_schedule" "typed demo_schedule = ''a''"
    by (simp_all add: demo_schedule_def enabled_def typed_def key_of_def)
qed

theorem boot_interrupts_transparent_witness:
  "\<exists>c k s tr. kernel_entry demo_platform 0x36d76289 0x10000 = Inr (Boot_User c k)
    \<and> kernel_entry_irqs demo_platform demo_schedule 0x36d76289 0x10000 = Inr (Boot_User c (with_input s tr k), [])
    \<and> stream_contents s = ''a''"
proof -
  obtain k where k: "kernel_entry demo_platform 0x36d76289 0x10000
      = Inr (Boot_User (um_switch (pf_context demo_platform)) k)" using demo_boot by blast
  obtain used q s tr where b: "demo_schedule = used @ q" "used \<noteq> []"
    "kernel_entry_irqs demo_platform demo_schedule 0x36d76289 0x10000
      = Inr (Boot_User (um_switch (pf_context demo_platform)) (with_input s tr k), q)"
    "stream_contents s = take 1024 (typed used)"
    using boot_interrupts_transparent[OF demo_platform_ok k demo_schedule_facts(1)] by (auto simp: demo_schedule_def)
  then have "q = []" by (cases used) (simp_all add: demo_schedule_def)
  with b demo_schedule_facts(2) have "stream_contents s = ''a''" by simp
  with k b(3) \<open>q = []\<close> show ?thesis by blast
qed

text \<open>C6: keys typed while the kernel boots reach the program. From a boot with interrupts and through any
  run of events behind it, the characters that user reads found in their buffers, followed by those
  still waiting, are a subsequence of what was typed during boot followed by what was offered since, in order, and all of
  it when it was at most 1024 characters.\<close>

theorem boot_input_fifo:
  assumes "platform_ok pf" "kernel_entry pf magic addr = Inr (Boot_User c k0)" "enabled q0"
    "kernel_entry_irqs pf q0 magic addr = Inr (Boot_User c' k1, q)" "sys_run ex st evs ins outs User k1 md k"
  shows "\<exists>used. q0 = used @ q \<and> (q0 \<noteq> [] \<longrightarrow> used \<noteq> []) \<and> subseq (outs @ stdin_text k) (typed used @ ins)
    \<and> (length (typed used @ ins) \<le> 1024 \<longrightarrow> outs @ stdin_text k = typed used @ ins)"
proof -
  obtain used where u: "q0 = used @ q" "q0 \<noteq> [] \<longrightarrow> used \<noteq> []" "typing (typed used) k0 k1"
    using boot_interrupted[OF assms(1,3,2)] assms(4) by auto
  obtain sh s tr where sh: "k_shell k0 = Some sh" "con_ok sh"
    and s: "stream_ok s" "stream_contents s = take 1024 (typed used)" "k1 = with_input s tr k0"
    using u(3) boot_reaches_user(4)[OF assms(1,2)] by (auto simp: typing_def plain_def)
  have at: "k_shell k1 = Some (sh\<lparr>sh_streams := (sh_streams sh)[0 := s]\<rparr>)" using sh(1) s(3) by (simp add: with_input_def)
  have "sys_ok k1" by (rule typing_sys_ok[OF u(3) boot_sys_ok[OF assms(1,2)]])
  then have run: "input_run k1 ins outs k" using run_effect[OF assms(5)] by blast
  have in1: "stdin_text k1 = take 1024 (typed used)"
    using at s(2) sh(2) by (simp add: stdin_text_eq con_ok_def sh_ok_iff)
  obtain acc where acc: "subseq acc ins" "outs @ stdin_text k = take 1024 (typed used) @ acc"
    "length (stdin_text k1) + length ins \<le> 1024 \<longrightarrow> acc = ins"
    using run in1 by (auto simp: input_run_def)
  have "subseq (take 1024 (typed used) @ acc) (typed used @ ins)"
    by (rule list_emb_append_mono[OF prefix_imp_subseq[OF take_is_prefix] acc(1)])
  with u(1,2) acc(2,3) in1 show ?thesis by auto
qed

theorem boot_input_fifo_witness:
  "\<exists>c k1 k. kernel_entry_irqs demo_platform demo_schedule 0x36d76289 0x10000 = Inr (Boot_User c k1, [])
    \<and> sys_run 0 0 [demo_key] ''a'' [] User k1 User k \<and> stdin_text k = ''aa''"
proof -
  obtain k0 where k0: "kernel_entry demo_platform 0x36d76289 0x10000
      = Inr (Boot_User (um_switch (pf_context demo_platform)) k0)" using demo_boot by blast
  obtain k1 used q where b: "kernel_entry_irqs demo_platform demo_schedule 0x36d76289 0x10000
      = Inr (Boot_User (um_switch (pf_context demo_platform)) k1, q)" "demo_schedule = used @ q" "used \<noteq> []"
    "typing (typed used) k0 k1"
    using boot_interrupted[OF demo_platform_ok demo_schedule_facts(1) k0] by (auto simp: demo_schedule_def)
  then have q: "q = []" by (cases used) (simp_all add: demo_schedule_def)
  have ok: "sys_ok k1" by (rule typing_sys_ok[OF b(4) boot_sys_ok[OF demo_platform_ok k0]])
  have v: "fr_int_no ((demo_call 0 0 0 0)\<lparr>fr_int_no := 33\<rparr>) = 32 \<or> fr_int_no ((demo_call 0 0 0 0)\<lparr>fr_int_no := 33\<rparr>) = 33"
    by simp
  obtain k where k: "sys_step 0 0 demo_key User k1 User k"
    using step_exists(3)[OF ok _ v] unfolding demo_key_def by blast
  have "keymap ! 30 = CHR ''a''" by code_simp
  then have io: "offered k1 demo_key = ''a''" "delivered demo_key k = []" by (simp_all add: demo_key_def)
  from sys_run.Move[OF k sys_run.Rest] io have run: "sys_run 0 0 [demo_key] ''a'' [] User k1 User k" by simp
  from boot_input_fifo[OF demo_platform_ok k0 demo_schedule_facts(1) b(1) run] b(2) q demo_schedule_facts(2)
  have "stdin_text k = ''aa''" by auto
  with b(1) q run show ?thesis by blast
qed

end
