(* ===== verification/Power_On.thy ===== *)
theory Power_On
  imports Machine Start Boot_Irqs
begin

text \<open>
  From the boot loader's jump on: the start code, the boot with interrupts and the machine of theory Machine,
  and what holds of every run.
\<close>

section \<open>Power on\<close>

text \<open>The start code of theory Start, with interrupts from \<open>sti\<close> on.\<close>

definition start_irqs :: "platform \<Rightarrow> schedule \<Rightarrow> u32 \<Rightarrow> u32 \<Rightarrow> regs \<Rightarrow> (boot_end \<times> schedule) res" where
  "start_irqs pf q stack_top ret c =
     (let (c, m) = start_regs stack_top ret (c, pf_memory pf) in
      kernel_entry_irqs (pf\<lparr>pf_memory := m\<rparr>) q (load32 m (uc_esp c + 4)) (load32 m (uc_esp c + 8)))"

section \<open>Lemmas: the booted machine\<close>

lemma booted_represents:
  fixes c :: regs
  assumes "platform_ok pf" "kernel_entry pf magic addr = Inr (Boot_User (user_context.truncate c) k0)"
    "e = tss_esp0 (idt_tss (k_idt k0))" "92 \<le> e" "e \<le> 0x400000" "sys_ok k1" "k_idt k1 = k_idt k0"
  shows "represents pf e (Running (In_User c k1)) (User, k1)"
proof -
  note b = boot_reaches_user[OF assms(1,2)]
  have c: "uc_cs c = 0x1B" "uc_eflags c = uc_eflags (pf_context pf) OR 0x200"
    using arg_cong[OF b(3), of uc_cs] arg_cong[OF b(3), of uc_eflags] by (simp_all add: user_context.truncate_def um_switch_eq)
  have "(0x200 :: u32) = push_bit 9 1" by simp
  then have "bit (uc_eflags c) 9" by (simp only: c(2)) (simp add: bit_simps)
  moreover have "tables_at pf e k1" using b(5,6) assms(3-5,7) by (simp add: tables_at_def)
  moreover have "same_kernel e k1 k1" using same_kernelI[of e "k_memory k1" k1] by simp
  ultimately show ?thesis using assms(6) c(1) by (simp add: represents_def)
qed

text \<open>The machine's steps do not look at the memory that boot started from.\<close>

lemma cpu_memory:
  "int_0x80 (pf\<lparr>pf_memory := m\<rparr>) = int_0x80 pf" "take_irq (pf\<lparr>pf_memory := m\<rparr>) = take_irq pf"
  "take_fault (pf\<lparr>pf_memory := m\<rparr>) = take_fault pf" "cpu_step (pf\<lparr>pf_memory := m\<rparr>) = cpu_step pf"
  "cpu_run (pf\<lparr>pf_memory := m\<rparr>) = cpu_run pf"
proof -
  have pf: "pf_isr (pf\<lparr>pf_memory := m\<rparr>) = pf_isr pf" "pf_irq (pf\<lparr>pf_memory := m\<rparr>) = pf_irq pf" by simp_all
  show eqs: "int_0x80 (pf\<lparr>pf_memory := m\<rparr>) = int_0x80 pf" "take_irq (pf\<lparr>pf_memory := m\<rparr>) = take_irq pf"
    "take_fault (pf\<lparr>pf_memory := m\<rparr>) = take_fault pf"
    unfolding fun_eq_iff int_0x80_def take_irq_def take_fault_def pf by simp_all
  show step: "cpu_step (pf\<lparr>pf_memory := m\<rparr>) = cpu_step pf"
    unfolding fun_eq_iff cpu_step_def eqs by simp
  show "cpu_run (pf\<lparr>pf_memory := m\<rparr>) = cpu_run pf" by (simp add: fun_eq_iff cpu_run_def step)
qed

text \<open>The exceptions whose handler halts.\<close>

fun halting :: "action \<Rightarrow> bool" where
  "halting (Fault v err ret cl) \<longleftrightarrow> v \<noteq> 3"
| "halting a \<longleftrightarrow> False"

lemma event_stops: "event_of a ev \<Longrightarrow> stops ev = halting a"
  by (cases "(a, ev)" rule: event_of.cases) (auto simp: exception_vectors_def)

lemma events_stop: "list_all2 event_of as es \<Longrightarrow> (\<exists>ev \<in> set es. stops ev) \<longleftrightarrow> (\<exists>a \<in> set as. halting a)"
  by (induction rule: list_all2_induct) (auto simp: event_stops)

text \<open>What holds of every run of the machine from a kernel that is ready.\<close>

lemma run_keeps:
  assumes rep: "represents pf e s0 (md0, k0)" and run: "cpu_run pf ex st as s0 = Some (s, ins, outs)" and md: "md0 \<noteq> Stopped"
  shows "possible a s \<Longrightarrow> cpu_step pf ex st a s \<noteq> None"
    "(\<exists>k. s = Halted k) \<longleftrightarrow> (\<exists>a \<in> set as. halting a)"
    "\<exists>ks. same_kernel e (cpu_kernel s) ks \<and> kernel_kept k0 ks \<and> input_run k0 ins outs ks"
proof -
  note run = run[unfolded cpu_run_def]
  show "cpu_step pf ex st a s \<noteq> None" if "possible a s" by (rule cpu.never_stuck[OF rep run that])
  obtain es md ks where r: "sys_run ex st es ins outs md0 k0 md ks" "list_all2 event_of as es" "represents pf e s (md, ks)"
    using cpu.runs[OF rep run] by auto
  have "sys_ok k0" using rep by (simp add: represents_def)
  note eff = run_effect[OF r(1) this]
  show "\<exists>ks. same_kernel e (cpu_kernel s) ks \<and> kernel_kept k0 ks \<and> input_run k0 ins outs ks"
    using eff r(3) by (auto simp: represents_def)
  have "(\<exists>k. s = Halted k) \<longleftrightarrow> md = Stopped"
    using r(3) unfolding represents_def by (cases "(e, s, md)" rule: mode_of.cases) auto
  with eff md events_stop[OF r(2)] show "(\<exists>k. s = Halted k) \<longleftrightarrow> (\<exists>a \<in> set as. halting a)" by simp
qed

text \<open>The same from an interrupted boot, with what was typed during it.\<close>

lemma typed_run:
  fixes c :: regs
  assumes boot: "platform_ok pf" "kernel_entry pf magic addr = Inr (Boot_User (user_context.truncate c) k0)"
    and e: "e = tss_esp0 (idt_tss (k_idt k0))" "92 \<le> e" "e \<le> 0x400000" and typed: "typing ks k0 k1"
    and run: "cpu_run pf ex st as (Running (In_User c k1)) = Some (s, ins, outs)"
  shows "possible a s \<Longrightarrow> cpu_step pf ex st a s \<noteq> None" "(\<exists>k. s = Halted k) \<longleftrightarrow> (\<exists>a \<in> set as. halting a)"
    "\<exists>m. same_kernel e (cpu_kernel s) m \<and> kernel_kept k0 m"
    "subseq (outs @ stdin_text (cpu_kernel s)) (ks @ ins)"
    "length (ks @ ins) \<le> 1024 \<Longrightarrow> outs @ stdin_text (cpu_kernel s) = ks @ ins"
proof -
  have empty: "stdin_text k0 = []" by (rule boot_reaches_user(4)[OF boot])
  obtain sh b tr where sh: "k_shell k0 = Some sh" "con_ok sh"
    and b: "stream_contents b = take 1024 ks" "k1 = with_input b tr k0"
    using typed empty by (auto simp: typing_def plain_def)
  have idt: "k_idt k1 = k_idt k0" and kept: "kernel_kept k0 k1" by (simp_all add: b(2) kernel_kept_def)
  have "stdin_text k1 = stream_contents b"
    using sh by (simp add: b(2) with_input_def stdin_text_eq con_ok_def sh_ok_iff)
  then have in1: "stdin_text k1 = take 1024 ks" by (simp add: b(1))
  note rep = booted_represents[OF boot e typing_sys_ok[OF typed boot_sys_ok[OF boot]] idt]
  note r = run_keeps[OF rep run]
  show "possible a s \<Longrightarrow> cpu_step pf ex st a s \<noteq> None" "(\<exists>k. s = Halted k) \<longleftrightarrow> (\<exists>a \<in> set as. halting a)"
    using r(1,2) by simp_all
  obtain m where m: "same_kernel e (cpu_kernel s) m" "kernel_kept k1 m" "input_run k1 ins outs m" using r(3) by auto
  from m(1,2) kept_trans[OF kept] show "\<exists>m. same_kernel e (cpu_kernel s) m \<and> kernel_kept k0 m" by blast
  have "stdin_text (cpu_kernel s) = stdin_text m" using m(1) by (auto simp: stdin_text_def elim!: same_kernelE)
  with m(3) in1 obtain acc where acc: "subseq acc ins" "outs @ stdin_text (cpu_kernel s) = take 1024 ks @ acc"
    "min (length ks) 1024 + length ins \<le> 1024 \<longrightarrow> acc = ins" by (auto simp: input_run_def)
  from acc(1,2) show "subseq (outs @ stdin_text (cpu_kernel s)) (ks @ ins)"
    using list_emb_append_mono[OF prefix_imp_subseq[OF take_is_prefix] acc(1), of 1024 ks] by simp
  show "outs @ stdin_text (cpu_kernel s) = ks @ ins" if "length (ks @ ins) \<le> 1024" using acc(2,3) that by simp
qed

text \<open>The screen at the end of boot, as a terminal.\<close>

definition blank_terminal :: terminal where
  "blank_terminal = (80, (replicate 2000 (mk_char CHR '' '' 0x07), 0), Live 0, Live 0)"

lemma show_con_steps:
  assumes "fold con_step cs (W, scr, out) = (W', scr', out')" "out = Blocked \<or> (\<exists>h < 1024. out = Live h)"
  shows "fold show_chunk (say cs) (W, scr, out, err) = (W', scr', out', err)"
  using assms
proof (induction cs arbitrary: W scr out)
  case (Cons c cs)
  have "fst (con_step c (W, scr, out)) = W" by (cases out) auto
  then obtain scr1 out1 where c: "con_step c (W, scr, out) = (W, scr1, out1)"
    by (cases "con_step c (W, scr, out)") auto
  have "show_chunk (1, [c]) (W, scr, out, err) = (W, scr1, out1, err) \<and> (out1 = Blocked \<or> (\<exists>h < 1024. out1 = Live h))"
    using c Cons.prems(2) by (auto simp: show_chunk_def Let_def slot0_at_def split: if_splits)
      (metis mod_less_divisor zero_less_numeral)+
  with Cons c show ?case by (simp add: say_def)
qed (simp add: say_def)

lemma booted_screen:
  assumes "platform_ok pf" "kernel_entry pf magic addr = Inr (Boot_User c k)" "console_shows k txt"
  shows "term_live k" "shown k = fold show_chunk (say txt) blank_terminal"
proof -
  obtain sh where sh: "k_shell k = Some sh" "con_ok sh" "con_of sh = fold con_step txt blank_console"
    using assms(3) by (auto simp: console_shows_def)
  have err: "st_head (sh_streams sh ! 2) = 0" using boot_reaches_user(7)[OF assms(1,2)] sh(1) by (simp add: stderr_of_def)
  obtain W scr m where con: "con_of sh = (W, scr, m)" by (cases "con_of sh") blast
  note live = con_term_ok[OF sh(2) err con]
  have "fold show_chunk (say txt) (80, (replicate 2000 (mk_char CHR '' '' 0x07), 0), Live 0, Live 0) = (W, scr, m, Live 0)"
    by (rule show_con_steps[OF sh(3)[unfolded con blank_console_def, symmetric]]) simp
  with live show "term_live k" "shown k = fold show_chunk (say txt) blank_terminal"
    using sh(1) by (simp_all add: term_live_def shown_def blank_terminal_def)
qed

lemma typing_screen:
  assumes "typing ks k k'" "term_live k"
  shows "term_live k'" "shown k' = shown k"
proof -
  obtain sh s tr where sh: "k_shell k = Some sh" "stream_ok s" "k' = with_input s tr k"
    using assms(1) by (auto simp: typing_def plain_def)
  let ?t = "sh\<lparr>sh_streams := (sh_streams sh)[0 := s]\<rparr>"
  have "term_ok sh" using assms(2) sh(1) by (simp add: term_live_def)
  then have "term_ok ?t" using sh_ok_set_stream[OF _ sh(2), of sh 0] by (simp add: term_ok_def)
  moreover have "k_shell k' = Some ?t" using sh(1,3) by (simp add: with_input_def)
  moreover have "term_of ?t = term_of sh" by (simp add: term_of_def sh_screen_def)
  ultimately show "term_live k'" "shown k' = shown k" using sh(1) by (simp_all add: term_live_def shown_def)
qed

text \<open>The demonstration machine: a key is pressed while its program runs.\<close>

definition demo_irq :: action where
  "demo_irq = Interrupt 1 (\<lambda>_. 0x1E) 0x101000 demo_clobbered"

lemma demo_irq_runs:
  assumes "represents demo_platform 0x102000 (Running (In_User demo_user k)) (User, k)"
  shows "\<exists>s. cpu_run demo_platform 0x100200 0x10E000 [demo_irq] (Running (In_User demo_user k)) = Some (s, ''a'', [])"
proof -
  have "possible demo_irq (Running (In_User demo_user k))" by (simp add: demo_irq_def)
  with cpu.moves[OF assms, of demo_irq "0x100200" "0x10E000"] obtain s where
    "cpu_step demo_platform 0x100200 0x10E000 demo_irq (Running (In_User demo_user k)) = Some s" by auto
  moreover have "keymap ! 30 = CHR ''a''" by code_simp
  ultimately show ?thesis by (simp add: cpu_run_def demo_irq_def)
qed

lemma demo_start: "\<exists>k. kernel_entry demo_platform 0x36d76289 0x10000 = Inr (Boot_User (user_context.truncate demo_user) k)
    \<and> 0x102000 = tss_esp0 (idt_tss (k_idt k))"
proof -
  have "user_context.truncate demo_user = um_switch (pf_context demo_platform)"
    by (simp add: user_context.truncate_def um_switch_eq demo_user_def demo_platform_def)
  with demo_boot show ?thesis by auto
qed

text \<open>Its boot stack holds already what the start code leaves there.\<close>

lemma store32_twice [simp]: "store32 (store32 m a v) a w = store32 m a w"
proof
  fix x
  show "store32 (store32 m a v) a w x = store32 m a w x"
    by (cases "in_range a 4 x") (simp_all add: store32_def write_bytes_at store32_outside)
qed

lemma demo_stack_words:
  "load32 demo_memory 0x14FFF4 = 0x100060" "load32 demo_memory 0x14FFF8 = 0x36d76289" "load32 demo_memory 0x14FFFC = 0x10000"
proof -
  have "holds demo_memory (of_nat 0x14FFF4) demo_stack" by (rule demo_memory_holds) simp
  then have "holds demo_memory 0x14FFF4 (le32 0x100060) \<and> holds demo_memory 0x14FFF8 (le32 0x36d76289)
      \<and> holds demo_memory 0x14FFFC (le32 0x10000)" by (simp add: demo_stack_def holds_append del: le32_def)
  then show "load32 demo_memory 0x14FFF4 = 0x100060" "load32 demo_memory 0x14FFF8 = 0x36d76289"
    "load32 demo_memory 0x14FFFC = 0x10000"
    using holds_le32 by blast+
qed

lemma demo_start_regs:
  "start_regs 0x150000 0x100060 (demo_handoff, demo_memory) = (demo_handoff\<lparr>uc_esp := 0x14FFF4, uc_eflags := 2\<rparr>, demo_memory)"
  by (simp add: start_regs_eq demo_handoff_def store32_same demo_stack_words)

lemma demo_boot_shows: "\<exists>k. kernel_entry demo_platform 0x36d76289 0x10000
      = Inr (Boot_User (user_context.truncate (demo_user\<lparr>uc_eax := v\<rparr>)) k)
    \<and> 0x102000 = tss_esp0 (idt_tss (k_idt k)) \<and> console_shows k (boot_text 0x7F7FC00 demo_sb (concat (map dir_listing [demo_entries])))"
proof -
  have c: "user_context.truncate (demo_user\<lparr>uc_eax := v\<rparr>) = um_switch (pf_context demo_platform)"
    by (simp add: user_context.truncate_def um_switch_eq demo_user_def demo_platform_def)
  have "loaded_bytes demo_fs demo_file = 71" "i_size_lo demo_file = 71"
    by (simp_all add: loaded_bytes_def demo_fs_def demo_file_def demo_inode_def)
  then have whole: "short_read_text demo_fs demo_file = []" by (simp add: short_read_text_def)
  note boot = boot_user_mode[OF demo_platform_ok, unfolded demo_platform_sel, OF demo_bytes
      demo_mountable(2) demo_mounted_def demo_mounted_fs[symmetric] demo_mounted_root refl demo_found[symmetric]]
  from boot[of demo_file] demo_mounted_inode(2) demo_file_loadable whole show ?thesis
    unfolding c by (auto simp: demo_mountable(1) boot_text_def)
qed

section \<open>Properties\<close>

text \<open>C5: the machine implements the system. After any boot with a ring 0 stack below the user
  area, whatever the user program computes, calls and is interrupted by: the run of the machine,
  through gates, stubs and the stack, is a run of theory System over the corresponding events, with
  the same input offered and the same characters delivered into the program's buffers; the machine is in user mode, idle or halted
  as the system is, and its kernel is the system's but for the 92 bytes at the top of the ring 0 stack.\<close>

theorem machine_refines_system:
  assumes "platform_ok pf" "kernel_entry pf magic addr = Inr (Boot_User (user_context.truncate c) k0)"
    "e = tss_esp0 (idt_tss (k_idt k0))" "92 \<le> e" "e \<le> 0x400000"
    "cpu_run pf ex st as (Running (In_User c k0)) = Some (s, ins, outs)"
  shows "\<exists>es md k. sys_run ex st es ins outs User k0 md k \<and> list_all2 event_of as es
    \<and> mode_of e s md \<and> same_kernel e (cpu_kernel s) k"
proof -
  have "represents pf e (Running (In_User c k0)) (User, k0)"
    by (rule booted_represents[OF assms(1-5) boot_sys_ok[OF assms(1,2)] refl])
  from cpu.runs[OF this assms(6)[unfolded cpu_run_def]] show ?thesis by (auto simp: represents_def)
qed

text \<open>The demonstration machine, with the key A pressed.\<close>

theorem machine_refines_system_witness:
  "\<exists>k0 s es md k. cpu_run demo_platform 0x100200 0x10E000 [demo_irq] (Running (In_User demo_user k0)) = Some (s, ''a'', [])
    \<and> sys_run 0x100200 0x10E000 es ''a'' [] User k0 md k \<and> length es = 1 \<and> same_kernel 0x102000 (cpu_kernel s) k"
proof -
  obtain k0 where k0: "kernel_entry demo_platform 0x36d76289 0x10000 = Inr (Boot_User (user_context.truncate demo_user) k0)"
    "0x102000 = tss_esp0 (idt_tss (k_idt k0))" using demo_start by blast
  have low: "(92 :: u32) \<le> 0x102000" "(0x102000 :: u32) \<le> 0x400000" by simp_all
  have "represents demo_platform 0x102000 (Running (In_User demo_user k0)) (User, k0)"
    by (rule booted_represents[OF demo_platform_ok k0 low boot_sys_ok[OF demo_platform_ok k0(1)] refl])
  then obtain s where s: "cpu_run demo_platform 0x100200 0x10E000 [demo_irq] (Running (In_User demo_user k0)) = Some (s, ''a'', [])"
    using demo_irq_runs by blast
  from machine_refines_system[OF demo_platform_ok k0 low s] s show ?thesis
    by (fastforce dest: list_all2_lengthD)
qed

text \<open>C1: from power on. When the start code and the entry point would reach the first program
  undisturbed, they do so with any requests of the timer and the keyboard during boot; and from there, whatever the
  program computes, calls and is interrupted by, the machine never gets stuck, and it halts on
  an exception other than the breakpoint and on nothing else. In every state it reaches the descriptor tables, the TSS, the
  allocator, the processes and the file system are as an undisturbed boot leaves them, and so is memory outside
  the user area and the 1024 bytes behind it, but for the top 92 bytes of the ring 0 stack. What the
  program has read, followed by what still waits, is a subsequence of what was typed during boot and
  offered since, in order, and all of it when that was at most 1024 characters.\<close>

theorem power_on_to_run:
  assumes "platform_ok pf" "start pf stack_top ret c0 = Inr (Boot_User ctx k0)" "enabled q0"
    "e = tss_esp0 (idt_tss (k_idt k0))" "92 \<le> e" "e \<le> 0x400000"
  shows "\<exists>k1 used q. start_irqs pf q0 stack_top ret c0 = Inr (Boot_User ctx k1, q) \<and> q0 = used @ q
    \<and> (\<forall>c as s ins outs. user_context.truncate c = ctx \<longrightarrow> cpu_run pf ex st as (Running (In_User c k1)) = Some (s, ins, outs) \<longrightarrow>
        (\<forall>a. possible a s \<longrightarrow> cpu_step pf ex st a s \<noteq> None)
        \<and> ((\<exists>k. s = Halted k) \<longleftrightarrow> (\<exists>a \<in> set as. halting a))
        \<and> (let k = cpu_kernel s in
            k_gdt k = k_gdt k0 \<and> k_idt k = k_idt k0 \<and> k_pmm k = k_pmm k0 \<and> k_procs k = k_procs k0 \<and> k_fs k = k_fs k0
            \<and> (\<forall>x. (x < 0x400000 \<or> 0x900400 \<le> x) \<and> \<not> kernel_stack e x \<longrightarrow> k_memory k x = k_memory k0 x)
            \<and> subseq (outs @ stdin_text k) (typed used @ ins)
            \<and> (length (typed used @ ins) \<le> 1024 \<longrightarrow> outs @ stdin_text k = typed used @ ins)))"
proof -
  obtain c1 m1 where s: "start_regs stack_top ret (c0, pf_memory pf) = (c1, m1)" by fastforce
  let ?pf = "pf\<lparr>pf_memory := m1\<rparr>" and ?magic = "load32 m1 (uc_esp c1 + 4)" and ?addr = "load32 m1 (uc_esp c1 + 8)"
  have ok: "platform_ok ?pf" using assms(1) by (simp add: platform_ok_def)
  have entry: "kernel_entry ?pf ?magic ?addr = Inr (Boot_User ctx k0)" using assms(2) s by (simp add: start_def)
  obtain k1 used q where b: "kernel_entry_irqs ?pf q0 ?magic ?addr = Inr (Boot_User ctx k1, q)" "q0 = used @ q"
    "typing (typed used) k0 k1"
    using boot_interrupted[OF ok assms(3) entry] by blast
  have start: "start_irqs pf q0 stack_top ret c0 = Inr (Boot_User ctx k1, q)" using b(1) s by (simp add: start_irqs_def)
  have tables: "k_gdt k = k_gdt k0 \<and> k_idt k = k_idt k0 \<and> k_pmm k = k_pmm k0 \<and> k_procs k = k_procs k0 \<and> k_fs k = k_fs k0
      \<and> (\<forall>x. (x < 0x400000 \<or> 0x900400 \<le> x) \<and> \<not> kernel_stack e x \<longrightarrow> k_memory k x = k_memory k0 x)"
    if "same_kernel e k m \<and> kernel_kept k0 m" for k m
    using that by (auto simp: kernel_kept_def elim!: same_kernelE)
  have runs: "(\<forall>a. possible a s \<longrightarrow> cpu_step pf ex st a s \<noteq> None) \<and> ((\<exists>k. s = Halted k) \<longleftrightarrow> (\<exists>a \<in> set as. halting a))
      \<and> (let k = cpu_kernel s in
          k_gdt k = k_gdt k0 \<and> k_idt k = k_idt k0 \<and> k_pmm k = k_pmm k0 \<and> k_procs k = k_procs k0 \<and> k_fs k = k_fs k0
          \<and> (\<forall>x. (x < 0x400000 \<or> 0x900400 \<le> x) \<and> \<not> kernel_stack e x \<longrightarrow> k_memory k x = k_memory k0 x)
          \<and> subseq (outs @ stdin_text k) (typed used @ ins)
          \<and> (length (typed used @ ins) \<le> 1024 \<longrightarrow> outs @ stdin_text k = typed used @ ins))"
    if "user_context.truncate c = ctx" "cpu_run pf ex st as (Running (In_User c k1)) = Some (s, ins, outs)" for c as s ins outs
  proof -
    note r = typed_run[OF ok entry[folded that(1)] assms(4-6) b(3), unfolded cpu_memory, OF that(2)]
    from r(3) obtain m where "same_kernel e (cpu_kernel s) m \<and> kernel_kept k0 m" by blast
    from r(1,2,4,5) tables[OF this] show ?thesis unfolding Let_def by simp
  qed
  show ?thesis by (intro exI[of _ k1] exI[of _ used] exI[of _ q] conjI allI impI start b(2) runs)
qed

text \<open>The demonstration machine started by its loader, with the key A pressed during boot and
  again while the program runs.\<close>

theorem power_on_to_run_witness:
  "\<exists>k1 s. start_irqs demo_platform demo_schedule 0x150000 0x100060 demo_handoff
      = Inr (Boot_User (user_context.truncate demo_user) k1, [])
    \<and> cpu_run demo_platform 0x100200 0x10E000 [demo_irq] (Running (In_User demo_user k1)) = Some (s, ''a'', [])
    \<and> stdin_text (cpu_kernel s) = ''aa''"
proof -
  obtain k0 where k0: "kernel_entry demo_platform 0x36d76289 0x10000 = Inr (Boot_User (user_context.truncate demo_user) k0)"
    "0x102000 = tss_esp0 (idt_tss (k_idt k0))" using demo_start by blast
  have low: "(92 :: u32) \<le> 0x102000" "(0x102000 :: u32) \<le> 0x400000" by simp_all
  obtain k used q where b: "kernel_entry_irqs demo_platform demo_schedule 0x36d76289 0x10000
      = Inr (Boot_User (user_context.truncate demo_user) k, q)" "demo_schedule = used @ q" "used \<noteq> []" "typing (typed used) k0 k"
    using boot_interrupted[OF demo_platform_ok demo_schedule_facts(1) k0(1)] by (auto simp: demo_schedule_def)
  then have q: "q = []" "used = demo_schedule" by (cases used; simp add: demo_schedule_def)+
  note args = demo_stack_words(2,3)
  have start: "start demo_platform 0x150000 0x100060 demo_handoff = Inr (Boot_User (user_context.truncate demo_user) k0)"
    using k0(1) args by (simp add: start_def demo_start_regs demo_platform_def)
  from power_on_to_run[OF demo_platform_ok start demo_schedule_facts(1) k0(2) low, of "0x100200" "0x10E000"]
  obtain k1 used' q' where p: "start_irqs demo_platform demo_schedule 0x150000 0x100060 demo_handoff
      = Inr (Boot_User (user_context.truncate demo_user) k1, q')" "demo_schedule = used' @ q'"
    and runs: "\<And>as s ins outs. cpu_run demo_platform 0x100200 0x10E000 as (Running (In_User demo_user k1)) = Some (s, ins, outs)
      \<Longrightarrow> length (typed used' @ ins) \<le> 1024 \<Longrightarrow> outs @ stdin_text (cpu_kernel s) = typed used' @ ins"
    unfolding Let_def by blast
  have same: "k1 = k" "q' = []" using p(1) b(1) q(1) args by (simp_all add: start_irqs_def demo_start_regs demo_platform_def)
  have idt: "k_idt k = k_idt k0" using b(4) by (auto simp: typing_def)
  have "represents demo_platform 0x102000 (Running (In_User demo_user k)) (User, k)"
    by (rule booted_represents[OF demo_platform_ok k0 low typing_sys_ok[OF b(4) boot_sys_ok[OF demo_platform_ok k0(1)]] idt])
  then obtain s where s: "cpu_run demo_platform 0x100200 0x10E000 [demo_irq] (Running (In_User demo_user k)) = Some (s, ''a'', [])"
    using demo_irq_runs by blast
  have "typed used' = ''a''" using p(2) same(2) demo_schedule_facts(2) by simp
  with runs[unfolded same(1), OF s] have "stdin_text (cpu_kernel s) = ''aa''" by simp
  with p(1) s same show ?thesis by auto
qed

text \<open>C8: the screen shows what was printed. After a boot that shows some text, with any requests between its
  statements, and any run of any user program: screen, cursor and both output streams are where the
  terminal gets, from the blank screen, with the boot text and then everything
  the run has printed, in order: what \<open>write\<close> calls pass to streams 1 and 2, whatever its bytes and length,
  the messages for bad pointers, unknown calls and the exit, and the reports of exceptions. Keys print nothing.\<close>

theorem screen_after_run:
  assumes "platform_ok pf" "kernel_entry pf magic addr = Inr (Boot_User (user_context.truncate c) k0)"
    "console_shows k0 txt" "enabled q0" "kernel_entry_irqs pf q0 magic addr = Inr (Boot_User c' k1, q)"
    "e = tss_esp0 (idt_tss (k_idt k0))" "92 \<le> e" "e \<le> 0x400000"
    "cpu_printed pf ex st as (Running (In_User c k1)) = Some (s, ps, none)"
  shows "\<exists>sh. k_shell (cpu_kernel s) = Some sh \<and> term_of sh = fold show_chunk (say txt @ ps) blank_terminal"
proof -
  obtain ks where typed: "typing ks k0 k1" using boot_interrupted[OF assms(1,4,2)] assms(5) by auto
  note b = booted_screen[OF assms(1-3)]
  note t = typing_screen[OF typed b(1)]
  have idt: "k_idt k1 = k_idt k0" using typed by (auto simp: typing_def)
  have "represents pf e (Running (In_User c k1)) (User, k1)"
    by (rule booted_represents[OF assms(1,2,6-8) typing_sys_ok[OF typed boot_sys_ok[OF assms(1,2)]] idt])
  then have rep: "represents pf e (Running (In_User c k1)) (User, k1) \<and> term_live (snd (User, k1))" using t(1) by simp
  obtain es t1 where r: "term_live k1 \<longrightarrow> shows_on k1 ps (snd t1)" "represents pf e s t1"
    using cpu_screen.runs[OF rep assms(9)[unfolded cpu_printed_def]] unfolding snd_conv by blast
  then have "shows_on k1 ps (snd t1)" "same_kernel e (cpu_kernel s) (snd t1)"
    using t(1) by (simp_all add: represents_def split_beta)
  with t(2) b(2) show ?thesis
    by (auto simp: shows_on_def term_live_def shown_def elim!: same_kernelE)
qed

text \<open>The demonstration machine, whose program exits at once.\<close>

theorem screen_after_run_witness:
  "\<exists>k s sh. cpu_printed demo_platform 0x100200 0x10E000 [Syscall 0x101000 demo_clobbered]
      (Running (In_User (demo_user\<lparr>uc_eax := 1\<rparr>) k)) = Some (s, say (line ''Exited with code 0'' @ line ''Idling...''), [])
    \<and> k_shell (cpu_kernel s) = Some sh
    \<and> term_of sh = fold show_chunk (say (boot_text 0x7F7FC00 demo_sb (concat (map dir_listing [demo_entries])))
        @ say (line ''Exited with code 0'' @ line ''Idling...'')) blank_terminal"
proof -
  let ?c = "demo_user\<lparr>uc_eax := 1\<rparr>" and ?txt = "boot_text 0x7F7FC00 demo_sb (concat (map dir_listing [demo_entries]))"
  let ?ps = "say (line ''Exited with code 0'' @ line ''Idling...'')"
  obtain k0 where k0: "kernel_entry demo_platform 0x36d76289 0x10000 = Inr (Boot_User (user_context.truncate ?c) k0)"
    "0x102000 = tss_esp0 (idt_tss (k_idt k0))" "console_shows k0 ?txt"
    using demo_boot_shows by blast
  have low: "(92 :: u32) \<le> 0x102000" "(0x102000 :: u32) \<le> 0x400000" by simp_all
  obtain k1 used q where b: "kernel_entry_irqs demo_platform demo_schedule 0x36d76289 0x10000
      = Inr (Boot_User (user_context.truncate ?c) k1, q)" "typing (typed used) k0 k1"
    using boot_interrupted[OF demo_platform_ok demo_schedule_facts(1) k0(1)] by blast
  have idt: "k_idt k1 = k_idt k0" using b(2) by (auto simp: typing_def)
  have rep: "represents demo_platform 0x102000 (Running (In_User ?c k1)) (User, k1)"
    by (rule booted_represents[OF demo_platform_ok k0(1,2) low typing_sys_ok[OF b(2) boot_sys_ok[OF demo_platform_ok k0(1)]] idt])
  have "possible (Syscall 0x101000 demo_clobbered) (Running (In_User ?c k1))" by simp
  with cpu.moves[OF rep, of "Syscall 0x101000 demo_clobbered" "0x100200" "0x10E000"] obtain s where
    s: "cpu_step demo_platform 0x100200 0x10E000 (Syscall 0x101000 demo_clobbered) (Running (In_User ?c k1)) = Some s" by auto
  have "int_text 0 10 = ''0''" by (simp add: int_text_def nat_text_def nat_digits.simps to_int_small)
  then have "cpu_prints (Running (In_User ?c k1)) (Syscall 0x101000 demo_clobbered) = ?ps"
    by (simp add: call_prints_def demo_user_def)
  with s have run: "cpu_printed demo_platform 0x100200 0x10E000 [Syscall 0x101000 demo_clobbered]
      (Running (In_User ?c k1)) = Some (s, ?ps, [])" by (simp add: cpu_printed_def)
  from screen_after_run[OF demo_platform_ok k0(1,3) demo_schedule_facts(1) b(1) k0(2) low run] run show ?thesis by blast
qed

end
