(* ===== verification/Input_Live.thy ===== *)
theory Input_Live
  imports Power_On
begin

text \<open>
  How much a read returns. The read loop of \<open>stream_read\<close> looks for a newline at the number of bytes it has
  read, counted from the start of the array, and not among the bytes it delivers (theory Stream_Buffer). Here
  is what this means for the program, from power on: while at most 1024 characters have arrived, the array
  starts with everything that was ever typed, and every read is cut at the length of the first
  line of the session.
\<close>

section \<open>The standard input since boot\<close>

text \<open>A stream whose array begins with all that was accepted since the write index was 0.\<close>

definition fed :: "char list \<Rightarrow> stream \<Rightarrow> bool" where
  "fed acc s \<longleftrightarrow> stream_ok s \<and> length acc \<le> 1024 \<and> st_count s \<le> int (length acc)
     \<and> st_head s = int (length acc) mod 1024 \<and> take (length acc) (st_data s) = acc"

definition first_line :: "char list \<Rightarrow> char list" where
  "first_line = takeWhile (\<lambda>c. c \<noteq> LF)"

lemma fed_start:
  assumes "stream_ok s" "st_tail s = 0"
  shows "fed (stream_contents s) s"
proof -
  have c: "0 \<le> st_count s" "nat (st_count s) \<le> 1024" "length (st_data s) = 1024"
    using assms(1) by (auto simp: stream_ok_def)
  have "take (nat (st_count s)) (st_data s) = stream_contents s"
    using assms(2) c by (intro nth_equalityI) (simp_all add: stream_contents_def)
  with assms c show ?thesis by (simp add: fed_def stream_ok_def)
qed

lemma fed_put:
  assumes "fed acc s" "length acc < 1024"
  shows "\<exists>t. stream_put s c = Inr t \<and> fed (acc @ [c]) t"
proof -
  have s: "stream_ok s" "st_count s < 1024" "nat (st_head s) = length acc" "take (length acc) (st_data s) = acc"
    "st_count s \<le> int (length acc)"
    using assms by (simp_all add: fed_def)
  obtain t where t: "stream_put s c = Inr t" "stream_ok t" "st_count t = st_count s + 1" "st_tail t = st_tail s"
    "st_data t = (st_data s)[length acc := c]"
    using stream_put_ok[OF s(1,2), of c] s(3) by auto
  have "st_head t = (st_head s + 1) mod 1024"
    using s(1) t(2-4) by (simp add: stream_ok_def mod_add_left_eq add.assoc)
  then have "st_head t = int (length (acc @ [c])) mod 1024" using s(3) assms by (simp add: fed_def add.commute)
  moreover have "take (length (acc @ [c])) (st_data t) = acc @ [c]"
    using t(5) s(4) assms(2) stream_ok_length[OF s(1)] by (simp add: take_Suc_conv_app_nth)
  ultimately show ?thesis using t s(5) assms(2) by (simp add: fed_def)
qed

lemma fed_write:
  assumes "fed acc s" "length acc + nat len \<le> 1024" "stream_write s buf len = Inr (t, n)"
  shows "fed (acc @ map buf [0..<nat len]) t"
proof -
  let ?I = "\<lambda>i t. fed (acc @ map buf [0..<i]) t"
  have "\<exists>t. rfold (\<lambda>s w. stream_put s (buf w)) s [0..<nat len] = Inr t \<and> ?I (nat len) t"
  proof (rule rfold_nat_induct)
    show "?I 0 s" using assms(1) by simp
  next
    fix i t assume "i < nat len" "?I i t"
    then show "\<exists>u. stream_put t (buf i) = Inr u \<and> ?I (Suc i) u"
      using fed_put[of "acc @ map buf [0..<i]" t "buf i"] assms(2) by auto
  qed
  moreover have "st_count s \<le> int (length acc)" using assms(1) by (simp add: fed_def)
  with assms(2) have "\<not> len > 1024 - st_count s" by linarith
  ultimately show ?thesis using assms(3) by (auto simp: stream_write_def)
qed

lemma fed_pop:
  assumes "fed acc s" "int m \<le> st_count s"
  shows "fed acc (stream_pop s m)"
proof -
  have "st_head (stream_pop s m) = st_head s" by (simp add: stream_pop_def)
  with assms stream_pop_ok(1)[of s m] show ?thesis by (simp add: fed_def)
qed

text \<open>The misplaced test finds the first newline of the session.\<close>

lemma fed_limit:
  assumes "fed acc s"
  shows "min (nat (st_count s)) (lf_limit s) = min (nat (st_count s)) (length (first_line acc))"
proof -
  let ?p = "\<lambda>c. c \<noteq> LF"
  have d: "st_data s = acc @ drop (length acc) (st_data s)" and n: "nat (st_count s) \<le> length acc"
    using assms append_take_drop_id[of "length acc" "st_data s"] by (simp_all add: fed_def nat_le_iff)
  show ?thesis
  proof (cases "LF \<in> set acc")
    case True
    then have "takeWhile ?p (acc @ drop (length acc) (st_data s)) = takeWhile ?p acc"
      by (intro takeWhile_append1[of LF]) simp_all
    then show ?thesis using d by (simp add: lf_limit_def first_line_def)
  next
    case False
    then have none: "\<And>c. c \<in> set acc \<Longrightarrow> c \<noteq> LF" by blast
    then have "takeWhile ?p acc = acc" by (simp add: takeWhile_eq_all_conv)
    moreover have "takeWhile ?p (acc @ drop (length acc) (st_data s)) = acc @ takeWhile ?p (drop (length acc) (st_data s))"
      using none by (rule takeWhile_append2)
    ultimately have "first_line acc = acc" "lf_limit s \<ge> length acc"
      using d by (simp_all add: lf_limit_def first_line_def)
    with n show ?thesis by simp
  qed
qed

section \<open>Lemmas: every step\<close>

definition feeds :: "kernel \<Rightarrow> char list \<Rightarrow> kernel \<Rightarrow> bool" where
  "feeds k ins k' \<longleftrightarrow> (\<forall>acc. fed acc (stdin_of k) \<longrightarrow> length (acc @ ins) \<le> 1024 \<longrightarrow> fed (acc @ ins) (stdin_of k'))"

lemma feeds_same: "stdin_of k' = stdin_of k \<Longrightarrow> feeds k [] k'"
  by (simp add: feeds_def)

lemma feeds_prints: "prints k (Inr k') \<Longrightarrow> feeds k [] k'"
  by (intro feeds_same prints_stdin_of)

lemma feeds_trans: "feeds k a k1 \<Longrightarrow> feeds k1 b k2 \<Longrightarrow> feeds k (a @ b) k2"
  unfolding feeds_def by (metis append_assoc add_leD1 length_append)

lemma write_feeds:
  assumes sh: "k_shell k = Some sh" "sh_ok sh" and call: "from_user fr" "fr_eax fr = 4" "user_range (fr_ecx fr)"
    and r: "handle_syscall ex st fr k = Inr (fr', k')" and vec: "fr_int_no fr = 0x80"
  shows "feeds k (offered k (Trap fr fr')) k'"
proof -
  let ?buf = "user_text (k_memory k) (fr_ecx fr)" and ?len = "to_int (fr_edx fr)" and ?s = "sh_streams sh ! 0"
  from write_stream_input[OF sh(2), of "to_int (fr_ebx fr)" ?buf ?len] obtain t w where
    t: "sh_write_stream sh (to_int (fr_ebx fr)) ?buf ?len = Inr (t, w)"
      "if fr_ebx fr = 0 then \<exists>n. stream_write ?s ?buf ?len = Inr (sh_streams t ! 0, n) else sh_streams t ! 0 = ?s"
    by (auto simp: to_int_zero split: if_splits)
  have "k' = k\<lparr>k_shell := Some t\<rparr>"
    using r call user_range_nonzero[OF call(3)] sh(1) t(1)
    by (auto simp: handle_syscall_def sys_write_def with_shell_def Let_def)
  with t(2) sh(1) call vec show ?thesis
    by (auto simp: feeds_def stdin_of_eq intro: fed_write split: if_splits)
qed

text \<open>A read, with the bytes it stores and the number it returns.\<close>

lemma read_returns:
  assumes sh: "k_shell k = Some sh" "sh_ok sh" and call: "from_user fr" "fr_eax fr = 3" "user_range (fr_ecx fr)"
    and r: "handle_syscall ex st fr k = Inr (fr', k')"
  shows "feeds k [] k'" "fed acc (stdin_of k) \<Longrightarrow>
    unat (fr_eax fr') = min (nat (to_int (fr_edx fr))) (min (length (stdin_text k)) (length (first_line acc)))"
proof -
  let ?s = "sh_streams sh ! STREAM_STDIN"
  define n where "n = min (nat (to_int (fr_edx fr))) (min (nat (st_count ?s)) (lf_limit ?s))"
  note rd = sys_read_exact[OF sh user_range_nonzero[OF call(3)] call(3), folded n_def]
  have s: "stdin_of k = ?s" "stdin_text k = stream_contents ?s" using sh(1) by (simp_all add: stdin_of_eq stdin_text_eq)
  have k': "fr' = fr\<lparr>fr_eax := of_nat n\<rparr>" "stdin_of k' = stream_pop ?s n"
    using r rd(1) call sh(2) by (auto simp: handle_syscall_def stdin_of_def sh_ok_iff)
  have n: "int n \<le> st_count ?s" "n \<le> 1024" using rd(2) by (auto simp: n_def stream_ok_def min_def)
  then show "feeds k [] k'" using s(1) k'(2) by (simp add: feeds_def fed_pop)
  show "unat (fr_eax fr') = min (nat (to_int (fr_edx fr))) (min (length (stdin_text k)) (length (first_line acc)))"
    if "fed acc (stdin_of k)"
  proof -
    have "unat (of_nat n :: u32) = n" using n(2) by (intro unat_of_nat_exact) simp
    then show ?thesis using fed_limit[OF that] s k'(1) by (simp add: n_def)
  qed
qed

lemma call_feeds:
  assumes "k_shell k = Some sh" "sh_ok sh" "from_user fr" "fr_int_no fr = 0x80"
    "handle_syscall ex st fr k = Inr (fr', k')"
  shows "feeds k (offered k (Trap fr fr')) k'"
proof -
  consider "fr_eax fr = 4" "user_range (fr_ecx fr)" | "fr_eax fr = 3" "user_range (fr_ecx fr)"
    | "\<not> (fr_eax fr \<in> {3, 4} \<and> user_range (fr_ecx fr))" by blast
  then show ?thesis
  proof cases
    case 1
    from write_feeds[OF assms(1-3) 1 assms(5,4)] show ?thesis .
  next
    case 2
    then show ?thesis using read_returns(1)[OF assms(1-3) 2 assms(5)] by simp
  next
    case 3
    then have "offered k (Trap fr fr') = []" by auto
    with other_call[OF assms(1-3) 3 assms(5)] show ?thesis by (auto intro: feeds_prints feeds_same)
  qed
qed

lemma request_feeds:
  assumes sh: "k_shell k = Some sh" "sh_ok sh" and v: "fr_int_no fr = 32 \<or> fr_int_no fr = 33"
    and r: "irq_handler dev fr k = Inr k'"
  shows "feeds k (offered k (Irq dev fr)) k'"
proof -
  obtain c where c: "scancode_to_ascii (dev 0x60) = Inr c" using scancode_total by blast
  consider "fr_int_no fr = 32" | "fr_int_no fr = 33" "\<not> (dev 0x60 < 128 \<and> c \<noteq> NUL)"
    | "fr_int_no fr = 33" "dev 0x60 < 128" "c \<noteq> NUL" using v by blast
  then show ?thesis
  proof cases
    case 1
    with r sh(1) show ?thesis by (auto simp: irq_handler_def outb_def Let_def intro: feeds_same)
  next
    case 2
    then have "offered k (Irq dev fr) = []"
      using c by (auto simp: scancode_to_ascii_def word_less_nat_alt word_le_nat_alt split: if_splits)
    with 2 r sh(1) c show ?thesis
      by (auto simp: irq_handler_def keyboard_irq_def inb_eq outb_def Let_def intro!: feeds_same)
  next
    case 3
    then have key: "offered k (Irq dev fr) = [c]"
      using c by (auto simp: scancode_to_ascii_def word_less_nat_alt word_le_nat_alt split: if_splits)
    obtain t w n where t: "sh_write_stream sh 0 (nth [c]) 1 = Inr (t, w)"
      "stream_write (sh_streams sh ! 0) (nth [c]) 1 = Inr (sh_streams t ! 0, n)"
      using write_stream_input[OF sh(2), of 0 "nth [c]" 1] by auto
    then have "k' = k\<lparr>k_shell := Some t, k_io := k_io k @ [In 0x60 (dev 0x60), Out 0x20 0x20]\<rparr>"
      using irq_handler_key[where dev = dev and fr = fr, OF sh(1) 3(1,2) c 3(3)] r by (simp add: key_interrupt_def)
    moreover have "fed (acc @ [c]) (sh_streams t ! 0)" if "fed acc (sh_streams sh ! 0)" "length acc < 1024" for acc
      using fed_write[OF that(1) _ t(2)] that(2) by simp
    ultimately show ?thesis unfolding key using sh(1) by (simp add: feeds_def stdin_of_eq)
  qed
qed

lemma handled_call:
  "interrupt_handler ex st fr k = Inr (False, fr', k') \<Longrightarrow> k_shell k = Some sh \<Longrightarrow> fr_int_no fr = 0x80 \<Longrightarrow>
    handle_syscall ex st fr k = Inr (fr', k')"
  by (auto simp: interrupt_handler_def rbind_eq_Inr)

lemma step_feeds:
  assumes "sys_step ex st ev md k md' k'" "sys_ok k"
  shows "feeds k (offered k ev) k'"
proof -
  obtain sh where sh: "k_shell k = Some sh" "sh_ok sh" using assms(2) by (rule sys_okE)
  from assms(1) show ?thesis
  proof cases
    case (Call fr fr')
    with call_feeds[OF sh Call(5,4) handled_call[OF Call(7) sh(1) Call(4)]] show ?thesis by simp
  next
    case (Exit fr fr' k1)
    have "sys_ok k1" using call_step[OF assms(2) Exit(5,4), of ex st] Exit(7) by auto
    then obtain sh1 where "k_shell k1 = Some sh1" "sh_ok sh1" by (rule sys_okE)
    with Exit(9) k_puts_prints[of k1 sh1 "line ''Idling...''"] have "feeds k1 [] k'"
      by (simp add: exit_to_kernel_prints_def feeds_prints)
    with call_feeds[OF sh Exit(5,4) handled_call[OF Exit(7) sh(1) Exit(4)]] Exit(1) show ?thesis
      using feeds_trans[of k _ k1 "[]" k'] by simp
  next
    case (Exception fr halts fr')
    have v: "unat (fr_int_no fr) < 17" using Exception(4) by (auto simp: exception_vectors_def)
    then have lt: "fr_int_no fr < 17" "fr_int_no fr < 32" by (simp_all add: word_less_nat_alt)
    have "feeds k [] k'"
      using Exception(5) exception_report_prints[OF sh lt(1)] sh(1) lt
      by (auto simp: interrupt_handler_def rbind_eq_Inr intro: feeds_prints)
    with Exception(1) exception_no_io[OF Exception(4)] show ?thesis by simp
  next
    case (Request fr dev)
    with request_feeds[OF sh Request(4,5)] show ?thesis by simp
  next
    case (Program m)
    then show ?thesis by (simp add: feeds_same)
  qed
qed

lemma run_feeds: "sys_run ex st evs ins outs md k md' k' \<Longrightarrow> sys_ok k \<Longrightarrow> feeds k ins k'"
proof (induction rule: sys_run.induct)
  case (Rest md k)
  then show ?case by (simp add: feeds_same)
next
  case (Move ev md k md' k' evs ins outs md'' k'')
  have "sys_ok k'" using step_effect[OF Move.hyps(1) Move.prems] by blast
  from Move.IH[OF this] step_feeds[OF Move.hyps(1) Move.prems] show ?case by (rule feeds_trans[rotated])
qed

section \<open>Lemmas: a read of the program\<close>

lemma cpu_read:
  assumes rep: "represents pf e (Running (In_User d k)) (md, ks)" and acc: "fed acc (stdin_of ks)"
    and call: "uc_eax d = SYS_READ" "user_range (uc_ecx d)"
  shows "\<exists>d' k'. cpu_step pf ex st (Syscall ret cl) (Running (In_User d k)) = Some (Running (In_User d' k'))
    \<and> unat (uc_eax d') = min (nat (to_int (uc_edx d))) (min (length (stdin_text k)) (length (first_line acc)))
    \<and> cpu_reads (Running (In_User d k)) (Syscall ret cl) (Running (In_User d' k')) = take (unat (uc_eax d')) (stdin_text k)"
proof -
  let ?cpu = "Running (In_User d k)" and ?a = "Syscall ret cl"
  have r: "same_kernel e k ks" "sys_ok ks" "tables_at pf e ks" "uc_cs d AND 3 = 3" "bit (uc_eflags d) 9"
    using rep by (simp_all add: represents_def)
  obtain sh where sh: "k_shell ks = Some sh" "sh_ok sh" using r(2) by (rule sys_okE)
  have waits: "stdin_text ks = stdin_text k" using r(1) by (auto simp: stdin_text_def elim!: same_kernelE)
  obtain s fr fr' md' ks' where s: "int_0x80 pf ex st ret cl d k = Some s" "sys_step ex st (Trap fr fr') User ks md' ks'"
    "fr_int_no fr = 0x80" "from_user fr" "fr_eax fr = uc_eax d" "fr_ecx fr = uc_ecx d" "fr_edx fr = uc_edx d"
    "delivered (Trap fr fr') ks' = cpu_reads ?cpu ?a (Running s)" "represents pf e (Running s) (md', ks')"
    using syscall_follows[OF r, of ex st ret cl] by blast
  have rd: "fr_eax fr = 3" "user_range (fr_ecx fr)" using call s(5,6) by simp_all
  obtain fr1 k1 where h: "interrupt_handler ex st fr ks = Inr (False, fr1, k1)" "from_user fr1"
    "input_step ks (offered ks (Trap fr fr1)) (delivered (Trap fr fr1) k1) k1"
    using call_step[OF r(2) s(4,3), of ex st] rd(1) by auto
  have same: "md' = User" "fr1 = fr'" "k1 = ks'" using s(2) h(1,2) s(3) by (auto elim!: sys_stepE simp: exception_vectors_def)
  obtain d' k' where d': "s = In_User d' k'" using s(9) same(1) by (cases s) (simp_all add: represents_def)
  have n: "unat (fr_eax fr') = min (nat (to_int (uc_edx d))) (min (length (stdin_text k)) (length (first_line acc)))"
    using read_returns(2)[OF sh s(4) rd handled_call[OF h(1) sh(1) s(3)] acc] same(2) s(7) waits by simp
  have len: "length (delivered (Trap fr fr') ks') = unat (fr_eax fr')" "unat (uc_eax d') = unat (fr_eax fr')"
    using s(3,4) rd arg_cong[OF s(8), of length] d' call by simp_all
  have "delivered (Trap fr fr') ks' @ stdin_text ks' = stdin_text k"
    using h(3) rd s(3) waits unfolding same by (simp add: input_step_def)
  then have "delivered (Trap fr fr') ks' = take (unat (fr_eax fr')) (stdin_text k)" using len(1) by (metis append_eq_conv_conj)
  then have "cpu_reads ?cpu ?a (Running (In_User d' k')) = take (unat (uc_eax d')) (stdin_text k)"
    using s(8) d' len(2) by simp
  with s(1) d' n len(2) show ?thesis
    by (intro exI[of _ d'] exI[of _ k'] conjI) (simp_all add: cpu_step_def)
qed

text \<open>What the standard input holds when the program starts.\<close>

lemma typing_fed:
  assumes "typing ks k k'" "stdin_text k = []" "st_tail (stdin_of k) = 0" "length ks \<le> 1024"
  shows "fed ks (stdin_of k')"
proof -
  obtain sh s tr where sh: "k_shell k = Some sh" "con_ok sh"
    and s: "stream_ok s" "stream_contents s = ks" "st_tail s = 0" "k' = with_input s tr k"
    using assms by (auto simp: typing_def plain_def)
  have "stdin_of k' = s" using sh s(4) by (simp add: with_input_def stdin_of_eq con_ok_def sh_ok_iff)
  with fed_start[OF s(1,3)] s(2) show ?thesis by simp
qed

lemma reads_something:
  assumes "n = min len (min (length xs - m) (length (first_line xs)))"
  shows "take n (drop m xs) \<noteq> [] \<longleftrightarrow> 0 < len \<and> m < length xs \<and> hd xs \<noteq> LF"
  using assms by (cases xs) (auto simp: first_line_def)

text \<open>A read of the machine in any run from power on.\<close>

lemma session_read:
  fixes c :: regs
  assumes boot: "platform_ok pf" "kernel_entry pf magic addr = Inr (Boot_User (user_context.truncate c) k0)"
    and e: "e = tss_esp0 (idt_tss (k_idt k0))" "92 \<le> e" "e \<le> 0x400000" and typed: "typing ks k0 k1"
    and run: "cpu_run pf ex st as (Running (In_User c k1)) = Some (Running (In_User d k), ins, outs)"
    and call: "uc_eax d = SYS_READ" "user_range (uc_ecx d)" and room: "length (ks @ ins) \<le> 1024"
  shows "\<exists>d' k'. cpu_step pf ex st (Syscall ret cl) (Running (In_User d k)) = Some (Running (In_User d' k'))
    \<and> unat (uc_eax d') = min (nat (to_int (uc_edx d))) (min (length (ks @ ins) - length outs) (length (first_line (ks @ ins))))
    \<and> cpu_reads (Running (In_User d k)) (Syscall ret cl) (Running (In_User d' k'))
      = take (unat (uc_eax d')) (drop (length outs) (ks @ ins))"
proof -
  note b = boot_reaches_user[OF boot]
  have idt: "k_idt k1 = k_idt k0" using typed by (auto simp: typing_def)
  have ok: "sys_ok k1" by (rule typing_sys_ok[OF typed boot_sys_ok[OF boot]])
  note rep = booted_represents[OF boot e ok idt]
  obtain es md m where m: "sys_run ex st es ins outs User k1 md m" "represents pf e (Running (In_User d k)) (md, m)"
    using cpu.runs[OF rep run[unfolded cpu_run_def]] by auto
  have "fed ks (stdin_of k1)" using typing_fed[OF typed b(4,8)] room by simp
  with run_feeds[OF m(1) ok] room have fed: "fed (ks @ ins) (stdin_of m)" by (simp add: feeds_def)
  have all: "outs @ stdin_text k = ks @ ins"
    using typed_run(5)[OF boot e typed run room] by simp
  then have "stdin_text k = drop (length outs) (ks @ ins)" by (metis append_eq_conv_conj)
  with cpu_read[OF m(2) fed call, of ex st ret cl] show ?thesis by (simp only: length_drop)
qed

section \<open>Properties\<close>

text \<open>C9: what every read returns, from power on. The start code and the entry point reach the first
  program, with any requests between their statements; the program has then run for any time, and calls
  \<open>read\<close> with a buffer in its area. While at most 1024 characters have been offered since power on, the call returns
  to the program at once, with as many of the characters it has not read yet as it asked for, but no
  more than the first line of the session was long, whatever has been read since. So it
  returns something exactly when it asks for something, something is waiting, and the very first
  character of the session was not a newline: after Enter as the first key no read ever returns
  a character, and after any other every waiting character can be read.\<close>

theorem reads_since_power_on:
  assumes "platform_ok pf" "start pf stack_top ret c0 = Inr (Boot_User (user_context.truncate c) k0)" "enabled q0"
    "e = tss_esp0 (idt_tss (k_idt k0))" "92 \<le> e" "e \<le> 0x400000"
    "start_irqs pf q0 stack_top ret c0 = Inr (Boot_User ctx k1, q)"
    "cpu_run pf ex st as (Running (In_User c k1)) = Some (Running (In_User d k), ins, outs)"
    "uc_eax d = SYS_READ" "user_range (uc_ecx d)"
  shows "\<exists>used. q0 = used @ q \<and> (let all = typed used @ ins; len = nat (to_int (uc_edx d)) in length all \<le> 1024 \<longrightarrow>
    (\<exists>d' k'. cpu_step pf ex st (Syscall ret' cl) (Running (In_User d k)) = Some (Running (In_User d' k'))
      \<and> unat (uc_eax d') = min len (min (length all - length outs) (length (first_line all)))
      \<and> (let got = cpu_reads (Running (In_User d k)) (Syscall ret' cl) (Running (In_User d' k')) in
          got = take (unat (uc_eax d')) (drop (length outs) all)
          \<and> (got \<noteq> [] \<longleftrightarrow> 0 < len \<and> length outs < length all \<and> hd all \<noteq> LF))))"
proof -
  obtain c1 m1 where s: "start_regs stack_top ret (c0, pf_memory pf) = (c1, m1)" by fastforce
  let ?pf = "pf\<lparr>pf_memory := m1\<rparr>" and ?magic = "load32 m1 (uc_esp c1 + 4)" and ?addr = "load32 m1 (uc_esp c1 + 8)"
  have ok: "platform_ok ?pf" using assms(1) by (simp add: platform_ok_def)
  have entry: "kernel_entry ?pf ?magic ?addr = Inr (Boot_User (user_context.truncate c) k0)"
    using assms(2) s by (simp add: start_def)
  obtain used where b: "q0 = used @ q" "typing (typed used) k0 k1"
    using boot_interrupted[OF ok assms(3) entry] assms(7) s by (auto simp: start_irqs_def)
  let ?all = "typed used @ ins"
  have "\<exists>d' k'. cpu_step pf ex st (Syscall ret' cl) (Running (In_User d k)) = Some (Running (In_User d' k'))
      \<and> unat (uc_eax d') = min (nat (to_int (uc_edx d))) (min (length ?all - length outs) (length (first_line ?all)))
      \<and> cpu_reads (Running (In_User d k)) (Syscall ret' cl) (Running (In_User d' k'))
        = take (unat (uc_eax d')) (drop (length outs) ?all)" if "length ?all \<le> 1024"
    using session_read[OF ok entry assms(4-6) b(2), unfolded cpu_memory, OF assms(8-10) that, of ret' cl] by simp
  with b(1) reads_something show ?thesis unfolding Let_def by (intro exI[of _ used]) (metis (no_types, lifting))
qed

text \<open>The demonstration machine: the key A during boot, and a program that asks for 64 characters.\<close>

definition demo_reader :: regs where
  "demo_reader = demo_user\<lparr>uc_eax := 3, uc_ecx := 0x400000, uc_edx := 64\<rparr>"

theorem reads_since_power_on_witness:
  "\<exists>k1 d' k'. start_irqs demo_platform demo_schedule 0x150000 0x100060 demo_handoff
      = Inr (Boot_User (user_context.truncate demo_reader) k1, [])
    \<and> cpu_step demo_platform 0x100200 0x10E000 (Syscall 0x101000 demo_clobbered) (Running (In_User demo_reader k1))
      = Some (Running (In_User d' k')) \<and> unat (uc_eax d') = 1
    \<and> cpu_reads (Running (In_User demo_reader k1)) (Syscall 0x101000 demo_clobbered) (Running (In_User d' k')) = ''a''"
proof -
  obtain k0 where k0: "kernel_entry demo_platform 0x36d76289 0x10000 = Inr (Boot_User (user_context.truncate demo_reader) k0)"
    "0x102000 = tss_esp0 (idt_tss (k_idt k0))"
    using demo_start by (auto simp: demo_reader_def user_context.truncate_def)
  have low: "(92 :: u32) \<le> 0x102000" "(0x102000 :: u32) \<le> 0x400000" by simp_all
  note args = demo_stack_words(2,3)
  have start: "start demo_platform 0x150000 0x100060 demo_handoff = Inr (Boot_User (user_context.truncate demo_reader) k0)"
    using k0(1) args by (simp add: start_def demo_start_regs demo_platform_def)
  obtain k1 used q where b: "kernel_entry_irqs demo_platform demo_schedule 0x36d76289 0x10000
      = Inr (Boot_User (user_context.truncate demo_reader) k1, q)" "demo_schedule = used @ q" "used \<noteq> []"
    using boot_interrupted[OF demo_platform_ok demo_schedule_facts(1) k0(1)] by (auto simp: demo_schedule_def)
  then have q: "q = []" by (cases used; simp add: demo_schedule_def)
  have irqs: "start_irqs demo_platform demo_schedule 0x150000 0x100060 demo_handoff
      = Inr (Boot_User (user_context.truncate demo_reader) k1, [])"
    using b(1) q args by (simp add: start_irqs_def demo_start_regs demo_platform_def)
  have run: "cpu_run demo_platform 0x100200 0x10E000 [] (Running (In_User demo_reader k1))
      = Some (Running (In_User demo_reader k1), [], [])" by (simp add: cpu_run_def)
  have call: "uc_eax demo_reader = SYS_READ" "user_range (uc_ecx demo_reader)" "nat (to_int (uc_edx demo_reader)) = 64"
    by (simp_all add: demo_reader_def user_range_def to_int_small)
  from call(1,2) reads_since_power_on[OF demo_platform_ok start demo_schedule_facts(1) k0(2) low irqs run call(1,2),
      of "0x101000" demo_clobbered] irqs call(3) demo_schedule_facts(2)
  show ?thesis by (auto simp: first_line_def Let_def)
qed

end
