(* ===== verification/Interference_Write.thy ===== *)
theory Interference_Write
  imports Interference
begin

text \<open>
  Interrupts inside a write. As in theory Interference, \<open>stream_write\<close> is taken apart into its memory
  accesses, and the keyboard handler, which renders the output stream and so empties it, runs between two of
  them: this is the write system call, whose gate leaves interrupts enabled.
\<close>

section \<open>The steps of a write\<close>

text \<open>Where the function is: the test and the assignment that limit \<open>len\<close>, the test of the loop,
  \<open>s->data[s->head] = buf[written]\<close>, the two halves of \<open>s->head = (s->head + 1) % STREAM_BUF_SIZE\<close> and of
  \<open>s->count++\<close>, \<open>written++\<close>.\<close>

datatype write_point = W_Limit | W_Set_Limit | W_Test | W_Store_Byte | W_Load_Head | W_Store_Head | W_Load_Count
  | W_Store_Count | W_Next | W_Returned

record writer =
  wr_at :: write_point
  wr_len :: int
  wr_written :: nat
  wr_reg :: int

definition writer_start :: "int \<Rightarrow> writer" where
  "writer_start len = \<lparr>wr_at = W_Limit, wr_len = len, wr_written = 0, wr_reg = 0\<rparr>"

definition writer_step :: "(nat \<Rightarrow> char) \<Rightarrow> stream \<times> writer \<Rightarrow> (stream \<times> writer) res" where
  "writer_step buf = (\<lambda>(s, w). case wr_at w of
     W_Limit \<Rightarrow> Inr (s, w\<lparr>wr_at := if wr_len w > int STREAM_BUF_SIZE - st_count s then W_Set_Limit else W_Test\<rparr>)
   | W_Set_Limit \<Rightarrow> Inr (s, w\<lparr>wr_len := int STREAM_BUF_SIZE - st_count s, wr_at := W_Test\<rparr>)
   | W_Test \<Rightarrow> Inr (s, w\<lparr>wr_at := if int (wr_written w) < wr_len w then W_Store_Byte else W_Returned\<rparr>)
   | W_Store_Byte \<Rightarrow> rbind (arr_set_int (st_data s) (st_head s) (buf (wr_written w))) (\<lambda>d.
       Inr (s\<lparr>st_data := d\<rparr>, w\<lparr>wr_at := W_Load_Head\<rparr>))
   | W_Load_Head \<Rightarrow> Inr (s, w\<lparr>wr_reg := (st_head s + 1) mod int STREAM_BUF_SIZE, wr_at := W_Store_Head\<rparr>)
   | W_Store_Head \<Rightarrow> Inr (s\<lparr>st_head := wr_reg w\<rparr>, w\<lparr>wr_at := W_Load_Count\<rparr>)
   | W_Load_Count \<Rightarrow> Inr (s, w\<lparr>wr_reg := st_count s + 1, wr_at := W_Store_Count\<rparr>)
   | W_Store_Count \<Rightarrow> Inr (s\<lparr>st_count := wr_reg w\<rparr>, w\<lparr>wr_at := W_Next\<rparr>)
   | W_Next \<Rightarrow> Inr (s, w\<lparr>wr_written := wr_written w + 1, wr_at := W_Test\<rparr>)
   | W_Returned \<Rightarrow> Inr (s, w))"

definition writer_steps :: "(nat \<Rightarrow> char) \<Rightarrow> nat \<Rightarrow> stream \<times> writer \<Rightarrow> (stream \<times> writer) res" where
  "writer_steps buf = rsteps (writer_step buf)"

lemma writer_steps_simps [simp]:
  "writer_steps buf 0 x = Inr x" "writer_steps buf (Suc n) x = rbind (writer_step buf x) (writer_steps buf n)"
  by (simp_all add: writer_steps_def)

text \<open>\<open>sh_write_stream\<close> to the standard output, with the key after \<open>n\<close> steps of its write; the rest of the
  write and the rendering
  run to their end. Seven steps per byte and three more are enough. The result has where the write was
  interrupted.\<close>

definition interrupted_write :: "nat \<Rightarrow> char \<Rightarrow> shell \<Rightarrow> (nat \<Rightarrow> char) \<Rightarrow> int \<Rightarrow> (writer \<times> shell) res" where
  "interrupted_write n key sh buf len =
     rbind (on_stream STREAM_STDOUT (writer_steps buf n) (sh\<lparr>sh_color := 0x07\<rparr>, writer_start len)) (\<lambda>(sh, w).
     rbind (key_interrupt key sh) (\<lambda>sh.
     rbind (on_stream STREAM_STDOUT (writer_steps buf (7 * nat len + 3)) (sh, w)) (\<lambda>(sh, _).
     rbind (sh_render sh) (\<lambda>sh. Inr (w, sh)))))"

section \<open>Lemmas: the steps are the function\<close>

lemma writer_returned: "wr_at w = W_Returned \<Longrightarrow> writer_steps buf n (s, w) = Inr (s, w)"
  by (simp add: writer_steps_def rsteps_halted writer_step_def)

lemma writer_loop:
  assumes "wr_at w = W_Test" "nat (wr_len w) = wr_written w + k" "7 * k + 1 \<le> n"
  shows "case rfold (\<lambda>s i. stream_put s (buf i)) s [wr_written w..<wr_written w + k] of
      Inl e \<Rightarrow> writer_steps buf n (s, w) = Inl e
    | Inr t \<Rightarrow> \<exists>w'. writer_steps buf n (s, w) = Inr (t, w') \<and> wr_at w' = W_Returned \<and> wr_written w' = wr_written w + k"
  using assms
proof (induction k arbitrary: s w n)
  case 0
  then obtain m where "n = Suc m" by (cases n) simp_all
  with 0 show ?case by (simp add: writer_step_def writer_returned)
next
  case (Suc k)
  let ?i = "wr_written w"
  obtain m where n: "n = Suc (Suc (Suc (Suc (Suc (Suc (Suc m))))))" "7 * k + 1 \<le> m"
  proof
    show "n = Suc (Suc (Suc (Suc (Suc (Suc (Suc (n - 7)))))))" "7 * k + 1 \<le> n - 7" using Suc.prems(3) by simp_all
  qed
  have lt: "int ?i < wr_len w" using Suc.prems(2) by linarith
  have upt: "[?i..<?i + Suc k] = ?i # [Suc ?i..<Suc ?i + k]" by (simp add: upt_conv_Cons)
  show ?case
  proof (cases "arr_set_int (st_data s) (st_head s) (buf ?i)")
    case (Inl e)
    then show ?thesis using n(1) Suc.prems(1) lt unfolding upt by (simp add: writer_step_def stream_put_def del: upt_Suc)
  next
    case (Inr d)
    let ?s = "s\<lparr>st_data := d, st_head := (st_head s + 1) mod 1024, st_count := st_count s + 1\<rparr>"
    let ?w = "w\<lparr>wr_reg := st_count s + 1, wr_written := ?i + 1, wr_at := W_Test\<rparr>"
    have "writer_steps buf n (s, w) = writer_steps buf m (?s, ?w)"
      unfolding n(1) using Inr Suc.prems(1) lt by (simp add: writer_step_def)
    moreover have "stream_put s (buf ?i) = Inr ?s" using Inr by (simp add: stream_put_def)
    ultimately show ?thesis
      using Suc.IH[of ?w m ?s] n(2) Suc.prems(2) unfolding upt by (simp split: sum.splits del: upt_Suc)
  qed
qed

lemma writer_steps_refine:
  "case stream_write s buf len of
     Inl e \<Rightarrow> writer_steps buf (7 * nat len + 3) (s, writer_start len) = Inl e
   | Inr (t, n) \<Rightarrow> \<exists>w. writer_steps buf (7 * nat len + 3) (s, writer_start len) = Inr (t, w)
       \<and> wr_at w = W_Returned \<and> int (wr_written w) = n"
proof (cases "len > 1024 - st_count s")
  case True
  let ?w = "\<lparr>wr_at = W_Test, wr_len = 1024 - st_count s, wr_written = 0, wr_reg = 0\<rparr>"
  have "writer_steps buf (7 * nat len + 3) (s, writer_start len) = writer_steps buf (7 * nat len + 1) (s, ?w)"
    using True by (simp add: eval_nat_numeral writer_step_def writer_start_def)
  moreover have "nat (1024 - st_count s) \<le> nat len" using True by (intro nat_mono) simp
  ultimately show ?thesis using True writer_loop[of ?w "nat (1024 - st_count s)" "7 * nat len + 1" buf s]
    by (auto simp: stream_write_def split: sum.splits)
next
  case False
  let ?w = "\<lparr>wr_at = W_Test, wr_len = len, wr_written = 0, wr_reg = 0\<rparr>"
  have "writer_steps buf (7 * nat len + 3) (s, writer_start len) = writer_steps buf (7 * nat len + 2) (s, ?w)"
    using False by (simp add: eval_nat_numeral writer_step_def writer_start_def)
  with False writer_loop[of ?w "nat len" "7 * nat len + 2" buf s] show ?thesis
    by (auto simp: stream_write_def split: sum.splits)
qed

section \<open>Lemmas: draining a stream that is only half updated\<close>

lemma read_loop_head:
  "stream_read_loop (s\<lparr>st_head := h\<rparr>) r k
    = (case stream_read_loop s r k of Inl e \<Rightarrow> Inl e | Inr (t, bs) \<Rightarrow> Inr (t\<lparr>st_head := h\<rparr>, bs))"
proof (induction k arbitrary: s r)
  case (Suc k)
  have swap: "s\<lparr>st_head := h, st_tail := x, st_count := y\<rparr> = (s\<lparr>st_tail := x, st_count := y\<rparr>)\<lparr>st_head := h\<rparr>" for x y
    by (cases s) simp
  show ?case
  proof (cases "0 < st_count s")
    case True
    show ?thesis
    proof (cases "arr_get (st_data s) r")
      case (Inr c)
      with True show ?thesis
        by (cases "c = LF"; cases "arr_get_int (st_data s) (st_tail s)")
          (auto simp: Suc.IH swap rbind_eq_Inr split: sum.splits simp del: arr_get_def)
    qed (use True in \<open>simp del: arr_get_def\<close>)
  qed simp
qed simp

lemma stream_read_readable:
  assumes "readable s"
  defines "m \<equiv> min 64 (min (nat (st_count s)) (lf_limit s))"
  shows "stream_read s 64 = Inr (stream_pop s m, take m (stream_contents s))"
proof -
  let ?s = "s\<lparr>st_head := (st_tail s + st_count s) mod 1024\<rparr>"
  have "stream_ok ?s" using assms(1) by (simp add: readable_def stream_ok_def)
  then have "stream_read ?s 64 = Inr (stream_pop ?s m, take m (stream_contents ?s))"
    using stream_read_ok(1)[where s = ?s and len = 64] by (simp add: m_def lf_limit_def)
  moreover have "stream_contents ?s = stream_contents s" by (simp add: stream_contents_def)
  moreover have "(stream_pop ?s m)\<lparr>st_head := st_head s\<rparr> = stream_pop s m" by (cases s) (simp add: stream_pop_def)
  moreover have "?s\<lparr>st_head := st_head s\<rparr> = s" by (cases s) simp
  ultimately show ?thesis using read_loop_head[where s = ?s and h = "st_head s" and r = 0 and k = 64] by (simp add: stream_read_def)
qed

lemma readable_pop: "readable s \<Longrightarrow> int m \<le> st_count s \<Longrightarrow> readable (stream_pop s m)"
  by (simp add: readable_def stream_pop_def)

lemma contents_pop:
  assumes "readable s" "int m \<le> st_count s"
  shows "stream_contents (stream_pop s m) = drop m (stream_contents s)"
proof -
  let ?s = "s\<lparr>st_head := (st_tail s + st_count s) mod 1024\<rparr>"
  have "stream_ok ?s" using assms(1) by (simp add: readable_def stream_ok_def)
  from stream_pop_ok(2)[OF this, of m] assms(2) show ?thesis by (simp add: stream_contents_def stream_pop_def)
qed

lemma sh_drain_readable:
  assumes "sh_term_ok sh" "idx < length (sh_streams sh)" "readable (sh_streams sh ! idx)" "st_data (sh_streams sh ! idx) ! 0 \<noteq> LF"
  shows "sh_drain idx sh = Inr ((sh_show sh (stream_contents (sh_streams sh ! idx)))
    \<lparr>sh_streams := (sh_streams sh)[idx := stream_pop (sh_streams sh ! idx) (nat (st_count (sh_streams sh ! idx)))]\<rparr>)"
  using assms
proof (induction "nat (st_count (sh_streams sh ! idx))" arbitrary: sh rule: less_induct)
  case less
  define s where "s = sh_streams sh ! idx"
  define n where "n = nat (st_count s)"
  define m where "m = min 64 (min n (lf_limit s))"
  have s: "readable s" "st_data s ! 0 \<noteq> LF" using less.prems by (simp_all add: s_def)
  have n: "st_count s = int n" using s(1) by (simp add: readable_def n_def)
  show ?case
  proof (cases "n = 0")
    case True
    then have "stream_contents s = []" by (simp add: n_def flip: length_0_conv)
    with True less.prems(2) show ?thesis using sh_drain_idle[of idx sh] n pop_none[OF s(1)] by (simp flip: s_def) (simp add: s_def)
  next
    case False
    have "length (st_data s) = 1024" using s(1) by (simp add: readable_def)
    have nm: "nat (int n - int k) = n - k" for k by linarith
    from \<open>length (st_data s) = 1024\<close> s(2) have "0 < lf_limit s" using at_lf_limit[of 0 s] by (cases "lf_limit s") auto
    with False have m: "0 < m" "m \<le> n" by (simp_all add: m_def)
    let ?t = "sh\<lparr>sh_streams := (sh_streams sh)[idx := stream_pop s m]\<rparr>"
    let ?cs = "stream_contents s"
    let ?u = "sh_show ?t (take m ?cs)"
    have rd: "stream_read s 64 = Inr (stream_pop s m, take m ?cs)"
      using stream_read_readable[OF s(1)] by (simp add: m_def n_def)
    have "length (take m ?cs) = m" using m(2) by (simp add: n_def)
    with m(1) have ne: "take m ?cs \<noteq> []" by (metis list.size(3) less_irrefl)
    have u: "sh_term_ok ?u" "sh_streams ?u ! idx = stream_pop s m" "idx < length (sh_streams ?u)"
      using less.prems(1,2) sh_show_term_ok[of ?t] by simp_all
    have "sh_drain idx sh = sh_drain idx ?u"
      using rd ne less.prems(1,2) render_list_ok[of ?t "take m ?cs"] by (subst sh_drain.simps) (simp add: Let_def flip: s_def)
    also have "\<dots> = Inr ((sh_show ?u (drop m ?cs))\<lparr>sh_streams := (sh_streams ?u)[idx := stream_pop (stream_pop s m) (n - m)]\<rparr>)"
      using nm less.hyps[OF _ u(1) u(3)] u(2) readable_pop[OF s(1), of m] contents_pop[OF s(1), of m] m s n
      by (simp add: n_def[symmetric] s_def[symmetric])
    also have "\<dots> = Inr ((sh_show sh ?cs)\<lparr>sh_streams := (sh_streams sh)[idx := stream_pop s n]\<rparr>)"
      using sh_show_append[of sh "take m ?cs" "drop m ?cs"] less.prems(1) m(2)
      by (simp add: stream_pop_pop sh_show_streams_update)
    finally show ?thesis by (simp add: s_def n_def)
  qed
qed

lemma sh_render_readable:
  assumes "sh_term_ok sh" "length (sh_streams sh) = 3" "st_count (sh_streams sh ! 2) = 0" "sh_streams sh ! 1 = v" "readable v"
    "st_count v = 0 \<or> st_data v ! 0 \<noteq> LF"
  shows "sh_render sh = Inr ((sh_show sh (stream_contents v))\<lparr>sh_streams := (sh_streams sh)[1 := stream_pop v (nat (st_count v))]\<rparr>)"
proof -
  let ?t = "(sh_show sh (stream_contents v))\<lparr>sh_streams := (sh_streams sh)[1 := stream_pop v (nat (st_count v))]\<rparr>"
  have "sh_drain 1 sh = Inr ?t"
  proof (cases "st_count v = 0")
    case True
    then have "stream_contents v = []" "stream_pop v 0 = v" using pop_none[OF assms(5)] by (simp_all flip: length_0_conv)
    with True assms(4) sh_drain_idle[of 1 sh] assms(2) show ?thesis by auto
  next
    case False
    with sh_drain_readable[of sh 1] assms show ?thesis by simp
  qed
  moreover have "sh_drain 2 (?t\<lparr>sh_color := 0x04\<rparr>) = Inr (?t\<lparr>sh_color := 0x04\<rparr>)"
    using sh_drain_idle[of 2 "?t\<lparr>sh_color := 0x04\<rparr>"] assms(2,3) by simp
  moreover have "?t\<lparr>sh_color := sh_color ?t\<rparr> = ?t" by (cases ?t) simp
  ultimately show ?thesis by (simp add: sh_render_def Let_def)
qed

text \<open>The handler: it shows what is in the output stream.\<close>

lemma key_interrupt_readable:
  assumes "sh_term_ok sh" "sh_color sh = 0x07" "length (sh_streams sh) = 3" "st_count (sh_streams sh ! 2) = 0"
    "stream_ok (sh_streams sh ! 0)" "st_count (sh_streams sh ! 0) < 1024" "sh_streams sh ! 1 = v" "readable v"
    "st_count v = 0 \<or> st_data v ! 0 \<noteq> LF"
  shows "key_interrupt key sh = Inr ((sh_show sh (stream_contents v))
    \<lparr>sh_streams := (sh_streams sh)[0 := pushed (sh_streams sh ! 0) key, 1 := stream_pop v (nat (st_count v))]\<rparr>)"
proof -
  let ?s = "sh_streams sh ! 0"
  have col: "sh\<lparr>sh_color := 0x07, sh_streams := x\<rparr> = sh\<lparr>sh_streams := x\<rparr>" for x using assms(2) by (cases sh) simp
  have w: "stream_write ?s (nth [key]) 1 = Inr (pushed ?s key, 1)"
    using stream_put_pushed[of ?s key] assms(6) stream_ok_head[OF assms(5)] stream_ok_length[OF assms(5)]
    by (simp add: stream_write_def)
  show ?thesis
    using w assms(3) sh_render_readable[of "sh\<lparr>sh_streams := (sh_streams sh)[0 := pushed ?s key]\<rparr>" v] assms
    by (simp add: key_interrupt_def sh_write_stream_def Let_def sh_show_streams_update col)
qed

section \<open>Lemmas: a write at each of its points\<close>

text \<open>A write along a family of streams, \<open>F i\<close> the one before byte \<open>i\<close>. Before the store to \<open>count\<close>, what is
  there does not matter any more.\<close>

definition writes :: "nat \<Rightarrow> (nat \<Rightarrow> stream) \<Rightarrow> stream \<times> writer \<Rightarrow> bool" where
  "writes n F = (\<lambda>(s, w). let i = wr_written w; G = F (Suc i) in wr_len w = int n \<and> (case wr_at w of
      W_Limit \<Rightarrow> i = 0 \<and> s = F 0
    | W_Set_Limit \<Rightarrow> False
    | W_Test \<Rightarrow> i \<le> n \<and> s = F i
    | W_Store_Byte \<Rightarrow> i < n \<and> s = F i
    | W_Load_Head \<Rightarrow> i < n \<and> s = (F i)\<lparr>st_data := st_data G\<rparr>
    | W_Store_Head \<Rightarrow> i < n \<and> s = (F i)\<lparr>st_data := st_data G\<rparr> \<and> wr_reg w = st_head G
    | W_Load_Count \<Rightarrow> i < n \<and> s = (F i)\<lparr>st_data := st_data G, st_head := st_head G\<rparr>
    | W_Store_Count \<Rightarrow> i < n \<and> (\<exists>v. s = (F i)\<lparr>st_data := st_data G, st_head := st_head G, st_count := v\<rparr>)
        \<and> wr_reg w = st_count G
    | W_Next \<Rightarrow> i < n \<and> s = G
    | W_Returned \<Rightarrow> i = n \<and> s = F n))"

definition family :: "nat \<Rightarrow> (nat \<Rightarrow> char) \<Rightarrow> (nat \<Rightarrow> stream) \<Rightarrow> bool" where
  "family n buf F \<longleftrightarrow> (\<forall>i < n. F (Suc i) = pushed (F i) (buf i))
     \<and> (\<forall>i \<le> n. length (st_data (F i)) = 1024 \<and> 0 \<le> st_head (F i) \<and> st_head (F i) < 1024)
     \<and> int n + st_count (F 0) \<le> 1024"

definition writes_left :: "nat \<Rightarrow> writer \<Rightarrow> nat" where
  "writes_left n w = (let k = 7 * (n - wr_written w); l = 7 * (n - Suc (wr_written w)) in case wr_at w of
      W_Limit \<Rightarrow> k + 2 | W_Set_Limit \<Rightarrow> 0 | W_Test \<Rightarrow> k + 1 | W_Store_Byte \<Rightarrow> l + 7 | W_Load_Head \<Rightarrow> l + 6
    | W_Store_Head \<Rightarrow> l + 5 | W_Load_Count \<Rightarrow> l + 4 | W_Store_Count \<Rightarrow> l + 3 | W_Next \<Rightarrow> l + 2 | W_Returned \<Rightarrow> 0)"

lemma writer_step_writes:
  assumes "family n buf F" "writes n F (s, w)"
  shows "\<exists>s' w'. writer_step buf (s, w) = Inr (s', w') \<and> writes n F (s', w')
    \<and> (wr_at w \<noteq> W_Returned \<longrightarrow> writes_left n w' < writes_left n w)"
proof -
  let ?i = "wr_written w"
  have G: "F (Suc ?i) = pushed (F ?i) (buf ?i)" "length (st_data (F ?i)) = 1024" "0 \<le> st_head (F ?i)" "nat (st_head (F ?i)) < 1024"
    if "?i < n" using assms(1) that by (simp_all add: family_def nat_less_iff)
  show ?thesis
  proof (cases "wr_at w")
    case W_Limit
    with assms show ?thesis by (auto simp: writer_step_def writes_def writes_left_def family_def)
  next
    case W_Store_Byte
    with assms(2) G show ?thesis
      by (simp add: writer_step_def writes_def writes_left_def arr_set_int_def pushed_def Let_def)
  next
    case W_Load_Count
    with assms(2) G show ?thesis
      by (auto simp: writer_step_def writes_def writes_left_def Let_def intro!: exI[of _ "st_count (F ?i)"])
  next
    case W_Store_Count
    with assms(2) G show ?thesis
      by (auto simp: writer_step_def writes_def writes_left_def Let_def pushed_def)
  next
    case W_Load_Head
    with assms(2) G show ?thesis by (simp add: writer_step_def writes_def writes_left_def Let_def pushed_def)
  qed (use assms(2) in \<open>auto simp: writer_step_def writes_def writes_left_def Let_def\<close>)
qed

interpretation writing: advancing "writer_step buf" "\<lambda>x. family n buf F \<and> writes n F x"
    "\<lambda>(s, w). wr_at w = W_Returned" "\<lambda>(s, w). writes_left n w" for buf n F
proof unfold_locales
  fix x :: "stream \<times> writer"
  assume "family n buf F \<and> writes n F x" "\<not> (case x of (s, w) \<Rightarrow> wr_at w = W_Returned)"
  then show "\<exists>y. writer_step buf x = Inr y \<and> (family n buf F \<and> writes n F y)
      \<and> (case y of (s, w) \<Rightarrow> writes_left n w) < (case x of (s, w) \<Rightarrow> writes_left n w)"
    using writer_step_writes[of n buf F "fst x" "snd x"] by (cases x) fastforce
qed (auto simp: writer_step_def)

lemma writer_steps_writes:
  assumes "family n buf F" "writes n F (s, w)"
  shows "\<exists>s' w'. writer_steps buf m (s, w) = Inr (s', w') \<and> writes n F (s', w')
    \<and> (writes_left n w \<le> m \<longrightarrow> wr_at w' = W_Returned)"
  using writing.runs[of n buf F "(s, w)" m] assms by (auto simp: writer_steps_def)

section \<open>Lemmas: a key during a write\<close>

text \<open>The family of a write of \<open>cs\<close>.\<close>

definition pushes :: "stream \<Rightarrow> char list \<Rightarrow> nat \<Rightarrow> stream" where
  "pushes s cs i = foldl pushed s (take i cs)"

lemma pushes_simps [simp]:
  "pushes s cs 0 = s" "i < length cs \<Longrightarrow> pushes s cs (Suc i) = pushed (pushes s cs i) (cs ! i)"
  by (simp_all add: pushes_def take_Suc_conv_app_nth)

lemma pushes_ok:
  assumes "stream_ok s" "fits s cs" "i \<le> length cs"
  shows "stream_ok (pushes s cs i) \<and> st_count (pushes s cs i) = int i \<and> stream_contents (pushes s cs i) = take i cs
    \<and> st_head (pushes s cs i) = (st_head s + int i) mod 1024
    \<and> (0 < i \<longrightarrow> st_data (pushes s cs i) ! 0 \<noteq> LF)"
  using assms(3)
proof (induction i)
  case 0
  have "stream_contents s = []" using assms(2) by (simp add: fits_def flip: length_0_conv)
  with assms stream_ok_head[OF assms(1)] show ?case by (simp add: fits_def)
next
  case (Suc i)
  let ?p = "pushes s cs i"
  have IH: "stream_ok ?p" "st_count ?p = int i" "stream_contents ?p = take i cs" "st_head ?p = (st_head s + int i) mod 1024"
    "0 < i \<longrightarrow> st_data ?p ! 0 \<noteq> LF" using Suc by simp_all
  have h: "0 \<le> st_head s" "nat (st_head s) + length cs \<le> 1024" using stream_ok_head[OF assms(1)] assms(2) by (simp_all add: fits_def)
  have lt: "st_count ?p < 1024" using IH(2) Suc.prems h by simp
  have "(st_head s + int i) mod 1024 = st_head s + int i" using h Suc.prems by (intro mod_pos_pos_trivial) linarith+
  then have hd: "nat (st_head ?p) = nat (st_head s) + i" using IH(4) h(1) by simp
  have "st_data (pushed ?p (cs ! i)) ! 0 \<noteq> LF"
  proof (cases "i = 0")
    case True
    have "hd cs = cs ! 0" using Suc.prems by (cases cs) simp_all
    with True hd assms(2) stream_ok_length[OF IH(1)] h Suc.prems show ?thesis
      by (auto simp: pushed_def fits_def nth_list_update split: if_splits)
  next
    case False
    with hd IH(5) show ?thesis by (simp add: pushed_def)
  qed
  moreover have "st_head (pushed ?p c) = (st_head s + int (Suc i)) mod 1024" for c
    using IH(4) by (simp add: pushed_def mod_simps ac_simps)
  ultimately show ?case
    using Suc.prems pushed_ok[OF IH(1) lt] IH(2,3) by (simp add: take_Suc_conv_app_nth)
qed

lemma pushes_family:
  assumes "stream_ok s" "fits s cs"
  shows "family (length cs) (nth cs) (pushes s cs)"
proof -
  have "length (st_data (pushes s cs i)) = 1024 \<and> 0 \<le> st_head (pushes s cs i) \<and> st_head (pushes s cs i) < 1024"
    if "i \<le> length cs" for i
    using pushes_ok[OF assms that] stream_ok_length stream_ok_head by blast
  moreover have "length cs \<le> 1024" "st_count s = 0" using assms(2) by (simp_all add: fits_def)
  ultimately show ?thesis by (simp add: family_def)
qed

text \<open>The handler moves the family on: it takes out what is in the stream. Between the load and the store of
  \<open>count\<close>, the store will put the characters back.\<close>

definition moved :: "nat \<Rightarrow> bool \<Rightarrow> (nat \<Rightarrow> stream) \<Rightarrow> nat \<Rightarrow> stream" where
  "moved c b F i = (if b then (stream_pop (F i) c)\<lparr>st_count := st_count (F i)\<rparr> else stream_pop (F i) c)"

lemma moved_family: "family n buf F \<Longrightarrow> family n buf (moved c b F)"
  by (auto simp: family_def moved_def stream_pop_def)

lemma moved_writes:
  assumes "writes n F (s, w)" "c \<le> n"
  shows "writes n (moved c (wr_at w = W_Store_Count) F) (stream_pop s c, w)"
proof -
  have [simp]: "stream_pop (t\<lparr>st_data := d\<rparr>) c = (stream_pop t c)\<lparr>st_data := d\<rparr>"
    "stream_pop (t\<lparr>st_head := h\<rparr>) c = (stream_pop t c)\<lparr>st_head := h\<rparr>"
    "st_data (stream_pop t c) = st_data t" "st_head (stream_pop t c) = st_head t" for t d h
    by (simp_all add: stream_pop_def)
  have put_back: "\<exists>u. stream_pop (t\<lparr>st_data := d, st_head := h, st_count := v\<rparr>) c
      = (stream_pop t c)\<lparr>st_data := d, st_head := h, st_count := u\<rparr>" for t d h v
    by (rule exI[of _ "v - int c"]) (simp add: stream_pop_def)
  show ?thesis
    using assms(1) by (cases "wr_at w") (auto simp: writes_def moved_def Let_def put_back)
qed

lemma writer_steps_register:
  assumes "writer_steps buf n (s, w) = Inr (s', w')" "wr_at w = W_Store_Count \<longrightarrow> wr_reg w = st_count s + 1"
  shows "wr_at w' = W_Store_Count \<longrightarrow> wr_reg w' = st_count s' + 1"
proof -
  let ?P = "\<lambda>(s, w). wr_at w = W_Store_Count \<longrightarrow> wr_reg w = st_count s + 1"
  have "?P y" if "?P x" "writer_step buf x = Inr y" for x y
    using that by (cases "wr_at (snd x)") (auto simp: writer_step_def rbind_eq_Inr split: if_splits)
  from rsteps_keeps[of ?P, OF this assms(1)[unfolded writer_steps_def]] assms(2) show ?thesis by simp
qed

text \<open>What the handler finds.\<close>

lemma pushes_tail: "i \<le> length cs \<Longrightarrow> st_tail (pushes s cs i) = st_tail s"
  by (induction i) simp_all

lemma contents_cong:
  "st_data s = st_data t \<Longrightarrow> st_tail s = st_tail t \<Longrightarrow> st_count s = st_count t \<Longrightarrow> stream_contents s = stream_contents t"
  by (simp add: stream_contents_def)

lemma found_stream:
  assumes s: "stream_ok s" "fits s cs" and w: "writes (length cs) (pushes s cs) (v, w)"
    and reg: "wr_at w = W_Store_Count \<longrightarrow> wr_reg w = st_count v + 1"
  obtains c where "st_count v = int c" "c \<le> length cs" "stream_contents v = take c cs" "readable v"
    "c = 0 \<or> st_data v ! 0 \<noteq> LF" "wr_at w = W_Store_Count \<longrightarrow> c = wr_written w \<and> c < length cs"
proof -
  let ?F = "pushes s cs" and ?n = "length cs" and ?i = "wr_written w"
  have cnt: "st_count (?F k) = int k" if "k \<le> ?n" for k using pushes_ok[OF s that] by simp
  obtain c k where k: "st_data v = st_data (?F k)" "st_tail v = st_tail s" "st_count v = int c" "c \<le> k" "k \<le> ?n"
    "wr_at w = W_Store_Count \<longrightarrow> c = ?i \<and> c < ?n"
  proof (cases "wr_at w")
    case W_Limit
    with w cnt[of 0] pushes_tail[of 0 cs s] that[of 0 0] show ?thesis by (simp add: writes_def)
  next
    case W_Set_Limit
    with w show ?thesis by (simp add: writes_def Let_def)
  next
    case W_Returned
    with w cnt[of ?n] pushes_tail[of ?n cs s] that[of ?n ?n] show ?thesis by (simp add: writes_def Let_def)
  next
    case W_Next
    with w cnt[of "Suc ?i"] pushes_tail[of "Suc ?i" cs s] that[of "Suc ?i" "Suc ?i"] show ?thesis
      by (simp add: writes_def Let_def del: pushes_simps)
  next
    case W_Store_Count
    with w reg cnt[of "Suc ?i"] pushes_tail[of ?i cs s] that[of "Suc ?i" ?i] show ?thesis
      by (auto simp: writes_def Let_def simp del: pushes_simps)
  next
    case W_Test
    with w cnt[of ?i] pushes_tail[of ?i cs s] that[of ?i ?i] show ?thesis by (simp add: writes_def Let_def)
  next
    case W_Store_Byte
    with w cnt[of ?i] pushes_tail[of ?i cs s] that[of ?i ?i] show ?thesis by (simp add: writes_def Let_def)
  qed (use w cnt[of ?i] pushes_tail[of ?i cs s] that[of "Suc ?i" ?i] in \<open>simp_all add: writes_def Let_def del: pushes_simps\<close>)
  note F = pushes_ok[OF s k(5)]
  have "stream_contents v = stream_contents ((?F k)\<lparr>st_count := int c\<rparr>)"
    using k pushes_tail[OF k(5)] by (intro contents_cong) simp_all
  then have "stream_contents v = take c cs" using contents_shorter[of "int c" "?F k"] F k(4) by (simp add: min_absorb1)
  moreover have "readable v"
    using k F pushes_tail[OF k(5), of s] by (auto simp: readable_def stream_ok_def)
  moreover have "c = 0 \<or> st_data v ! 0 \<noteq> LF" using F k(1,4) by (cases "k = 0") auto
  ultimately show ?thesis using that[of c] k(3-6) by auto
qed

text \<open>What is left in the stream when the write is done: the rest, and what the store of a stale count
  uncovers behind it.\<close>

definition uncovered :: "stream \<Rightarrow> nat \<Rightarrow> char list" where
  "uncovered s c = map (\<lambda>i. st_data s ! nat ((st_head s + int i) mod 1024)) [0..<c]"

lemma contents_longer:
  assumes "stream_ok s"
  shows "stream_contents (s\<lparr>st_count := st_count s + int c\<rparr>) = stream_contents s @ uncovered s c"
proof -
  have s: "0 \<le> st_tail s" "0 \<le> st_count s" "st_head s = (st_tail s + st_count s) mod 1024" using assms by (simp_all add: stream_ok_def)
  have idx: "(nat (st_tail s) + (i + nat (st_count s))) mod 1024 = nat ((st_head s + int i) mod 1024)" for i
    using s by (simp add: nat_mod_distrib nat_add_distrib mod_simps ac_simps)
  have upt: "[0..<nat (st_count s + int c)] = [0..<nat (st_count s)] @ map (\<lambda>i. i + nat (st_count s)) [0..<c]"
    using s(2) upt_add_eq_append[of 0 "nat (st_count s)" c] by (simp add: nat_add_distrib map_add_upt add.commute)
  show ?thesis by (simp add: stream_contents_def uncovered_def upt idx comp_def)
qed

lemma left_in_stream:
  assumes s: "stream_ok s" "fits s cs" and c: "c \<le> length cs" "b \<longrightarrow> c < length cs"
  defines "G \<equiv> moved c b (pushes s cs) (length cs)" and "T \<equiv> pushes s cs (length cs)"
  shows "stream_contents G = drop c cs @ uncovered T (if b then c else 0)" "readable G" "cs = [] \<or> st_data G ! 0 \<noteq> LF"
    "st_count G = int (if b then length cs else length cs - c)" "st_data G = st_data T" "st_head G = st_head T"
proof -
  let ?n = "length cs"
  have T: "stream_ok T" "st_count T = int ?n" "stream_contents T = cs" "cs \<noteq> [] \<longrightarrow> st_data T ! 0 \<noteq> LF"
    using pushes_ok[OF s order_refl] by (simp_all add: T_def)
  have n: "?n \<le> 1024" using s(2) by (simp add: fits_def)
  have pop: "stream_ok (stream_pop T c)" "stream_contents (stream_pop T c) = drop c cs"
    using stream_pop_ok[OF T(1), of c] T(2,3) c(1) by simp_all
  have G: "G = (stream_pop T c)\<lparr>st_count := st_count (stream_pop T c) + int (if b then c else 0)\<rparr>"
    by (simp add: G_def moved_def T_def stream_pop_def)
  have "uncovered (stream_pop T c) k = uncovered T k" for k by (simp add: uncovered_def stream_pop_def)
  then show "stream_contents G = drop c cs @ uncovered T (if b then c else 0)"
    unfolding G contents_longer[OF pop(1)] pop(2) by simp
  show "readable G" using pop(1) T(2) n c by (auto simp: G readable_def stream_ok_def)
  show "st_count G = int (if b then length cs else length cs - c)" using T(2) c(1) by (simp add: G of_nat_diff)
  show "st_data G = st_data T" "st_head G = st_head T" "cs = [] \<or> st_data G ! 0 \<noteq> LF"
    using T(4) by (auto simp: G stream_pop_def)
qed

text \<open>The write as a whole.\<close>

lemma interrupted_write_result:
  assumes sh: "con_ok sh" "st_count (sh_streams sh ! 1) = 0" "st_count (sh_streams sh ! 0) < 1024"
    and fit: "fits (sh_streams sh ! 1) cs"
  obtains w c b G where "b \<longleftrightarrow> wr_at w = W_Store_Count" "c \<le> length cs" "b \<longrightarrow> c = wr_written w \<and> c < length cs"
    "G = moved c b (pushes (sh_streams sh ! 1) cs) (length cs)"
    "interrupted_write n key sh (nth cs) (int (length cs)) = Inr (w,
      showing sh key (cs @ uncovered (pushes (sh_streams sh ! 1) cs (length cs)) (if b then c else 0)) (stream_pop G (nat (st_count G))))"
proof -
  let ?s = "sh_streams sh ! 1" and ?in = "sh_streams sh ! 0" and ?n = "length cs" and ?c = "sh\<lparr>sh_color := 0x07\<rparr>"
  let ?F = "pushes ?s cs"
  have ok: "sh_term_ok ?c" "length (sh_streams sh) = 3" "st_count (sh_streams sh ! 2) = 0" "stream_ok ?s" "stream_ok ?in"
    using sh(1) by (simp_all add: con_ok_def sh_ok_iff)
  note fam = pushes_family[OF ok(4) fit]
  have "writes ?n ?F (?s, writer_start (int ?n))" by (simp add: writes_def writer_start_def)
  from writer_steps_writes[OF fam this, of n] obtain v w where
    v: "writer_steps (nth cs) n (?s, writer_start (int ?n)) = Inr (v, w)" "writes ?n ?F (v, w)" by blast
  have "wr_at w = W_Store_Count \<longrightarrow> wr_reg w = st_count v + 1"
    using writer_steps_register[OF v(1)] by (simp add: writer_start_def)
  then obtain c where c: "st_count v = int c" "c \<le> ?n" "stream_contents v = take c cs" "readable v"
    "c = 0 \<or> st_data v ! 0 \<noteq> LF" "wr_at w = W_Store_Count \<longrightarrow> c = wr_written w \<and> c < ?n"
    using found_stream[OF ok(4) fit v(2)] by metis
  let ?b = "wr_at w = W_Store_Count"
  define G where "G = moved c ?b ?F ?n"
  have "writes_left ?n w \<le> 7 * nat (int ?n) + 3"
    using v(2) by (cases "wr_at w") (auto simp: writes_left_def writes_def Let_def)
  with writer_steps_writes[OF moved_family[OF fam] moved_writes[OF v(2) c(2)], of "7 * nat (int ?n) + 3"]
  obtain w' where w': "writer_steps (nth cs) (7 * nat (int ?n) + 3) (stream_pop v c, w) = Inr (G, w')"
    by (fastforce simp: writes_def Let_def G_def)
  have "?b \<longrightarrow> c < ?n" using c(6) by blast
  note left = left_in_stream[OF ok(4) fit c(2) this, folded G_def]
  let ?T = "?F ?n" and ?k = "if ?b then c else 0"
  let ?i = "?c\<lparr>sh_streams := (sh_streams sh)[1 := v]\<rparr>"
  have key: "key_interrupt key ?i = Inr (showing sh key (take c cs) (stream_pop v c))"
    using key_interrupt_readable[of ?i v key] ok c(1,3-5) sh(3)
    by (simp add: showing_def sh_show_streams_update list_update_swap)
  let ?r = "showing sh key (take c cs) G"
  have r: "sh_term_ok ?r" "length (sh_streams ?r) = 3" "st_count (sh_streams ?r ! 2) = 0" "sh_streams ?r ! 1 = G"
    using ok(2,3) sh_show_term_ok[OF ok(1)] by (simp_all add: showing_def)
  have empty: "st_count G = 0 \<or> st_data G ! 0 \<noteq> LF" using left(3,4) c(2) by auto
  have "sh_show ?r (stream_contents G) = showing sh key (cs @ uncovered ?T ?k) G"
    using sh_show_append[OF ok(1), of "take c cs" "drop c cs @ uncovered ?T ?k"] left(1) c(6)
    by (simp add: showing_def sh_show_streams_update flip: append_assoc)
  then have ren: "sh_render ?r = Inr (showing sh key (cs @ uncovered ?T ?k) (stream_pop G (nat (st_count G))))"
    using sh_render_readable[OF r _ empty] left(2) c(6) by (simp add: showing_def)
  have "interrupted_write n key sh (nth cs) (int ?n) = Inr (w, showing sh key (cs @ uncovered ?T ?k) (stream_pop G (nat (st_count G))))"
    using v(1) key w' ren ok(2) by (simp add: interrupted_write_def on_stream_def showing_def)
  then show ?thesis by (rule that[OF refl c(2,6) G_def])
qed

text \<open>The write without an interrupt.\<close>

lemma write_whole:
  assumes "con_ok sh" "fits (sh_streams sh ! 1) cs"
  shows "sh_write_stream sh 1 (nth cs) (int (length cs)) = Inr ((sh_show (sh\<lparr>sh_color := 0x07\<rparr>) cs)
    \<lparr>sh_streams := (sh_streams sh)[1 := stream_pop (pushes (sh_streams sh ! 1) cs (length cs)) (length cs)]\<rparr>, int (length cs))"
proof -
  let ?s = "sh_streams sh ! 1" and ?n = "length cs"
  let ?T = "pushes ?s cs ?n"
  have ok: "sh_term_ok sh" "length (sh_streams sh) = 3" "st_count (sh_streams sh ! 2) = 0" "stream_ok ?s"
    using assms(1) by (simp_all add: con_ok_def sh_ok_iff)
  have T: "stream_ok ?T" "st_count ?T = int ?n" "stream_contents ?T = cs" "cs \<noteq> [] \<longrightarrow> st_data ?T ! 0 \<noteq> LF"
    using pushes_ok[OF ok(4) assms(2) order_refl] by simp_all
  have "\<exists>t. rfold (\<lambda>s i. stream_put s (cs ! i)) ?s [0..<?n] = Inr t \<and> t = pushes ?s cs ?n"
  proof (rule rfold_nat_induct)
    fix i t assume "i < ?n" "t = pushes ?s cs i"
    moreover from this have "stream_ok t" using pushes_ok[OF ok(4) assms(2), of i] by simp
    ultimately show "\<exists>u. stream_put t (cs ! i) = Inr u \<and> u = pushes ?s cs (Suc i)"
      using stream_put_pushed[of t "cs ! i"] stream_ok_head stream_ok_length by auto
  qed simp
  moreover have "st_count ?s = 0" "?n \<le> 1024" using assms(2) by (simp_all add: fits_def)
  ultimately have w: "stream_write ?s (nth cs) (int ?n) = Inr (?T, int ?n)" by (simp add: stream_write_def)
  have "st_count ?T = 0 \<or> st_data ?T ! 0 \<noteq> LF" using T(2,4) by auto
  then have "sh_render (sh\<lparr>sh_color := 0x07, sh_streams := (sh_streams sh)[1 := ?T]\<rparr>)
      = Inr ((sh_show (sh\<lparr>sh_color := 0x07\<rparr>) cs)\<lparr>sh_streams := (sh_streams sh)[1 := stream_pop ?T ?n]\<rparr>)"
    using sh_render_readable[of "sh\<lparr>sh_color := 0x07, sh_streams := (sh_streams sh)[1 := ?T]\<rparr>" ?T] ok stream_ok_readable[OF T(1)] T(2,3)
      sh_show_streams_update[where sh = "sh\<lparr>sh_color := 0x07\<rparr>" and cs = cs] by simp
  with w ok(2) show ?thesis by (simp add: sh_write_stream_def Let_def)
qed

section \<open>Properties\<close>

text \<open>C21: a key during a write to the standard output. The console is live, the input has room, the
  buffer fits into the ring behind its head, and the keyboard interrupt follows any step of \<open>stream_write\<close>.
  The key arrives. Unless the interrupt falls between the load and the store of \<open>s->count++\<close> of a byte other than the
  first, the screen shows the buffer, as without the interrupt. In that window the handler has already shown
  the bytes before, and the store counts them again: as many characters that an earlier lap left in the ring are shown behind
  the buffer, and no shell is well-formed with the output stream that is left.\<close>

theorem key_during_write:
  assumes "con_ok sh" "st_count (sh_streams sh ! STREAM_STDOUT) = 0" "st_count (sh_streams sh ! STREAM_STDIN) < 1024"
    "fits (sh_streams sh ! STREAM_STDOUT) cs"
  shows "\<exists>w t. interrupted_write n key sh (nth cs) (int (length cs)) = Inr (w, t)
    \<and> stream_contents (sh_streams t ! STREAM_STDIN) = stream_contents (sh_streams sh ! STREAM_STDIN) @ [key]
    \<and> (let again = if wr_at w = W_Store_Count then wr_written w else 0; out = sh_streams t ! STREAM_STDOUT;
           stale = map (\<lambda>i. st_data out ! nat ((st_head out + int i) mod 1024)) [0..<again] in
        sh_screen t = fold (term_char (unat (sh_width sh)) 0x07) (cs @ stale) (sh_screen sh)
        \<and> (if again = 0 then con_ok t \<and> con_of t = fold con_step cs (con_of sh) else \<not> sh_ok t))"
proof -
  let ?s = "sh_streams sh ! 1" and ?in = "sh_streams sh ! 0" and ?n = "length cs"
  let ?F = "pushes ?s cs" and ?T = "pushes ?s cs (length cs)"
  have ok: "sh_ok sh" "sh_term_ok sh" "length (sh_streams sh) = 3" "st_count (sh_streams sh ! 2) = 0" "stream_ok ?s" "stream_ok ?in"
    using assms(1) by (simp_all add: con_ok_def sh_ok_iff)
  obtain w c b G where w: "b \<longleftrightarrow> wr_at w = W_Store_Count" "c \<le> ?n" "b \<longrightarrow> c = wr_written w \<and> c < ?n" "G = moved c b ?F ?n"
    "interrupted_write n key sh (nth cs) (int ?n) = Inr (w,
      showing sh key (cs @ uncovered ?T (if b then c else 0)) (stream_pop G (nat (st_count G))))"
    using interrupted_write_result[OF assms(1-4)] .
  define k where "k = (if b then c else 0)"
  let ?v = "stream_pop G (nat (st_count G))"
  let ?t = "showing sh key (cs @ uncovered ?T k) ?v"
  have run: "interrupted_write n key sh (nth cs) (int ?n) = Inr (w, ?t)" using w(5) by (simp add: k_def)
  have again: "(if wr_at w = W_Store_Count then wr_written w else 0) = k" using w(1,3) by (auto simp: k_def)
  have bc: "b \<longrightarrow> c < ?n" using w(3) by blast
  note left = left_in_stream[OF ok(5) assms(4) w(2) bc, folded w(4) k_def]
  have T: "stream_ok ?T" "st_count ?T = int ?n" "st_tail ?T = st_tail ?s" "st_head ?T = (st_head ?s + int ?n) mod 1024"
    using pushes_ok[OF ok(5) assms(4) order_refl] pushes_tail[of ?n cs ?s] by simp_all
  have strs: "sh_streams ?t ! 0 = pushed ?in key" "sh_streams ?t ! 1 = ?v" "sh_streams ?t ! 2 = sh_streams sh ! 2"
    using ok(3) by (simp_all add: showing_def)
  have key: "stream_contents (sh_streams ?t ! 0) = stream_contents ?in @ [key]" "stream_ok (pushed ?in key)"
    unfolding strs using pushed_ok[OF ok(6) assms(3), of key] by simp_all
  have vd: "st_data ?v = st_data ?T" "st_head ?v = st_head ?T" "st_count ?v = 0"
    using left(4-6) by (simp_all add: stream_pop_def)
  have stale: "map (\<lambda>i. st_data (sh_streams ?t ! 1) ! nat ((st_head (sh_streams ?t ! 1) + int i) mod 1024)) [0..<k] = uncovered ?T k"
    unfolding strs(2) vd(1,2) by (simp add: uncovered_def)
  have "sh_term_ok (sh\<lparr>sh_color := 0x07\<rparr>)" using ok(2) by simp
  from sh_show_screen[OF this, of "cs @ uncovered ?T k"]
  have screen: "sh_screen ?t = fold (term_char (unat (sh_width sh)) 0x07) (cs @ uncovered ?T k) (sh_screen sh)"
    by (simp add: showing_def sh_screen_def)
  have harm: "if k = 0 then con_ok ?t \<and> con_of ?t = fold con_step cs (con_of sh) else \<not> sh_ok ?t"
  proof (cases "k = 0")
    case True
    have v: "?v = stream_pop ?T ?n"
    proof (cases b)
      case b: True
      with True have "G = ?T" using stream_pop_0[OF T(1)] by (simp add: w(4) moved_def k_def)
      then show ?thesis using T(2) by simp
    next
      case False
      have "nat (int ?n - int c) = ?n - c" by linarith
      with False T(2) w(2) show ?thesis by (simp add: w(4) moved_def stream_pop_pop)
    qed
    let ?p = "(sh_show (sh\<lparr>sh_color := 0x07\<rparr>) cs)\<lparr>sh_streams := (sh_streams sh)[1 := stream_pop ?T ?n]\<rparr>"
    have "con_ok ?p" "con_of ?p = fold con_step cs (con_of sh)"
      using write_stdout[OF assms(1,4)] write_whole[OF assms(1,4)] by auto
    moreover have "?t = ?p\<lparr>sh_streams := (sh_streams ?p)[0 := pushed ?in key]\<rparr>"
      using True v by (simp add: showing_def uncovered_def list_update_swap)
    ultimately show ?thesis using True con_ok_stdin[OF _ key(2), of ?p] con_of_stdin[of ?p] by metis
  next
    case False
    then have c: "0 < c" "c < 1024" "k = c" b using w(3) assms(4) by (auto simp: k_def fits_def split: if_splits)
    have "st_tail ?v = (st_head ?s + int c + int ?n) mod 1024"
      using T(2,3) c(4) left(4) ok(5) assms(2) by (simp add: w(4) moved_def stream_pop_def stream_ok_def mod_simps)
    moreover have "(st_head ?s + int ?n) mod 1024 \<noteq> (st_head ?s + int c + int ?n) mod 1024"
      using c(1,2) by (auto simp: mod_eq_dvd_iff dest: zdvd_imp_le)
    ultimately have "\<not> stream_ok ?v" using vd T(4) by (simp add: stream_ok_def)
    with False strs(2) sh_ok_stream[of ?t 1] show ?thesis by auto
  qed
  show ?thesis
    using run again key(1) stale screen harm by (intro exI[of _ w] exI[of _ ?t]) (simp add: Let_def)
qed

text \<open>The first two characters on a new console, with the key within \<open>count++\<close> of the second.\<close>

lemma second_char_window:
  assumes "st_count s = 0" "st_head s = 0" "length (st_data s) = 1024"
  shows "\<exists>t. writer_steps (nth ''ab'') 13 (s, writer_start 2)
    = Inr (t, \<lparr>wr_at = W_Store_Count, wr_len = 2, wr_written = 1, wr_reg = 2\<rparr>)"
  using assms by (simp add: eval_nat_numeral writer_step_def writer_start_def arr_set_int_def)

theorem key_during_write_witness:
  "\<exists>sh w t x. con_ok sh \<and> interrupted_write 13 CHR ''k'' sh (nth ''ab'') 2 = Inr (w, t) \<and> wr_at w = W_Store_Count
    \<and> sh_screen t = fold (term_char 80 0x07) [CHR ''a'', CHR ''b'', x] (sh_screen sh) \<and> \<not> sh_ok t"
proof -
  from sh_init_ok[of 80 2000 "blank_cells 2000" sh_raw] obtain sh where
    sh: "con_ok sh" "con_of sh = (80, (blank_cells 2000, 0), Live 0)" "stream_contents (sh_streams sh ! 0) = []"
    by (auto simp: sh_raw_def blank_cells_def)
  have "nat (st_count (sh_streams sh ! 0)) = 0" using sh(3) length_contents[of "sh_streams sh ! 0"] by simp
  then have c: "st_count (sh_streams sh ! 1) = 0" "st_count (sh_streams sh ! 0) < 1024" "unat (sh_width sh) = 80"
    using sh(2) by (simp_all add: con_of_def Let_def split: if_splits)
  have ok: "stream_ok (sh_streams sh ! 1)" "length (sh_streams sh) = 3" using sh(1) by (simp_all add: con_ok_def sh_ok_iff)
  then have h: "st_head (sh_streams sh ! 1) = 0" "length (st_data (sh_streams sh ! 1)) = 1024"
    using sh(2) c(1) stream_ok_head[OF ok(1)] by (simp_all add: con_of_def stream_ok_def)
  then have "fits (sh_streams sh ! 1) ''ab''" using c(1) by (simp add: fits_def)
  from key_during_write[OF sh(1) c(1,2) this, of 13 "CHR ''k''"] obtain w t where
    wt: "interrupted_write 13 CHR ''k'' sh (nth ''ab'') (int (length ''ab'')) = Inr (w, t)"
    and after: "let again = if wr_at w = W_Store_Count then wr_written w else 0; out = sh_streams t ! STREAM_STDOUT;
           stale = map (\<lambda>i. st_data out ! nat ((st_head out + int i) mod 1024)) [0..<again] in
        sh_screen t = fold (term_char (unat (sh_width sh)) 0x07) (''ab'' @ stale) (sh_screen sh)
        \<and> (if again = 0 then con_ok t \<and> con_of t = fold con_step ''ab'' (con_of sh) else \<not> sh_ok t)"
    by blast
  obtain v where "writer_steps (nth ''ab'') 13 (sh_streams sh ! 1, writer_start 2)
      = Inr (v, \<lparr>wr_at = W_Store_Count, wr_len = 2, wr_written = 1, wr_reg = 2\<rparr>)"
    using second_char_window[OF c(1) h] by blast
  then have w: "w = \<lparr>wr_at = W_Store_Count, wr_len = 2, wr_written = 1, wr_reg = 2\<rparr>"
    using wt ok(2) by (auto simp: interrupted_write_def on_stream_def rbind_eq_Inr)
  with after c(3) have "\<not> sh_ok t" "\<exists>x. sh_screen t = fold (term_char 80 0x07) [CHR ''a'', CHR ''b'', x] (sh_screen sh)"
    by (auto simp: Let_def)
  moreover have "interrupted_write 13 CHR ''k'' sh (nth ''ab'') 2 = Inr (w, t)" "wr_at w = W_Store_Count" using wt w by simp_all
  ultimately show ?thesis using sh(1) by blast
qed

end
