(* ===== verification/Virtual.thy ===== *)
theory Virtual
  imports Memory
begin

text \<open>
  The virtual address allocator (source/system/memory/virtual.c): only its initialisation is
  compiled, the rest of the file is commented out, and nothing calls it.
\<close>

abbreviation (input) VMM_TOTAL_SECTORS :: nat where "VMM_TOTAL_SECTORS \<equiv> 65536"
abbreviation (input) VMM_SECTOR_SIZE :: u32 where "VMM_SECTOR_SIZE \<equiv> 8192"

record vmm =
  mem_virt_map :: "u8 list"
  mem_virt_start :: u32
  mem_virt_sectors :: u32

definition mem_virt_init :: "u32 \<Rightarrow> u32 \<Rightarrow> vmm \<Rightarrow> vmm res" where
  "mem_virt_init virt_start virt_size v =
     (let v = v\<lparr>mem_virt_start := virt_start, mem_virt_sectors := virt_size div VMM_SECTOR_SIZE\<rparr> in
      rbind (rfold (\<lambda>mp i. arr_set mp i 0xFF) (mem_virt_map v) [0..<VMM_TOTAL_SECTORS div 8])
        (\<lambda>mp. Inr (v\<lparr>mem_virt_map := mp\<rparr>)))"

lemma mem_virt_init_all_free:
  assumes "length (mem_virt_map v) = VMM_TOTAL_SECTORS div 8"
  shows "mem_virt_init start sz v = Inr \<lparr>mem_virt_map = replicate 8192 0xFF, mem_virt_start = start,
    mem_virt_sectors = sz div 8192\<rparr>"
  using assms by (cases v) (simp add: mem_virt_init_def rfold_fill)

end
