(* ===== verification/Spec2Isabelle.thy ===== *)
theory Spec2Isabelle
  imports Input_Live Interference_Write Virtual
begin

text \<open>
  DRUPE: a small 32-bit x86 kernel, modelled and verified.

  The program. A Multiboot2 loader enters \<open>kernel_entry\<close> (source/kernel.c) in ring 0 with paging off.
  The kernel sets up a text console, the descriptor tables and the interrupt controllers, asks the boot
  information for the size of memory, initialises the physical allocator, mounts an ext2 image that is
  linked into the kernel, creates one process, loads \<open>example.bin\<close> from the root directory to
  0x400000 and drops to ring 3. From there on the kernel runs only in handlers: system calls through
  vector 0x80, the timer and the keyboard, and exceptions. An exit of the program ends in an idle loop,
  an exception other than the breakpoint in a halt.

  Theories, bottom up, with the sources under src/source they model.

  Prelude: machine words (\<open>u8\<close>, \<open>u16\<close>, \<open>u32\<close>, \<open>u64\<close>), the faults a C statement can run into as the
  datatype \<open>fault\<close>, results \<open>fault + 'a\<close> with \<open>rbind\<close>, counted loops \<open>rfold\<close>, bounds-checked arrays,
  and word arithmetic.

  Memory: the flat address space as a function from 32-bit addresses to bytes, little-endian loads, and
  the copy and fill loops \<open>kpmemcpy\<close> and \<open>kpmemset\<close> of ext2.c.

  Physical: system/memory/physical.c. A bitmap of 65536 sectors (record \<open>pmm\<close>); the abstract state is
  the set of free sector numbers \<open>pmm_free\<close>. Allocation takes the least free sector, or the least free
  run; the locale \<open>frame_source\<close> states what a client may rely on and is interpreted on both of the
  code's allocation functions. Virtual: the compiled part of system/memory/virtual.c.

  Stream_Buffer and Shell: system/shell. A stream is a ring of 1024 bytes (record \<open>stream\<close>), abstractly
  the list of the bytes in it (locale \<open>byte_queue\<close> and its interpretation). The console (record \<open>shell\<close>)
  prints every character through its output stream; the specification is a terminal with one step per
  character, \<open>con_step\<close>, and the text a format denotes, \<open>fmt_text\<close>. The locales \<open>char_sink\<close> and
  \<open>viewed_sink\<close> give string output from character output; they are interpreted on \<open>sh_putc\<close> for the shell's
  well-formedness, for what the console shows and, in Kernel_State, for the standard input and the error
  stream that printing leaves alone. Bulk_Output: the same for whole buffers, as \<open>sys_write\<close> prints them.

  Multiboot: boot/multiboot.c. Gdt: boot/gdt and arch/x86/gdt_load.asm. Idt: boot/idt, with the TSS;
  privilege levels are the type \<open>ring\<close>, a linear order.
  Ext2: system/filesystem/ext2, the whole read-only driver. Processes: system/usermode/processes.c.

  Kernel_State: the state that the parts share (record \<open>kernel\<close>) and printing through
  \<open>g_kernel_shell\<close>. Syscalls and Interrupts: system/interrupts, the handlers on the interrupt frame, and
  the interrupt controllers as a replay of the trace of port accesses. Rootdir: the lookup of kernel.c.
  Usermode: system/usermode/usermode.c. Boot: \<open>kernel_entry\<close>, composed of \<open>boot_console\<close>, \<open>boot_gdt\<close>,
  \<open>boot_idt\<close>, \<open>boot_memory\<close> and \<open>boot_program\<close> in the order of the code.

  System: the running machine as a step relation over events (\<open>sys_step\<close>), its runs, and the invariant.
  Entry: arch/x86/idt_asm.asm as instruction lists on registers and stack, with what the CPU does when a
  gate is taken and at \<open>iret\<close>. Traps: the stubs implement the steps of System. Start: the Multiboot2 header
  and the start code, arch/x86/multiboot.asm. Program: the user program rootfs/example.asm as bytes, which
  the machine fetches, decodes and executes on the booted kernel.

  Boot_Irqs: \<open>kernel_entry\<close> and the functions it calls once more, with a schedule of timer and keyboard
  requests that are served after \<open>sti\<close> and after every statement behind it. Interference and
  Interference_Write: \<open>stream_read\<close> and \<open>stream_write\<close> taken apart into their memory accesses (small-step
  functions on the datatypes \<open>point\<close> and \<open>write_point\<close>), with the keyboard handler between any two of them. Such step functions
  are run by theory Small_Steps, whose locale \<open>advancing\<close> (an invariant and a measure) is interpreted on both.

  Terminal: what the screen shows of any output, as an abstract terminal with a step per written buffer, and
  what each event of System prints on it.

  Machine: all of it put together. The CPU runs any user program, or idles, or has halted (\<open>cpu\<close>); an
  \<open>action\<close> is what the program computes, a system call, a request or an exception, and every entry into the
  kernel goes through the gates, stubs and stack of Entry. The relation \<open>represents\<close> ties a state of the machine to
  one of System, and \<open>lockstep\<close>, interpreted once with the input and once with the screen, gives runs from steps.
  Power_On: \<open>start_irqs\<close>, the start code with the interrupted boot, and what holds of every run from there.
  Input_Live: how much each read of the program returns, from everything typed since power on.
\<close>

text \<open>
  What is shown. The whole system: from the boot loader's jump on, through a boot with interrupts and any run of any
  user program in its area, the machine never gets stuck, halts only on an exception, keeps its
  tables, allocator, processes, file system and memory but for its stack, delivers what is typed in order, and shows
  exactly what was printed; it implements the step relation of System in lockstep (Power_On). The layers below: whatever the platform
  contributes, a boot that reaches user mode leaves a kernel whose handlers never fault, and whose tables,
  allocator, processes, file system and memory no run changes (theory System); interrupts during boot change
  nothing but the input, and what is typed, during boot or later, reaches user reads in order, nothing invented
  or duplicated (Boot_Irqs); at the level of registers, interrupts are transparent and system calls return with
  only \<open>eax\<close> changed (Traps); a platform with a mountable image boots into the program with its bytes in
  place and exactly the expected text on the console (Boot); the example program then runs to its exit under
  any interrupts and leaves the expected screen (Program); the boot loader accepts the image and its
  registers arrive as the arguments of \<open>kernel_entry\<close> (Start).

  The parts: the allocator refines sets of sectors; streams refine queues; printing refines the terminal
  and \<open>sh_printf\<close> prints exactly the text its arguments denote; the boot information parser inverts an
  encoding of tag lists; the descriptor tables install flat ring 0 and ring 3 segments, and only the system
  call gate is open to user code; reading a file gives exactly its bytes, reading a directory calls back
  once per entry in order, mounting copies the group descriptors; the checksum of the GDT detects every
  change of one byte; the comparison of names is the lexicographic order.

  What the code does beyond its intention is stated as theorems too: a newline in slot 0 of a stream
  blocks that stream's output for good, the standard output while errors still show (Terminal); every read is cut at the length of the first line of the session, so that Enter as the first key
  leaves the keyboard dead (Input_Live); a zero size that the walk reaches makes the boot information parser loop; a large machine makes the run
  allocator read past its bitmap; a corrupt superblock faults or hangs, and a mount accepts
  block size exponents for which the block size wraps to 0, so that the first directory read divides by zero; the TSS opens I/O ports; the
  stack of a process lies below the sector allocated for it; a key that arrives while a character is being
  rendered garbles the console, one that arrives within \<open>s->count--\<close> of a system call's read is hidden
  until the next, and one within \<open>s->count++\<close> of a write makes stale characters appear (Interference,
  Interference_Write).

  Faults and loops. Every array access, division and shift that C leaves undefined is checked and is an
  error value. The functions of the code have no fuel. Loops over a counter are recursions over the list of its
  values. Loops whose end the data decides (\<open>mmap_loop\<close>, \<open>tag_loop\<close>, \<open>kpmalloc_loop\<close>,
  \<open>dir_block_loop\<close>) are partial functions with \<open>None\<close> for a run that does not return, which callers
  report as the fault \<open>Hang\<close>; that they return is proved where it is true (a directory walk
  returns for every block size that does not wrap to 0), and that they do not where it is not. The drain loop of the console ends by the count of the
  stream. The small-step reader and writer of Interference and Interference_Write
  are run for a number of steps: eight for a byte and eight more, and seven for a byte and three more, which
  \<open>reader_steps_refine\<close> and \<open>writer_steps_refine\<close> show to be enough. Sector counters are naturals: the numbers stay below 2^19.

  Bounds. Addresses and sizes are 32-bit words and wrap. A user buffer must start in the range that the
  system calls accept, 0x400000 to 0x900000, and a read stores at most 1024 bytes, so no read reaches
  0x900400. A trap uses at most 84 bytes of the ring 0 stack before the handler's own variables, and one in the
  idle loop starts 8 bytes lower, so Power_On sets 92 bytes apart; that stack has to lie below the user area
  there, as it does for file systems of up to 98304 block groups. What a read returns is known exactly as long as at
  most 1024 characters have been offered, the size of the ring: behind that old slots are written again.

  Parameters, with what is assumed of them as named hypotheses: the record \<open>platform\<close> (memory at entry,
  the addresses the linker gives to tables, stubs and stacks, the registers at entry, what \<open>inb\<close> answers,
  what the CPU does to the accessed bit of a loaded descriptor), collected in \<open>platform_ok\<close>; the disk image
  as bytes of memory (\<open>mountable\<close>, \<open>root_holds\<close>, \<open>loadable\<close>); what a compiled handler leaves in the
  registers it need not save. Each property with hypotheses is applied to a concrete machine.

  Modelling choices. The text buffer, the kernel's own C structs and the byte memory are kept apart;
  a pointer to a struct that the code always passes the same way is the struct. The user program is any
  sequence of system calls, exceptions, changes of its registers and stores to the user area; nothing in the
  hardware set-up keeps it from storing elsewhere, and a program that does is outside the model. In the step relation a handler runs as a
  whole; the gates make this true of all but system calls (\<open>only_calls_interruptible\<close>), and Interference and
  Interference_Write have interrupts inside what they do with streams: reading the input, writing a buffer to the
  output, rendering a character. The busy bit that \<open>ltr\<close> sets in the
  TSS descriptor and segment faults of the CPU are left out.

  Not modelled: the commented-out part of virtual.c, the handlers' local variables on the stack, and the
  build: linker script, Makefile, boot loader configuration. Of the instruction set, only what the stubs, the
  start code and the example program use is defined.
\<close>

end
